(* ===== verification/Lemma_Prelude.thy ===== *)
theory Lemma_Prelude
  imports Main "HOL-Library.Word" "HOL-Library.Finite_Map" "HOL-Library.Multiset"
begin

section \<open>Prelude: Rust integers, results, ordered maps\<close>

text \<open>
  The vocabulary every component of the development shares.

  \<^item> Machine integers are words at the width of the source (\<open>u64\<close>, \<open>u128\<close>, ...). A plain
    \<open>+\<close> or \<open>-\<close> of the source wraps, as in the release profile of the workspace (no
    \<open>overflow-checks\<close> in \<^verbatim>\<open>Cargo.toml\<close>); \<open>checked_*\<close> and \<open>saturating_*\<close> are defined here once for
    every width, each with its reading over \<open>unat\<close> in the collection \<open>rust_int\<close>.
  \<^item> \<open>Result<T, E>\<close> is \<open>'e + 'a\<close>; the \<open>?\<close> operator is \<open>rbind\<close>.
  \<^item> \<open>BTreeMap\<close> is a finite map (\<open>fmap\<close>) over a linear order, iterated by
    \<open>sorted_list_of_fmap\<close>; \<open>BTreeSet\<close> is a finite set (\<open>fset\<close>), iterated by
    \<open>sorted_list_of_fset\<close>. Both are finite by type and equal iff they have the same
    entries, which is what the two library types of the source promise.
  \<^item> The locale \<open>invariant_system\<close> carries an invariant from single steps to all
    reachable states.
\<close>

named_theorems rust_int
  \<open>the checked and saturating operations, read as natural numbers\<close>

named_theorems btree
  \<open>entries of ordered maps and sets, as lists in key order\<close>

type_synonym u8 = "8 word"
type_synonym u16 = "16 word"
type_synonym u32 = "32 word"
type_synonym u64 = "64 word"
type_synonym u128 = "128 word"
type_synonym bytes = "8 word list"

subsection \<open>Checked and saturating arithmetic\<close>

definition checked_add :: "'a::len word \<Rightarrow> 'a word \<Rightarrow> 'a word option" where
  "checked_add a b = (if unat a + unat b < 2 ^ LENGTH('a) then Some (a + b) else None)"

definition checked_sub :: "'a::len word \<Rightarrow> 'a word \<Rightarrow> 'a word option" where
  "checked_sub a b = (if b \<le> a then Some (a - b) else None)"

definition checked_mul :: "'a::len word \<Rightarrow> 'a word \<Rightarrow> 'a word option" where
  "checked_mul a b = (if unat a * unat b < 2 ^ LENGTH('a) then Some (a * b) else None)"

definition checked_div :: "'a::len word \<Rightarrow> 'a word \<Rightarrow> 'a word option" where
  "checked_div a b = (if b = 0 then None else Some (a div b))"

definition saturating_add :: "'a::len word \<Rightarrow> 'a word \<Rightarrow> 'a word" where
  "saturating_add a b = (if unat a + unat b < 2 ^ LENGTH('a) then a + b else - 1)"

definition saturating_sub :: "'a::len word \<Rightarrow> 'a word \<Rightarrow> 'a word" where
  "saturating_sub a b = (if b \<le> a then a - b else 0)"

definition saturating_mul :: "'a::len word \<Rightarrow> 'a word \<Rightarrow> 'a word" where
  "saturating_mul a b = (if unat a * unat b < 2 ^ LENGTH('a) then a * b else - 1)"

lemma unat_add_exact:
  fixes a b :: "'a::len word"
  assumes "unat a + unat b < 2 ^ LENGTH('a)"
  shows "unat (a + b) = unat a + unat b"
  using assms by (simp add: unat_word_ariths)

lemma unat_mult_exact:
  fixes a b :: "'a::len word"
  assumes "unat a * unat b < 2 ^ LENGTH('a)"
  shows "unat (a * b) = unat a * unat b"
  using assms by (simp add: unat_word_ariths)

lemma unat_sub_exact: "b \<le> a \<Longrightarrow> unat (a - b) = unat a - unat b"
  by (simp add: unat_sub)

lemma unat_lt_size: "unat (a :: 'a::len word) < 2 ^ LENGTH('a)"
  by (rule unsigned_less)

lemma unat_max_word: "unat (- 1 :: 'a::len word) = 2 ^ LENGTH('a) - 1"
  by (simp add: unsigned_minus_1_eq_mask mask_eq_exp_minus_1)

text \<open>
  Each checked operation succeeds exactly when its result is the exact natural number,
  and then returns it.
\<close>

lemma checked_add_Some [rust_int]:
  "checked_add a b = Some c \<longleftrightarrow> unat c = unat a + unat b"
proof
  assume "checked_add a b = Some c"
  then show "unat c = unat a + unat b"
    by (auto simp: checked_add_def unat_add_exact split: if_splits)
next
  assume eq: "unat c = unat a + unat b"
  then have lt: "unat a + unat b < 2 ^ LENGTH('a)"
    using unat_lt_size [of c] by simp
  then have "c = a + b"
    using eq unat_add_exact [OF lt] by (metis word_unat_eq_iff)
  with lt show "checked_add a b = Some c" by (simp add: checked_add_def)
qed

lemma checked_add_None [rust_int]:
  "checked_add (a :: 'a::len word) b = None \<longleftrightarrow> 2 ^ LENGTH('a) \<le> unat a + unat b"
  by (auto simp: checked_add_def)

lemma checked_sub_Some [rust_int]:
  "checked_sub a b = Some c \<longleftrightarrow> unat c + unat b = unat a"
proof
  assume "checked_sub a b = Some c"
  then show "unat c + unat b = unat a"
    by (auto simp: checked_sub_def unat_sub_exact word_le_nat_alt split: if_splits)
next
  assume eq: "unat c + unat b = unat a"
  then have le: "b \<le> a" by (simp add: word_le_nat_alt)
  then have "unat (a - b) = unat c"
    using eq by (simp add: unat_sub_exact)
  then have "a - b = c" by (simp add: word_unat_eq_iff)
  with le show "checked_sub a b = Some c" by (simp add: checked_sub_def)
qed

lemma checked_sub_None [rust_int]: "checked_sub a b = None \<longleftrightarrow> unat a < unat b"
  by (auto simp: checked_sub_def word_le_nat_alt)

lemma checked_mul_Some [rust_int]:
  "checked_mul a b = Some c \<longleftrightarrow> unat c = unat a * unat b"
proof
  assume "checked_mul a b = Some c"
  then show "unat c = unat a * unat b"
    by (auto simp: checked_mul_def unat_mult_exact split: if_splits)
next
  assume eq: "unat c = unat a * unat b"
  then have lt: "unat a * unat b < 2 ^ LENGTH('a)"
    using unat_lt_size [of c] by simp
  then have "c = a * b"
    using eq unat_mult_exact [OF lt] by (metis word_unat_eq_iff)
  with lt show "checked_mul a b = Some c" by (simp add: checked_mul_def)
qed

lemma checked_mul_None [rust_int]:
  "checked_mul (a :: 'a::len word) b = None \<longleftrightarrow> 2 ^ LENGTH('a) \<le> unat a * unat b"
  by (auto simp: checked_mul_def)

lemma checked_div_Some [rust_int]:
  "checked_div a b = Some c \<longleftrightarrow> b \<noteq> 0 \<and> unat c = unat a div unat b"
  by (auto simp: checked_div_def unat_div word_unat_eq_iff split: if_splits)

lemma checked_div_None [rust_int]: "checked_div a b = None \<longleftrightarrow> b = 0"
  by (auto simp: checked_div_def)

lemma unat_saturating_add [rust_int]:
  "unat (saturating_add (a :: 'a::len word) b) = min (unat a + unat b) (2 ^ LENGTH('a) - 1)"
  using unat_lt_size [of a] unat_lt_size [of b]
  by (auto simp: saturating_add_def unat_add_exact unat_max_word min_def)

lemma unat_saturating_sub [rust_int]:
  "unat (saturating_sub a b) = unat a - unat b"
  by (auto simp: saturating_sub_def unat_sub_exact word_le_nat_alt)

lemma unat_saturating_mul [rust_int]:
  "unat (saturating_mul (a :: 'a::len word) b) = min (unat a * unat b) (2 ^ LENGTH('a) - 1)"
proof (cases "unat a * unat b < 2 ^ LENGTH('a)")
  case True
  then have "unat a * unat b \<le> 2 ^ LENGTH('a) - 1" by linarith
  then show ?thesis using True by (simp add: saturating_mul_def unat_mult_exact)
next
  case False
  then have "2 ^ LENGTH('a) - 1 \<le> unat a * unat b" by linarith
  then show ?thesis using False by (simp add: saturating_mul_def unat_max_word min_absorb2)
qed

lemma unat_max [rust_int]: "unat (max a b) = max (unat a) (unat b)"
  by (auto simp: max_def word_le_nat_alt)

lemma unat_min [rust_int]: "unat (min a b) = min (unat a) (unat b)"
  by (auto simp: min_def word_le_nat_alt)

text \<open>
  The same operations over binary integers, for evaluation: the natural number \<open>2 ^ 128\<close> has
  no feasible unary form.
\<close>

lemma unat_sum_less_iff:
  "unat (a :: 'a::len word) + unat b < 2 ^ LENGTH('a) \<longleftrightarrow> uint a + uint b < 2 ^ LENGTH('a)"
proof -
  have "unat a + unat b < 2 ^ LENGTH('a) \<longleftrightarrow> int (unat a + unat b) < int (2 ^ LENGTH('a))"
    by (simp only: of_nat_less_iff)
  then show ?thesis by simp
qed

lemma unat_prod_less_iff:
  "unat (a :: 'a::len word) * unat b < 2 ^ LENGTH('a) \<longleftrightarrow> uint a * uint b < 2 ^ LENGTH('a)"
proof -
  have "unat a * unat b < 2 ^ LENGTH('a) \<longleftrightarrow> int (unat a * unat b) < int (2 ^ LENGTH('a))"
    by (simp only: of_nat_less_iff)
  then show ?thesis by simp
qed

lemmas checked_add_code [code] = checked_add_def [unfolded unat_sum_less_iff]
lemmas checked_mul_code [code] = checked_mul_def [unfolded unat_prod_less_iff]
lemmas saturating_add_code [code] = saturating_add_def [unfolded unat_sum_less_iff]
lemmas saturating_mul_code [code] = saturating_mul_def [unfolded unat_prod_less_iff]

lemma unat_ucast_widen [simp]:
  "unat (ucast (x :: u16) :: u128) = unat x"
  "unat (ucast (y :: u32) :: u128) = unat y"
  "unat (ucast (z :: u64) :: u128) = unat z"
  using unat_lt_size [of x] unat_lt_size [of y] unat_lt_size [of z]
  by (simp_all add: unsigned_ucast_eq take_bit_nat_eq_self)

subsection \<open>Results and the question-mark operator\<close>

definition rbind :: "'e + 'a \<Rightarrow> ('a \<Rightarrow> 'e + 'b) \<Rightarrow> 'e + 'b" where
  "rbind r f = (case r of Inl e \<Rightarrow> Inl e | Inr x \<Rightarrow> f x)"

definition ok_or :: "'a option \<Rightarrow> 'e \<Rightarrow> 'e + 'a" where
  "ok_or v e = (case v of None \<Rightarrow> Inl e | Some x \<Rightarrow> Inr x)"

definition map_err :: "('e \<Rightarrow> 'f) \<Rightarrow> 'e + 'a \<Rightarrow> 'f + 'a" where
  "map_err f r = (case r of Inl e \<Rightarrow> Inl (f e) | Inr x \<Rightarrow> Inr x)"

fun is_ok :: "'e + 'a \<Rightarrow> bool" where
  "is_ok (Inl e) = False"
| "is_ok (Inr x) = True"

lemma rbind_simps [simp]:
  "rbind (Inl e) f = Inl e"
  "rbind (Inr x) f = f x"
  by (simp_all add: rbind_def)

lemma rbind_cong [fundef_cong]:
  "r = r' \<Longrightarrow> (\<And>x. r' = Inr x \<Longrightarrow> f x = g x) \<Longrightarrow> rbind r f = rbind r' g"
  by (cases r') (auto simp: rbind_def)

lemma rbind_Inr [simp]: "rbind r f = Inr y \<longleftrightarrow> (\<exists>x. r = Inr x \<and> f x = Inr y)"
  by (cases r) auto

lemma rbind_Inl: "rbind r f = Inl e \<longleftrightarrow> r = Inl e \<or> (\<exists>x. r = Inr x \<and> f x = Inl e)"
  by (cases r) auto

lemma ok_or_simps [simp]:
  "ok_or None e = Inl e"
  "ok_or (Some x) e = Inr x"
  by (simp_all add: ok_or_def)

lemma ok_or_Inr [simp]: "ok_or v e = Inr x \<longleftrightarrow> v = Some x"
  by (cases v) auto

lemma ok_or_Inl [simp]: "ok_or v e = Inl e' \<longleftrightarrow> v = None \<and> e' = e"
  by (cases v) auto

lemma map_err_simps [simp]:
  "map_err f (Inl e) = Inl (f e)"
  "map_err f (Inr x) = Inr x"
  by (simp_all add: map_err_def)

lemma map_err_Inr [simp]: "map_err f r = Inr x \<longleftrightarrow> r = Inr x"
  by (cases r) auto

lemma map_err_Inl [simp]: "map_err f r = Inl e \<longleftrightarrow> (\<exists>e'. r = Inl e' \<and> e = f e')"
  by (cases r) auto

lemma is_ok_iff: "is_ok r \<longleftrightarrow> (\<exists>x. r = Inr x)"
  by (cases r) auto

text \<open>\<open>Iterator::try_fold\<close>: a left fold that stops at the first error.\<close>

fun try_fold :: "('b \<Rightarrow> 'a \<Rightarrow> 'e + 'b) \<Rightarrow> 'b \<Rightarrow> 'a list \<Rightarrow> 'e + 'b" where
  "try_fold f acc [] = Inr acc"
| "try_fold f acc (x # xs) = rbind (f acc x) (\<lambda>acc'. try_fold f acc' xs)"

subsection \<open>Ordered maps and sets as sorted lists\<close>

abbreviation btree_values :: "('k::linorder, 'v) fmap \<Rightarrow> 'v list" where
  "btree_values m \<equiv> map snd (sorted_list_of_fmap m)"

abbreviation btree_keys :: "('k::linorder, 'v) fmap \<Rightarrow> 'k list" where
  "btree_keys m \<equiv> sorted_list_of_fset (fmdom m)"

abbreviation btree_len :: "('k, 'v) fmap \<Rightarrow> nat" where
  "btree_len m \<equiv> fcard (fmdom m)"

lemma set_sorted_list_of_fset [btree, simp]: "set (sorted_list_of_fset A) = fset A"
  by simp

lemma distinct_sorted_list_of_fset [btree, simp]: "distinct (sorted_list_of_fset A)"
  by (simp add: sorted_list_of_fset.rep_eq)

lemma sorted_sorted_list_of_fset [btree, simp]: "sorted (sorted_list_of_fset A)"
  by (simp add: sorted_list_of_fset.rep_eq)

lemma length_sorted_list_of_fset [btree, simp]: "length (sorted_list_of_fset A) = fcard A"
  by (simp add: sorted_list_of_fset.rep_eq fcard.rep_eq)

lemma map_fst_sorted_list_of_fmap [btree, simp]:
  "map fst (sorted_list_of_fmap m) = btree_keys m"
  by (simp add: sorted_list_of_fmap_def comp_def)

lemma in_sorted_list_of_fmap [btree, simp]:
  "(k, v) \<in> set (sorted_list_of_fmap m) \<longleftrightarrow> fmlookup m k = Some v"
  by (auto simp: sorted_list_of_fmap_def fmlookup_dom_iff)

lemma distinct_sorted_list_of_fmap [btree, simp]: "distinct (sorted_list_of_fmap m)"
  using distinct_map [of fst "sorted_list_of_fmap m"] by simp

lemma length_sorted_list_of_fmap [btree, simp]: "length (sorted_list_of_fmap m) = btree_len m"
  by (simp add: sorted_list_of_fmap_def)

lemma fmdom_in_keys: "k |\<in>| fmdom m \<longleftrightarrow> fmlookup m k \<noteq> None"
  by (auto simp: fmlookup_dom_iff)

lemma sum_list_sorted_fset: "sum_list (map f (sorted_list_of_fset A)) = sum f (fset A)"
  by (simp add: sum_list_distinct_conv_sum_set)

subsection \<open>Sums over finite sets of weights\<close>

lemma sum_Un_Int_nat:
  fixes f :: "'a \<Rightarrow> nat"
  assumes "finite A" "finite B"
  shows "sum f A + sum f B = sum f (A \<union> B) + sum f (A \<inter> B)"
  using assms by (simp add: sum.union_inter)

subsection \<open>Lists\<close>

lemma sorted_sort_key_map: "sorted (map f (sort_key f xs))"
  by simp

lemma list_update_nth_eq: "i < length xs \<Longrightarrow> xs[i := v] ! i = v"
  by simp

subsection \<open>Invariants of reachable states\<close>

text \<open>
  A step relation and a property that every step keeps. The property then holds along
  every run that starts in a state where it holds.
\<close>

locale invariant_system =
  fixes step :: "'s \<Rightarrow> 's \<Rightarrow> bool"
    and inv :: "'s \<Rightarrow> bool"
  assumes step_inv: "inv s \<Longrightarrow> step s t \<Longrightarrow> inv t"
begin

lemma run_inv: "step\<^sup>*\<^sup>* s t \<Longrightarrow> inv s \<Longrightarrow> inv t"
  by (induction rule: rtranclp_induct) (auto intro: step_inv)

end

end
