(* ===== verification/Wire_Encoding.thy ===== *)
theory Wire_Encoding
  imports Lemma_Prelude
begin

section \<open>Canonical byte encodings\<close>

text \<open>
  The digests of the program (\<open>compute_digest\<close> of DAG blocks, \<open>Commit::digest\<close>,
  \<open>BlockHeader::digest\<close>, \<open>ValidatorSet::hash\<close>) feed a hasher with fields in big-endian
  order, variable-length fields behind a length prefix. This theory holds the encoders
  they share and the reason a digest binds its fields: an encoder that can be cut off the
  front of any byte string in one way only (locale \<open>prefix_code\<close>).
\<close>

definition to_be_bytes :: "'a::len word \<Rightarrow> bytes" where
  "to_be_bytes w = map (\<lambda>i. ucast (drop_bit (8 * i) w)) (rev [0..<LENGTH('a) div 8])"

definition length_prefix :: "'a list \<Rightarrow> bytes" where
  "length_prefix xs = to_be_bytes (of_nat (length xs) :: u64)"

definition encode_list :: "('a \<Rightarrow> bytes) \<Rightarrow> 'a list \<Rightarrow> bytes" where
  "encode_list enc xs = length_prefix xs @ concat (map enc xs)"

lemma length_to_be_bytes [simp]: "length (to_be_bytes (w :: 'a::len word)) = LENGTH('a) div 8"
  by (simp add: to_be_bytes_def)

lemma to_be_bytes_inj:
  fixes v w :: "'a::len word"
  assumes size: "8 dvd LENGTH('a)" and eq: "to_be_bytes v = to_be_bytes w"
  shows "v = w"
proof (rule bit_word_eqI)
  fix k assume k: "k < LENGTH('a)"
  define i where "i = k div 8"
  have i: "i < LENGTH('a) div 8"
    using k size by (auto simp: i_def elim!: dvdE)
  from eq have "rev (to_be_bytes v) ! i = rev (to_be_bytes w) ! i" by simp
  then have byte: "(ucast (drop_bit (8 * i) v) :: u8) = ucast (drop_bit (8 * i) w)"
    using i by (simp add: to_be_bytes_def rev_map [symmetric])
  have "bit (ucast (drop_bit (8 * i) v) :: u8) (k mod 8) = bit v k"
    "bit (ucast (drop_bit (8 * i) w) :: u8) (k mod 8) = bit w k"
    using k by (auto simp: bit_ucast_iff bit_drop_bit_eq i_def)
  with byte show "bit v k \<longleftrightarrow> bit w k" by simp
qed

lemma to_be_bytes_eq_iff [simp]:
  "8 dvd LENGTH('a) \<Longrightarrow> to_be_bytes (v :: 'a::len word) = to_be_bytes w \<longleftrightarrow> v = w"
  using to_be_bytes_inj by blast

subsection \<open>Encoders that can be cut off the front\<close>

locale prefix_code =
  fixes enc :: "'a \<Rightarrow> bytes"
    and valid :: "'a \<Rightarrow> bool"
  assumes cut: "valid x \<Longrightarrow> valid y \<Longrightarrow> enc x @ r = enc y @ s \<Longrightarrow> x = y \<and> r = s"
begin

lemma inj_enc: "valid x \<Longrightarrow> valid y \<Longrightarrow> enc x = enc y \<Longrightarrow> x = y"
  using cut [of x y "[]" "[]"] by simp

lemma cut_concat:
  assumes "length xs = length ys" "list_all valid xs" "list_all valid ys"
    and "concat (map enc xs) @ r = concat (map enc ys) @ s"
  shows "xs = ys \<and> r = s"
  using assms
proof (induction xs ys rule: list_induct2)
  case Nil
  then show ?case by simp
next
  case (Cons x xs y ys)
  then have "x = y \<and> concat (map enc xs) @ r = concat (map enc ys) @ s"
    using cut [of x y "concat (map enc xs) @ r" "concat (map enc ys) @ s"] by simp
  with Cons show ?case by simp
qed

end

lemma fixed_size_prefix_code:
  assumes "\<And>x. valid x \<Longrightarrow> length (enc x) = n"
    and "\<And>x y. valid x \<Longrightarrow> valid y \<Longrightarrow> enc x = enc y \<Longrightarrow> x = y"
  shows "prefix_code enc valid"
proof
  fix x y r s
  assume valid: "valid x" "valid y" and eq: "enc x @ r = enc y @ s"
  then have "length (enc x) = length (enc y)" using assms(1) by simp
  with eq have "enc x = enc y \<and> r = s" by simp
  with assms(2) valid show "x = y \<and> r = s" by blast
qed

lemma pair_prefix_code:
  assumes "prefix_code f valid1" and "prefix_code g valid2"
  shows "prefix_code (\<lambda>x. f (fst x) @ g (snd x)) (\<lambda>x. valid1 (fst x) \<and> valid2 (snd x))"
proof
  fix x y r s
  assume "valid1 (fst x) \<and> valid2 (snd x)" "valid1 (fst y) \<and> valid2 (snd y)"
    and "(f (fst x) @ g (snd x)) @ r = (f (fst y) @ g (snd y)) @ s"
  then show "x = y \<and> r = s"
    using prefix_code.cut [OF assms(1), of "fst x" "fst y" "g (snd x) @ r" "g (snd y) @ s"]
      prefix_code.cut [OF assms(2), of "snd x" "snd y" r s]
    by (simp add: prod_eq_iff)
qed

interpretation u64_code: prefix_code "to_be_bytes :: u64 \<Rightarrow> bytes" "\<lambda>_. True"
  by (rule fixed_size_prefix_code [where n = 8]) (auto intro: to_be_bytes_inj)

interpretation u32_code: prefix_code "to_be_bytes :: u32 \<Rightarrow> bytes" "\<lambda>_. True"
  by (rule fixed_size_prefix_code [where n = 4]) (auto intro: to_be_bytes_inj)

interpretation u128_code: prefix_code "to_be_bytes :: u128 \<Rightarrow> bytes" "\<lambda>_. True"
  by (rule fixed_size_prefix_code [where n = 16]) (auto intro: to_be_bytes_inj)

interpretation address_code: prefix_code "to_be_bytes :: 160 word \<Rightarrow> bytes" "\<lambda>_. True"
  by (rule fixed_size_prefix_code [where n = 20]) (auto intro: to_be_bytes_inj)

interpretation hash_code: prefix_code "to_be_bytes :: 256 word \<Rightarrow> bytes" "\<lambda>_. True"
  by (rule fixed_size_prefix_code [where n = 32]) (auto intro: to_be_bytes_inj)

text \<open>
  A length-prefixed list of prefix codes is a prefix code, as long as the length fits the
  64-bit prefix.
\<close>

definition short_list :: "('a \<Rightarrow> bool) \<Rightarrow> 'a list \<Rightarrow> bool" where
  "short_list valid xs \<longleftrightarrow> length xs < 2 ^ 64 \<and> list_all valid xs"

lemma length_prefix_inj:
  assumes "length xs < 2 ^ 64" "length ys < 2 ^ 64"
    and "length_prefix xs @ r = length_prefix ys @ s"
  shows "length xs = length ys \<and> r = s"
proof -
  have *: "(of_nat (length xs) :: u64) = of_nat (length ys) \<and> r = s"
    using assms(3) unfolding length_prefix_def by (rule u64_code.cut [OF TrueI TrueI])
  then have "unat (of_nat (length xs) :: u64) = unat (of_nat (length ys) :: u64)" by simp
  moreover have "unat (of_nat (length xs) :: u64) = length xs"
    "unat (of_nat (length ys) :: u64) = length ys"
    using assms(1,2) by (simp_all add: unat_of_nat)
  ultimately have "length xs = length ys" by metis
  with * show ?thesis by blast
qed

lemma list_prefix_code:
  assumes "prefix_code enc valid"
  shows "prefix_code (encode_list enc) (short_list valid)"
proof
  fix xs ys r s
  assume valid: "short_list valid xs" "short_list valid ys"
    and eq: "encode_list enc xs @ r = encode_list enc ys @ s"
  from eq have "length_prefix xs @ (concat (map enc xs) @ r)
      = length_prefix ys @ (concat (map enc ys) @ s)"
    by (simp add: encode_list_def)
  then have "length xs = length ys \<and> concat (map enc xs) @ r = concat (map enc ys) @ s"
    using valid length_prefix_inj unfolding short_list_def by blast
  then show "xs = ys \<and> r = s"
    using prefix_code.cut_concat [OF assms, of xs ys r s] valid by (simp add: short_list_def)
qed

text \<open>Raw bytes behind a length prefix: a list code whose elements are single bytes.\<close>

lemma byte_prefix_code: "prefix_code (\<lambda>b :: u8. [b]) (\<lambda>_. True)"
  by (rule fixed_size_prefix_code [where n = 1]) auto

lemma concat_singletons [simp]: "concat (map (\<lambda>b. [b]) bs) = bs"
  by (induction bs) auto

end
