(* ===== verification/Core_Types.thy ===== *)
theory Core_Types
  imports Wire_Encoding
begin

section \<open>Core types: amounts, validators, committees, headers\<close>

text \<open>
  The part of \<^verbatim>\<open>lemma-core\<close> that consensus is built on: \<^verbatim>\<open>amount.rs\<close>, \<^verbatim>\<open>validator.rs\<close>,
  \<^verbatim>\<open>validator_set.rs\<close>, \<^verbatim>\<open>epoch.rs\<close>, \<^verbatim>\<open>cert.rs\<close>, \<^verbatim>\<open>signature.rs\<close> and \<^verbatim>\<open>header.rs\<close>.

  An \<open>Address\<close> is 20 bytes and a \<open>Hash\<close> is 32 bytes, both ordered lexicographically by
  their bytes. As fixed-width big-endian words they have the same equality and the same
  order. \<open>Amount\<close> and \<open>VotingPower\<close> are newtypes over \<open>u128\<close>.
  The Blake3 hasher is third-party code: every definition that hashes takes it as the
  parameter \<open>blake3\<close>.
\<close>

type_synonym address = "160 word"
type_synonym hash = "256 word"
type_synonym amount = u128
type_synonym voting_power = amount
type_synonym hasher = "bytes \<Rightarrow> hash"

definition address_zero :: address where
  "address_zero = 0"

definition hash_zero :: hash where
  "hash_zero = 0"

text \<open>\<open>Blake3(pubkey)[0..20]\<close>: the first 20 bytes of the hash are its top 160 bits.\<close>

definition address_from_public_key :: "hasher \<Rightarrow> bytes \<Rightarrow> address" where
  "address_from_public_key blake3 pubkey = ucast (drop_bit 96 (blake3 pubkey))"

subsection \<open>Amount\<close>

datatype amount_error =
    Overflow (ae_lhs: u128) (ae_rhs: u128)
  | Underflow (ae_lhs: u128) (ae_rhs: u128)
  | DivisionByZero (ae_lhs: u128)

definition DROPS_PER_LEM :: u128 where
  "DROPS_PER_LEM = 1000000000000000000"

definition DRIPS_PER_LEM :: u128 where
  "DRIPS_PER_LEM = 1000000000"

definition DROPS_PER_DRIP :: u128 where
  "DROPS_PER_DRIP = DROPS_PER_LEM div DRIPS_PER_LEM"

definition amount_zero :: amount where
  "amount_zero = 0"

definition amount_from_lem :: "u128 \<Rightarrow> amount_error + amount" where
  "amount_from_lem lem = ok_or (checked_mul lem DROPS_PER_LEM) (Overflow lem DROPS_PER_LEM)"

definition amount_from_drip :: "u128 \<Rightarrow> amount_error + amount" where
  "amount_from_drip drips = ok_or (checked_mul drips DROPS_PER_DRIP) (Overflow drips DROPS_PER_DRIP)"

definition amount_add :: "amount \<Rightarrow> amount \<Rightarrow> amount_error + amount" where
  "amount_add a b = ok_or (checked_add a b) (Overflow a b)"

definition amount_sub :: "amount \<Rightarrow> amount \<Rightarrow> amount_error + amount" where
  "amount_sub a b = ok_or (checked_sub a b) (Underflow a b)"

definition amount_mul :: "amount \<Rightarrow> u128 \<Rightarrow> amount_error + amount" where
  "amount_mul a b = ok_or (checked_mul a b) (Overflow a b)"

definition amount_div :: "amount \<Rightarrow> u128 \<Rightarrow> amount_error + amount" where
  "amount_div a b = ok_or (checked_div a b) (DivisionByZero a)"

lemma DROPS_PER_DRIP_val [simp]: "unat DROPS_PER_DRIP = 1000000000"
  by (simp add: DROPS_PER_DRIP_def DROPS_PER_LEM_def DRIPS_PER_LEM_def unat_div)

lemma amount_zero_val [simp]: "unat amount_zero = 0"
  by (simp add: amount_zero_def)

lemma amount_add_Inr [rust_int]: "amount_add a b = Inr c \<longleftrightarrow> unat c = unat a + unat b"
  by (simp add: amount_add_def checked_add_Some)

lemma amount_sub_Inr [rust_int]: "amount_sub a b = Inr c \<longleftrightarrow> unat c + unat b = unat a"
  by (simp add: amount_sub_def checked_sub_Some)

lemma amount_mul_Inr [rust_int]: "amount_mul a b = Inr c \<longleftrightarrow> unat c = unat a * unat b"
  by (simp add: amount_mul_def checked_mul_Some)

lemma amount_div_Inr [rust_int]:
  "amount_div a b = Inr c \<longleftrightarrow> b \<noteq> 0 \<and> unat c = unat a div unat b"
  by (simp add: amount_div_def checked_div_Some)

lemma amount_add_Inl [rust_int]:
  "amount_add a b = Inl e \<longleftrightarrow> 2 ^ 128 \<le> unat a + unat b \<and> e = Overflow a b"
  by (simp add: amount_add_def checked_add_None)

lemma amount_sub_Inl [rust_int]:
  "amount_sub a b = Inl e \<longleftrightarrow> unat a < unat b \<and> e = Underflow a b"
  by (simp add: amount_sub_def checked_sub_None)

lemma amount_mul_Inl [rust_int]:
  "amount_mul a b = Inl e \<longleftrightarrow> 2 ^ 128 \<le> unat a * unat b \<and> e = Overflow a b"
  by (simp add: amount_mul_def checked_mul_None)

lemma amount_div_Inl [rust_int]:
  "amount_div a b = Inl e \<longleftrightarrow> b = 0 \<and> e = DivisionByZero a"
  by (simp add: amount_div_def checked_div_None)

text \<open>The sum of a list of amounts with \<open>try_fold\<close> and \<open>checked_add\<close>.\<close>

definition amount_sum :: "amount list \<Rightarrow> amount_error + amount" where
  "amount_sum = try_fold amount_add amount_zero"

lemma try_fold_amount_add:
  "try_fold amount_add a xs = Inr s \<Longrightarrow> unat s = unat a + sum_list (map unat xs)"
  by (induction xs arbitrary: a) (auto simp: rust_int)

lemma try_fold_amount_add_Inr:
  "unat a + sum_list (map unat xs) < 2 ^ 128 \<Longrightarrow>
    \<exists>s. try_fold amount_add a xs = Inr s \<and> unat s = unat a + sum_list (map unat xs)"
proof (induction xs arbitrary: a)
  case Nil
  then show ?case by simp
next
  case (Cons x xs)
  then have lt: "unat a + unat x < 2 ^ LENGTH(128)" by simp
  then have add: "amount_add a x = Inr (a + x)"
    by (simp add: amount_add_Inr unat_add_exact)
  from Cons.IH [of "a + x"] Cons.prems lt show ?case
    by (simp add: add unat_add_exact add.assoc)
qed

lemma amount_sum_Inr: "amount_sum xs = Inr s \<Longrightarrow> unat s = sum_list (map unat xs)"
  by (auto simp: amount_sum_def dest: try_fold_amount_add)

subsection \<open>Validators\<close>

record consensus_key =
  ck_classical :: bytes
  ck_quantum :: bytes

datatype validator_status = Unbonded | Bonded | Unbonding

record unbonding_entry =
  initial_balance :: amount
  start_height :: u64
  complete_time :: u64
  on_hold :: bool

record stake =
  active :: amount
  pending_active :: amount
  pending_inactive :: "unbonding_entry list"
  inactive :: amount

record validator =
  v_address :: address
  v_consensus_pubkey :: consensus_key
  v_status :: validator_status
  v_tombstoned :: bool
  v_self_stake :: stake
  v_delegated :: amount
  v_commission_bps :: u16
  v_jailed_until :: "u64 option"

definition stake_zero :: stake where
  "stake_zero = \<lparr>active = amount_zero, pending_active = amount_zero, pending_inactive = [],
    inactive = amount_zero\<rparr>"

definition total_bonded :: "stake \<Rightarrow> amount_error + amount" where
  "total_bonded s =
     rbind (amount_sum (map initial_balance (pending_inactive s))) (\<lambda>pending_inactive_sum.
     rbind (amount_add (active s) (pending_active s)) (\<lambda>a.
     amount_add a pending_inactive_sum))"

definition voting_power :: "validator \<Rightarrow> amount_error + voting_power" where
  "voting_power v = amount_add (active (v_self_stake v)) (v_delegated v)"

definition is_active :: "validator \<Rightarrow> bool" where
  "is_active v \<longleftrightarrow> v_status v = Bonded \<and> \<not> v_tombstoned v \<and> v_jailed_until v = None"

text \<open>The stake of a validator, summed over the four buckets without a width bound.\<close>

definition stake_total :: "stake \<Rightarrow> nat" where
  "stake_total s = unat (active s) + unat (pending_active s)
     + (\<Sum>e \<leftarrow> pending_inactive s. unat (initial_balance e)) + unat (inactive s)"

lemma total_bonded_exact:
  "total_bonded s = Inr t \<Longrightarrow> unat t + unat (inactive s) = stake_total s"
  by (auto simp: total_bonded_def stake_total_def rust_int o_def dest!: amount_sum_Inr)

subsection \<open>Committees\<close>

record member =
  m_consensus_pubkey :: consensus_key
  m_power :: voting_power

record validator_set =
  vs_epoch :: u64
  vs_members :: "(address, member) fmap"
  vs_total_power :: amount

datatype validator_error =
    PowerOverflow address amount_error
  | EmptyValidatorSet u64

definition vset_len :: "validator_set \<Rightarrow> nat" where
  "vset_len vs = btree_len (vs_members vs)"

definition vset_is_empty :: "validator_set \<Rightarrow> bool" where
  "vset_is_empty vs \<longleftrightarrow> vs_members vs = fmempty"

definition add_active_member ::
  "(address, member) fmap \<times> amount \<Rightarrow> address \<times> validator \<Rightarrow>
    validator_error + (address, member) fmap \<times> amount" where
  "add_active_member acc entry = (case (acc, entry) of ((members, total_power), (addr, v)) \<Rightarrow>
     if \<not> is_active v then Inr (members, total_power)
     else rbind (map_err (PowerOverflow addr) (voting_power v)) (\<lambda>power.
       rbind (map_err (PowerOverflow addr) (amount_add total_power power)) (\<lambda>total_power'.
       Inr (fmupd addr \<lparr>m_consensus_pubkey = v_consensus_pubkey v, m_power = power\<rparr> members,
            total_power'))))"

definition from_active_validators ::
  "u64 \<Rightarrow> (address, validator) fmap \<Rightarrow> validator_error + validator_set" where
  "from_active_validators epoch validators =
     rbind (try_fold add_active_member (fmempty, amount_zero) (sorted_list_of_fmap validators))
       (\<lambda>(members, total_power).
         if members = fmempty then Inl (EmptyValidatorSet epoch)
         else Inr \<lparr>vs_epoch = epoch, vs_members = members, vs_total_power = total_power\<rparr>)"

definition encode_member :: "address \<times> member \<Rightarrow> bytes" where
  "encode_member e = to_be_bytes (fst e) @ ck_classical (m_consensus_pubkey (snd e))
     @ ck_quantum (m_consensus_pubkey (snd e)) @ to_be_bytes (m_power (snd e))"

definition vset_hash :: "hasher \<Rightarrow> validator_set \<Rightarrow> hash" where
  "vset_hash blake3 vs = blake3 (concat (map encode_member (sorted_list_of_fmap (vs_members vs))))"

subsection \<open>Epochs, signatures, certificates\<close>

record epoch =
  ep_number :: u64
  ep_start_height :: u64
  ep_start_timestamp :: u64
  ep_validators :: validator_set

datatype signature =
    Classical bytes
  | PostQuantum bytes
  | Hybrid bytes bytes
  | Unsigned

record quorum_cert =
  qc_height :: u64
  qc_header_digest :: hash
  qc_signers :: "(address, signature) fmap"

subsection \<open>Block headers\<close>

record block_header =
  hdr_height :: u64
  hdr_timestamp :: u64
  hdr_parent_hash :: hash
  hdr_transactions_root :: hash
  hdr_state_root :: hash
  hdr_receipts_root :: hash
  hdr_proposer :: address
  hdr_epoch :: u64
  hdr_protocol_version :: u32
  hdr_dag_round :: u64
  hdr_dag_anchor :: hash
  hdr_validators_hash :: hash
  hdr_next_validators_hash :: hash
  hdr_gas_limit :: u64
  hdr_gas_used :: u64
  hdr_base_fee :: amount
  hdr_extra_data :: bytes

datatype block_error = GasLimitZero | GasExceeded u64 u64

definition header_validate :: "block_header \<Rightarrow> block_error + unit" where
  "header_validate h =
     (if hdr_gas_limit h = 0 then Inl GasLimitZero
      else if hdr_gas_used h > hdr_gas_limit h
        then Inl (GasExceeded (hdr_gas_used h) (hdr_gas_limit h))
      else Inr ())"

definition is_genesis_header :: "block_header \<Rightarrow> bool" where
  "is_genesis_header h \<longleftrightarrow> hdr_height h = 0"

definition is_above_target_gas :: "block_header \<Rightarrow> bool" where
  "is_above_target_gas h \<longleftrightarrow> hdr_gas_used h > hdr_gas_limit h div 2"

definition gas_remaining :: "block_header \<Rightarrow> u64" where
  "gas_remaining h = hdr_gas_limit h - hdr_gas_used h"

definition header_bytes :: "block_header \<Rightarrow> bytes" where
  "header_bytes h =
     to_be_bytes (hdr_height h) @ to_be_bytes (hdr_timestamp h)
     @ to_be_bytes (hdr_parent_hash h) @ to_be_bytes (hdr_transactions_root h)
     @ to_be_bytes (hdr_state_root h) @ to_be_bytes (hdr_receipts_root h)
     @ to_be_bytes (hdr_proposer h) @ to_be_bytes (hdr_epoch h)
     @ to_be_bytes (hdr_protocol_version h) @ to_be_bytes (hdr_dag_round h)
     @ to_be_bytes (hdr_dag_anchor h) @ to_be_bytes (hdr_validators_hash h)
     @ to_be_bytes (hdr_next_validators_hash h) @ to_be_bytes (hdr_gas_limit h)
     @ to_be_bytes (hdr_gas_used h) @ to_be_bytes (hdr_base_fee h)
     @ encode_list (\<lambda>b. [b]) (hdr_extra_data h)"

definition header_digest :: "hasher \<Rightarrow> block_header \<Rightarrow> hash" where
  "header_digest blake3 h = blake3 (header_bytes h)"

end
