(* ===== verification/Consensus_Error.thy ===== *)
theory Consensus_Error
  imports Core_Types
begin

section \<open>Consensus errors\<close>

text \<open>
  \<^verbatim>\<open>lemma-consensus/src/error.rs\<close>: one constructor per variant, with the fields of the source
  in the source's order, and the predicates callers use to choose a policy; with them the
  protocol constants of \<^verbatim>\<open>lib.rs\<close>.
\<close>

datatype consensus_error =
    EpochMismatch u64 u64
  | DigestMismatch address u64
  | UnknownAuthor address u64
  | InvalidSignature address u64
  | BelowGcBoundary u64 u64
  | MissingAncestor hash address u64
  | InsufficientStrongLinks address u64
  | EquivocationError address u64 hash hash
  | StakeOverflow address
  | EmptyCommittee u64
  | ByzantineInvariantBreach u64 address hash hash
  | DecidedLeaderMissing u64 address

fun is_equivocation :: "consensus_error \<Rightarrow> bool" where
  "is_equivocation (EquivocationError _ _ _ _) = True"
| "is_equivocation _ = False"

fun is_empty_committee :: "consensus_error \<Rightarrow> bool" where
  "is_empty_committee (EmptyCommittee _) = True"
| "is_empty_committee _ = False"

fun is_byzantine_breach :: "consensus_error \<Rightarrow> bool" where
  "is_byzantine_breach (ByzantineInvariantBreach _ _ _ _) = True"
| "is_byzantine_breach _ = False"

fun is_fatal :: "consensus_error \<Rightarrow> bool" where
  "is_fatal (ByzantineInvariantBreach _ _ _ _) = True"
| "is_fatal (DecidedLeaderMissing _ _) = True"
| "is_fatal _ = False"

fun is_pending_data :: "consensus_error \<Rightarrow> bool" where
  "is_pending_data (MissingAncestor _ _ _) = True"
| "is_pending_data _ = False"

definition WAVE_LENGTH :: u64 where
  "WAVE_LENGTH = 3"

definition LEADER_OFFSET :: u64 where
  "LEADER_OFFSET = 0"

definition GC_DEPTH :: u64 where
  "GC_DEPTH = 30"

definition wave_of :: "u64 \<Rightarrow> u64" where
  "wave_of r = r div WAVE_LENGTH"

end
