(* ===== verification/Stake.thy ===== *)
theory Stake
  imports Consensus_Error
begin

section \<open>Stake aggregation and quorums\<close>

text \<open>
  \<^verbatim>\<open>lemma-consensus/src/stake.rs\<close>. A \<open>StakeAggregator\<close> sums the voting power of distinct authors
  against a threshold; every quorum check of the crate goes through it.

  The contract its clients use is stated over \<open>stake_of\<close>, the exact stake of a set of
  authors in a committee: feeding a list of authors to a fresh aggregator leaves it with
  the stake of their set, each counted once, and \<open>reached\<close> says whether that stake exceeds
  the threshold. The locale \<open>weighted_quorum\<close> derives the intersection of quorums, and is
  interpreted on \<open>stake_of\<close>.
\<close>

datatype threshold = Quorum | Validity

record stake_aggregator =
  sa_threshold :: threshold
  sa_total_power :: u128
  sa_accumulated :: u128
  sa_counted :: "address fset"
  sa_reached :: bool

definition agg_new :: "threshold \<Rightarrow> amount \<Rightarrow> stake_aggregator" where
  "agg_new thr total_power = \<lparr>sa_threshold = thr, sa_total_power = total_power,
     sa_accumulated = 0, sa_counted = {||}, sa_reached = False\<rparr>"

definition agg_quorum :: "amount \<Rightarrow> stake_aggregator" where
  "agg_quorum total_power = agg_new Quorum total_power"

definition agg_validity :: "amount \<Rightarrow> stake_aggregator" where
  "agg_validity total_power = agg_new Validity total_power"

fun threshold_factor :: "threshold \<Rightarrow> u128" where
  "threshold_factor Quorum = 2"
| "threshold_factor Validity = 1"

definition exceeds_threshold :: "u128 \<Rightarrow> u128 \<Rightarrow> threshold \<Rightarrow> bool" where
  "exceeds_threshold accumulated total_power thr \<longleftrightarrow>
     saturating_mul accumulated 3 > saturating_mul total_power (threshold_factor thr)"

text \<open>
  \<open>add\<close> returns the new aggregator beside its result; the overflow error is raised before
  any field is written, so an error leaves the aggregator as it was.
\<close>

definition agg_add ::
  "stake_aggregator \<Rightarrow> address \<Rightarrow> voting_power \<Rightarrow> consensus_error + bool \<times> stake_aggregator" where
  "agg_add agg author pow =
     (if author |\<in>| sa_counted agg then Inr (sa_reached agg, agg)
      else rbind (ok_or (checked_add (sa_accumulated agg) pow) (StakeOverflow author))
        (\<lambda>acc.
          let reached = (if \<not> sa_reached agg
                then exceeds_threshold acc (sa_total_power agg) (sa_threshold agg)
                else sa_reached agg)
          in Inr (reached, agg\<lparr>sa_accumulated := acc,
                  sa_counted := finsert author (sa_counted agg), sa_reached := reached\<rparr>)))"

definition agg_clear :: "stake_aggregator \<Rightarrow> stake_aggregator" where
  "agg_clear agg = agg\<lparr>sa_accumulated := 0, sa_counted := {||}, sa_reached := False\<rparr>"

definition agg_count :: "stake_aggregator \<Rightarrow> nat" where
  "agg_count agg = fcard (sa_counted agg)"

subsection \<open>The threshold, exactly\<close>

lemma exceeds_quorum_iff:
  "exceeds_threshold a t Quorum \<longleftrightarrow>
     2 * unat t < 3 * unat a \<and> 2 * unat t < 2 ^ 128 - 1"
  by (simp add: exceeds_threshold_def word_less_nat_alt unat_saturating_mul) arith

lemma exceeds_validity_iff:
  "exceeds_threshold a t Validity \<longleftrightarrow>
     unat t < 3 * unat a \<and> unat t < 2 ^ 128 - 1"
  by (simp add: exceeds_threshold_def word_less_nat_alt unat_saturating_mul) arith

lemma exceeds_threshold_mono:
  "exceeds_threshold a t thr \<Longrightarrow> unat a \<le> unat b \<Longrightarrow> exceeds_threshold b t thr"
  by (cases thr) (auto simp: exceeds_quorum_iff exceeds_validity_iff)

lemma exceeds_threshold_zero [simp]: "\<not> exceeds_threshold 0 t thr"
  by (cases thr) (simp_all add: exceeds_quorum_iff exceeds_validity_iff)

subsection \<open>The aggregator's invariant\<close>

definition agg_inv :: "stake_aggregator \<Rightarrow> bool" where
  "agg_inv agg \<longleftrightarrow>
     sa_reached agg = exceeds_threshold (sa_accumulated agg) (sa_total_power agg) (sa_threshold agg)"

lemma agg_inv_new [simp]: "agg_inv (agg_new thr tot)"
  by (simp add: agg_inv_def agg_new_def)

lemma agg_inv_clear [simp]: "agg_inv (agg_clear agg)"
  by (simp add: agg_inv_def agg_clear_def)

lemma agg_add_counted:
  "author |\<in>| sa_counted agg \<Longrightarrow> agg_add agg author pow = Inr (sa_reached agg, agg)"
  by (simp add: agg_add_def)

lemma agg_add_fresh:
  assumes "agg_add agg author pow = Inr (b, agg')" and "author |\<notin>| sa_counted agg"
  obtains acc where "unat acc = unat (sa_accumulated agg) + unat pow"
    and "b = (sa_reached agg \<or> exceeds_threshold acc (sa_total_power agg) (sa_threshold agg))"
    and "agg' = agg\<lparr>sa_accumulated := acc, sa_counted := finsert author (sa_counted agg),
      sa_reached := b\<rparr>"
proof -
  from assms obtain acc where "checked_add (sa_accumulated agg) pow = Some acc"
    and "b = (if \<not> sa_reached agg
      then exceeds_threshold acc (sa_total_power agg) (sa_threshold agg) else sa_reached agg)"
    and "agg' = agg\<lparr>sa_accumulated := acc, sa_counted := finsert author (sa_counted agg),
      sa_reached := b\<rparr>"
    unfolding agg_add_def Let_def by (auto simp del: if_splits)
  then show thesis using that [of acc] by (simp add: checked_add_Some)
qed

lemma agg_add_Inr:
  assumes "agg_add agg author pow = Inr (b, agg')" and "author |\<notin>| sa_counted agg"
  shows "unat (sa_accumulated agg') = unat (sa_accumulated agg) + unat pow"
    and "sa_counted agg' = finsert author (sa_counted agg)"
  by (rule agg_add_fresh [OF assms], simp)+

lemma agg_add_frame:
  assumes "agg_add agg author pow = Inr (b, agg')"
  shows "sa_total_power agg' = sa_total_power agg" and "sa_threshold agg' = sa_threshold agg"
    and "b = sa_reached agg'"
proof -
  have "sa_total_power agg' = sa_total_power agg \<and> sa_threshold agg' = sa_threshold agg
    \<and> b = sa_reached agg'"
  proof (cases "author |\<in>| sa_counted agg")
    case True
    with assms show ?thesis by (auto simp: agg_add_counted)
  next
    case False
    show ?thesis by (rule agg_add_fresh [OF assms False]) simp
  qed
  then show "sa_total_power agg' = sa_total_power agg" "sa_threshold agg' = sa_threshold agg"
    "b = sa_reached agg'" by simp_all
qed

lemma agg_add_inv:
  assumes "agg_inv agg" and "agg_add agg author pow = Inr (b, agg')"
  shows "agg_inv agg'"
proof (cases "author |\<in>| sa_counted agg")
  case True
  with assms show ?thesis by (simp add: agg_add_counted)
next
  case False
  from agg_add_fresh [OF assms(2) False] obtain acc
    where acc: "unat acc = unat (sa_accumulated agg) + unat pow"
      and b: "b = (sa_reached agg \<or> exceeds_threshold acc (sa_total_power agg) (sa_threshold agg))"
      and agg': "agg' = agg\<lparr>sa_accumulated := acc, sa_counted := finsert author (sa_counted agg),
        sa_reached := b\<rparr>" .
  have "sa_reached agg \<Longrightarrow> exceeds_threshold acc (sa_total_power agg) (sa_threshold agg)"
    using assms(1) acc exceeds_threshold_mono [of "sa_accumulated agg" _ _ acc]
    by (simp add: agg_inv_def)
  then show ?thesis by (auto simp: agg' agg_inv_def b)
qed

subsection \<open>The stake of a set of authors\<close>

definition power_of :: "validator_set \<Rightarrow> address \<Rightarrow> nat" where
  "power_of vs a = (case fmlookup (vs_members vs) a of None \<Rightarrow> 0 | Some m \<Rightarrow> unat (m_power m))"

definition stake_of :: "validator_set \<Rightarrow> address set \<Rightarrow> nat" where
  "stake_of vs A = (\<Sum>a \<in> fmdom' (vs_members vs) \<inter> A. power_of vs a)"

text \<open>
  A committee is well formed when its total power is the sum of its members' powers, which
  is how \<open>from_active_validators\<close> builds it.
\<close>

definition wf_vset :: "validator_set \<Rightarrow> bool" where
  "wf_vset vs \<longleftrightarrow> unat (vs_total_power vs) = stake_of vs UNIV"

definition is_quorum :: "validator_set \<Rightarrow> address set \<Rightarrow> bool" where
  "is_quorum vs A \<longleftrightarrow> 2 * unat (vs_total_power vs) < 3 * stake_of vs A"

lemma power_of_nonmember: "a \<notin> fmdom' (vs_members vs) \<Longrightarrow> power_of vs a = 0"
  by (auto simp: power_of_def split: option.splits dest: fmdom'I)

lemma stake_of_empty [simp]: "stake_of vs {} = 0"
  by (simp add: stake_of_def)

lemma stake_of_insert:
  "stake_of vs (insert a A) = (if a \<in> A then 0 else power_of vs a) + stake_of vs A"
proof (cases "a \<in> A \<or> a \<notin> fmdom' (vs_members vs)")
  case True
  then have eq: "fmdom' (vs_members vs) \<inter> insert a A = fmdom' (vs_members vs) \<inter> A" by auto
  have "stake_of vs (insert a A) = stake_of vs A" unfolding stake_of_def eq ..
  with True show ?thesis using power_of_nonmember [of a vs] by auto
next
  case False
  then have "fmdom' (vs_members vs) \<inter> insert a A = insert a (fmdom' (vs_members vs) \<inter> A)" by auto
  with False show ?thesis by (simp add: stake_of_def)
qed

lemma stake_of_mono: "A \<subseteq> B \<Longrightarrow> stake_of vs A \<le> stake_of vs B"
  unfolding stake_of_def by (rule sum_mono2) auto

lemma stake_of_modular: "stake_of vs A + stake_of vs B = stake_of vs (A \<union> B) + stake_of vs (A \<inter> B)"
proof -
  let ?D = "fmdom' (vs_members vs)"
  have "stake_of vs A + stake_of vs B
      = sum (power_of vs) (?D \<inter> A) + sum (power_of vs) (?D \<inter> B)" by (simp add: stake_of_def)
  also have "\<dots> = sum (power_of vs) ((?D \<inter> A) \<union> (?D \<inter> B)) + sum (power_of vs) ((?D \<inter> A) \<inter> (?D \<inter> B))"
    by (rule sum_Un_Int_nat) auto
  also have "(?D \<inter> A) \<union> (?D \<inter> B) = ?D \<inter> (A \<union> B)" by auto
  also have "(?D \<inter> A) \<inter> (?D \<inter> B) = ?D \<inter> (A \<inter> B)" by auto
  finally show ?thesis by (simp add: stake_of_def)
qed

lemma stake_le_total: "wf_vset vs \<Longrightarrow> stake_of vs A \<le> unat (vs_total_power vs)"
  using stake_of_mono [of A UNIV vs] by (simp add: wf_vset_def)

subsection \<open>Quorum intersection\<close>

text \<open>
  The interface between stake and everything that argues with quorums: a weight on sets of
  authors that is modular, monotone and bounded by a total.
\<close>

locale weighted_quorum =
  fixes weight :: "'v \<Rightarrow> 'a set \<Rightarrow> nat"
    and total :: "'v \<Rightarrow> nat"
    and ok :: "'v \<Rightarrow> bool"
  assumes modular: "weight v A + weight v B = weight v (A \<union> B) + weight v (A \<inter> B)"
    and mono: "A \<subseteq> B \<Longrightarrow> weight v A \<le> weight v B"
    and bounded: "ok v \<Longrightarrow> weight v A \<le> total v"
begin

lemma intersection_weight:
  assumes "ok v" and "2 * total v < 3 * weight v A" and "2 * total v < 3 * weight v B"
  shows "total v < 3 * weight v (A \<inter> B)"
  using modular [of v A B] bounded [OF assms(1), of "A \<union> B"] assms(2,3) by linarith

lemma intersection_outside:
  assumes "ok v" and "2 * total v < 3 * weight v A" and "2 * total v < 3 * weight v B"
    and "3 * weight v F \<le> total v"
  obtains a where "a \<in> A" "a \<in> B" "a \<notin> F"
proof -
  have "\<not> A \<inter> B \<subseteq> F"
    using intersection_weight [OF assms(1-3)] assms(4) mono [of "A \<inter> B" F v] by linarith
  then show thesis using that by blast
qed

lemma quorum_upward: "A \<subseteq> B \<Longrightarrow> 2 * total v < 3 * weight v A \<Longrightarrow> 2 * total v < 3 * weight v B"
  using mono [of A B v] by linarith

end

interpretation committee: weighted_quorum stake_of "\<lambda>vs. unat (vs_total_power vs)" wf_vset
  by unfold_locales (rule stake_of_modular, erule stake_of_mono, erule stake_le_total)

subsection \<open>Feeding authors to an aggregator\<close>

text \<open>
  The loop body that the DAG store, the validity rules and the commit rule share: resolve
  the author's power in the committee and add it; an author outside the committee is
  skipped.
\<close>

definition add_if_member ::
  "validator_set \<Rightarrow> stake_aggregator \<Rightarrow> address \<Rightarrow> consensus_error + stake_aggregator" where
  "add_if_member vs agg author = (case fmlookup (vs_members vs) author of
      None \<Rightarrow> Inr agg
    | Some m \<Rightarrow> rbind (agg_add agg author (m_power m)) (\<lambda>(_, agg'). Inr agg'))"

definition add_authors ::
  "validator_set \<Rightarrow> stake_aggregator \<Rightarrow> address list \<Rightarrow> consensus_error + stake_aggregator" where
  "add_authors vs agg authors = try_fold (add_if_member vs) agg authors"

definition counts_exactly :: "validator_set \<Rightarrow> stake_aggregator \<Rightarrow> address set \<Rightarrow> bool" where
  "counts_exactly vs agg A \<longleftrightarrow>
     fset (sa_counted agg) = A \<inter> fmdom' (vs_members vs) \<and>
     unat (sa_accumulated agg) = stake_of vs A \<and> agg_inv agg \<and>
     sa_total_power agg = vs_total_power vs"

lemma counts_exactly_new [simp]: "counts_exactly vs (agg_new thr (vs_total_power vs)) {}"
  by (simp add: counts_exactly_def) (simp add: agg_new_def)

lemma counts_exactly_add:
  assumes "counts_exactly vs agg A" and "fmlookup (vs_members vs) author = Some m"
    and "agg_add agg author (m_power m) = Inr (b, agg')"
  shows "counts_exactly vs agg' (insert author A)"
proof (cases "author |\<in>| sa_counted agg")
  case True
  with assms show ?thesis
    by (auto simp: agg_add_counted counts_exactly_def insert_absorb)
next
  case False
  have mem: "author \<in> fmdom' (vs_members vs)" using assms(2) by (rule fmdom'I)
  with False assms(1) have "author \<notin> A" by (auto simp: counts_exactly_def)
  moreover have "power_of vs author = unat (m_power m)" using assms(2) by (simp add: power_of_def)
  ultimately show ?thesis
    using assms(1) agg_add_Inr [OF assms(3) False] agg_add_frame [OF assms(3)]
      agg_add_inv [OF _ assms(3)] mem
    by (auto simp: counts_exactly_def stake_of_insert)
qed

lemma counts_exactly_add_if_member:
  assumes "counts_exactly vs agg A" and "add_if_member vs agg author = Inr agg'"
  shows "counts_exactly vs agg' (insert author A)"
proof (cases "fmlookup (vs_members vs) author")
  case None
  then have "power_of vs author = 0" "author \<notin> fmdom' (vs_members vs)"
    by (auto simp: power_of_def fmlookup_dom'_iff)
  then show ?thesis using assms None
    by (auto simp: add_if_member_def counts_exactly_def stake_of_insert)
next
  case (Some m)
  then show ?thesis using assms by (auto simp: add_if_member_def intro: counts_exactly_add)
qed

lemma counts_exactly_add_authors:
  "counts_exactly vs agg A \<Longrightarrow> add_authors vs agg authors = Inr agg' \<Longrightarrow>
    counts_exactly vs agg' (set authors \<union> A)"
  unfolding add_authors_def
proof (induction authors arbitrary: agg A)
  case Nil
  then show ?case by simp
next
  case (Cons a as)
  then obtain agg1 where "add_if_member vs agg a = Inr agg1"
    and rest: "try_fold (add_if_member vs) agg1 as = Inr agg'" by auto
  then have "counts_exactly vs agg1 (insert a A)"
    using Cons.prems(1) counts_exactly_add_if_member by blast
  from Cons.IH [OF this rest] show ?case by simp
qed

lemma sa_threshold_add_authors:
  "add_authors vs agg authors = Inr agg' \<Longrightarrow> sa_threshold agg' = sa_threshold agg"
  unfolding add_authors_def
  by (induction authors arbitrary: agg)
    (auto simp: add_if_member_def split: option.splits dest!: agg_add_frame(2))

lemma agg_new_fields [simp]:
  "sa_threshold (agg_new thr tot) = thr"
  "sa_total_power (agg_new thr tot) = tot"
  "sa_reached (agg_new thr tot) = False"
  by (simp_all add: agg_new_def)

text \<open>
  The contract: after all authors, \<open>reached\<close> is the exact quorum test, provided that twice
  the committee's power does not reach the saturation point.
\<close>

lemma quorum_reached_iff:
  assumes "counts_exactly vs agg A" and "sa_threshold agg = Quorum"
  shows "sa_reached agg \<longleftrightarrow> is_quorum vs A \<and> 2 * unat (vs_total_power vs) < 2 ^ 128 - 1"
  using assms by (simp add: counts_exactly_def agg_inv_def exceeds_quorum_iff is_quorum_def)

lemma quorum_reachedD:
  "counts_exactly vs agg A \<Longrightarrow> sa_threshold agg = Quorum \<Longrightarrow> sa_reached agg \<Longrightarrow> is_quorum vs A"
  by (simp add: quorum_reached_iff)

lemma add_authors_quorum:
  assumes "add_authors vs (agg_quorum (vs_total_power vs)) authors = Inr agg"
  shows "counts_exactly vs agg (set authors)" and "sa_threshold agg = Quorum"
  using assms counts_exactly_add_authors [OF counts_exactly_new, of vs Quorum authors agg]
  by (auto simp: agg_quorum_def dest: sa_threshold_add_authors)

text \<open>
  In a well-formed committee the aggregator never overflows: the accumulated stake stays
  below the total power, which is a \<open>u128\<close>.
\<close>

lemma agg_add_no_overflow:
  assumes "wf_vset vs" and "counts_exactly vs agg A" and "fmlookup (vs_members vs) author = Some m"
  shows "\<exists>b agg'. agg_add agg author (m_power m) = Inr (b, agg')"
proof (cases "author |\<in>| sa_counted agg")
  case True
  then show ?thesis by (simp add: agg_add_counted)
next
  case False
  have "author \<in> fmdom' (vs_members vs)" using assms(3) by (rule fmdom'I)
  with False assms(2) have "author \<notin> A" by (auto simp: counts_exactly_def)
  then have "stake_of vs (insert author A) = unat (m_power m) + unat (sa_accumulated agg)"
    using assms(2,3) by (simp add: counts_exactly_def stake_of_insert power_of_def)
  then have "unat (sa_accumulated agg) + unat (m_power m) < 2 ^ LENGTH(128)"
    using stake_le_total [OF assms(1), of "insert author A"] unat_lt_size [of "vs_total_power vs"]
    by simp
  then show ?thesis using False by (simp add: agg_add_def checked_add_def Let_def)
qed

lemma add_authors_no_overflow:
  "wf_vset vs \<Longrightarrow> counts_exactly vs agg A \<Longrightarrow> \<exists>agg'. add_authors vs agg authors = Inr agg'"
  unfolding add_authors_def
proof (induction authors arbitrary: agg A)
  case Nil
  then show ?case by simp
next
  case (Cons a as)
  have "\<exists>agg1. add_if_member vs agg a = Inr agg1"
  proof (cases "fmlookup (vs_members vs) a")
    case (Some m)
    then obtain b agg1 where "agg_add agg a (m_power m) = Inr (b, agg1)"
      using agg_add_no_overflow Cons.prems by blast
    with Some show ?thesis by (simp add: add_if_member_def)
  qed (simp add: add_if_member_def)
  then obtain agg1 where agg1: "add_if_member vs agg a = Inr agg1" by blast
  with Cons show ?case using counts_exactly_add_if_member by fastforce
qed

subsection \<open>Committees to evaluate on\<close>

definition solo_vs :: validator_set where
  "solo_vs = \<lparr>vs_epoch = 0, vs_members = fmap_of_list
     [(1, \<lparr>m_consensus_pubkey = \<lparr>ck_classical = [], ck_quantum = []\<rparr>, m_power = 1\<rparr>)], vs_total_power = 1\<rparr>"

lemma solo_wf: "wf_vset solo_vs" "is_quorum solo_vs {1}"
  by (simp_all add: wf_vset_def is_quorum_def stake_of_def power_of_def solo_vs_def)

definition trio_vs :: validator_set where
  "trio_vs = \<lparr>vs_epoch = 0, vs_members = fmap_of_list (map (\<lambda>(a, p).
     (a, \<lparr>m_consensus_pubkey = \<lparr>ck_classical = [], ck_quantum = []\<rparr>, m_power = p\<rparr>))
       [(1, 1), (2, 1), (3, 2)]), vs_total_power = 4\<rparr>"

lemma trio_wf: "wf_vset trio_vs"
proof -
  have "fmdom' (vs_members trio_vs) = {1, 2, 3}" by (simp add: trio_vs_def)
  moreover have "(\<Sum>a \<in> {1, 2, 3 :: address}. power_of trio_vs a) = 4"
    by (simp add: power_of_def trio_vs_def)
  ultimately show ?thesis by (simp add: wf_vset_def stake_of_def trio_vs_def)
qed

subsection \<open>Properties\<close>

text \<open>
  The threshold test is the strict two-thirds test of the protocol, for every total whose
  double fits \<open>u128\<close>; above that the saturated product makes it unreachable, never too easy.
\<close>

theorem quorum_test_exact:
  "exceeds_threshold accumulated total_power Quorum \<longleftrightarrow>
     2 * unat total_power < 3 * unat accumulated \<and> 2 * unat total_power < 2 ^ 128 - 1"
  by (rule exceeds_quorum_iff)

text \<open>
  Counting is by distinct member: feeding any list of authors to a quorum aggregator never
  overflows, and it reports a quorum exactly when the set of listed members holds more than two
  thirds of the power, however often an author repeats and whoever is not a member.
\<close>

theorem aggregator_counts_members_once:
  assumes "wf_vset vs" and "2 * unat (vs_total_power vs) < 2 ^ 128 - 1"
  shows "\<exists>agg. add_authors vs (agg_quorum (vs_total_power vs)) authors = Inr agg \<and>
    (sa_reached agg \<longleftrightarrow> 2 * unat (vs_total_power vs) < 3 * stake_of vs (set authors))"
proof -
  obtain agg where agg: "add_authors vs (agg_quorum (vs_total_power vs)) authors = Inr agg"
    using add_authors_no_overflow [OF assms(1), of "agg_quorum (vs_total_power vs)" "{}"]
    by (auto simp: agg_quorum_def)
  note exact = quorum_reached_iff [OF add_authors_quorum [OF agg]]
  from agg exact assms(2) show ?thesis by (auto simp: is_quorum_def)
qed

theorem aggregator_counts_members_once_witness:
  "\<exists>agg. add_authors solo_vs (agg_quorum (vs_total_power solo_vs)) [1, 9, 1] = Inr agg \<and> sa_reached agg"
  using aggregator_counts_members_once [OF solo_wf(1), of "[1, 9, 1]"]
  by (simp add: solo_vs_def stake_of_def power_of_def)

text \<open>
  Quorum intersection: two quorums share a member outside any set that holds at most a
  third of the power.
\<close>

theorem quorums_share_honest_member:
  assumes "wf_vset vs" "is_quorum vs A" "is_quorum vs B" "3 * stake_of vs F \<le> unat (vs_total_power vs)"
  shows "\<exists>a. a \<in> A \<and> a \<in> B \<and> a \<notin> F"
  using committee.intersection_outside assms unfolding is_quorum_def by metis

theorem quorums_share_honest_member_witness: "\<exists>a. a \<in> {1 :: address} \<and> a \<in> {1} \<and> a \<notin> {}"
  using quorums_share_honest_member [OF solo_wf(1) solo_wf(2) solo_wf(2), of "{}"] by simp

end
