(* ===== verification/Dag_Block.thy ===== *)
theory Dag_Block
  imports Stake
begin

section \<open>DAG vertices\<close>

text \<open>
  \<^verbatim>\<open>lemma-consensus/src/dag/block.rs\<close>: slots, block references, batch references, commit votes, the
  block itself and its canonical digest. Slots and references key the ordered maps of the
  DAG store, so they carry the derived lexicographic order of the source.

  The digest is \<open>blake3\<close> of \<open>body_bytes\<close>; \<open>body_bytes_inj\<close> shows that the byte string
  determines every field of the body.
\<close>

datatype slot = Slot (slot_round: u64) (slot_author: address)

datatype dag_block_ref = DagBlockRef (ref_round: u64) (ref_author: address) (ref_digest: hash)

datatype tx_batch_ref = TxBatchRef (batch_digest: hash) (batch_author: address) (batch_size: u32)

datatype commit_vote = CommitVote (cv_commit_index: u64) (cv_leader: dag_block_ref)

instantiation slot :: linorder
begin

definition less_eq_slot :: "slot \<Rightarrow> slot \<Rightarrow> bool" where
  "less_eq_slot a b \<longleftrightarrow> slot_round a < slot_round b \<or>
     slot_round a = slot_round b \<and> slot_author a \<le> slot_author b"

definition less_slot :: "slot \<Rightarrow> slot \<Rightarrow> bool" where
  "less_slot a b \<longleftrightarrow> a \<le> b \<and> \<not> b \<le> a"

instance
  by standard (auto simp: less_eq_slot_def less_slot_def slot.expand)

end

instantiation dag_block_ref :: linorder
begin

definition less_eq_dag_block_ref :: "dag_block_ref \<Rightarrow> dag_block_ref \<Rightarrow> bool" where
  "less_eq_dag_block_ref a b \<longleftrightarrow> ref_round a < ref_round b \<or>
     ref_round a = ref_round b \<and> (ref_author a < ref_author b \<or>
     ref_author a = ref_author b \<and> ref_digest a \<le> ref_digest b)"

definition less_dag_block_ref :: "dag_block_ref \<Rightarrow> dag_block_ref \<Rightarrow> bool" where
  "less_dag_block_ref a b \<longleftrightarrow> a \<le> b \<and> \<not> b \<le> a"

instance
  by standard (auto simp: less_eq_dag_block_ref_def less_dag_block_ref_def dag_block_ref.expand)

end

definition ref_slot :: "dag_block_ref \<Rightarrow> slot" where
  "ref_slot r = Slot (ref_round r) (ref_author r)"

record dag_block_body =
  body_epoch :: u64
  body_round :: u64
  body_author :: address
  body_timestamp_ms :: u64
  body_ancestors :: "dag_block_ref list"
  body_payload :: "tx_batch_ref list"
  body_commit_votes :: "commit_vote list"

record dag_block =
  blk_epoch :: u64
  blk_round :: u64
  blk_author :: address
  blk_timestamp_ms :: u64
  blk_ancestors :: "dag_block_ref list"
  blk_payload :: "tx_batch_ref list"
  blk_commit_votes :: "commit_vote list"
  blk_signature :: signature
  blk_digest :: hash

subsection \<open>Canonical digest\<close>

definition encode_ref :: "dag_block_ref \<Rightarrow> bytes" where
  "encode_ref a = to_be_bytes (ref_round a) @ to_be_bytes (ref_author a) @ to_be_bytes (ref_digest a)"

definition encode_batch :: "tx_batch_ref \<Rightarrow> bytes" where
  "encode_batch p =
     to_be_bytes (batch_digest p) @ to_be_bytes (batch_author p) @ to_be_bytes (batch_size p)"

definition encode_vote :: "commit_vote \<Rightarrow> bytes" where
  "encode_vote v = to_be_bytes (cv_commit_index v) @ to_be_bytes (ref_round (cv_leader v))
     @ to_be_bytes (ref_author (cv_leader v)) @ to_be_bytes (ref_digest (cv_leader v))"

definition body_bytes ::
  "u64 \<Rightarrow> u64 \<Rightarrow> address \<Rightarrow> u64 \<Rightarrow> dag_block_ref list \<Rightarrow> tx_batch_ref list \<Rightarrow> commit_vote list \<Rightarrow> bytes"
where
  "body_bytes epch rnd author timestamp_ms ancestors payload commit_votes =
     to_be_bytes epch @ to_be_bytes rnd @ to_be_bytes author @ to_be_bytes timestamp_ms
     @ encode_list encode_ref ancestors @ encode_list encode_batch payload
     @ encode_list encode_vote commit_votes"

definition compute_digest ::
  "hasher \<Rightarrow> u64 \<Rightarrow> u64 \<Rightarrow> address \<Rightarrow> u64 \<Rightarrow> dag_block_ref list \<Rightarrow> tx_batch_ref list \<Rightarrow> commit_vote list
    \<Rightarrow> hash"
where
  "compute_digest blake3 epch rnd author timestamp_ms ancestors payload commit_votes =
     blake3 (body_bytes epch rnd author timestamp_ms ancestors payload commit_votes)"

definition dag_block_new :: "hasher \<Rightarrow> dag_block_body \<Rightarrow> signature \<Rightarrow> dag_block" where
  "dag_block_new blake3 body sig =
     \<lparr>blk_epoch = body_epoch body, blk_round = body_round body, blk_author = body_author body,
      blk_timestamp_ms = body_timestamp_ms body, blk_ancestors = body_ancestors body,
      blk_payload = body_payload body, blk_commit_votes = body_commit_votes body,
      blk_signature = sig,
      blk_digest = compute_digest blake3 (body_epoch body) (body_round body) (body_author body)
        (body_timestamp_ms body) (body_ancestors body) (body_payload body)
        (body_commit_votes body)\<rparr>"

definition reference :: "dag_block \<Rightarrow> dag_block_ref" where
  "reference b = DagBlockRef (blk_round b) (blk_author b) (blk_digest b)"

definition block_slot :: "dag_block \<Rightarrow> slot" where
  "block_slot b = Slot (blk_round b) (blk_author b)"

definition block_bytes :: "dag_block \<Rightarrow> bytes" where
  "block_bytes b = body_bytes (blk_epoch b) (blk_round b) (blk_author b) (blk_timestamp_ms b)
     (blk_ancestors b) (blk_payload b) (blk_commit_votes b)"

definition verify_digest :: "hasher \<Rightarrow> dag_block \<Rightarrow> bool" where
  "verify_digest blake3 b \<longleftrightarrow>
     blk_digest b = compute_digest blake3 (blk_epoch b) (blk_round b) (blk_author b)
       (blk_timestamp_ms b) (blk_ancestors b) (blk_payload b) (blk_commit_votes b)"

definition is_genesis_round :: "dag_block \<Rightarrow> bool" where
  "is_genesis_round b \<longleftrightarrow> blk_round b = 0"

definition ancestors_at_round :: "dag_block \<Rightarrow> u64 \<Rightarrow> dag_block_ref list" where
  "ancestors_at_round b r = filter (\<lambda>a. ref_round a = r) (blk_ancestors b)"

lemma ref_slot_reference [simp]: "ref_slot (reference b) = block_slot b"
  by (simp add: ref_slot_def reference_def block_slot_def)

lemma reference_sel [simp]:
  "ref_round (reference b) = blk_round b"
  "ref_author (reference b) = blk_author b"
  "ref_digest (reference b) = blk_digest b"
  by (simp_all add: reference_def)

lemma ref_slot_eq_iff: "ref_slot r = ref_slot s \<longleftrightarrow> ref_round r = ref_round s \<and> ref_author r = ref_author s"
  by (simp add: ref_slot_def)

lemma ref_eqI: "ref_slot r = ref_slot s \<Longrightarrow> ref_digest r = ref_digest s \<Longrightarrow> r = s"
  by (simp add: ref_slot_def dag_block_ref.expand)

lemma verify_digest_new [simp]: "verify_digest blake3 (dag_block_new blake3 body sig)"
  by (simp add: verify_digest_def dag_block_new_def)

subsection \<open>The encoding determines the body\<close>

interpretation ref_code: prefix_code encode_ref "\<lambda>_. True"
proof
  fix x y r s
  assume "encode_ref x @ r = encode_ref y @ s"
  then have "ref_round x = ref_round y \<and> ref_author x = ref_author y \<and>
      ref_digest x = ref_digest y \<and> r = s"
    by (simp add: encode_ref_def)
  then show "x = y \<and> r = s" by (simp add: dag_block_ref.expand)
qed

interpretation batch_code: prefix_code encode_batch "\<lambda>_. True"
proof
  fix x y r s
  assume "encode_batch x @ r = encode_batch y @ s"
  then have "batch_digest x = batch_digest y \<and> batch_author x = batch_author y \<and>
      batch_size x = batch_size y \<and> r = s"
    by (simp add: encode_batch_def)
  then show "x = y \<and> r = s" by (simp add: tx_batch_ref.expand)
qed

interpretation vote_code: prefix_code encode_vote "\<lambda>_. True"
proof
  fix x y r s
  assume "encode_vote x @ r = encode_vote y @ s"
  then have "cv_commit_index x = cv_commit_index y \<and>
      encode_ref (cv_leader x) @ r = encode_ref (cv_leader y) @ s"
    by (simp add: encode_vote_def encode_ref_def)
  then show "x = y \<and> r = s"
    using ref_code.cut [OF TrueI TrueI] by (auto simp: commit_vote.expand)
qed

text \<open>Vectors shorter than \<open>2 ^ 64\<close>, as every \<open>Vec\<close> of a 64-bit target is.\<close>

definition addressable :: "dag_block \<Rightarrow> bool" where
  "addressable b \<longleftrightarrow> length (blk_ancestors b) < 2 ^ 64 \<and> length (blk_payload b) < 2 ^ 64 \<and>
     length (blk_commit_votes b) < 2 ^ 64"

definition same_body :: "dag_block \<Rightarrow> dag_block \<Rightarrow> bool" where
  "same_body a b \<longleftrightarrow> blk_epoch a = blk_epoch b \<and> blk_round a = blk_round b \<and>
     blk_author a = blk_author b \<and> blk_timestamp_ms a = blk_timestamp_ms b \<and>
     blk_ancestors a = blk_ancestors b \<and> blk_payload a = blk_payload b \<and>
     blk_commit_votes a = blk_commit_votes b"

lemmas vector_cuts =
  prefix_code.cut [OF list_prefix_code [OF ref_code.prefix_code_axioms]]
  prefix_code.cut [OF list_prefix_code [OF batch_code.prefix_code_axioms]]
  prefix_code.cut [OF list_prefix_code [OF vote_code.prefix_code_axioms]]

lemma short_list_true [simp]: "short_list (\<lambda>_. True) xs \<longleftrightarrow> length xs < 2 ^ 64"
  by (simp add: short_list_def list_all_iff)

lemma block_bytes_inj:
  assumes "addressable a" "addressable b" and eq: "block_bytes a = block_bytes b"
  shows "same_body a b"
proof -
  let ?v = "\<lambda>x. encode_list encode_vote (blk_commit_votes x)"
  let ?p = "\<lambda>x. encode_list encode_batch (blk_payload x)"
  let ?a = "\<lambda>x. encode_list encode_ref (blk_ancestors x)"
  from eq have scalars: "blk_epoch a = blk_epoch b \<and> blk_round a = blk_round b \<and>
      blk_author a = blk_author b \<and> blk_timestamp_ms a = blk_timestamp_ms b"
    and r1: "?a a @ (?p a @ ?v a) = ?a b @ (?p b @ ?v b)"
    by (simp_all add: block_bytes_def body_bytes_def)
  from vector_cuts(1) [OF _ _ r1] assms(1,2)
  have anc: "blk_ancestors a = blk_ancestors b" and r2: "?p a @ ?v a = ?p b @ ?v b"
    by (simp_all add: addressable_def)
  from vector_cuts(2) [OF _ _ r2] assms(1,2)
  have pay: "blk_payload a = blk_payload b" and r3: "?v a @ [] = ?v b @ []"
    by (simp_all add: addressable_def)
  from vector_cuts(3) [OF _ _ r3] assms(1,2)
  have "blk_commit_votes a = blk_commit_votes b" by (simp add: addressable_def)
  with scalars anc pay show ?thesis by (simp add: same_body_def)
qed

lemma verify_digest_bytes: "verify_digest blake3 b \<longleftrightarrow> blk_digest b = blake3 (block_bytes b)"
  by (simp add: verify_digest_def compute_digest_def block_bytes_def)

subsection \<open>Properties\<close>

text \<open>
  A verified digest binds the whole body: if the hash has no collision on the two encodings,
  two blocks with valid equal digests agree in every field but the signature.
\<close>

theorem digest_binds_body:
  assumes "verify_digest blake3 a" "verify_digest blake3 b" "blk_digest a = blk_digest b"
    and "blake3 (block_bytes a) = blake3 (block_bytes b) \<longrightarrow> block_bytes a = block_bytes b"
    and "addressable a" "addressable b"
  shows "same_body a b"
  using assms by (intro block_bytes_inj) (simp_all add: verify_digest_bytes)

definition plain_body :: "u64 \<Rightarrow> dag_block_body" where
  "plain_body rnd = \<lparr>body_epoch = 0, body_round = rnd, body_author = 1, body_timestamp_ms = 7,
     body_ancestors = [], body_payload = [], body_commit_votes = []\<rparr>"

theorem digest_binds_body_witness:
  "same_body (dag_block_new (\<lambda>_. 0) (plain_body 2) Unsigned) (dag_block_new (\<lambda>_. 0) (plain_body 2) (Classical [1]))"
proof -
  let ?a = "dag_block_new (\<lambda>_. 0) (plain_body 2) Unsigned" and ?b = "dag_block_new (\<lambda>_. 0) (plain_body 2) (Classical [1])"
  have "block_bytes ?a = block_bytes ?b" by (simp add: block_bytes_def dag_block_new_def)
  moreover have "addressable ?a" "addressable ?b"
    by (simp_all add: addressable_def dag_block_new_def plain_body_def)
  moreover have "blk_digest ?a = blk_digest ?b" by (simp add: dag_block_new_def)
  ultimately show ?thesis using digest_binds_body [of "\<lambda>_. 0" ?a ?b] by simp
qed

end
