(* ===== verification/Validity.thy ===== *)
theory Validity
  imports Dag_Block
begin

section \<open>Block validity rules\<close>

text \<open>
  \<^verbatim>\<open>lemma-consensus/src/dag/validity.rs\<close>: one pure check per rule, in the order in which
  \<open>Dag::insert\<close> applies them. \<open>strong_link_quorum_iff\<close> reads rule 5 as a quorum of the
  authors linked at the previous round.
\<close>

definition validate_digest_integrity :: "hasher \<Rightarrow> dag_block \<Rightarrow> consensus_error + unit" where
  "validate_digest_integrity blake3 b =
     (if verify_digest blake3 b then Inr () else Inl (DigestMismatch (blk_author b) (blk_round b)))"

definition validate_author_and_signature ::
  "dag_block \<Rightarrow> validator_set \<Rightarrow> bool \<Rightarrow> consensus_error + unit" where
  "validate_author_and_signature b vset sig_ok =
     (if blk_author b |\<notin>| fmdom (vs_members vset)
        then Inl (UnknownAuthor (blk_author b) (blk_epoch b))
      else if \<not> sig_ok then Inl (InvalidSignature (blk_author b) (blk_round b))
      else Inr ())"

definition validate_gc_boundary :: "u64 \<Rightarrow> u64 \<Rightarrow> consensus_error + unit" where
  "validate_gc_boundary block_round gc_rnd =
     (if block_round = 0 \<or> block_round > gc_rnd then Inr ()
      else Inl (BelowGcBoundary block_round gc_rnd))"

definition validate_strong_link_quorum ::
  "dag_block \<Rightarrow> validator_set \<Rightarrow> consensus_error + unit" where
  "validate_strong_link_quorum b vset =
     (if is_genesis_round b then Inr ()
      else
        let prev_round = blk_round b - 1
        in rbind (add_authors vset (agg_quorum (vs_total_power vset))
                    (map ref_author (filter (\<lambda>a. ref_round a = prev_round) (blk_ancestors b))))
             (\<lambda>agg. if sa_reached agg then Inr ()
               else Inl (InsufficientStrongLinks (blk_author b) (blk_round b))))"

definition validate_no_equivocation ::
  "dag_block \<Rightarrow> dag_block_ref option \<Rightarrow> consensus_error + unit" where
  "validate_no_equivocation b existing_at_slot = (case existing_at_slot of
      Some existing \<Rightarrow>
        if ref_digest existing \<noteq> blk_digest b
        then Inl (EquivocationError (blk_author b) (blk_round b) (ref_digest existing) (blk_digest b))
        else Inr ()
    | None \<Rightarrow> Inr ())"

definition collect_missing_ancestors ::
  "dag_block \<Rightarrow> (dag_block_ref \<Rightarrow> bool) \<Rightarrow> dag_block_ref list" where
  "collect_missing_ancestors b contains = filter (\<lambda>a. \<not> contains a) (blk_ancestors b)"

text \<open>The authors a block links to at the round before its own.\<close>

definition strong_parents :: "dag_block \<Rightarrow> address set" where
  "strong_parents b = {ref_author a | a. a \<in> set (blk_ancestors b) \<and> ref_round a = blk_round b - 1}"

lemma validate_strong_link_quorumD:
  assumes "validate_strong_link_quorum b vset = Inr ()" and "blk_round b \<noteq> 0"
  shows "is_quorum vset (strong_parents b)"
proof -
  let ?as = "map ref_author (filter (\<lambda>a. ref_round a = blk_round b - 1) (blk_ancestors b))"
  from assms obtain agg where agg: "add_authors vset (agg_quorum (vs_total_power vset)) ?as = Inr agg"
    and "sa_reached agg"
    by (auto simp: validate_strong_link_quorum_def is_genesis_round_def Let_def split: if_splits)
  moreover have "set ?as = strong_parents b" by (auto simp: strong_parents_def)
  ultimately show ?thesis
    using add_authors_quorum [OF agg] quorum_reachedD by metis
qed

lemma strong_link_quorum_iff:
  assumes "wf_vset vset" and "blk_round b \<noteq> 0" and "2 * unat (vs_total_power vset) < 2 ^ 128 - 1"
  shows "validate_strong_link_quorum b vset = Inr () \<longleftrightarrow> is_quorum vset (strong_parents b)"
proof
  assume "validate_strong_link_quorum b vset = Inr ()"
  then show "is_quorum vset (strong_parents b)"
    using assms(2) by (rule validate_strong_link_quorumD)
next
  let ?as = "map ref_author (filter (\<lambda>a. ref_round a = blk_round b - 1) (blk_ancestors b))"
  assume q: "is_quorum vset (strong_parents b)"
  have "strong_parents b = set ?as" by (auto simp: strong_parents_def)
  moreover obtain agg where agg: "add_authors vset (agg_quorum (vs_total_power vset)) ?as = Inr agg"
    using add_authors_no_overflow [OF assms(1) counts_exactly_new] by (auto simp: agg_quorum_def)
  ultimately have "sa_reached agg"
    using q assms(3) add_authors_quorum [OF agg] quorum_reached_iff by metis
  with agg assms(2) show "validate_strong_link_quorum b vset = Inr ()"
    by (simp add: validate_strong_link_quorum_def is_genesis_round_def Let_def)
qed

lemma collect_missing_Nil_iff:
  "collect_missing_ancestors b contains = [] \<longleftrightarrow> (\<forall>a \<in> set (blk_ancestors b). contains a)"
  by (auto simp: collect_missing_ancestors_def filter_empty_conv)

lemma validate_no_equivocation_Inr:
  "validate_no_equivocation b ex = Inr () \<longleftrightarrow> (\<forall>r. ex = Some r \<longrightarrow> ref_digest r = blk_digest b)"
  by (auto simp: validate_no_equivocation_def split: option.splits)

subsection \<open>Properties\<close>

text \<open>
  Rule 5 is exact: a block after the genesis round passes the strong-link check exactly when
  the distinct members it cites at the previous round hold more than two thirds of the power.
\<close>

theorem strong_link_rule_exact:
  assumes "wf_vset vset" and "blk_round b \<noteq> 0" and "2 * unat (vs_total_power vset) < 2 ^ 128 - 1"
  shows "validate_strong_link_quorum b vset = Inr () \<longleftrightarrow>
    2 * unat (vs_total_power vset) < 3 * stake_of vset {ref_author a | a. a \<in> set (blk_ancestors b) \<and> ref_round a = blk_round b - 1}"
proof -
  have "strong_parents b = {ref_author a | a. a \<in> set (blk_ancestors b) \<and> ref_round a = blk_round b - 1}"
    by (auto simp: strong_parents_def ancestors_at_round_def)
  then show ?thesis using strong_link_quorum_iff [OF assms] by (simp add: is_quorum_def)
qed

definition linked_block :: dag_block where
  "linked_block = \<lparr>blk_epoch = 0, blk_round = 1, blk_author = 1, blk_timestamp_ms = 7,
     blk_ancestors = [DagBlockRef 0 1 0, DagBlockRef 0 1 5], blk_payload = [], blk_commit_votes = [],
     blk_signature = Unsigned, blk_digest = 0\<rparr>"

theorem strong_link_rule_exact_witness: "validate_strong_link_quorum linked_block solo_vs = Inr ()"
proof -
  have "{ref_author a | a. a \<in> set (blk_ancestors linked_block) \<and> ref_round a = blk_round linked_block - 1} = {1}"
    by (auto simp: linked_block_def intro!: exI [of _ "DagBlockRef 0 1 0"])
  then show ?thesis
    using strong_link_rule_exact [OF solo_wf(1), of linked_block] solo_wf(2)
    by (simp add: linked_block_def is_quorum_def) (simp add: solo_vs_def)
qed

end
