(* ===== verification/Dag_Graph.thy ===== *)
theory Dag_Graph
  imports Validity
begin

section \<open>The DAG store\<close>

text \<open>
  \<^verbatim>\<open>lemma-consensus/src/dag/graph.rs\<close> and \<^verbatim>\<open>dag/graph/maintenance.rs\<close>: the store of accepted blocks with its
  slot and round indexes, the suspension buffer with its wakeup index, the next-epoch
  buffer, insertion through the validity rules, the unsuspend cascade, and garbage
  collection.

  The cascade \<open>try_unsuspend\<close> recurses from inside its own loop. It is modelled by one
  nested recursion \<open>unsuspend_loop\<close> on the list of waiters; each accepted block leaves
  the suspension buffer, so the buffer's size bounds the recursion.
\<close>

definition MAX_SUSPENDED :: nat where
  "MAX_SUSPENDED = 1000"

definition MAX_NEXT_EPOCH_BUFFER :: nat where
  "MAX_NEXT_EPOCH_BUFFER = 200"

datatype insert_outcome =
    Accepted
  | Suspended
  | NextEpochBuffered
  | Dropped
  | Equivocation address u64 hash hash

record dag =
  d_blocks :: "(dag_block_ref, dag_block) fmap"
  d_by_slot :: "(slot, dag_block_ref) fmap"
  d_by_round :: "(u64, dag_block_ref fset) fmap"
  d_suspended :: "(dag_block_ref, dag_block) fmap"
  d_waiting_for :: "(dag_block_ref, dag_block_ref fset) fmap"
  d_next_epoch_buffer :: "(dag_block_ref, dag_block) fmap"
  d_last_committed_round :: u64
  d_epoch :: u64
  d_pending_equivocations :: "insert_outcome list"

definition dag_new :: "u64 \<Rightarrow> dag" where
  "dag_new epch = \<lparr>d_blocks = fmempty, d_by_slot = fmempty, d_by_round = fmempty,
     d_suspended = fmempty, d_waiting_for = fmempty, d_next_epoch_buffer = fmempty,
     d_last_committed_round = 0, d_epoch = epch, d_pending_equivocations = []\<rparr>"

subsection \<open>Queries\<close>

definition gc_round :: "dag \<Rightarrow> u64" where
  "gc_round d = saturating_sub (d_last_committed_round d) GC_DEPTH"

definition highest_accepted_round :: "dag \<Rightarrow> u64" where
  "highest_accepted_round d =
     (case btree_keys (d_by_round d) of [] \<Rightarrow> 0 | ks \<Rightarrow> last ks)"

definition dag_block_get :: "dag \<Rightarrow> dag_block_ref \<Rightarrow> dag_block option" where
  "dag_block_get d r = fmlookup (d_blocks d) r"

definition block_at_slot :: "dag \<Rightarrow> slot \<Rightarrow> dag_block_ref option" where
  "block_at_slot d s = fmlookup (d_by_slot d) s"

definition blocks_at_round :: "dag \<Rightarrow> u64 \<Rightarrow> dag_block list" where
  "blocks_at_round d r = (case fmlookup (d_by_round d) r of
      None \<Rightarrow> []
    | Some refs \<Rightarrow> List.map_filter (fmlookup (d_blocks d)) (sorted_list_of_fset refs))"

definition dag_contains :: "dag \<Rightarrow> dag_block_ref \<Rightarrow> bool" where
  "dag_contains d r \<longleftrightarrow> r |\<in>| fmdom (d_blocks d)"

definition total_stake_at :: "dag \<Rightarrow> u64 \<Rightarrow> validator_set \<Rightarrow> consensus_error + stake_aggregator" where
  "total_stake_at d r vset =
     add_authors vset (agg_quorum (vs_total_power vset)) (map blk_author (blocks_at_round d r))"

definition drain_equivocations :: "dag \<Rightarrow> insert_outcome list \<times> dag" where
  "drain_equivocations d = (d_pending_equivocations d, d\<lparr>d_pending_equivocations := []\<rparr>)"

subsection \<open>Acceptance and the unsuspend cascade\<close>

definition entry_insert ::
  "('k, 'a fset) fmap \<Rightarrow> 'k \<Rightarrow> 'a \<Rightarrow> ('k, 'a fset) fmap" where
  "entry_insert m k x = fmupd k (finsert x (case fmlookup m k of None \<Rightarrow> {||} | Some s \<Rightarrow> s)) m"

definition accept_block :: "dag \<Rightarrow> dag_block_ref \<Rightarrow> dag_block \<Rightarrow> dag" where
  "accept_block d block_ref b = d\<lparr>
     d_by_slot := fmupd (block_slot b) block_ref (d_by_slot d),
     d_by_round := entry_insert (d_by_round d) (ref_round block_ref) block_ref,
     d_blocks := fmupd block_ref b (d_blocks d)\<rparr>"

definition remove_waiter ::
  "dag_block_ref \<Rightarrow> dag_block_ref \<Rightarrow> (dag_block_ref, dag_block_ref fset) fmap
    \<Rightarrow> (dag_block_ref, dag_block_ref fset) fmap" where
  "remove_waiter r ancestor w = (case fmlookup w ancestor of
      None \<Rightarrow> w
    | Some waiters \<Rightarrow> fmupd ancestor (waiters |-| {|r|}) w)"

definition drop_suspended :: "dag \<Rightarrow> dag_block_ref \<Rightarrow> dag_block \<Rightarrow> dag" where
  "drop_suspended d r b = d\<lparr>
     d_suspended := fmdrop r (d_suspended d),
     d_waiting_for := fold (remove_waiter r) (blk_ancestors b) (d_waiting_for d)\<rparr>"

definition queue_equivocation :: "dag \<Rightarrow> dag_block_ref option \<Rightarrow> dag_block \<Rightarrow> dag" where
  "queue_equivocation d existing b = (case existing of
      None \<Rightarrow> d
    | Some existing_ref \<Rightarrow>
        if ref_digest existing_ref \<noteq> blk_digest b
        then d\<lparr>d_pending_equivocations := d_pending_equivocations d
               @ [Equivocation (blk_author b) (blk_round b) (ref_digest existing_ref) (blk_digest b)]\<rparr>
        else d)"

definition take_waiters :: "dag \<Rightarrow> dag_block_ref \<Rightarrow> dag_block_ref list \<times> dag" where
  "take_waiters d r = (case fmlookup (d_waiting_for d) r of
      None \<Rightarrow> ([], d)
    | Some w \<Rightarrow> (sorted_list_of_fset w, d\<lparr>d_waiting_for := fmdrop r (d_waiting_for d)\<rparr>))"

definition ready_to_unsuspend :: "dag \<Rightarrow> dag_block_ref \<Rightarrow> dag_block option" where
  "ready_to_unsuspend d r = (case fmlookup (d_suspended d) r of
      None \<Rightarrow> None
    | Some b \<Rightarrow> if list_all (dag_contains d) (blk_ancestors b) then Some b else None)"

lemma drop_suspended_card:
  assumes "ready_to_unsuspend d r = Some b"
  shows "btree_len (d_suspended (drop_suspended d r b)) < btree_len (d_suspended d)"
proof -
  have "r |\<in>| fmdom (d_suspended d)"
    using assms by (auto simp: ready_to_unsuspend_def fmlookup_dom_iff split: option.splits)
  then have "fmdom (d_suspended d) |-| {|r|} |\<subset>| fmdom (d_suspended d)" by blast
  then have "fcard (fmdom (d_suspended d) |-| {|r|}) < fcard (fmdom (d_suspended d))"
    by (rule pfsubset_fcard_mono)
  moreover have "fmdom (d_suspended (drop_suspended d r b)) = fmdom (d_suspended d) |-| {|r|}"
    by (simp add: drop_suspended_def)
  ultimately show ?thesis by (simp only:)
qed

lemma accept_block_suspended [simp]: "d_suspended (accept_block d r b) = d_suspended d"
  by (simp add: accept_block_def)

lemma queue_equivocation_suspended [simp]: "d_suspended (queue_equivocation d e b) = d_suspended d"
  by (simp add: queue_equivocation_def split: option.splits)

lemma take_waiters_suspended [simp]: "d_suspended (snd (take_waiters d r)) = d_suspended d"
  by (simp add: take_waiters_def split: option.splits)

function unsuspend_loop :: "validator_set \<Rightarrow> dag_block_ref list \<Rightarrow> dag \<Rightarrow> dag" where
  "unsuspend_loop vset [] d = d"
| "unsuspend_loop vset (r # rest) d = (case ready_to_unsuspend d r of
      None \<Rightarrow> unsuspend_loop vset rest d
    | Some b \<Rightarrow>
        let d1 = drop_suspended d r b;
            strong_ok = is_ok (validate_strong_link_quorum b vset);
            existing = block_at_slot d1 (block_slot b);
            no_equiv = is_ok (validate_no_equivocation b existing)
        in if strong_ok \<and> no_equiv then
             let d2 = accept_block d1 r b;
                 d3 = unsuspend_loop vset (fst (take_waiters d2 r)) (snd (take_waiters d2 r))
             in unsuspend_loop vset rest d3
           else if \<not> no_equiv then unsuspend_loop vset rest (queue_equivocation d1 existing b)
           else unsuspend_loop vset rest d1)"
  by pat_completeness auto

lemma unsuspend_loop_shrinks:
  "unsuspend_loop_dom (vset, xs, d) \<Longrightarrow>
    btree_len (d_suspended (unsuspend_loop vset xs d)) \<le> btree_len (d_suspended d)"
proof (induction vset xs d rule: unsuspend_loop.pinduct)
  case (1 vset d)
  then show ?case by (simp add: unsuspend_loop.psimps)
next
  case (2 vset r rest d)
  show ?case
  proof (cases "ready_to_unsuspend d r")
    case None
    then show ?thesis using 2 by (simp add: unsuspend_loop.psimps)
  next
    case (Some b)
    note shrink = drop_suspended_card [OF Some]
    show ?thesis
      using 2 Some shrink
      by (simp add: unsuspend_loop.psimps Let_def) fastforce
  qed
qed

termination unsuspend_loop
proof (relation "inv_image (less_than <*lex*> less_than)
    (\<lambda>p. (btree_len (d_suspended (snd (snd p))), length (fst (snd p))))", goal_cases)
  case 1
  show ?case by (intro wf_inv_image wf_lex_prod wf_less_than)
next
  case (4 vset r rest d b d1 strong_ok existing no_equiv d2 d3)
  then have "btree_len (d_suspended d3) \<le> btree_len (d_suspended (snd (take_waiters d2 r)))"
    using unsuspend_loop_shrinks by blast
  with 4 drop_suspended_card [of d r b] show ?case by simp
qed (auto dest: drop_suspended_card)

declare unsuspend_loop.simps(2) [simp del]

definition try_unsuspend :: "dag \<Rightarrow> dag_block_ref \<Rightarrow> validator_set \<Rightarrow> dag" where
  "try_unsuspend d newly_accepted vset =
     unsuspend_loop vset (fst (take_waiters d newly_accepted)) (snd (take_waiters d newly_accepted))"

subsection \<open>Insertion\<close>

definition suspend_block :: "dag \<Rightarrow> dag_block_ref \<Rightarrow> dag_block \<Rightarrow> dag_block_ref list \<Rightarrow> dag" where
  "suspend_block d block_ref b missing = d\<lparr>
     d_waiting_for := fold (\<lambda>m w. entry_insert w m block_ref) missing (d_waiting_for d),
     d_suspended := fmupd block_ref b (d_suspended d)\<rparr>"

text \<open>
  Every error of \<open>insert\<close> is raised before the store is written, so the store is returned
  as it was. \<open>insert_verified\<close> is the part of \<open>insert\<close> after the epoch and digest checks.
\<close>

definition insert_verified ::
  "dag \<Rightarrow> dag_block \<Rightarrow> validator_set \<Rightarrow> bool \<Rightarrow> (consensus_error + insert_outcome) \<times> dag"
where
  "insert_verified d b vset sig_ok =
     (let block_ref = reference b in
      case validate_author_and_signature b vset sig_ok of Inl e \<Rightarrow> (Inl e, d)
      | Inr _ \<Rightarrow> (case validate_gc_boundary (blk_round b) (gc_round d) of Inl e \<Rightarrow> (Inl e, d)
      | Inr _ \<Rightarrow>
        let missing = collect_missing_ancestors b (dag_contains d) in
        if missing \<noteq> [] then
          (if btree_len (d_suspended d) < MAX_SUSPENDED
           then (Inr Suspended, suspend_block d block_ref b missing)
           else (Inr Dropped, d))
        else case validate_strong_link_quorum b vset of Inl e \<Rightarrow> (Inl e, d)
        | Inr _ \<Rightarrow> (case validate_no_equivocation b (block_at_slot d (block_slot b)) of
            Inl (EquivocationError author rnd first second) \<Rightarrow>
              (Inr (Equivocation author rnd first second), d)
          | Inl e \<Rightarrow> (Inl e, d)
          | Inr _ \<Rightarrow>
              (Inr Accepted, try_unsuspend (accept_block d block_ref b) block_ref vset))))"

definition dag_insert ::
  "hasher \<Rightarrow> dag \<Rightarrow> dag_block \<Rightarrow> validator_set \<Rightarrow> bool \<Rightarrow> (consensus_error + insert_outcome) \<times> dag"
where
  "dag_insert blake3 d b vset sig_ok =
     (let block_ref = reference b in
      if dag_contains d block_ref then (Inr Accepted, d)
      else if blk_epoch b > d_epoch d then
        (if blk_epoch b = d_epoch d + 1 then
           (if btree_len (d_next_epoch_buffer d) < MAX_NEXT_EPOCH_BUFFER
            then (Inr NextEpochBuffered,
                  d\<lparr>d_next_epoch_buffer := fmupd block_ref b (d_next_epoch_buffer d)\<rparr>)
            else (Inr Dropped, d))
         else (Inl (EpochMismatch (d_epoch d) (blk_epoch b)), d))
      else if blk_epoch b < d_epoch d then (Inl (EpochMismatch (d_epoch d) (blk_epoch b)), d)
      else case validate_digest_integrity blake3 b of
        Inl e \<Rightarrow> (Inl e, d)
      | Inr _ \<Rightarrow> insert_verified d b vset sig_ok)"

subsection \<open>Garbage collection and epoch advance\<close>

definition gc_refs :: "dag \<Rightarrow> u64 list \<Rightarrow> dag_block_ref fset" where
  "gc_refs d rounds = fold (\<lambda>r acc. case fmlookup (d_by_round d) r of
      None \<Rightarrow> acc | Some refs \<Rightarrow> acc |\<union>| refs) rounds {||}"

definition stranded :: "dag \<Rightarrow> u64 \<Rightarrow> dag_block_ref \<times> dag_block \<Rightarrow> bool" where
  "stranded d gc e \<longleftrightarrow> ref_round (fst e) \<le> gc \<or>
     list_ex (\<lambda>a. ref_round a \<le> gc \<and> \<not> dag_contains d a) (blk_ancestors (snd e))"

definition evict_suspended :: "dag_block_ref \<Rightarrow> dag \<Rightarrow> dag" where
  "evict_suspended r d = (case fmlookup (d_suspended d) r of
      None \<Rightarrow> d | Some b \<Rightarrow> drop_suspended d r b)"

definition drop_collected :: "dag \<Rightarrow> u64 \<Rightarrow> dag" where
  "drop_collected d gc =
     (let gc_rounds = filter (\<lambda>r. r \<le> gc) (btree_keys (d_by_round d));
          refs = sorted_list_of_fset (gc_refs d gc_rounds)
      in d\<lparr>d_by_round := fold fmdrop gc_rounds (d_by_round d),
           d_blocks := fold fmdrop refs (d_blocks d),
           d_by_slot := fold (\<lambda>r. fmdrop (ref_slot r)) refs (d_by_slot d)\<rparr>)"

definition suspended_to_drop :: "dag \<Rightarrow> u64 \<Rightarrow> dag_block_ref list" where
  "suspended_to_drop d gc = map fst (filter (stranded d gc) (sorted_list_of_fmap (d_suspended d)))"

definition collect_garbage :: "dag \<Rightarrow> dag" where
  "collect_garbage d =
     (let gc = gc_round d;
          d1 = drop_collected d gc;
          d2 = fold evict_suspended (suspended_to_drop d1 gc) d1
      in d2\<lparr>d_waiting_for :=
           fmfilter (\<lambda>k. ref_round k > gc \<and> fmlookup (d_waiting_for d2) k \<noteq> Some {||})
             (d_waiting_for d2)\<rparr>)"

definition set_last_committed_round :: "dag \<Rightarrow> u64 \<Rightarrow> dag" where
  "set_last_committed_round d r =
     (if r \<le> d_last_committed_round d then d
      else collect_garbage (d\<lparr>d_last_committed_round := r\<rparr>))"

definition dag_advance_epoch :: "dag \<Rightarrow> u64 \<Rightarrow> dag_block list \<times> dag" where
  "dag_advance_epoch d new_epoch =
     (if new_epoch \<noteq> d_epoch d + 1 then ([], d)
      else (btree_values (d_next_epoch_buffer d),
            d\<lparr>d_epoch := new_epoch, d_next_epoch_buffer := fmempty\<rparr>))"

end
