(* ===== verification/Commit_Record.thy ===== *)
theory Commit_Record
  imports Dag_Graph
begin

section \<open>Commit records\<close>

text \<open>
  \<^verbatim>\<open>lemma-consensus/src/commit.rs\<close>: the output record of the commit rule, chained to its
  predecessor by digest. \<open>commit_bytes_inj\<close> shows that the hashed byte string determines the
  whole record, the predecessor's digest included.
\<close>

record commit =
  c_index :: u64
  c_previous_digest :: hash
  c_timestamp_ms :: u64
  c_leader :: dag_block_ref
  c_blocks :: "dag_block_ref list"

definition commit_bytes :: "commit \<Rightarrow> bytes" where
  "commit_bytes c = to_be_bytes (c_index c) @ to_be_bytes (c_previous_digest c)
     @ to_be_bytes (c_timestamp_ms c) @ to_be_bytes (ref_round (c_leader c))
     @ to_be_bytes (ref_author (c_leader c)) @ to_be_bytes (ref_digest (c_leader c))
     @ encode_list encode_ref (c_blocks c)"

definition commit_digest :: "hasher \<Rightarrow> commit \<Rightarrow> hash" where
  "commit_digest blake3 c = blake3 (commit_bytes c)"

definition genesis_previous :: hash where
  "genesis_previous = hash_zero"

lemma commit_bytes_inj:
  assumes "length (c_blocks a) < 2 ^ 64" "length (c_blocks b) < 2 ^ 64"
    and "commit_bytes a = commit_bytes (b :: commit)"
  shows "a = b"
proof -
  have "c_index a = c_index b \<and> c_previous_digest a = c_previous_digest b \<and>
      c_timestamp_ms a = c_timestamp_ms b \<and> c_leader a = c_leader b"
    and "encode_list encode_ref (c_blocks a) @ [] = encode_list encode_ref (c_blocks b) @ []"
    using assms(3) by (simp_all add: commit_bytes_def dag_block_ref.expand)
  moreover have "c_blocks a = c_blocks b"
    using vector_cuts(1) [OF _ _ calculation(2)] assms(1,2) by simp
  ultimately show ?thesis by simp
qed

end
