(* ===== verification/Dag_Invariant.thy ===== *)
theory Dag_Invariant
  imports Dag_Graph
begin

section \<open>The invariant of the DAG store\<close>

text \<open>
  What every operation of \<^verbatim>\<open>dag/graph.rs\<close> and \<^verbatim>\<open>dag/graph/maintenance.rs\<close> keeps, for the store
  of one epoch and its committee:

  \<^item> \<open>indexed\<close>: the slot index and the round index describe the accepted blocks exactly,
    which leaves one accepted block per slot;
  \<^item> \<open>blocks_ok\<close>: an accepted block is stored under its own reference, carries its own
    digest, was written by a member of the committee in the store's epoch above the
    garbage-collection boundary, and links to a quorum of the previous round;
  \<^item> \<open>causally_closed\<close>: each ancestor of an accepted block is accepted, or lies at or below
    the garbage-collection boundary;
  \<^item> \<open>wakeups\<close>: a suspended block waits for an ancestor that is really missing, and
    is registered under each missing ancestor. No suspended block is forgotten.

  The cascade breaks \<open>wakeups\<close> for the references it still has to visit, so it is stated
  relative to that set.
\<close>

definition waiters :: "dag \<Rightarrow> dag_block_ref \<Rightarrow> dag_block_ref fset" where
  "waiters d a = (case fmlookup (d_waiting_for d) a of None \<Rightarrow> {||} | Some w \<Rightarrow> w)"

definition refs_at :: "dag \<Rightarrow> u64 \<Rightarrow> dag_block_ref fset" where
  "refs_at d n = (case fmlookup (d_by_round d) n of None \<Rightarrow> {||} | Some s \<Rightarrow> s)"

definition admissible :: "hasher \<Rightarrow> validator_set \<Rightarrow> dag \<Rightarrow> dag_block \<Rightarrow> bool" where
  "admissible blake3 vs d b \<longleftrightarrow> verify_digest blake3 b \<and> blk_author b |\<in>| fmdom (vs_members vs) \<and>
     blk_epoch b = d_epoch d \<and> (blk_round b = 0 \<or> gc_round d < blk_round b)"

definition strongly_linked :: "validator_set \<Rightarrow> dag_block \<Rightarrow> bool" where
  "strongly_linked vs b \<longleftrightarrow> blk_round b \<noteq> 0 \<longrightarrow> is_quorum vs (strong_parents b)"

definition indexed :: "dag \<Rightarrow> bool" where
  "indexed d \<longleftrightarrow>
     (\<forall>s r. fmlookup (d_by_slot d) s = Some r \<longleftrightarrow> dag_contains d r \<and> ref_slot r = s) \<and>
     (\<forall>n r. r |\<in>| refs_at d n \<longleftrightarrow> dag_contains d r \<and> ref_round r = n)"

definition blocks_ok :: "hasher \<Rightarrow> validator_set \<Rightarrow> dag \<Rightarrow> bool" where
  "blocks_ok blake3 vs d \<longleftrightarrow> (\<forall>r b. fmlookup (d_blocks d) r = Some b \<longrightarrow>
     reference b = r \<and> admissible blake3 vs d b \<and> strongly_linked vs b)"

definition causally_closed :: "dag \<Rightarrow> bool" where
  "causally_closed d \<longleftrightarrow> (\<forall>r b. fmlookup (d_blocks d) r = Some b \<longrightarrow>
     (\<forall>a \<in> set (blk_ancestors b). dag_contains d a \<or> ref_round a \<le> gc_round d))"

definition suspended_ok :: "hasher \<Rightarrow> validator_set \<Rightarrow> dag \<Rightarrow> bool" where
  "suspended_ok blake3 vs d \<longleftrightarrow> (\<forall>r b. fmlookup (d_suspended d) r = Some b \<longrightarrow>
     reference b = r \<and> admissible blake3 vs d b)"

definition wakeups :: "dag_block_ref set \<Rightarrow> dag \<Rightarrow> bool" where
  "wakeups P d \<longleftrightarrow> (\<forall>r b. fmlookup (d_suspended d) r = Some b \<longrightarrow>
     (\<forall>a \<in> set (blk_ancestors b). \<not> dag_contains d a \<longrightarrow> r |\<in>| waiters d a) \<and>
     (r \<in> P \<or> (\<exists>a \<in> set (blk_ancestors b). \<not> dag_contains d a)))"

definition dag_inv_upto :: "dag_block_ref set \<Rightarrow> hasher \<Rightarrow> validator_set \<Rightarrow> dag \<Rightarrow> bool" where
  "dag_inv_upto P blake3 vs d \<longleftrightarrow> indexed d \<and> blocks_ok blake3 vs d \<and> causally_closed d \<and>
     suspended_ok blake3 vs d \<and> wakeups P d"

definition dag_inv :: "hasher \<Rightarrow> validator_set \<Rightarrow> dag \<Rightarrow> bool" where
  "dag_inv blake3 vs d \<longleftrightarrow> dag_inv_upto {} blake3 vs d"

lemmas dag_inv_parts = dag_inv_upto_def indexed_def blocks_ok_def causally_closed_def
  suspended_ok_def wakeups_def

subsection \<open>What the elementary updates touch\<close>

lemma gc_round_cong: "d_last_committed_round d = d_last_committed_round d' \<Longrightarrow> gc_round d = gc_round d'"
  by (simp add: gc_round_def)

lemma admissible_cong:
  "d_epoch d = d_epoch d' \<Longrightarrow> gc_round d = gc_round d' \<Longrightarrow>
    admissible blake3 vs d b = admissible blake3 vs d' b"
  by (simp add: admissible_def)

lemma drop_suspended_simps [simp]:
  "d_blocks (drop_suspended d r b) = d_blocks d"
  "d_by_slot (drop_suspended d r b) = d_by_slot d"
  "d_by_round (drop_suspended d r b) = d_by_round d"
  "d_suspended (drop_suspended d r b) = fmdrop r (d_suspended d)"
  "d_next_epoch_buffer (drop_suspended d r b) = d_next_epoch_buffer d"
  "d_last_committed_round (drop_suspended d r b) = d_last_committed_round d"
  "d_epoch (drop_suspended d r b) = d_epoch d"
  by (simp_all add: drop_suspended_def)

lemma fold_remove_waiter:
  "fmlookup (fold (remove_waiter r) as w) a =
     (if a \<in> set as then map_option (\<lambda>s. s |-| {|r|}) (fmlookup w a) else fmlookup w a)"
  by (induction as arbitrary: w)
    (auto simp: remove_waiter_def fset_eq_iff split: option.splits intro: option.map_cong)

lemma waiters_drop_suspended [simp]:
  "waiters (drop_suspended d r b) a =
     (if a \<in> set (blk_ancestors b) then waiters d a |-| {|r|} else waiters d a)"
  by (simp add: waiters_def drop_suspended_def fold_remove_waiter split: option.splits)

lemma accept_block_simps [simp]:
  "d_blocks (accept_block d r b) = fmupd r b (d_blocks d)"
  "d_by_slot (accept_block d r b) = fmupd (block_slot b) r (d_by_slot d)"
  "d_next_epoch_buffer (accept_block d r b) = d_next_epoch_buffer d"
  "d_last_committed_round (accept_block d r b) = d_last_committed_round d"
  "d_epoch (accept_block d r b) = d_epoch d"
  "d_waiting_for (accept_block d r b) = d_waiting_for d"
  by (simp_all add: accept_block_def)

lemma refs_at_accept_block [simp]:
  "refs_at (accept_block d r b) n =
     (if n = ref_round r then finsert r (refs_at d n) else refs_at d n)"
  by (simp add: refs_at_def accept_block_def entry_insert_def split: option.splits)

lemma queue_equivocation_simps [simp]:
  "d_blocks (queue_equivocation d e b) = d_blocks d"
  "d_by_slot (queue_equivocation d e b) = d_by_slot d"
  "d_by_round (queue_equivocation d e b) = d_by_round d"
  "d_waiting_for (queue_equivocation d e b) = d_waiting_for d"
  "d_next_epoch_buffer (queue_equivocation d e b) = d_next_epoch_buffer d"
  "d_last_committed_round (queue_equivocation d e b) = d_last_committed_round d"
  "d_epoch (queue_equivocation d e b) = d_epoch d"
  by (simp_all add: queue_equivocation_def split: option.splits)

lemma take_waiters_simps [simp]:
  "d_blocks (snd (take_waiters d r)) = d_blocks d"
  "d_by_slot (snd (take_waiters d r)) = d_by_slot d"
  "d_by_round (snd (take_waiters d r)) = d_by_round d"
  "d_next_epoch_buffer (snd (take_waiters d r)) = d_next_epoch_buffer d"
  "d_last_committed_round (snd (take_waiters d r)) = d_last_committed_round d"
  "d_epoch (snd (take_waiters d r)) = d_epoch d"
  "set (fst (take_waiters d r)) = fset (waiters d r)"
  "waiters (snd (take_waiters d r)) a = (if a = r then {||} else waiters d a)"
  by (auto simp: take_waiters_def waiters_def split: option.splits)

lemma dag_contains_simps [simp]:
  "dag_contains (drop_suspended d r b) x = dag_contains d x"
  "dag_contains (accept_block d r b) x = (x = r \<or> dag_contains d x)"
  "dag_contains (queue_equivocation d e b) x = dag_contains d x"
  "dag_contains (snd (take_waiters d r)) x = dag_contains d x"
  by (auto simp: dag_contains_def)

lemma gc_round_simps [simp]:
  "gc_round (drop_suspended d r b) = gc_round d"
  "gc_round (accept_block d r b) = gc_round d"
  "gc_round (queue_equivocation d e b) = gc_round d"
  "gc_round (snd (take_waiters d r)) = gc_round d"
  by (simp_all add: gc_round_def)

lemma refs_at_simps [simp]:
  "refs_at (drop_suspended d r b) n = refs_at d n"
  "refs_at (queue_equivocation d e b) n = refs_at d n"
  "refs_at (snd (take_waiters d r)) n = refs_at d n"
  by (simp_all add: refs_at_def)

lemma waiters_simps [simp]:
  "waiters (accept_block d r b) a = waiters d a"
  "waiters (queue_equivocation d e b) a = waiters d a"
  by (simp_all add: waiters_def)

lemma admissible_simps [simp]:
  "admissible blake3 vs (drop_suspended d r c) b = admissible blake3 vs d b"
  "admissible blake3 vs (accept_block d r c) b = admissible blake3 vs d b"
  "admissible blake3 vs (queue_equivocation d e c) b = admissible blake3 vs d b"
  "admissible blake3 vs (snd (take_waiters d r)) b = admissible blake3 vs d b"
  by (simp_all add: admissible_def)

subsection \<open>The elementary updates keep the invariant\<close>

lemma drop_suspended_inv:
  assumes "dag_inv_upto (insert r P) blake3 vs d"
  shows "dag_inv_upto P blake3 vs (drop_suspended d r b)"
  using assms unfolding dag_inv_parts by (simp add: drop_suspended_simps(4)) blast

lemma queue_equivocation_inv:
  "dag_inv_upto P blake3 vs d \<Longrightarrow> dag_inv_upto P blake3 vs (queue_equivocation d e b)"
  by (simp add: dag_inv_parts)

lemma indexed_accept:
  assumes "indexed d" and "reference b = r"
    and "is_ok (validate_no_equivocation b (block_at_slot d (block_slot b)))"
  shows "indexed (accept_block d r b)"
proof -
  have same: "x = r" if "dag_contains d x" "ref_slot x = block_slot b" for x
  proof -
    have "fmlookup (d_by_slot d) (block_slot b) = Some x"
      using assms(1) that by (auto simp: indexed_def)
    then have "ref_digest x = blk_digest b"
      using assms(3) by (simp add: is_ok_iff validate_no_equivocation_Inr block_at_slot_def)
    then show "x = r" using that assms(2) by (metis ref_eqI ref_slot_reference reference_sel(3))
  qed
  have "ref_slot r = block_slot b" using assms(2) by auto
  then show ?thesis using assms(1) same by (auto simp: indexed_def)
qed

lemma accept_take_inv:
  assumes inv: "dag_inv_upto P blake3 vs d"
    and b: "reference b = r" "admissible blake3 vs d b" "strongly_linked vs b"
    and anc: "list_all (dag_contains d) (blk_ancestors b)"
    and no_equiv: "is_ok (validate_no_equivocation b (block_at_slot d (block_slot b)))"
  shows "dag_inv_upto (fset (waiters d r) \<union> P) blake3 vs (snd (take_waiters (accept_block d r b) r))"
proof -
  let ?d = "accept_block d r b" and ?e = "snd (take_waiters (accept_block d r b) r)"
  have "indexed ?d" using inv b(1) no_equiv by (simp add: dag_inv_upto_def indexed_accept)
  then have "indexed ?e" by (simp add: indexed_def)
  moreover have "blocks_ok blake3 vs ?e"
    using inv b by (simp add: dag_inv_upto_def blocks_ok_def)
  moreover have "causally_closed ?e"
    using inv anc by (auto simp: dag_inv_upto_def causally_closed_def list_all_iff)
  moreover have "suspended_ok blake3 vs ?e"
    using inv by (simp add: dag_inv_upto_def suspended_ok_def)
  moreover have "wakeups (fset (waiters d r) \<union> P) ?e"
    using inv unfolding dag_inv_upto_def wakeups_def by (simp add: Ball_def Bex_def) blast
  ultimately show ?thesis by (simp add: dag_inv_upto_def)
qed

subsection \<open>The cascade\<close>

lemma ready_to_unsuspendD:
  assumes "ready_to_unsuspend d r = Some b"
  shows "fmlookup (d_suspended d) r = Some b" and "list_all (dag_contains d) (blk_ancestors b)"
  using assms by (auto simp: ready_to_unsuspend_def split: option.splits if_splits)

lemma not_ready_upto:
  assumes "ready_to_unsuspend d r = None" and "dag_inv_upto (insert r P) blake3 vs d"
  shows "dag_inv_upto P blake3 vs d"
proof -
  have "\<exists>a \<in> set (blk_ancestors b). \<not> dag_contains d a" if "fmlookup (d_suspended d) r = Some b" for b
    using assms(1) that by (auto simp: ready_to_unsuspend_def list_all_iff split: if_splits)
  then have "wakeups P d"
    using assms(2) unfolding dag_inv_upto_def wakeups_def by blast
  then show ?thesis using assms(2) by (simp add: dag_inv_upto_def)
qed

lemma unsuspend_loop_inv:
  "dag_inv_upto (set xs \<union> P) blake3 vs d \<Longrightarrow> dag_inv_upto P blake3 vs (unsuspend_loop vs xs d)"
proof (induction vs xs d arbitrary: P rule: unsuspend_loop.induct)
  case (1 vset d)
  then show ?case by simp
next
  case (2 vset r rest d)
  have start: "dag_inv_upto (insert r (set rest \<union> P)) blake3 vset d" using "2.prems" by simp
  show ?case
  proof (cases "ready_to_unsuspend d r")
    case None
    then show ?thesis
      using "2.IH"(1) [OF None] not_ready_upto [OF None start] by (simp add: unsuspend_loop.simps(2))
  next
    case (Some b)
    let ?d1 = "drop_suspended d r b"
    let ?e = "block_at_slot ?d1 (block_slot b)"
    let ?d2 = "accept_block ?d1 r b"
    let ?strong = "is_ok (validate_strong_link_quorum b vset)"
    let ?equiv = "is_ok (validate_no_equivocation b ?e)"
    have d1: "dag_inv_upto (set rest \<union> P) blake3 vset ?d1" using start by (rule drop_suspended_inv)
    show ?thesis
    proof (cases "?strong \<and> ?equiv")
      case True
      have b: "reference b = r" "admissible blake3 vset d b"
        using start ready_to_unsuspendD(1) [OF Some] by (simp_all add: dag_inv_parts)
      moreover have "strongly_linked vset b"
        using True validate_strong_link_quorumD [of b vset] by (auto simp: is_ok_iff strongly_linked_def)
      ultimately have "dag_inv_upto (fset (waiters ?d1 r) \<union> (set rest \<union> P)) blake3 vset
          (snd (take_waiters ?d2 r))"
        using accept_take_inv [OF d1, of b r] ready_to_unsuspendD(2) [OF Some] True
        by (simp add: list_all_iff)
      then have "dag_inv_upto (set rest \<union> P) blake3 vset
          (unsuspend_loop vset (fst (take_waiters ?d2 r)) (snd (take_waiters ?d2 r)))"
        by (intro "2.IH"(2) [OF Some refl refl refl refl True refl]) simp
      then show ?thesis
        using "2.IH"(3) [OF Some refl refl refl refl True refl refl] Some True
        by (simp add: unsuspend_loop.simps(2) Let_def)
    next
      case False
      then show ?thesis
        using "2.IH"(4) [OF Some refl refl refl refl False] "2.IH"(5) [OF Some refl refl refl refl False]
          d1 queue_equivocation_inv [OF d1] Some
        by (auto simp: unsuspend_loop.simps(2) Let_def)
    qed
  qed
qed

subsection \<open>Insertion\<close>

lemma dag_new_inv: "dag_inv blake3 vs (dag_new epch)"
  by (simp add: dag_inv_def dag_inv_parts dag_new_def dag_contains_def refs_at_def)

lemma entry_insert_fold:
  "fmlookup (fold (\<lambda>m w. entry_insert w m r) ms w) a =
     (if a \<in> set ms then Some (finsert r (case fmlookup w a of None \<Rightarrow> {||} | Some s \<Rightarrow> s))
      else fmlookup w a)"
  by (induction ms arbitrary: w) (auto simp: entry_insert_def)

lemma suspend_block_simps [simp]:
  "d_blocks (suspend_block d r b ms) = d_blocks d"
  "d_by_slot (suspend_block d r b ms) = d_by_slot d"
  "d_suspended (suspend_block d r b ms) = fmupd r b (d_suspended d)"
  "d_next_epoch_buffer (suspend_block d r b ms) = d_next_epoch_buffer d"
  "d_epoch (suspend_block d r b ms) = d_epoch d"
  "d_last_committed_round (suspend_block d r b ms) = d_last_committed_round d"
  "gc_round (suspend_block d r b ms) = gc_round d"
  "refs_at (suspend_block d r b ms) n = refs_at d n"
  "dag_contains (suspend_block d r b ms) x = dag_contains d x"
  "admissible blake3 vs (suspend_block d r b ms) c = admissible blake3 vs d c"
  "waiters (suspend_block d r b ms) a = (if a \<in> set ms then finsert r (waiters d a) else waiters d a)"
  by (simp_all add: suspend_block_def gc_round_def refs_at_def dag_contains_def admissible_def
      waiters_def entry_insert_fold)

lemma suspend_block_inv:
  assumes inv: "dag_inv blake3 vs d" and b: "reference b = r" "admissible blake3 vs d b"
    and ms: "ms = collect_missing_ancestors b (dag_contains d)" "ms \<noteq> []"
  shows "dag_inv blake3 vs (suspend_block d r b ms)"
proof -
  let ?d = "suspend_block d r b ms"
  have missing: "a \<in> set ms \<longleftrightarrow> a \<in> set (blk_ancestors b) \<and> \<not> dag_contains d a" for a
    by (simp add: ms(1) collect_missing_ancestors_def)
  obtain m where "m \<in> set ms" using ms(2) by (cases ms) auto
  then have "wakeups {} ?d"
    using inv missing unfolding dag_inv_def dag_inv_upto_def wakeups_def by simp blast
  moreover have "indexed ?d" "blocks_ok blake3 vs ?d" "causally_closed ?d" "suspended_ok blake3 vs ?d"
    using inv b by (simp_all add: dag_inv_def dag_inv_parts)
  ultimately show ?thesis by (simp add: dag_inv_def dag_inv_upto_def)
qed

lemma accept_cascade_inv:
  assumes inv: "dag_inv blake3 vs d" and b: "admissible blake3 vs d b"
    and anc: "collect_missing_ancestors b (dag_contains d) = []"
    and strong: "validate_strong_link_quorum b vs = Inr ()"
    and no_equiv: "validate_no_equivocation b (block_at_slot d (block_slot b)) = Inr ()"
  shows "dag_inv blake3 vs (try_unsuspend (accept_block d (reference b) b) (reference b) vs)"
proof -
  have "strongly_linked vs b"
    using strong validate_strong_link_quorumD by (simp add: strongly_linked_def)
  then have "dag_inv_upto (fset (waiters d (reference b)) \<union> {}) blake3 vs
      (snd (take_waiters (accept_block d (reference b) b) (reference b)))"
    using accept_take_inv [of "{}" blake3 vs d b "reference b"] assms
    by (simp add: dag_inv_def list_all_iff collect_missing_Nil_iff)
  then show ?thesis
    unfolding dag_inv_def try_unsuspend_def by (intro unsuspend_loop_inv) simp
qed

lemma checks_admissible:
  assumes "validate_digest_integrity blake3 b = Inr ()"
    and "validate_author_and_signature b vs sig_ok = Inr ()"
    and "validate_gc_boundary (blk_round b) (gc_round d) = Inr ()"
    and "\<not> d_epoch d < blk_epoch b" "\<not> blk_epoch b < d_epoch d"
  shows "admissible blake3 vs d b" and "sig_ok"
  using assms by (auto simp: admissible_def validate_digest_integrity_def
      validate_author_and_signature_def validate_gc_boundary_def split: if_splits)

text \<open>
  The branches of \<open>insert\<close>: what the store is after each result, and what the block
  satisfied on the way.
\<close>

lemma dag_insert_cases:
  assumes "dag_insert blake3 d b vs sig_ok = (res, d')"
  obtains (kept) "d' = d"
  | (buffered) "res = Inr NextEpochBuffered" "blk_epoch b = d_epoch d + 1"
      "btree_len (d_next_epoch_buffer d) < MAX_NEXT_EPOCH_BUFFER"
      "d' = d\<lparr>d_next_epoch_buffer := fmupd (reference b) b (d_next_epoch_buffer d)\<rparr>"
  | (suspended) "res = Inr Suspended" "admissible blake3 vs d b" "sig_ok"
      "btree_len (d_suspended d) < MAX_SUSPENDED"
      "collect_missing_ancestors b (dag_contains d) \<noteq> []"
      "d' = suspend_block d (reference b) b (collect_missing_ancestors b (dag_contains d))"
  | (accepted) "res = Inr Accepted" "admissible blake3 vs d b" "sig_ok"
      "collect_missing_ancestors b (dag_contains d) = []"
      "validate_strong_link_quorum b vs = Inr ()"
      "validate_no_equivocation b (block_at_slot d (block_slot b)) = Inr ()"
      "d' = try_unsuspend (accept_block d (reference b) b) (reference b) vs"
proof (cases "d' = d")
  case True
  then show thesis by (rule kept)
next
  case False
  show thesis
  proof (cases "d_epoch d < blk_epoch b")
    case True
    then show thesis using assms False buffered
      by (auto simp: dag_insert_def insert_verified_def Let_def split: if_splits)
  next
    case up: False
    from assms False up have low: "\<not> blk_epoch b < d_epoch d"
      and "validate_digest_integrity blake3 b = Inr ()"
      "validate_author_and_signature b vs sig_ok = Inr ()"
      "validate_gc_boundary (blk_round b) (gc_round d) = Inr ()"
      by (auto simp: dag_insert_def insert_verified_def Let_def split: if_splits sum.splits)
    note checks = this
    note adm = checks_admissible [OF checks(2-4) up low]
    show thesis
    proof (cases "collect_missing_ancestors b (dag_contains d) = []")
      case True
      from assms False checks up True
      have "validate_strong_link_quorum b vs = Inr ()"
        "validate_no_equivocation b (block_at_slot d (block_slot b)) = Inr ()"
        by (auto simp: dag_insert_def insert_verified_def Let_def split: if_splits sum.splits consensus_error.splits)
      with assms False checks up True adm accepted show thesis
        by (simp add: dag_insert_def insert_verified_def Let_def split: if_splits)
    next
      case miss: False
      with assms False checks up adm suspended show thesis
        by (simp add: dag_insert_def insert_verified_def Let_def split: if_splits)
    qed
  qed
qed

lemma next_epoch_buffer_inv [simp]:
  "dag_inv blake3 vs (d\<lparr>d_next_epoch_buffer := m\<rparr>) = dag_inv blake3 vs d"
  by (simp add: dag_inv_def dag_inv_parts dag_contains_def refs_at_def admissible_def gc_round_def
      waiters_def)

lemma dag_insert_inv:
  assumes "dag_inv blake3 vs d" and "dag_insert blake3 d b vs sig_ok = (res, d')"
  shows "dag_inv blake3 vs d'"
  using assms(2)
proof (cases rule: dag_insert_cases)
  case suspended
  then show ?thesis using assms(1) suspend_block_inv by blast
next
  case accepted
  then show ?thesis using assms(1) accept_cascade_inv by blast
qed (use assms(1) in simp_all)

subsection \<open>Garbage collection\<close>

lemma fold_fmdrop [simp]: "fmlookup (fold fmdrop ks m) k = (if k \<in> set ks then None else fmlookup m k)"
  by (induction ks arbitrary: m) auto

lemma fold_fmdrop_slots:
  "fmlookup (fold (\<lambda>r. fmdrop (ref_slot r)) rs m) s = (if s \<in> ref_slot ` set rs then None else fmlookup m s)"
  by (induction rs arbitrary: m) auto

lemma gc_refs_iff: "r |\<in>| gc_refs d ns \<longleftrightarrow> (\<exists>n \<in> set ns. r |\<in>| refs_at d n)"
proof -
  have "r |\<in>| fold (\<lambda>r acc. case fmlookup (d_by_round d) r of None \<Rightarrow> acc | Some refs \<Rightarrow> acc |\<union>| refs) ns acc
      \<longleftrightarrow> r |\<in>| acc \<or> (\<exists>n \<in> set ns. r |\<in>| refs_at d n)" for acc
    by (induction ns arbitrary: acc) (auto simp: refs_at_def split: option.splits)
  then show ?thesis by (simp add: gc_refs_def)
qed

lemma evict_suspended_simps [simp]:
  "d_blocks (evict_suspended r d) = d_blocks d"
  "d_by_slot (evict_suspended r d) = d_by_slot d"
  "d_by_round (evict_suspended r d) = d_by_round d"
  "d_next_epoch_buffer (evict_suspended r d) = d_next_epoch_buffer d"
  "d_last_committed_round (evict_suspended r d) = d_last_committed_round d"
  "d_epoch (evict_suspended r d) = d_epoch d"
  "fmlookup (d_suspended (evict_suspended r d)) k = (if k = r then None else fmlookup (d_suspended d) k)"
  by (auto simp: evict_suspended_def split: option.splits)

lemma waiters_evict: "x \<noteq> r \<Longrightarrow> x |\<in>| waiters (evict_suspended r d) a \<longleftrightarrow> x |\<in>| waiters d a"
  by (auto simp: evict_suspended_def split: option.splits)

lemma fold_evict_simps [simp]:
  "d_blocks (fold evict_suspended rs d) = d_blocks d"
  "d_by_slot (fold evict_suspended rs d) = d_by_slot d"
  "d_by_round (fold evict_suspended rs d) = d_by_round d"
  "d_next_epoch_buffer (fold evict_suspended rs d) = d_next_epoch_buffer d"
  "d_last_committed_round (fold evict_suspended rs d) = d_last_committed_round d"
  "d_epoch (fold evict_suspended rs d) = d_epoch d"
  "fmlookup (d_suspended (fold evict_suspended rs d)) k =
    (if k \<in> set rs then None else fmlookup (d_suspended d) k)"
  by (induction rs arbitrary: d) auto

lemma waiters_fold_evict:
  "x \<notin> set rs \<Longrightarrow> x |\<in>| waiters (fold evict_suspended rs d) a \<longleftrightarrow> x |\<in>| waiters d a"
  by (induction rs arbitrary: d) (auto simp: waiters_evict)

text \<open>
  The store after a collection, entry by entry: accepted blocks above the boundary stay,
  suspended blocks stay unless they are stranded, and a surviving suspended block keeps its
  registrations above the boundary.
\<close>

lemma drop_collected_simps [simp]:
  "d_suspended (drop_collected d gc) = d_suspended d"
  "d_next_epoch_buffer (drop_collected d gc) = d_next_epoch_buffer d"
  "d_last_committed_round (drop_collected d gc) = d_last_committed_round d"
  "d_epoch (drop_collected d gc) = d_epoch d"
  "waiters (drop_collected d gc) a = waiters d a"
  by (simp_all add: drop_collected_def Let_def waiters_def)

lemma collect_garbage_simps [simp]:
  "d_blocks (collect_garbage d) = d_blocks (drop_collected d (gc_round d))"
  "d_by_slot (collect_garbage d) = d_by_slot (drop_collected d (gc_round d))"
  "d_by_round (collect_garbage d) = d_by_round (drop_collected d (gc_round d))"
  "d_last_committed_round (collect_garbage d) = d_last_committed_round d"
  "d_epoch (collect_garbage d) = d_epoch d"
  "d_next_epoch_buffer (collect_garbage d) = d_next_epoch_buffer d"
  by (simp_all add: collect_garbage_def Let_def)

lemma collect_garbage_frame [simp]:
  "gc_round (collect_garbage d) = gc_round d"
  "admissible blake3 vs (collect_garbage d) b = admissible blake3 vs d b"
  by (simp_all add: gc_round_def admissible_def)

lemma collected_refs:
  assumes "indexed d"
  shows "r |\<in>| gc_refs d (filter (\<lambda>n. n \<le> gc) (btree_keys (d_by_round d))) \<longleftrightarrow>
    dag_contains d r \<and> ref_round r \<le> gc"
proof -
  have "ref_round r |\<in>| fmdom (d_by_round d)" if "r |\<in>| refs_at d (ref_round r)"
    using that by (auto simp: refs_at_def fmlookup_dom_iff split: option.splits)
  then show ?thesis using assms by (auto simp: gc_refs_iff indexed_def)
qed

lemma drop_collected_blocks:
  assumes "indexed d"
  shows "fmlookup (d_blocks (drop_collected d gc)) r =
    (if ref_round r \<le> gc then None else fmlookup (d_blocks d) r)"
  using collected_refs [OF assms, of r gc]
  by (auto simp: drop_collected_def Let_def dag_contains_def fmlookup_dom_iff)

lemma drop_collected_contains:
  assumes "indexed d"
  shows "dag_contains (drop_collected d gc) r \<longleftrightarrow> dag_contains d r \<and> gc < ref_round r"
  using drop_collected_blocks [OF assms, of gc r] by (auto simp: dag_contains_def fmdom_in_keys)

lemma drop_collected_slots:
  assumes "indexed d"
  shows "fmlookup (d_by_slot (drop_collected d gc)) s = Some r \<longleftrightarrow>
    dag_contains d r \<and> ref_slot r = s \<and> gc < ref_round r"
proof -
  let ?C = "\<exists>x. dag_contains d x \<and> ref_round x \<le> gc \<and> ref_slot x = s"
  have "s \<in> ref_slot ` fset (gc_refs d (filter (\<lambda>n. n \<le> gc) (btree_keys (d_by_round d)))) \<longleftrightarrow> ?C"
    by (auto simp: collected_refs [OF assms] image_iff)
  then have look: "fmlookup (d_by_slot (drop_collected d gc)) s =
      (if ?C then None else fmlookup (d_by_slot d) s)"
    by (simp add: drop_collected_def Let_def fold_fmdrop_slots)
  have slot: "fmlookup (d_by_slot d) s = Some r \<longleftrightarrow> dag_contains d r \<and> ref_slot r = s"
    using assms by (simp add: indexed_def)
  have unique: "ref_round x = ref_round r" if "ref_slot x = s" "ref_slot r = s" for x
    using that by (auto simp: ref_slot_def)
  show ?thesis
  proof (cases ?C)
    case True
    then obtain x where "ref_round x \<le> gc" "ref_slot x = s" by blast
    then have "ref_slot r = s \<Longrightarrow> ref_round r \<le> gc" using unique by metis
    moreover have "fmlookup (d_by_slot (drop_collected d gc)) s = None"
      unfolding look using True by (rule if_P)
    ultimately show ?thesis by (metis leD option.distinct(1))
  next
    case False
    have "fmlookup (d_by_slot (drop_collected d gc)) s = fmlookup (d_by_slot d) s"
      unfolding look using False by (rule if_not_P)
    with False slot show ?thesis by (metis leI)
  qed
qed

lemma drop_collected_rounds:
  "refs_at (drop_collected d gc) n = (if n \<le> gc then {||} else refs_at d n)"
proof -
  have "n |\<notin>| fmdom (d_by_round d) \<Longrightarrow> fmlookup (d_by_round d) n = None" by (simp add: fmdom_notD)
  then show ?thesis by (auto simp: drop_collected_def Let_def refs_at_def)
qed

lemma collect_garbage_contains [simp]:
  "dag_contains (collect_garbage d) r = dag_contains (drop_collected d (gc_round d)) r"
  "refs_at (collect_garbage d) n = refs_at (drop_collected d (gc_round d)) n"
  by (simp_all add: dag_contains_def refs_at_def)

lemma suspended_to_drop_iff:
  "r \<in> set (suspended_to_drop d gc) \<longleftrightarrow>
    (\<exists>b. fmlookup (d_suspended d) r = Some b \<and> stranded d gc (r, b))"
  by (force simp: suspended_to_drop_def)

lemma collect_garbage_suspended:
  assumes "indexed d"
  shows "fmlookup (d_suspended (collect_garbage d)) r = Some b \<longleftrightarrow>
    fmlookup (d_suspended d) r = Some b \<and> gc_round d < ref_round r \<and>
    (\<forall>a \<in> set (blk_ancestors b). gc_round d < ref_round a)"
proof -
  let ?d1 = "drop_collected d (gc_round d)"
  have "fmlookup (d_suspended (collect_garbage d)) r = Some b \<longleftrightarrow>
      fmlookup (d_suspended d) r = Some b \<and> \<not> stranded ?d1 (gc_round d) (r, b)"
    by (auto simp: collect_garbage_def Let_def suspended_to_drop_iff)
  then show ?thesis
    by (auto simp: stranded_def list_ex_iff drop_collected_contains [OF assms] not_le)
qed

lemma collect_garbage_waiters:
  assumes "fmlookup (d_suspended (collect_garbage d)) r = Some b" and "gc_round d < ref_round a"
    and "r |\<in>| waiters d a"
  shows "r |\<in>| waiters (collect_garbage d) a"
proof -
  let ?d1 = "drop_collected d (gc_round d)"
  let ?d2 = "fold evict_suspended (suspended_to_drop ?d1 (gc_round d)) ?d1"
  have "r \<notin> set (suspended_to_drop ?d1 (gc_round d))"
    using assms(1) by (auto simp: collect_garbage_def Let_def)
  then have "r |\<in>| waiters ?d2 a" using assms(3) by (simp add: waiters_fold_evict)
  then show ?thesis
    using assms(2) by (auto simp: collect_garbage_def Let_def waiters_def split: option.splits)
qed

lemma collect_garbage_inv:
  assumes inv: "dag_inv blake3 vs d"
    and later: "d_last_committed_round d \<le> n"
  shows "dag_inv blake3 vs (collect_garbage (d\<lparr>d_last_committed_round := n\<rparr>))"
proof -
  let ?d = "d\<lparr>d_last_committed_round := n\<rparr>"
  let ?e = "collect_garbage ?d"
  have le: "gc_round d \<le> gc_round ?d"
    using later by (simp add: word_le_nat_alt gc_round_def rust_int diff_le_mono)
  have same [simp]: "dag_contains ?d r = dag_contains d r" "refs_at ?d k = refs_at d k"
    "waiters ?d a = waiters d a" for r k a
    by (simp_all add: dag_contains_def refs_at_def waiters_def)
  have ix: "indexed ?d" using inv by (simp add: dag_inv_def dag_inv_upto_def indexed_def)
  have rnd: "fmlookup (d_blocks d) r = Some b \<Longrightarrow> ref_round r = blk_round b"
    "fmlookup (d_suspended d) r = Some b \<Longrightarrow> ref_round r = blk_round b" for r b
    using inv unfolding dag_inv_def dag_inv_upto_def blocks_ok_def suspended_ok_def
    by (metis reference_sel(1))+
  note gc = drop_collected_contains [OF ix] drop_collected_blocks [OF ix] drop_collected_slots [OF ix]
    drop_collected_rounds collect_garbage_suspended [OF ix]
  have "indexed ?e" using ix by (auto simp: indexed_def gc)
  moreover have "blocks_ok blake3 vs ?e"
    using inv by (auto simp: dag_inv_def dag_inv_upto_def blocks_ok_def admissible_def gc not_le
        dest: rnd)
  moreover have "causally_closed ?e"
    using inv le by (fastforce simp: dag_inv_def dag_inv_upto_def causally_closed_def gc)
  moreover have "suspended_ok blake3 vs ?e"
    using inv by (auto simp: dag_inv_def dag_inv_upto_def suspended_ok_def admissible_def gc dest: rnd)
  moreover have "wakeups {} ?e"
    using inv collect_garbage_waiters [of ?d]
    by (fastforce simp: dag_inv_def dag_inv_upto_def wakeups_def gc)
  ultimately show ?thesis by (simp add: dag_inv_def dag_inv_upto_def)
qed

lemma set_last_committed_round_inv:
  "dag_inv blake3 vs d \<Longrightarrow> dag_inv blake3 vs (set_last_committed_round d n)"
  by (simp add: set_last_committed_round_def collect_garbage_inv)

lemma drain_equivocations_inv:
  "dag_inv blake3 vs d \<Longrightarrow> dag_inv blake3 vs (snd (drain_equivocations d))"
  by (simp add: drain_equivocations_def dag_inv_def dag_inv_parts dag_contains_def refs_at_def
      admissible_def gc_round_def waiters_def)

subsection \<open>Buffers stay bounded, acceptance only adds\<close>

definition dag_bounded :: "dag \<Rightarrow> bool" where
  "dag_bounded d \<longleftrightarrow> btree_len (d_suspended d) \<le> MAX_SUSPENDED \<and>
     btree_len (d_next_epoch_buffer d) \<le> MAX_NEXT_EPOCH_BUFFER"

text \<open>A property of stores that the three updates of the cascade keep is kept by the cascade.\<close>

lemma unsuspend_loop_keeps:
  assumes "Q d"
    and drop: "\<And>d r b. Q d \<Longrightarrow> ready_to_unsuspend d r = Some b \<Longrightarrow> Q (drop_suspended d r b)"
    and accept: "\<And>d r b. Q d \<Longrightarrow> ready_to_unsuspend d r = Some b \<Longrightarrow>
      Q (snd (take_waiters (accept_block (drop_suspended d r b) r b) r))"
    and queue: "\<And>d e b. Q d \<Longrightarrow> Q (queue_equivocation d e b)"
  shows "Q (unsuspend_loop vset xs d)"
  using assms(1)
proof (induction vset xs d rule: unsuspend_loop.induct)
  case (1 vset d)
  then show ?case by simp
next
  case (2 vset r rest d)
  show ?case
  proof (cases "ready_to_unsuspend d r")
    case None
    then show ?thesis using "2.IH"(1) "2.prems" by (simp add: unsuspend_loop.simps(2))
  next
    case (Some b)
    let ?d1 = "drop_suspended d r b"
    let ?e = "block_at_slot ?d1 (block_slot b)"
    note d1 = drop [OF "2.prems" Some] and d2 = accept [OF "2.prems" Some]
    show ?thesis
    proof (cases "is_ok (validate_strong_link_quorum b vset) \<and> is_ok (validate_no_equivocation b ?e)")
      case True
      note d3 = "2.IH"(2) [OF Some refl refl refl refl True refl d2]
      show ?thesis
        using "2.IH"(3) [OF Some refl refl refl refl True refl refl d3] Some True
        by (simp add: unsuspend_loop.simps(2) Let_def)
    next
      case False
      then show ?thesis
        using "2.IH"(4) [OF Some refl refl refl refl False _ queue [OF d1]]
          "2.IH"(5) [OF Some refl refl refl refl False _ d1] Some
        by (auto simp: unsuspend_loop.simps(2) Let_def)
    qed
  qed
qed

lemma unsuspend_loop_len: "btree_len (d_suspended (unsuspend_loop vset xs d)) \<le> btree_len (d_suspended d)"
proof (rule unsuspend_loop_keeps)
  fix e r b
  assume "btree_len (d_suspended e) \<le> btree_len (d_suspended d)"
    and ready: "ready_to_unsuspend e r = Some b"
  with drop_suspended_card [OF ready]
  have "btree_len (d_suspended (drop_suspended e r b)) \<le> btree_len (d_suspended d)" by linarith
  then show "btree_len (d_suspended (drop_suspended e r b)) \<le> btree_len (d_suspended d)"
    "btree_len (d_suspended (snd (take_waiters (accept_block (drop_suspended e r b) r b) r)))
      \<le> btree_len (d_suspended d)"
    by (simp_all only: take_waiters_suspended accept_block_suspended)
qed simp_all

lemma unsuspend_loop_buffer [simp]:
  "d_next_epoch_buffer (unsuspend_loop vset xs d) = d_next_epoch_buffer d"
  by (rule unsuspend_loop_keeps) simp_all

lemma try_unsuspend_frame:
  "btree_len (d_suspended (try_unsuspend d r vset)) \<le> btree_len (d_suspended d)"
  "d_next_epoch_buffer (try_unsuspend d r vset) = d_next_epoch_buffer d"
  using unsuspend_loop_len [of vset "fst (take_waiters d r)" "snd (take_waiters d r)"]
  by (simp_all add: try_unsuspend_def)

lemma btree_len_fmupd: "btree_len (fmupd k v m) \<le> Suc (btree_len m)"
  by (simp add: fcard_finsert_if)

lemma dag_insert_bounded:
  assumes "dag_bounded d" and "dag_insert blake3 d b vs sig_ok = (res, d')"
  shows "dag_bounded d'"
  using assms(2)
proof (cases rule: dag_insert_cases)
  case buffered
  then show ?thesis using assms(1) btree_len_fmupd [of "reference b" b "d_next_epoch_buffer d"]
    by (auto simp: dag_bounded_def)
next
  case suspended
  then show ?thesis using assms(1) btree_len_fmupd [of "reference b" b "d_suspended d"]
    by (auto simp: dag_bounded_def)
next
  case accepted
  then show ?thesis
    using assms(1) try_unsuspend_frame [of "accept_block d (reference b) b" "reference b" vs]
    by (simp add: dag_bounded_def)
qed (use assms(1) in simp)

lemma fold_evict_dom: "fmdom (d_suspended (fold evict_suspended rs d)) |\<subseteq>| fmdom (d_suspended d)"
  by (auto simp: fmlookup_dom_iff split: if_splits)

lemma collect_garbage_len: "btree_len (d_suspended (collect_garbage d)) \<le> btree_len (d_suspended d)"
  using fcard_mono [OF fold_evict_dom, of "suspended_to_drop (drop_collected d (gc_round d)) (gc_round d)"
      "drop_collected d (gc_round d)"]
  by (simp add: collect_garbage_def Let_def)

lemma set_last_committed_round_bounded:
  "dag_bounded d \<Longrightarrow> dag_bounded (set_last_committed_round d n)"
  using collect_garbage_len [of "d\<lparr>d_last_committed_round := n\<rparr>"]
  by (simp add: dag_bounded_def set_last_committed_round_def)

lemma drain_equivocations_bounded: "dag_bounded d \<Longrightarrow> dag_bounded (snd (drain_equivocations d))"
  by (simp add: drain_equivocations_def dag_bounded_def)

lemma unsuspend_loop_contains:
  "dag_contains d r \<Longrightarrow> dag_contains (unsuspend_loop vset xs d) r"
  by (rule unsuspend_loop_keeps) simp_all

lemma unsuspend_loop_origin:
  assumes "dag_contains (unsuspend_loop vset xs d) r"
  shows "dag_contains d r \<or> r |\<in>| fmdom (d_suspended d)"
proof -
  have "dag_contains (unsuspend_loop vset xs d) r \<or> r |\<in>| fmdom (d_suspended (unsuspend_loop vset xs d))
      \<longrightarrow> dag_contains d r \<or> r |\<in>| fmdom (d_suspended d)"
    by (rule unsuspend_loop_keeps) (auto dest: ready_to_unsuspendD fmdomI)
  with assms show ?thesis by blast
qed

lemma dag_insert_contains:
  assumes "dag_insert blake3 d b vs sig_ok = (res, d')" and "dag_contains d r"
  shows "dag_contains d' r"
  using assms(1)
proof (cases rule: dag_insert_cases)
  case accepted
  then show ?thesis using assms(2) by (simp add: try_unsuspend_def unsuspend_loop_contains)
qed (use assms(2) in \<open>simp_all add: dag_contains_def\<close>)

lemma dag_insert_origin:
  assumes "dag_insert blake3 d b vs sig_ok = (res, d')" and "dag_contains d' r"
  shows "dag_contains d r \<or> r = reference b \<and> sig_ok \<or> r |\<in>| fmdom (d_suspended d)"
  using assms(1)
proof (cases rule: dag_insert_cases)
  case accepted
  then show ?thesis using assms(2) by (auto simp: try_unsuspend_def dest!: unsuspend_loop_origin)
qed (use assms(2) in \<open>simp_all add: dag_contains_def\<close>)

subsection \<open>Runs of the store\<close>

inductive dag_step :: "hasher \<Rightarrow> validator_set \<Rightarrow> dag \<Rightarrow> dag \<Rightarrow> bool" for blake3 vs where
  insert: "dag_insert blake3 d b vs sig_ok = (res, d') \<Longrightarrow> dag_step blake3 vs d d'"
| commit: "dag_step blake3 vs d (set_last_committed_round d n)"
| drain: "dag_step blake3 vs d (snd (drain_equivocations d))"

interpretation dag_run: invariant_system "dag_step blake3 vs" "dag_inv blake3 vs" for blake3 vs
  by unfold_locales
    (auto elim!: dag_step.cases intro: dag_insert_inv set_last_committed_round_inv drain_equivocations_inv)

interpretation dag_buffers: invariant_system "dag_step blake3 vs" dag_bounded for blake3 vs
  by unfold_locales
    (auto elim!: dag_step.cases intro: dag_insert_bounded set_last_committed_round_bounded
      drain_equivocations_bounded)

subsection \<open>A one-member committee to evaluate on\<close>

text \<open>
  For the committee of one: a genesis block, its child and a second block of the genesis slot,
  with a hasher that maps every body to zero.
\<close>

definition solo_block :: "u64 \<Rightarrow> dag_block_ref list \<Rightarrow> dag_block" where
  "solo_block rnd as = \<lparr>blk_epoch = 0, blk_round = rnd, blk_author = 1, blk_timestamp_ms = 7,
     blk_ancestors = as, blk_payload = [], blk_commit_votes = [], blk_signature = Unsigned, blk_digest = 0\<rparr>"

definition solo_genesis_ref :: dag_block_ref where
  "solo_genesis_ref = DagBlockRef 0 1 0"

definition solo_accepted :: dag where
  "solo_accepted = snd (dag_insert (\<lambda>_. 0) (dag_new 0) (solo_block 0 []) solo_vs True)"

definition solo_waiting :: dag where
  "solo_waiting = snd (insert_verified (dag_new 0) (solo_block 1 [solo_genesis_ref]) solo_vs True)"

lemma zero_hash_insert:
  assumes "\<not> dag_contains d (reference b)" "blk_epoch b = d_epoch d" "blk_digest b = 0"
  shows "dag_insert (\<lambda>_. 0) d b vs sig_ok = insert_verified d b vs sig_ok"
  using assms
  by (simp add: dag_insert_def Let_def validate_digest_integrity_def verify_digest_def compute_digest_def)

lemma solo_accepted_run: "(dag_step (\<lambda>_. 0) solo_vs)\<^sup>*\<^sup>* (dag_new 0) solo_accepted"
  unfolding solo_accepted_def
  by (rule r_into_rtranclp, rule dag_step.insert) (rule prod.collapse [symmetric])

lemma solo_waiting_run: "(dag_step (\<lambda>_. 0) solo_vs)\<^sup>*\<^sup>* (dag_new 0) solo_waiting"
proof -
  have "\<not> dag_contains (dag_new 0) (reference (solo_block 1 [solo_genesis_ref]))" by code_simp
  then have "insert_verified (dag_new 0) (solo_block 1 [solo_genesis_ref]) solo_vs True
      = dag_insert (\<lambda>_. 0) (dag_new 0) (solo_block 1 [solo_genesis_ref]) solo_vs True"
    by (simp add: zero_hash_insert solo_block_def dag_new_def)
  then show ?thesis
    unfolding solo_waiting_def
    by (intro r_into_rtranclp dag_step.insert [of _ _ _ _ True]) (simp add: prod_eq_iff)
qed

subsection \<open>Properties\<close>

abbreviation reachable_dag :: "hasher \<Rightarrow> validator_set \<Rightarrow> dag \<Rightarrow> bool" where
  "reachable_dag blake3 vs d \<equiv> (\<exists>epch. (dag_step blake3 vs)\<^sup>*\<^sup>* (dag_new epch) d)"

lemma reachable_dag_inv: "reachable_dag blake3 vs d \<Longrightarrow> dag_inv blake3 vs d"
  using dag_run.run_inv dag_new_inv by blast

text \<open>
  C11. One accepted block per slot: whatever blocks arrive in whatever order, the store of a
  validator never holds two different blocks of one author and round.
\<close>

theorem accepted_one_per_slot:
  assumes "(dag_step blake3 vs)\<^sup>*\<^sup>* (dag_new epch) d"
    and "dag_contains d r" "dag_contains d s" "ref_round r = ref_round s" "ref_author r = ref_author s"
  shows "r = s"
proof -
  have "indexed d" using assms(1) reachable_dag_inv by (auto simp: dag_inv_def dag_inv_upto_def)
  moreover have "ref_slot r = ref_slot s" using assms(4,5) by (simp add: ref_slot_def)
  ultimately show ?thesis using assms(2,3) by (metis indexed_def option.inject)
qed

theorem accepted_one_per_slot_witness: "solo_genesis_ref = solo_genesis_ref \<and> dag_contains solo_accepted solo_genesis_ref"
proof -
  have c: "dag_contains solo_accepted solo_genesis_ref" by code_simp
  show ?thesis using accepted_one_per_slot [OF solo_accepted_run c c refl refl] c by simp
qed

text \<open>
  C5. An accepted block is authentic and causally complete: it is stored under its own
  reference, its digest is the hash of its body, its author is in the committee, it links to
  a quorum of the previous round, and each of its ancestors above the garbage-collection
  boundary is accepted too.
\<close>

theorem accepted_authentic_and_complete:
  assumes "(dag_step blake3 vs)\<^sup>*\<^sup>* (dag_new epch) d" and "fmlookup (d_blocks d) r = Some b"
  shows "reference b = r \<and> verify_digest blake3 b \<and> blk_author b |\<in>| fmdom (vs_members vs) \<and>
    (blk_round b \<noteq> 0 \<longrightarrow> is_quorum vs (strong_parents b)) \<and>
    (\<forall>a \<in> set (blk_ancestors b). gc_round d < ref_round a \<longrightarrow> dag_contains d a)"
proof -
  have inv: "blocks_ok blake3 vs d" "causally_closed d"
    using assms(1) reachable_dag_inv by (auto simp: dag_inv_def dag_inv_upto_def)
  have "reference b = r \<and> admissible blake3 vs d b \<and> strongly_linked vs b"
    using inv(1) assms(2) by (simp add: blocks_ok_def)
  moreover have "\<forall>a \<in> set (blk_ancestors b). dag_contains d a \<or> ref_round a \<le> gc_round d"
    using inv(2) assms(2) by (simp add: causally_closed_def)
  ultimately show ?thesis by (auto simp: admissible_def strongly_linked_def)
qed

theorem accepted_authentic_and_complete_witness:
  "verify_digest (\<lambda>_. 0) (solo_block 0 []) \<and> blk_author (solo_block 0 []) |\<in>| fmdom (vs_members solo_vs)"
proof -
  have "fmlookup (d_blocks solo_accepted) solo_genesis_ref = Some (solo_block 0 [])" by code_simp
  from accepted_authentic_and_complete [OF solo_accepted_run this] show ?thesis by simp
qed

text \<open>
  C12. No suspended block is forgotten: in every reachable store a suspended block still
  waits for an ancestor that is not accepted, and it is registered in \<open>waiting_for\<close> under each
  such ancestor, so the arrival of the last one wakes it.
\<close>

theorem no_lost_wakeup:
  assumes "(dag_step blake3 vs)\<^sup>*\<^sup>* (dag_new epch) d" and "fmlookup (d_suspended d) r = Some b"
  shows "(\<exists>a \<in> set (blk_ancestors b). \<not> dag_contains d a) \<and>
    (\<forall>a \<in> set (blk_ancestors b). \<not> dag_contains d a \<longrightarrow>
      (\<exists>w. fmlookup (d_waiting_for d) a = Some w \<and> r |\<in>| w))"
proof -
  have "wakeups {} d" using assms(1) reachable_dag_inv by (auto simp: dag_inv_def dag_inv_upto_def)
  moreover have "r |\<in>| waiters d a \<longleftrightarrow> (\<exists>w. fmlookup (d_waiting_for d) a = Some w \<and> r |\<in>| w)" for a
    by (simp add: waiters_def split: option.splits)
  ultimately show ?thesis using assms(2) unfolding wakeups_def by blast
qed

theorem no_lost_wakeup_witness:
  "\<exists>w. fmlookup (d_waiting_for solo_waiting) solo_genesis_ref = Some w \<and> DagBlockRef 1 1 0 |\<in>| w"
proof -
  have "fmlookup (d_suspended solo_waiting) (DagBlockRef 1 1 0) = Some (solo_block 1 [solo_genesis_ref])"
    by code_simp
  note claim = no_lost_wakeup [OF solo_waiting_run this]
  have "\<not> dag_contains solo_waiting solo_genesis_ref" by code_simp
  with claim show ?thesis by (simp add: solo_block_def)
qed

text \<open>
  The buffers an attacker can fill stay bounded: at most 1000 suspended blocks and 200
  buffered blocks of the next epoch, in every reachable store.
\<close>

theorem buffers_bounded:
  assumes "(dag_step blake3 vs)\<^sup>*\<^sup>* (dag_new epch) d"
  shows "btree_len (d_suspended d) \<le> 1000 \<and> btree_len (d_next_epoch_buffer d) \<le> 200"
proof -
  have "dag_bounded (dag_new epch)" by (simp add: dag_bounded_def dag_new_def fcard.rep_eq)
  then have "dag_bounded d" using assms dag_buffers.run_inv by blast
  then show ?thesis by (simp add: dag_bounded_def MAX_SUSPENDED_def MAX_NEXT_EPOCH_BUFFER_def)
qed

theorem buffers_bounded_witness: "btree_len (d_suspended solo_waiting) \<le> 1000"
  using buffers_bounded [OF solo_waiting_run] by simp

text \<open>
  Nothing enters the accepted store unsigned: after an insertion, an accepted reference
  was accepted before, is the inserted block with a valid signature, or was suspended (and
  so passed the same checks when it arrived).
\<close>

theorem acceptance_origin:
  assumes "dag_insert blake3 d b vs sig_ok = (res, d')" and "dag_contains d' r"
  shows "dag_contains d r \<or> r = reference b \<and> sig_ok \<or> r |\<in>| fmdom (d_suspended d)"
  using dag_insert_origin [OF assms] .

theorem acceptance_origin_witness: "\<not> dag_contains (dag_new 0) solo_genesis_ref \<and>
  solo_genesis_ref |\<notin>| fmdom (d_suspended (dag_new 0)) \<and> solo_genesis_ref = reference (solo_block 0 [])"
proof -
  have ins: "dag_insert (\<lambda>_. 0) (dag_new 0) (solo_block 0 []) solo_vs True = (Inr Accepted, solo_accepted)"
    by code_simp
  have new: "dag_contains solo_accepted solo_genesis_ref" by code_simp
  show ?thesis using acceptance_origin [OF ins new] by (auto simp: dag_new_def dag_contains_def)
qed

text \<open>
  A block that conflicts with an accepted block of its slot, and passes the other rules,
  is reported as equivocation with both digests, and the store is unchanged.
\<close>

theorem equivocation_reported:
  assumes "fmlookup (d_by_slot d) (block_slot b) = Some r" and "ref_digest r \<noteq> blk_digest b"
    and "\<not> dag_contains d (reference b)" and "blk_epoch b = d_epoch d"
    and "verify_digest blake3 b" and "blk_author b |\<in>| fmdom (vs_members vs)"
    and "blk_round b = 0 \<or> gc_round d < blk_round b" and "\<forall>a \<in> set (blk_ancestors b). dag_contains d a"
    and "validate_strong_link_quorum b vs = Inr ()"
  shows "dag_insert blake3 d b vs True =
    (Inr (Equivocation (blk_author b) (blk_round b) (ref_digest r) (blk_digest b)), d)"
  using assms
  by (simp add: dag_insert_def insert_verified_def Let_def validate_digest_integrity_def
      validate_author_and_signature_def validate_gc_boundary_def collect_missing_Nil_iff [THEN iffD2]
      block_at_slot_def validate_no_equivocation_def)

theorem equivocation_reported_witness:
  "dag_insert (\<lambda>_. 1) solo_accepted (solo_block 0 []\<lparr>blk_digest := 1\<rparr>) solo_vs True =
    (Inr (Equivocation 1 0 0 1), solo_accepted)"
proof -
  let ?b = "solo_block 0 []\<lparr>blk_digest := 1\<rparr>"
  have slot: "fmlookup (d_by_slot solo_accepted) (block_slot ?b) = Some solo_genesis_ref" by code_simp
  have new: "\<not> dag_contains solo_accepted (reference ?b)" by code_simp
  have epch: "blk_epoch ?b = d_epoch solo_accepted" by code_simp
  have member: "blk_author ?b |\<in>| fmdom (vs_members solo_vs)" by code_simp
  have digest: "verify_digest (\<lambda>_. 1) ?b" by (simp add: verify_digest_def compute_digest_def)
  have strong: "validate_strong_link_quorum ?b solo_vs = Inr ()" by code_simp
  show ?thesis
    using equivocation_reported [OF slot _ new epch digest member _ _ strong]
    by (simp add: solo_block_def solo_genesis_ref_def)
qed

end
