(* ===== verification/Committer.thy ===== *)
theory Committer
  imports Dag_Invariant
begin

section \<open>The commit rule\<close>

text \<open>
  \<^verbatim>\<open>lemma-consensus/src/pulse/committer.rs\<close>: votes, certificates and blame, the direct and the
  indirect decision of a leader slot, and the driver that emits the gapless prefix of
  decided leaders. Loops with an early return are recursive functions over the list the
  source iterates; an error stops them as \<open>?\<close> does.
\<close>

datatype leader_status = Commit dag_block_ref | Skip slot | Undecided slot

fun is_decided :: "leader_status \<Rightarrow> bool" where
  "is_decided (Commit _) = True"
| "is_decided (Skip _) = True"
| "is_decided (Undecided _) = False"

fun status_round :: "leader_status \<Rightarrow> u64" where
  "status_round (Commit r) = ref_round r"
| "status_round (Skip s) = slot_round s"
| "status_round (Undecided s) = slot_round s"

definition voting_round :: "u64 \<Rightarrow> u64" where
  "voting_round leader = leader + 1"

definition decision_round :: "u64 \<Rightarrow> u64" where
  "decision_round leader = leader + 2"

subsection \<open>Votes, certificates and blame\<close>

fun supported_scan :: "slot \<Rightarrow> dag_block_ref option \<Rightarrow> dag_block_ref list \<Rightarrow> dag_block_ref option" where
  "supported_scan s found [] = found"
| "supported_scan s found (a # as) =
     (if ref_round a = slot_round s \<and> ref_author a = slot_author s then
        (case found of
           None \<Rightarrow> supported_scan s (Some a) as
         | Some prev \<Rightarrow> if ref_digest prev \<noteq> ref_digest a then None else supported_scan s found as)
      else supported_scan s found as)"

definition find_supported_block :: "slot \<Rightarrow> dag_block \<Rightarrow> dag_block_ref option" where
  "find_supported_block s voter = supported_scan s None (blk_ancestors voter)"

definition is_vote :: "dag_block \<Rightarrow> slot \<Rightarrow> dag_block_ref \<Rightarrow> bool" where
  "is_vote voter leader_slot leader_ref \<longleftrightarrow> find_supported_block leader_slot voter = Some leader_ref"

fun certificate_scan ::
  "slot \<Rightarrow> dag_block_ref \<Rightarrow> dag \<Rightarrow> validator_set \<Rightarrow> stake_aggregator \<Rightarrow> dag_block_ref list
    \<Rightarrow> consensus_error + bool"
where
  "certificate_scan leader_slot leader_ref d vset q [] = Inr False"
| "certificate_scan leader_slot leader_ref d vset q (r # rs) = (case dag_block_get d r of
      None \<Rightarrow> certificate_scan leader_slot leader_ref d vset q rs
    | Some voter \<Rightarrow>
        if is_vote voter leader_slot leader_ref then
          (case fmlookup (vs_members vset) (ref_author r) of
             None \<Rightarrow> certificate_scan leader_slot leader_ref d vset q rs
           | Some member \<Rightarrow>
               rbind (agg_add q (ref_author r) (m_power member)) (\<lambda>(reached, q').
                 if reached then Inr True
                 else certificate_scan leader_slot leader_ref d vset q' rs))
        else certificate_scan leader_slot leader_ref d vset q rs)"

definition is_certificate ::
  "dag_block \<Rightarrow> slot \<Rightarrow> dag_block_ref \<Rightarrow> dag \<Rightarrow> validator_set \<Rightarrow> consensus_error + bool" where
  "is_certificate decision_block leader_slot leader_ref d vset =
     certificate_scan leader_slot leader_ref d vset (agg_quorum (vs_total_power vset))
       (ancestors_at_round decision_block (voting_round (slot_round leader_slot)))"

definition is_blame :: "dag_block \<Rightarrow> slot \<Rightarrow> bool" where
  "is_blame voter leader_slot \<longleftrightarrow>
     list_all (\<lambda>a. \<not> (ref_round a = slot_round leader_slot \<and> ref_author a = slot_author leader_slot))
       (blk_ancestors voter)"

definition blame_aggregator :: "slot \<Rightarrow> dag \<Rightarrow> validator_set \<Rightarrow> consensus_error + stake_aggregator" where
  "blame_aggregator leader_slot d vset =
     add_authors vset (agg_quorum (vs_total_power vset))
       (map blk_author (filter (\<lambda>voter. is_blame voter leader_slot)
         (blocks_at_round d (voting_round (slot_round leader_slot)))))"

subsection \<open>Direct decision\<close>

text \<open>
  The scan for certificates, with the check against a second certified leader. The loop of
  the indirect decision is the same with the certificate blocks looked up first.
\<close>

fun certified_scan ::
  "slot \<Rightarrow> dag_block_ref \<Rightarrow> dag \<Rightarrow> validator_set \<Rightarrow> dag_block_ref option \<Rightarrow> dag_block list
    \<Rightarrow> consensus_error + dag_block_ref option"
where
  "certified_scan leader_slot leader_ref d vset certified [] = Inr certified"
| "certified_scan leader_slot leader_ref d vset certified (b # bs) =
     rbind (is_certificate b leader_slot leader_ref d vset) (\<lambda>cert.
       if cert then
         (case certified of
            None \<Rightarrow> certified_scan leader_slot leader_ref d vset (Some leader_ref) bs
          | Some prev \<Rightarrow>
              if ref_digest prev \<noteq> ref_digest leader_ref
              then Inl (ByzantineInvariantBreach (slot_round leader_slot) (slot_author leader_slot)
                     (ref_digest prev) (ref_digest leader_ref))
              else certified_scan leader_slot leader_ref d vset certified bs)
       else certified_scan leader_slot leader_ref d vset certified bs)"

definition try_direct_decide :: "slot \<Rightarrow> dag \<Rightarrow> validator_set \<Rightarrow> consensus_error + leader_status" where
  "try_direct_decide leader_slot d vset =
     (let d_round = decision_round (slot_round leader_slot) in
      case block_at_slot d leader_slot of
        None \<Rightarrow> rbind (blame_aggregator leader_slot d vset) (\<lambda>blame.
          Inr (if sa_reached blame then Skip leader_slot else Undecided leader_slot))
      | Some leader_ref \<Rightarrow>
          rbind (blame_aggregator leader_slot d vset) (\<lambda>blame.
          if sa_reached blame then Inr (Skip leader_slot)
          else rbind (total_stake_at d d_round vset) (\<lambda>decision_agg.
            if \<not> sa_reached decision_agg then Inr (Undecided leader_slot)
            else rbind (certified_scan leader_slot leader_ref d vset None (blocks_at_round d d_round))
              (\<lambda>certified. Inr (case certified of
                  Some r \<Rightarrow> Commit r
                | None \<Rightarrow> Undecided leader_slot)))))"

subsection \<open>Indirect decision\<close>

definition anchor_decide ::
  "slot \<Rightarrow> dag_block \<Rightarrow> dag \<Rightarrow> validator_set \<Rightarrow> consensus_error + leader_status" where
  "anchor_decide leader_slot anchor_block d vset =
     (case block_at_slot d leader_slot of
        None \<Rightarrow> Inr (Skip leader_slot)
      | Some lref \<Rightarrow>
          rbind (certified_scan leader_slot lref d vset None
                   (List.map_filter (dag_block_get d)
                     (ancestors_at_round anchor_block (decision_round (slot_round leader_slot)))))
            (\<lambda>certified. Inr (if certified \<noteq> None then Commit lref else Skip leader_slot)))"

fun try_indirect_decide ::
  "slot \<Rightarrow> leader_status list \<Rightarrow> dag \<Rightarrow> validator_set \<Rightarrow> consensus_error + leader_status" where
  "try_indirect_decide leader_slot [] d vset = Inr (Undecided leader_slot)"
| "try_indirect_decide leader_slot (Commit anchor_ref # higher) d vset =
     (if ref_round anchor_ref \<ge> slot_round leader_slot + WAVE_LENGTH then
        (case dag_block_get d anchor_ref of
           None \<Rightarrow> Inr (Undecided leader_slot)
         | Some anchor_block \<Rightarrow> anchor_decide leader_slot anchor_block d vset)
      else Inr (Undecided leader_slot))"
| "try_indirect_decide leader_slot (Skip _ # higher) d vset =
     try_indirect_decide leader_slot higher d vset"
| "try_indirect_decide leader_slot (Undecided _ # higher) d vset = Inr (Undecided leader_slot)"

subsection \<open>The driver\<close>

definition decide_round ::
  "dag \<Rightarrow> validator_set \<Rightarrow> (u64 \<Rightarrow> slot) \<Rightarrow> leader_status list \<Rightarrow> u64 \<Rightarrow> consensus_error + leader_status list"
where
  "decide_round d vset leader_of leaders rnd =
     (if rnd mod WAVE_LENGTH \<noteq> 0 then Inr leaders
      else let s = leader_of rnd in
        rbind (try_direct_decide s d vset) (\<lambda>direct.
        rbind (if is_decided direct then Inr direct
               else try_indirect_decide s (rev leaders) d vset) (\<lambda>status.
        Inr (leaders @ [status]))))"

definition inclusive_range :: "u64 \<Rightarrow> u64 \<Rightarrow> u64 list" where
  "inclusive_range lower upper = map of_nat [unat lower..<Suc (unat upper)]"

definition try_decide ::
  "slot \<Rightarrow> dag \<Rightarrow> validator_set \<Rightarrow> (u64 \<Rightarrow> slot) \<Rightarrow> consensus_error + leader_status list" where
  "try_decide last_decided d vset leader_of =
     (let highest = highest_accepted_round d;
          lower = slot_round last_decided + 1;
          upper = saturating_sub highest 2
      in if lower > upper then Inr []
         else rbind (try_fold (decide_round d vset leader_of) [] (rev (inclusive_range lower upper)))
           (\<lambda>leaders. Inr (takeWhile is_decided (rev leaders))))"

subsection \<open>What a vote, a certificate and blame are\<close>

definition at_slot :: "slot \<Rightarrow> dag_block_ref \<Rightarrow> bool" where
  "at_slot s a \<longleftrightarrow> ref_round a = slot_round s \<and> ref_author a = slot_author s"

lemma at_slot_iff: "at_slot s a \<longleftrightarrow> ref_slot a = s"
  by (cases s) (auto simp: at_slot_def ref_slot_def)

lemma supported_scan_Some:
  assumes "\<forall>p. found = Some p \<longrightarrow> at_slot s p"
  shows "supported_scan s found as = Some r \<longleftrightarrow>
    (found = Some r \<or> found = None \<and> r \<in> set as \<and> at_slot s r) \<and>
    (\<forall>a \<in> set as. at_slot s a \<longrightarrow> a = r)"
  using assms
proof (induction as arbitrary: found)
  case Nil
  then show ?case by simp
next
  case (Cons a as)
  show ?case
  proof (cases "at_slot s a")
    case False
    then show ?thesis using Cons by (auto simp: at_slot_def)
  next
    case at: True
    show ?thesis
    proof (cases found)
      case None
      then show ?thesis using Cons.IH [of "Some a"] at by (auto simp: at_slot_def)
    next
      case (Some p)
      then have p: "at_slot s p" using Cons.prems by simp
      then have "ref_digest p = ref_digest a \<longleftrightarrow> p = a"
        using at by (auto simp: at_slot_def dag_block_ref.expand)
      then show ?thesis using Cons.IH [of found] Cons.prems Some at by (auto simp: at_slot_def)
    qed
  qed
qed

lemma is_vote_iff:
  "is_vote v s r \<longleftrightarrow> r \<in> set (blk_ancestors v) \<and> ref_slot r = s \<and>
    (\<forall>a \<in> set (blk_ancestors v). ref_slot a = s \<longrightarrow> a = r)"
  using supported_scan_Some [of None s "blk_ancestors v" r]
  by (auto simp: is_vote_def find_supported_block_def at_slot_iff)

lemma is_blame_iff: "is_blame v s \<longleftrightarrow> (\<forall>a \<in> set (blk_ancestors v). ref_slot a \<noteq> s)"
  by (auto simp: is_blame_def list_all_iff at_slot_iff [unfolded at_slot_def])

definition voters :: "slot \<Rightarrow> dag_block_ref \<Rightarrow> dag \<Rightarrow> dag_block_ref list \<Rightarrow> address set" where
  "voters s lref d rs = {ref_author r | r. r \<in> set rs \<and>
     (\<exists>v. fmlookup (d_blocks d) r = Some v \<and> is_vote v s lref)}"

lemma voters_code [code]:
  "voters s lref d rs = ref_author ` set (filter (\<lambda>r. case fmlookup (d_blocks d) r of Some v \<Rightarrow> is_vote v s lref | None \<Rightarrow> False) rs)"
  by (auto simp: voters_def split: option.splits)

definition cert_voters :: "slot \<Rightarrow> dag_block_ref \<Rightarrow> dag \<Rightarrow> dag_block \<Rightarrow> address set" where
  "cert_voters s lref d b = voters s lref d (ancestors_at_round b (voting_round (slot_round s)))"

lemma voters_Nil [simp]: "voters s lref d [] = {}"
  by (simp add: voters_def)

lemma voters_Cons:
  "voters s lref d (r # rs) =
    (if \<exists>v. fmlookup (d_blocks d) r = Some v \<and> is_vote v s lref then insert (ref_author r) (voters s lref d rs)
     else voters s lref d rs)"
  by (auto simp: voters_def)

text \<open>
  A scan that starts from the authors \<open>A\<close>, short of a quorum, answers whether \<open>A\<close> together
  with the voters among the scanned references is one.
\<close>

lemma certificate_scan_exact:
  assumes valid: "wf_vset vs" "2 * unat (vs_total_power vs) < 2 ^ 128 - 1"
  shows "counts_exactly vs q A \<Longrightarrow> sa_threshold q = Quorum \<Longrightarrow> \<not> sa_reached q \<Longrightarrow>
    certificate_scan s lref d vs q rs = Inr (is_quorum vs (A \<union> voters s lref d rs))"
proof (induction rs arbitrary: q A)
  case Nil
  then show ?case using quorum_reached_iff [OF Nil(1,2)] valid(2) by simp
next
  case (Cons r rs)
  show ?case
  proof (cases "\<exists>v. fmlookup (d_blocks d) r = Some v \<and> is_vote v s lref")
    case False
    then show ?thesis using Cons by (auto simp: voters_Cons dag_block_get_def split: option.splits)
  next
    case True
    then obtain v where v: "fmlookup (d_blocks d) r = Some v" "is_vote v s lref" by blast
    have un: "A \<union> voters s lref d (r # rs) = insert (ref_author r) A \<union> voters s lref d rs"
      using True by (simp add: voters_Cons)
    show ?thesis
    proof (cases "fmlookup (vs_members vs) (ref_author r)")
      case None
      have "counts_exactly vs q (insert (ref_author r) A)"
        using counts_exactly_add_if_member [OF Cons.prems(1), of "ref_author r" q] None
        by (simp add: add_if_member_def)
      from Cons.IH [OF this Cons.prems(2,3)] show ?thesis
        using v None un by (simp add: dag_block_get_def)
    next
      case (Some m)
      obtain reached q' where add: "agg_add q (ref_author r) (m_power m) = Inr (reached, q')"
        using agg_add_no_overflow [OF valid(1) Cons.prems(1) Some] by blast
      note ex = counts_exactly_add [OF Cons.prems(1) Some add]
      note fr = agg_add_frame [OF add]
      have thr: "sa_threshold q' = Quorum" using fr(2) Cons.prems(2) by simp
      show ?thesis
      proof (cases reached)
        case True
        then have "is_quorum vs (insert (ref_author r) A)"
          using quorum_reachedD [OF ex thr] fr(3) by simp
        then have "is_quorum vs (insert (ref_author r) A \<union> voters s lref d rs)"
          using committee.quorum_upward [of "insert (ref_author r) A"] unfolding is_quorum_def by blast
        then show ?thesis using v Some add True un by (simp add: dag_block_get_def)
      next
        case False
        from Cons.IH [OF ex thr] False fr(3) show ?thesis
          using v Some add un by (simp add: dag_block_get_def)
      qed
    qed
  qed
qed

lemma is_certificate_exact:
  assumes "wf_vset vs" "2 * unat (vs_total_power vs) < 2 ^ 128 - 1"
  shows "is_certificate b s lref d vs = Inr (is_quorum vs (cert_voters s lref d b))"
  using certificate_scan_exact [OF assms counts_exactly_new, of Quorum]
  by (simp add: is_certificate_def agg_quorum_def cert_voters_def)

subsection \<open>The decisions, exactly\<close>

text \<open>
  A committee for which the \<open>u128\<close> arithmetic of the threshold is exact: its total power is
  the sum of its members', and twice that sum stays below the saturation point.
\<close>

definition sound_committee :: "validator_set \<Rightarrow> bool" where
  "sound_committee vs \<longleftrightarrow> wf_vset vs \<and> 2 * unat (vs_total_power vs) < 2 ^ 128 - 1"

definition authors_at :: "dag \<Rightarrow> u64 \<Rightarrow> address set" where
  "authors_at d n = blk_author ` set (blocks_at_round d n)"

definition blamers :: "slot \<Rightarrow> dag \<Rightarrow> address set" where
  "blamers s d = {blk_author v | v. v \<in> set (blocks_at_round d (voting_round (slot_round s))) \<and> is_blame v s}"

lemma blamers_code [code]:
  "blamers s d = blk_author ` set (filter (\<lambda>v. is_blame v s) (blocks_at_round d (voting_round (slot_round s))))"
  by (auto simp: blamers_def)

definition certifies :: "validator_set \<Rightarrow> dag \<Rightarrow> slot \<Rightarrow> dag_block_ref \<Rightarrow> dag_block \<Rightarrow> bool" where
  "certifies vs d s lref b \<longleftrightarrow> is_quorum vs (cert_voters s lref d b)"

lemma is_certificate_sound:
  "sound_committee vs \<Longrightarrow> is_certificate b s lref d vs = Inr (certifies vs d s lref b)"
  by (simp add: sound_committee_def certifies_def is_certificate_exact)

lemma add_authors_sound:
  assumes "sound_committee vs"
  shows "\<exists>agg. add_authors vs (agg_quorum (vs_total_power vs)) as = Inr agg \<and>
    sa_reached agg = is_quorum vs (set as)"
proof -
  obtain agg where agg: "add_authors vs (agg_quorum (vs_total_power vs)) as = Inr agg"
    using add_authors_no_overflow [OF _ counts_exactly_new, of vs Quorum as] assms
    by (auto simp: sound_committee_def agg_quorum_def)
  have "sa_reached agg = is_quorum vs (set as)"
    using quorum_reached_iff [OF add_authors_quorum [OF agg]] assms by (simp add: sound_committee_def)
  with agg show ?thesis by blast
qed

lemma blame_aggregator_sound:
  assumes "sound_committee vs"
  shows "\<exists>agg. blame_aggregator s d vs = Inr agg \<and> sa_reached agg = is_quorum vs (blamers s d)"
proof -
  let ?as = "map blk_author (filter (\<lambda>v. is_blame v s) (blocks_at_round d (voting_round (slot_round s))))"
  have "set ?as = blamers s d" by (auto simp: blamers_def)
  with add_authors_sound [OF assms, of ?as] show ?thesis by (simp only: blame_aggregator_def)
qed

lemma total_stake_at_sound:
  "sound_committee vs \<Longrightarrow>
    \<exists>agg. total_stake_at d n vs = Inr agg \<and> sa_reached agg = is_quorum vs (authors_at d n)"
  using add_authors_sound [of vs "map blk_author (blocks_at_round d n)"]
  by (simp add: total_stake_at_def authors_at_def)

lemma certified_scan_sound:
  assumes "sound_committee vs"
  shows "c = None \<or> c = Some lref \<Longrightarrow> certified_scan s lref d vs c bs =
    Inr (if c \<noteq> None \<or> (\<exists>b \<in> set bs. certifies vs d s lref b) then Some lref else None)"
  by (induction bs arbitrary: c) (auto simp: is_certificate_sound [OF assms])

text \<open>
  The direct decision of the code, read on sets: skip on a quorum of blame; otherwise commit the
  block in the slot when the decision round holds a quorum of stake and one of its blocks
  is a certificate. The documented rule is \<open>documented_direct\<close> below.
\<close>

definition direct_outcome :: "slot \<Rightarrow> dag \<Rightarrow> validator_set \<Rightarrow> leader_status" where
  "direct_outcome s d vs =
     (if is_quorum vs (blamers s d) then Skip s
      else case block_at_slot d s of
        None \<Rightarrow> Undecided s
      | Some lref \<Rightarrow>
          if is_quorum vs (authors_at d (decision_round (slot_round s))) \<and>
             (\<exists>b \<in> set (blocks_at_round d (decision_round (slot_round s))). certifies vs d s lref b)
          then Commit lref else Undecided s)"

text \<open>
  The rule as the comments above \<open>try_direct_decide\<close> and of the module state it: the authors of the
  certificates themselves hold a quorum at the decision round.
\<close>

definition certifiers :: "validator_set \<Rightarrow> dag \<Rightarrow> slot \<Rightarrow> dag_block_ref \<Rightarrow> address set" where
  "certifiers vs d s lref =
     blk_author ` set (filter (certifies vs d s lref) (blocks_at_round d (decision_round (slot_round s))))"

definition documented_direct :: "slot \<Rightarrow> dag \<Rightarrow> validator_set \<Rightarrow> leader_status" where
  "documented_direct s d vs =
     (if is_quorum vs (blamers s d) then Skip s
      else case block_at_slot d s of
        None \<Rightarrow> Undecided s
      | Some lref \<Rightarrow> if is_quorum vs (certifiers vs d s lref) then Commit lref else Undecided s)"

lemma try_direct_decide_outcome:
  assumes "sound_committee vs"
  shows "try_direct_decide s d vs = Inr (direct_outcome s d vs)"
proof -
  obtain blame where blame: "blame_aggregator s d vs = Inr blame"
    "sa_reached blame = is_quorum vs (blamers s d)" using blame_aggregator_sound [OF assms] by blast
  obtain tot where tot: "total_stake_at d (decision_round (slot_round s)) vs = Inr tot"
    "sa_reached tot = is_quorum vs (authors_at d (decision_round (slot_round s)))"
    using total_stake_at_sound [OF assms] by blast
  show ?thesis
    by (auto simp: try_direct_decide_def direct_outcome_def blame tot certified_scan_sound [OF assms] Let_def
        split: option.splits)
qed

definition anchor_spec :: "slot \<Rightarrow> dag_block \<Rightarrow> dag \<Rightarrow> validator_set \<Rightarrow> leader_status" where
  "anchor_spec s anchor d vs = (case block_at_slot d s of
      None \<Rightarrow> Skip s
    | Some lref \<Rightarrow>
        if \<exists>r b. r \<in> set (blk_ancestors anchor) \<and> ref_round r = decision_round (slot_round s) \<and>
             fmlookup (d_blocks d) r = Some b \<and> certifies vs d s lref b
        then Commit lref else Skip s)"

lemma set_map_filter: "set (List.map_filter f xs) = {y. \<exists>x \<in> set xs. f x = Some y}"
  by (induction xs) (auto split: option.splits)

lemma anchor_decide_spec:
  "sound_committee vs \<Longrightarrow> anchor_decide s anchor d vs = Inr (anchor_spec s anchor d vs)"
  by (auto simp: anchor_decide_def anchor_spec_def certified_scan_sound set_map_filter dag_block_get_def
      ancestors_at_round_def split: option.splits)

text \<open>A committed slot: its block is stored and some block certifies it.\<close>

definition justified :: "validator_set \<Rightarrow> dag \<Rightarrow> slot \<Rightarrow> leader_status \<Rightarrow> bool" where
  "justified vs d s st \<longleftrightarrow> (case st of
      Commit r \<Rightarrow> block_at_slot d s = Some r \<and> (\<exists>b. certifies vs d s r b)
    | Skip s' \<Rightarrow> s' = s
    | Undecided s' \<Rightarrow> s' = s)"

lemma direct_justified: "justified vs d s (direct_outcome s d vs)"
  by (auto simp: justified_def direct_outcome_def split: option.splits)

lemma anchor_justified: "justified vs d s (anchor_spec s anchor d vs)"
  by (auto simp: justified_def anchor_spec_def split: option.splits)

lemma try_indirect_decide_total:
  assumes "sound_committee vs"
  shows "\<exists>st. try_indirect_decide s sts d vs = Inr st \<and> justified vs d s st"
proof (induction sts)
  case Nil
  then show ?case by (simp add: justified_def)
next
  case (Cons st sts)
  show ?case
  proof (cases st)
    case (Commit r)
    show ?thesis
      by (auto simp: Commit anchor_decide_spec [OF assms] anchor_justified justified_def split: option.splits)
        (simp_all add: anchor_justified [unfolded justified_def])
  qed (use Cons in \<open>simp_all add: justified_def\<close>)
qed

subsection \<open>The driver emits the gapless prefix\<close>

definition wave_aligned :: "u64 \<Rightarrow> bool" where
  "wave_aligned r \<longleftrightarrow> r mod WAVE_LENGTH = 0"

lemma justified_round:
  assumes "indexed d" "justified vs d s st"
  shows "status_round st = slot_round s"
proof (cases st)
  case (Commit r)
  then have "ref_slot r = s" using assms by (auto simp: justified_def block_at_slot_def indexed_def)
  then show ?thesis by (auto simp: Commit ref_slot_def)
qed (use assms(2) in \<open>simp_all add: justified_def\<close>)

lemma decide_round_sound:
  assumes "sound_committee vs"
  shows "\<exists>st. decide_round d vs leader_of leaders r =
      Inr (if wave_aligned r then leaders @ [st] else leaders) \<and> justified vs d (leader_of r) st"
proof -
  obtain st where "try_indirect_decide (leader_of r) (rev leaders) d vs = Inr st"
    "justified vs d (leader_of r) st" using try_indirect_decide_total [OF assms] by blast
  moreover have "justified vs d (leader_of r) (direct_outcome (leader_of r) d vs)" by (rule direct_justified)
  ultimately show ?thesis
    by (cases "is_decided (direct_outcome (leader_of r) d vs)")
      (auto simp: decide_round_def wave_aligned_def try_direct_decide_outcome [OF assms] Let_def)
qed

lemma decide_rounds_sound:
  assumes "sound_committee vs"
  shows "\<exists>sts. try_fold (decide_round d vs leader_of) ls rs = Inr (ls @ sts) \<and>
    list_all2 (\<lambda>r st. justified vs d (leader_of r) st) (filter wave_aligned rs) sts"
proof (induction rs arbitrary: ls)
  case Nil
  then show ?case by simp
next
  case (Cons r rs)
  obtain st where st: "decide_round d vs leader_of ls r =
      Inr (if wave_aligned r then ls @ [st] else ls)" "justified vs d (leader_of r) st"
    using decide_round_sound [OF assms] by blast
  obtain sts where sts: "try_fold (decide_round d vs leader_of) (if wave_aligned r then ls @ [st] else ls) rs
      = Inr ((if wave_aligned r then ls @ [st] else ls) @ sts)"
    "list_all2 (\<lambda>r st. justified vs d (leader_of r) st) (filter wave_aligned rs) sts"
    using Cons.IH by blast
  show ?case
  proof (cases "wave_aligned r")
    case True
    then show ?thesis using st sts by (intro exI [of _ "st # sts"]) simp
  next
    case False
    then show ?thesis using st sts by (intro exI [of _ sts]) simp
  qed
qed

definition pending_rounds :: "slot \<Rightarrow> dag \<Rightarrow> u64 list" where
  "pending_rounds last_decided d =
     (if slot_round last_decided + 1 > saturating_sub (highest_accepted_round d) 2 then []
      else filter wave_aligned
        (inclusive_range (slot_round last_decided + 1) (saturating_sub (highest_accepted_round d) 2)))"

lemma map_takeWhile_prefix: "map f (takeWhile P xs) = take (length (takeWhile P xs)) (map f xs)"
  by (induction xs) auto

lemma try_decide_gapless:
  assumes "sound_committee vs" and "indexed d" and leader: "\<And>r. slot_round (leader_of r) = r"
  shows "\<exists>out. try_decide last_decided d vs leader_of = Inr out \<and> list_all is_decided out \<and>
    map status_round out = take (length out) (pending_rounds last_decided d) \<and>
    list_all (\<lambda>st. justified vs d (leader_of (status_round st)) st) out"
proof (cases "slot_round last_decided + 1 > saturating_sub (highest_accepted_round d) 2")
  case True
  then show ?thesis by (simp add: try_decide_def pending_rounds_def Let_def)
next
  case False
  let ?range = "inclusive_range (slot_round last_decided + 1) (saturating_sub (highest_accepted_round d) 2)"
  obtain sts where sts: "try_fold (decide_round d vs leader_of) [] (rev ?range) = Inr sts"
    and just: "list_all2 (\<lambda>r st. justified vs d (leader_of r) st) (filter wave_aligned (rev ?range)) sts"
    using decide_rounds_sound [OF assms(1), of d leader_of "[]" "rev ?range"] by auto
  let ?out = "takeWhile is_decided (rev sts)"
  have out: "try_decide last_decided d vs leader_of = Inr ?out"
    using False sts by (simp add: try_decide_def Let_def)
  have both: "list_all2 (\<lambda>r st. status_round st = r \<and> justified vs d (leader_of r) st)
      (filter wave_aligned (rev ?range)) sts"
    using just by (rule list_all2_mono) (simp add: justified_round [OF assms(2)] leader)
  then have "map status_round sts = filter wave_aligned (rev ?range)"
    by (simp add: list_all2_conv_all_nth list_eq_iff_nth_eq)
  then have rounds: "map status_round (rev sts) = pending_rounds last_decided d"
    using False by (simp add: pending_rounds_def rev_filter flip: rev_map)
  have "\<forall>st \<in> set sts. justified vs d (leader_of (status_round st)) st"
    using both by (auto simp: list_all2_conv_all_nth in_set_conv_nth)
  then have "list_all (\<lambda>st. justified vs d (leader_of (status_round st)) st) ?out"
    by (auto simp: list_all_iff dest: set_takeWhileD)
  moreover have "list_all is_decided ?out" by (auto simp: list_all_iff dest: set_takeWhileD)
  moreover have "map status_round ?out = take (length ?out) (pending_rounds last_decided d)"
    unfolding rounds [symmetric] by (rule map_takeWhile_prefix)
  ultimately show ?thesis using out by blast
qed

subsection \<open>Two views of the same rounds\<close>

text \<open>
  Two stores that belong to two validators, for the same committee. Content addressing
  gives equal references equal ancestors; the authors outside \<open>F\<close> write one block per slot.
\<close>

definition consistent_views :: "address set \<Rightarrow> dag \<Rightarrow> dag \<Rightarrow> bool" where
  "consistent_views F A B \<longleftrightarrow>
     (\<forall>r a b. fmlookup (d_blocks A) r = Some a \<and> fmlookup (d_blocks B) r = Some b \<longrightarrow>
        blk_ancestors a = blk_ancestors b) \<and>
     (\<forall>x y. dag_contains A x \<and> dag_contains B y \<and> ref_slot x = ref_slot y \<and> ref_author x \<notin> F \<longrightarrow> x = y)"

definition supporters :: "dag \<Rightarrow> u64 \<Rightarrow> (dag_block \<Rightarrow> bool) \<Rightarrow> address set" where
  "supporters d n P = {ref_author r | r. ref_round r = n \<and> (\<exists>v. fmlookup (d_blocks d) r = Some v \<and> P v)}"

lemma cert_voters_supporters:
  "cert_voters s lref d b \<subseteq> supporters d (voting_round (slot_round s)) (\<lambda>v. is_vote v s lref)"
  by (auto simp: cert_voters_def voters_def supporters_def ancestors_at_round_def)

lemma blocks_at_round_iff:
  "indexed d \<Longrightarrow> b \<in> set (blocks_at_round d n) \<longleftrightarrow>
    (\<exists>r. ref_round r = n \<and> fmlookup (d_blocks d) r = Some b)"
proof -
  assume "indexed d"
  then have "r |\<in>| refs_at d n \<longleftrightarrow> dag_contains d r \<and> ref_round r = n" for r by (simp add: indexed_def)
  moreover have "b \<in> set (blocks_at_round d n) \<longleftrightarrow> (\<exists>r. r |\<in>| refs_at d n \<and> fmlookup (d_blocks d) r = Some b)"
    by (auto simp: blocks_at_round_def set_map_filter refs_at_def split: option.splits)
  ultimately show ?thesis by (auto simp: dag_contains_def fmlookup_dom_iff)
qed

lemma blamers_supporters:
  assumes "dag_inv blake3 vs d"
  shows "blamers s d \<subseteq> supporters d (voting_round (slot_round s)) (\<lambda>v. is_blame v s)"
proof
  fix x assume "x \<in> blamers s d"
  then obtain v r where v: "x = blk_author v" "is_blame v s" "ref_round r = voting_round (slot_round s)"
    "fmlookup (d_blocks d) r = Some v"
    using assms by (auto simp: blamers_def dag_inv_def dag_inv_upto_def blocks_at_round_iff)
  moreover have "reference v = r" using assms v(4) by (auto simp: dag_inv_def dag_inv_upto_def blocks_ok_def)
  ultimately show "x \<in> supporters d (voting_round (slot_round s)) (\<lambda>v. is_blame v s)"
    unfolding supporters_def using reference_sel(2) [of v] by (intro CollectI exI [of _ r]) simp
qed

lemma common_honest_supporter:
  assumes "wf_vset vs" and "consistent_views F A B" and "3 * stake_of vs F \<le> unat (vs_total_power vs)"
    and "is_quorum vs (supporters A n P)" and "is_quorum vs (supporters B n Q)"
  obtains v w where "P v" "Q w" "blk_ancestors v = blk_ancestors w"
proof -
  obtain a where a: "a \<in> supporters A n P" "a \<in> supporters B n Q" "a \<notin> F"
    using committee.intersection_outside assms unfolding is_quorum_def by metis
  then obtain x y v w where x: "ref_author x = a" "ref_round x = n" "fmlookup (d_blocks A) x = Some v" "P v"
    and y: "ref_author y = a" "ref_round y = n" "fmlookup (d_blocks B) y = Some w" "Q w"
    by (auto simp: supporters_def)
  have "x = y"
    using assms(2) a(3) x y by (auto simp: consistent_views_def dag_contains_def ref_slot_def fmlookup_dom_iff)
  then have "blk_ancestors v = blk_ancestors w"
    using assms(2) x(3) y(3) by (auto simp: consistent_views_def)
  with x(4) y(4) show thesis by (rule that)
qed

lemma is_quorum_mono: "is_quorum vs X \<Longrightarrow> X \<subseteq> Y \<Longrightarrow> is_quorum vs Y"
  using committee.quorum_upward [of X Y vs] by (simp add: is_quorum_def)

lemma certifiers_authors: "certifiers vs d s lref \<subseteq> authors_at d (decision_round (slot_round s))"
  by (auto simp: certifiers_def authors_at_def)

lemma quorum_nonempty: "is_quorum vs X \<Longrightarrow> X \<noteq> {}"
  by (auto simp: is_quorum_def stake_of_def)

lemma certifies_supporters:
  "certifies vs d s r b \<Longrightarrow> is_quorum vs (supporters d (voting_round (slot_round s)) (\<lambda>v. is_vote v s r))"
  unfolding certifies_def by (rule is_quorum_mono [OF _ cert_voters_supporters])

lemma certificates_agree:
  assumes "wf_vset vs" "consistent_views F A B" "3 * stake_of vs F \<le> unat (vs_total_power vs)"
    and "certifies vs A s r a" "certifies vs B s r' b"
  shows "r = r'"
proof -
  obtain v w where "is_vote v s r" "is_vote w s r'" "blk_ancestors v = blk_ancestors w"
    using common_honest_supporter [OF assms(1-3) certifies_supporters [OF assms(4)]
        certifies_supporters [OF assms(5)]] .
  then show ?thesis by (auto simp: is_vote_iff)
qed

lemma certificate_excludes_blame:
  assumes "wf_vset vs" "consistent_views F A B" "3 * stake_of vs F \<le> unat (vs_total_power vs)"
    and "dag_inv blake3 vs B" and "certifies vs A s r a"
  shows "\<not> is_quorum vs (blamers s B)"
proof
  assume "is_quorum vs (blamers s B)"
  then have q: "is_quorum vs (supporters B (voting_round (slot_round s)) (\<lambda>v. is_blame v s))"
    using blamers_supporters [OF assms(4)] by (rule is_quorum_mono)
  obtain v w where "is_vote v s r" "is_blame w s" "blk_ancestors v = blk_ancestors w"
    using common_honest_supporter [OF assms(1-3) certifies_supporters [OF assms(5)] q] .
  then show False by (auto simp: is_vote_iff is_blame_iff)
qed

subsection \<open>No certificate conflict is ever reported\<close>

text \<open>The only error of the commit rule is the overflow of a stake sum.\<close>

lemma agg_add_error: "agg_add agg a p = Inl e \<Longrightarrow> e = StakeOverflow a"
  by (auto simp: agg_add_def Let_def ok_or_def split: if_splits option.splits)

lemma certificate_scan_error:
  "certificate_scan s lref d vs q rs = Inl e \<Longrightarrow> \<exists>a. e = StakeOverflow a"
  by (induction s lref d vs q rs rule: certificate_scan.induct)
    (fastforce simp: rbind_Inl split: option.splits if_splits dest: agg_add_error)+

lemma certified_scan_error:
  "c = None \<or> c = Some lref \<Longrightarrow> certified_scan s lref d vs c bs = Inl e \<Longrightarrow> \<exists>a. e = StakeOverflow a"
proof (induction bs arbitrary: c)
  case (Cons b bs)
  show ?case
  proof (cases "is_certificate b s lref d vs")
    case (Inl e')
    then show ?thesis using Cons.prems by (auto simp: is_certificate_def dest: certificate_scan_error)
  next
    case (Inr cert)
    have "certified_scan s lref d vs (if cert then Some lref else c) bs = Inl e"
      using Cons.prems Inr by (auto split: if_splits)
    then show ?thesis using Cons.IH [of "if cert then Some lref else c"] Cons.prems(1) by (auto split: if_splits)
  qed
qed simp

lemma add_authors_error: "add_authors vs agg as = Inl e \<Longrightarrow> \<exists>a. e = StakeOverflow a"
  unfolding add_authors_def
  by (induction as arbitrary: agg) (auto simp: add_if_member_def rbind_Inl split: option.splits dest: agg_add_error)

lemma try_direct_decide_error: "try_direct_decide s d vs = Inl e \<Longrightarrow> \<exists>a. e = StakeOverflow a"
  by (auto simp: try_direct_decide_def Let_def rbind_Inl blame_aggregator_def total_stake_at_def
      split: option.splits if_splits dest: add_authors_error certified_scan_error [of None, OF disjI1 [OF refl]])

lemma try_indirect_decide_error: "try_indirect_decide s sts d vs = Inl e \<Longrightarrow> \<exists>a. e = StakeOverflow a"
  by (induction s sts d vs rule: try_indirect_decide.induct)
    (auto simp: anchor_decide_def rbind_Inl split: option.splits if_splits dest: certified_scan_error [of None, OF disjI1 [OF refl]])

lemma try_decide_error:
  assumes "try_decide l d vs leader_of = Inl e"
  shows "\<exists>a. e = StakeOverflow a"
proof -
  have step: "decide_round d vs leader_of ls r = Inl e' \<Longrightarrow> \<exists>a. e' = StakeOverflow a" for ls r e'
    by (auto simp: decide_round_def Let_def rbind_Inl split: if_splits
        dest: try_direct_decide_error try_indirect_decide_error)
  have "try_fold (decide_round d vs leader_of) ls rs = Inl e \<Longrightarrow> \<exists>a. e = StakeOverflow a" for ls rs
    by (induction rs arbitrary: ls) (auto simp: rbind_Inl dest: step)
  with assms show ?thesis by (auto simp: try_decide_def Let_def rbind_Inl split: if_splits)
qed

subsection \<open>Properties\<close>

lemma solo_sound: "sound_committee solo_vs"
  using solo_wf(1) by (simp add: sound_committee_def solo_vs_def)

text \<open>
  The breach error is dead code: whatever the committee and the store, however many members
  are faulty, the commit rule never reports \<open>ByzantineInvariantBreach\<close>, because the reference it
  compares with is always the one it is about to record.
\<close>

theorem breach_never_reported:
  "try_decide last_decided d vs leader_of \<noteq> Inl (ByzantineInvariantBreach rnd author first second)"
  using try_decide_error by blast

end
