(* ===== verification/Linearizer.thy ===== *)
theory Linearizer
  imports Commit_Record Committer
begin

section \<open>The linearizer\<close>

text \<open>
  \<^verbatim>\<open>lemma-consensus/src/pulse/linearizer.rs\<close>: the depth-first walk from a committed leader, the
  commit timestamp as a stake-weighted median, and the chain of commit records.

  The walk keeps a stack; the list \<open>stack\<close> has the top of the source's vector at its head.
  Every reference is marked before it is pushed, so the unmarked ancestors of stored blocks
  bound the walk.
\<close>

subsection \<open>Walking the sub-DAG\<close>

definition push_ancestor ::
  "u64 \<Rightarrow> dag_block_ref \<Rightarrow> dag_block_ref fset \<times> dag_block_ref list \<Rightarrow> dag_block_ref fset \<times> dag_block_ref list"
where
  "push_ancestor gc a cs =
     (if ref_round a \<le> gc \<or> a |\<in>| fst cs then cs else (finsert a (fst cs), a # snd cs))"

definition all_ancestors :: "dag \<Rightarrow> dag_block_ref set" where
  "all_ancestors d = (\<Union>b \<in> fmran' (d_blocks d). set (blk_ancestors b))"

lemma finite_all_ancestors [simp]: "finite (all_ancestors d)"
proof -
  have "fmran' (d_blocks d) = the ` fmlookup (d_blocks d) ` fset (fmdom (d_blocks d))"
    by (force simp: fmlookup_ran'_iff fmlookup_dom_iff image_iff)
  then show ?thesis by (simp add: all_ancestors_def)
qed

lemma all_ancestorsI: "fmlookup (d_blocks d) r = Some b \<Longrightarrow> set (blk_ancestors b) \<subseteq> all_ancestors d"
  unfolding all_ancestors_def by (blast intro: fmran'I)

definition unmarked :: "u64 \<Rightarrow> dag_block_ref fset \<Rightarrow> dag_block_ref list \<Rightarrow> dag_block_ref set" where
  "unmarked gc c as = {a \<in> set as. gc < ref_round a \<and> a |\<notin>| c}"

lemma unmarked_Cons:
  "unmarked gc c (a # as) =
    (if ref_round a \<le> gc \<or> a |\<in>| c then unmarked gc c as else insert a (unmarked gc (finsert a c) as))"
  by (auto simp: unmarked_def)

lemma fold_push_ancestor_all:
  assumes "fold (push_ancestor gc) as (c, st) = (c', st')"
  shows "fset c' = fset c \<union> unmarked gc c as \<and> set st' = set st \<union> unmarked gc c as \<and>
    (distinct st \<and> set st \<subseteq> fset c \<longrightarrow> distinct st') \<and>
    (unmarked gc c as = {} \<longrightarrow> st' = st \<and> c' = c)"
  using assms
proof (induction as arbitrary: c st)
  case Nil
  then show ?case by (simp add: unmarked_def)
next
  case (Cons a as)
  show ?case
  proof (cases "ref_round a \<le> gc \<or> a |\<in>| c")
    case True
    then have "push_ancestor gc a (c, st) = (c, st)" by (simp add: push_ancestor_def)
    then show ?thesis using Cons.IH [of c st] Cons.prems True by (simp add: unmarked_Cons)
  next
    case False
    then have "push_ancestor gc a (c, st) = (finsert a c, a # st)" by (simp add: push_ancestor_def)
    then have "fold (push_ancestor gc) as (finsert a c, a # st) = (c', st')" using Cons.prems by simp
    from Cons.IH [OF this] show ?thesis using False by (auto simp: unmarked_Cons)
  qed
qed

lemma fold_push_ancestor:
  assumes "fold (push_ancestor gc) as (c, st) = (c', st')"
  shows "fset c' = fset c \<union> unmarked gc c as" and "set st' = set st \<union> unmarked gc c as"
    and "distinct st \<Longrightarrow> set st \<subseteq> fset c \<Longrightarrow> distinct st'"
    and "unmarked gc c as = {} \<Longrightarrow> st' = st \<and> c' = c"
  using fold_push_ancestor_all [OF assms] by blast+

function linearize_loop ::
  "dag \<Rightarrow> u64 \<Rightarrow> dag_block_ref fset \<Rightarrow> dag_block_ref list \<Rightarrow> dag_block_ref list
    \<Rightarrow> dag_block_ref list \<times> dag_block_ref fset"
where
  "linearize_loop d gc committed [] to_commit = (to_commit, committed)"
| "linearize_loop d gc committed (r # stack) to_commit = (case dag_block_get d r of
      None \<Rightarrow> linearize_loop d gc committed stack (to_commit @ [r])
    | Some b \<Rightarrow>
        linearize_loop d gc (fst (fold (push_ancestor gc) (blk_ancestors b) (committed, stack)))
          (snd (fold (push_ancestor gc) (blk_ancestors b) (committed, stack))) (to_commit @ [r]))"
  by pat_completeness auto

lemma walk_measure:
  assumes "dag_block_get d r = Some b"
    and "fold (push_ancestor gc) (blk_ancestors b) (c, st) = (c', st')"
  shows "((card (all_ancestors d - fset c'), length st'), (card (all_ancestors d - fset c), Suc (length st)))
    \<in> less_than <*lex*> less_than"
proof (cases "unmarked gc c (blk_ancestors b) = {}")
  case True
  then show ?thesis using fold_push_ancestor(4) [OF assms(2)] by simp
next
  case False
  then obtain a where a: "a \<in> unmarked gc c (blk_ancestors b)" by blast
  moreover have "unmarked gc c (blk_ancestors b) \<subseteq> all_ancestors d"
    using all_ancestorsI [of d r b] assms(1) by (auto simp: dag_block_get_def unmarked_def)
  ultimately have "all_ancestors d - fset c' \<subset> all_ancestors d - fset c"
    using fold_push_ancestor(1) [OF assms(2)] by (auto simp: unmarked_def)
  then show ?thesis by (simp add: psubset_card_mono)
qed

termination linearize_loop
proof (relation "inv_image (less_than <*lex*> less_than)
    (\<lambda>p. (card (all_ancestors (fst p) - fset (fst (snd (snd p)))), length (fst (snd (snd (snd p))))))",
    goal_cases)
  case 1
  show ?case by (intro wf_inv_image wf_lex_prod wf_less_than)
next
  case (2 d gc committed r stack to_commit)
  then show ?case by simp
next
  case (3 d gc committed r stack to_commit b)
  then show ?case using walk_measure [OF 3, of gc committed stack] by (simp add: prod_eq_iff)
qed

definition linearize_sub_dag ::
  "dag_block_ref \<Rightarrow> dag \<Rightarrow> dag_block_ref fset \<Rightarrow> dag_block_ref list \<times> dag_block_ref fset" where
  "linearize_sub_dag leader_ref d committed =
     (case linearize_loop d (gc_round d) (finsert leader_ref committed) [leader_ref] [] of
        (to_commit, committed') \<Rightarrow> (sort_key ref_slot to_commit, committed'))"

subsection \<open>The walk collects the reachable uncommitted blocks\<close>

definition dag_edge :: "dag \<Rightarrow> u64 \<Rightarrow> dag_block_ref fset \<Rightarrow> dag_block_ref \<Rightarrow> dag_block_ref \<Rightarrow> bool" where
  "dag_edge d gc c x a \<longleftrightarrow>
     (\<exists>b. fmlookup (d_blocks d) x = Some b \<and> a \<in> set (blk_ancestors b) \<and> gc < ref_round a \<and> a |\<notin>| c)"

definition sub_dag :: "dag \<Rightarrow> u64 \<Rightarrow> dag_block_ref fset \<Rightarrow> dag_block_ref \<Rightarrow> dag_block_ref set" where
  "sub_dag d gc c l = {x. (dag_edge d gc c)\<^sup>*\<^sup>* l x}"

definition walk_inv ::
  "dag \<Rightarrow> u64 \<Rightarrow> dag_block_ref fset \<Rightarrow> dag_block_ref \<Rightarrow> dag_block_ref fset \<Rightarrow> dag_block_ref list
    \<Rightarrow> dag_block_ref list \<Rightarrow> bool"
where
  "walk_inv d gc c0 l c st out \<longleftrightarrow>
     fset c = fset c0 \<union> (set out \<union> set st) \<and> distinct (out @ st) \<and>
     (set out \<union> set st) \<inter> fset c0 = {} \<and> l \<in> set out \<union> set st \<and>
     set out \<union> set st \<subseteq> sub_dag d gc c0 l \<and>
     (\<forall>x \<in> set out. \<forall>a. dag_edge d gc c0 x a \<longrightarrow> a |\<in>| c)"

lemma walk_inv_step:
  assumes inv: "walk_inv d gc c0 l c (r # st) out"
    and new: "fset c' = fset c \<union> N" "set st' = set st \<union> N" "distinct st'"
    and N: "N \<inter> fset c = {}" "N \<subseteq> Collect (dag_edge d gc c0 r)"
      "\<And>a. dag_edge d gc c0 r a \<Longrightarrow> a \<in> fset c \<union> N"
  shows "walk_inv d gc c0 l c' st' (out @ [r])"
proof -
  have r: "r \<in> sub_dag d gc c0 l" using inv by (simp add: walk_inv_def)
  have "N \<subseteq> sub_dag d gc c0 l"
    using r N(2) by (auto simp: sub_dag_def intro: rtranclp.rtrancl_into_rtrancl)
  then show ?thesis using inv new N unfolding walk_inv_def by auto
qed

lemma linearize_loop_sub_dag:
  assumes "walk_inv d gc c0 l c st out" and "linearize_loop d gc c st out = (out', c')"
  shows "walk_inv d gc c0 l c' [] out'"
  using assms
proof (induction d gc c st out rule: linearize_loop.induct)
  case (1 d gc c out)
  then show ?case by simp
next
  case (2 d gc c r st out)
  have sub: "fset c0 \<subseteq> fset c" and st: "set st \<subseteq> fset c" "distinct st"
    using "2.prems"(1) by (auto simp: walk_inv_def)
  show ?case
  proof (cases "dag_block_get d r")
    case None
    then have "\<not> dag_edge d gc c0 r a" for a by (simp add: dag_edge_def dag_block_get_def)
    then have "walk_inv d gc c0 l c st (out @ [r])"
      using walk_inv_step [OF "2.prems"(1), of c "{}" st] st by simp
    then show ?thesis using "2.IH"(1) [OF None] "2.prems"(2) None by simp
  next
    case (Some b)
    obtain c1 st1 where f: "fold (push_ancestor gc) (blk_ancestors b) (c, st) = (c1, st1)"
      by (metis surj_pair)
    have N: "unmarked gc c (blk_ancestors b) \<inter> fset c = {}"
      "unmarked gc c (blk_ancestors b) \<subseteq> Collect (dag_edge d gc c0 r)"
      "\<And>a. dag_edge d gc c0 r a \<Longrightarrow> a \<in> fset c \<union> unmarked gc c (blk_ancestors b)"
      using Some sub by (auto simp: unmarked_def dag_edge_def dag_block_get_def)
    have "walk_inv d gc c0 l c1 st1 (out @ [r])"
      by (rule walk_inv_step [OF "2.prems"(1) fold_push_ancestor(1,2) [OF f] _ N])
        (rule fold_push_ancestor(3) [OF f st(2,1)])
    then show ?thesis using "2.IH"(2) [OF Some] "2.prems"(2) Some by (simp add: f)
  qed
qed

lemma linearize_sub_dag_spec:
  assumes "leader |\<notin>| c" and "linearize_sub_dag leader d c = (blocks, c')"
  shows "set blocks = sub_dag d (gc_round d) c leader" and "distinct blocks"
    and "sorted (map ref_slot blocks)" and "fset c' = fset c \<union> set blocks"
    and "set blocks \<inter> fset c = {}"
proof -
  let ?gc = "gc_round d"
  obtain out where loop: "linearize_loop d ?gc (finsert leader c) [leader] [] = (out, c')"
    and blocks: "blocks = sort_key ref_slot out"
    using assms(2) by (auto simp: linearize_sub_dag_def split: prod.splits)
  have "walk_inv d ?gc c leader (finsert leader c) [leader] []"
    using assms(1) by (auto simp: walk_inv_def sub_dag_def)
  note inv = linearize_loop_sub_dag [OF this loop, unfolded walk_inv_def]
  have "x \<in> set out" if "(dag_edge d ?gc c)\<^sup>*\<^sup>* leader x" for x
    using that
  proof (induction rule: rtranclp_induct)
    case base
    then show ?case using inv by simp
  next
    case (step y z)
    then have "z |\<in>| c'" using inv by blast
    moreover have "z |\<notin>| c" using step(2) by (auto simp: dag_edge_def)
    ultimately show ?case using inv by auto
  qed
  then show "set blocks = sub_dag d ?gc c leader" using inv by (auto simp: blocks sub_dag_def)
  show "distinct blocks" "sorted (map ref_slot blocks)" "fset c' = fset c \<union> set blocks"
    "set blocks \<inter> fset c = {}" using inv by (auto simp: blocks)
qed

text \<open>
  Parents of lower rounds. \<open>Dag::insert\<close> does not check it for weak links; it holds when every
  block was built by an honest proposer, and is a hypothesis where it is needed.
\<close>

definition rounds_descend :: "dag \<Rightarrow> bool" where
  "rounds_descend d \<longleftrightarrow> (\<forall>r b. fmlookup (d_blocks d) r = Some b \<longrightarrow>
     (\<forall>a \<in> set (blk_ancestors b). ref_round a < ref_round r))"

lemma sub_dag_rounds:
  assumes "rounds_descend d" and "x \<in> sub_dag d gc c l"
  shows "ref_round x \<le> ref_round l"
proof -
  have "(dag_edge d gc c)\<^sup>*\<^sup>* l x" using assms(2) by (simp add: sub_dag_def)
  then show ?thesis
  proof (induction rule: rtranclp_induct)
    case (step y z)
    then have "ref_round z < ref_round y" using assms(1) by (auto simp: dag_edge_def rounds_descend_def)
    then show ?case using step.IH by simp
  qed simp
qed

subsection \<open>The commit timestamp\<close>

fun median_walk :: "u128 \<Rightarrow> u128 \<Rightarrow> (u128 \<times> u64) list \<Rightarrow> u64 option" where
  "median_walk thr accumulated [] = None"
| "median_walk thr accumulated ((stk, ts) # rest) =
     (let accumulated' = accumulated + stk
      in if accumulated' > thr then Some ts else median_walk thr accumulated' rest)"

definition stake_weighted_median :: "hasher \<Rightarrow> (u128 \<times> u64) list \<Rightarrow> consensus_error + u64" where
  "stake_weighted_median blake3 samples =
     (let sentinel = address_from_public_key blake3 (replicate 32 0)
      in rbind (try_fold (\<lambda>acc p. ok_or (checked_add acc (fst p)) (StakeOverflow sentinel)) 0 samples)
        (\<lambda>tot.
          let sorted = sort_key snd samples
          in Inr (case median_walk (tot div 2) 0 sorted of
                Some ts \<Rightarrow> ts
              | None \<Rightarrow> (if sorted = [] then 0 else snd (last sorted)))))"

definition parent_sample :: "dag \<Rightarrow> validator_set \<Rightarrow> dag_block_ref \<Rightarrow> (u128 \<times> u64) option" where
  "parent_sample d vset r = (case fmlookup (vs_members vset) (ref_author r) of
      None \<Rightarrow> None
    | Some member \<Rightarrow> (case dag_block_get d r of
        None \<Rightarrow> None
      | Some b \<Rightarrow> Some (m_power member, blk_timestamp_ms b)))"

definition commit_timestamp ::
  "hasher \<Rightarrow> dag_block \<Rightarrow> u64 \<Rightarrow> dag \<Rightarrow> validator_set \<Rightarrow> consensus_error + u64" where
  "commit_timestamp blake3 leader last_commit_ts_ms d vset =
     (if blk_round leader = 0 then Inr last_commit_ts_ms
      else
        let samples = List.map_filter (parent_sample d vset)
              (ancestors_at_round leader (blk_round leader - 1))
        in if samples = [] then Inr last_commit_ts_ms
           else rbind (stake_weighted_median blake3 samples)
             (\<lambda>median. Inr (max median last_commit_ts_ms)))"

primrec weight :: "(u128 \<times> u64) list \<Rightarrow> nat" where
  "weight [] = 0"
| "weight (p # xs) = unat (fst p) + weight xs"

lemma weight_mset: "weight xs = sum_mset (image_mset (unat \<circ> fst) (mset xs))"
  by (induction xs) simp_all

lemma weight_append [simp]: "weight (xs @ ys) = weight xs + weight ys"
  by (induction xs) simp_all

lemma median_total:
  "try_fold (\<lambda>acc p. ok_or (checked_add acc (fst p)) e) a xs = Inr t \<Longrightarrow> unat t = unat a + weight xs"
  by (induction xs arbitrary: a) (auto simp: checked_add_Some)

lemma median_walk_Some:
  assumes "median_walk thr acc xs = Some ts" and "unat acc + weight xs < 2 ^ 128" and "unat acc \<le> unat thr"
  obtains pre stk post where "xs = pre @ (stk, ts) # post" and "unat acc + weight pre \<le> unat thr"
    and "unat thr < unat acc + weight pre + unat stk"
  using assms
proof (induction xs arbitrary: acc thesis)
  case (Cons p xs)
  obtain stk t where p: "p = (stk, t)" by (cases p)
  have sum: "unat (acc + stk) = unat acc + unat stk"
    using Cons.prems(3) by (intro unat_add_exact) (simp add: p)
  show ?case
  proof (cases "thr < acc + stk")
    case True
    then show ?thesis
      using Cons.prems sum by (intro Cons.prems(1) [of "[]" stk xs]) (simp_all add: p word_less_nat_alt)
  next
    case False
    have "median_walk thr (acc + stk) xs = Some ts" using Cons.prems(2) False by (simp add: p Let_def)
    moreover have "unat (acc + stk) + weight xs < 2 ^ 128" using Cons.prems(3) sum by (simp add: p)
    moreover have "unat (acc + stk) \<le> unat thr" using False by (simp add: word_less_nat_alt)
    ultimately obtain pre k post where "xs = pre @ (k, ts) # post" "unat (acc + stk) + weight pre \<le> unat thr"
      "unat thr < unat (acc + stk) + weight pre + unat k" using Cons.IH by blast
    then show ?thesis
      using sum by (intro Cons.prems(1) [of "p # pre" k post]) (simp_all add: p)
  qed
qed simp

lemma median_walk_None:
  "median_walk thr acc xs = None \<Longrightarrow> unat acc + weight xs < 2 ^ 128 \<Longrightarrow> unat acc \<le> unat thr \<Longrightarrow>
    unat acc + weight xs \<le> unat thr"
proof (induction xs arbitrary: acc)
  case (Cons p xs)
  obtain stk t where p: "p = (stk, t)" by (cases p)
  have sum: "unat (acc + stk) = unat acc + unat stk"
    using Cons.prems(2) by (intro unat_add_exact) (simp add: p)
  have le: "\<not> thr < acc + stk" and rest: "median_walk thr (acc + stk) xs = None"
    using Cons.prems(1) by (simp_all add: p Let_def split: if_splits)
  then have "unat (acc + stk) + weight xs \<le> unat thr"
    using Cons.IH [OF rest] Cons.prems(2) sum by (simp add: p word_less_nat_alt)
  then show ?case using sum by (simp add: p)
qed simp

lemma weight_filter_sort: "weight (filter P (sort_key k xs)) = weight (filter P xs)"
  by (simp add: weight_mset)

lemma weight_filter_le: "weight (filter P xs) \<le> weight xs"
  by (induction xs) auto

text \<open>
  The median: at most half of the weight lies strictly below it, more than half at or below
  it, and it is one of the samples.
\<close>

lemma stake_weighted_median_spec:
  assumes "stake_weighted_median blake3 xs = Inr m" and "0 < weight xs"
  shows "m \<in> snd ` set xs" and "2 * weight (filter (\<lambda>p. snd p < m) xs) \<le> weight xs"
    and "weight xs < 2 * weight (filter (\<lambda>p. snd p \<le> m) xs)"
proof -
  let ?ys = "sort_key snd xs"
  obtain tot where tot: "unat tot = weight xs"
    and m: "m = (case median_walk (tot div 2) 0 ?ys of Some ts \<Rightarrow> ts
      | None \<Rightarrow> (if ?ys = [] then 0 else snd (last ?ys)))"
    using assms(1) by (auto simp: stake_weighted_median_def Let_def dest!: median_total)
  have w: "weight ?ys = weight xs" using weight_filter_sort [of "\<lambda>_. True" snd xs] by simp
  have lt: "unat (0 :: u128) + weight ?ys < 2 ^ 128" using unat_lt_size [of tot] tot w by simp
  have half: "unat (tot div 2) = weight xs div 2" by (simp add: unat_div tot)
  have "median_walk (tot div 2) 0 ?ys \<noteq> None"
  proof
    assume "median_walk (tot div 2) 0 ?ys = None"
    from median_walk_None [OF this lt] have "weight xs \<le> weight xs div 2" using half w by simp
    with assms(2) show False by linarith
  qed
  then obtain ts where ts: "median_walk (tot div 2) 0 ?ys = Some ts" by blast
  then have mts: "m = ts" by (simp add: m)
  obtain pre stk post where ys: "?ys = pre @ (stk, m) # post" and lo: "weight pre \<le> weight xs div 2"
    and hi: "weight xs div 2 < weight pre + unat stk"
    using median_walk_Some [OF ts lt] half mts by auto
  have sorted: "sorted (map snd (pre @ (stk, m) # post))" using ys by (metis sorted_sort_key)
  have "(stk, m) \<in> set ?ys" by (simp add: ys)
  then show "m \<in> snd ` set xs" by (metis image_eqI set_sort snd_conv)
  have "filter (\<lambda>p. snd p < m) post = []"
    using sorted by (auto simp: filter_empty_conv sorted_append)
  then have "weight (filter (\<lambda>p. snd p < m) (pre @ (stk, m) # post)) \<le> weight pre"
    by (simp add: weight_filter_le)
  then have "weight (filter (\<lambda>p. snd p < m) xs) \<le> weight pre"
    by (simp only: ys [symmetric] weight_filter_sort)
  then show "2 * weight (filter (\<lambda>p. snd p < m) xs) \<le> weight xs" using lo by linarith
  have "filter (\<lambda>p. snd p \<le> m) pre = pre"
    using sorted by (auto simp: filter_id_conv sorted_append)
  then have "weight pre + unat stk \<le> weight (filter (\<lambda>p. snd p \<le> m) (pre @ (stk, m) # post))"
    by simp
  then have "weight pre + unat stk \<le> weight (filter (\<lambda>p. snd p \<le> m) xs)"
    by (simp only: ys [symmetric] weight_filter_sort)
  then show "weight xs < 2 * weight (filter (\<lambda>p. snd p \<le> m) xs)" using hi by linarith
qed

lemma median_total_ok:
  "unat a + weight xs < 2 ^ 128 \<Longrightarrow>
    \<exists>t. try_fold (\<lambda>acc p. ok_or (checked_add acc (fst p)) e) a xs = Inr t"
proof (induction xs arbitrary: a)
  case (Cons p xs)
  then have lt: "unat a + unat (fst p) < 2 ^ LENGTH(128)" by simp
  then have "checked_add a (fst p) = Some (a + fst p)" by (simp add: checked_add_def)
  moreover have "unat (a + fst p) + weight xs < 2 ^ 128" using Cons.prems unat_add_exact [OF lt] by simp
  ultimately show ?case using Cons.IH [of "a + fst p"] by simp
qed simp

lemma stake_weighted_median_ok: "weight xs < 2 ^ 128 \<Longrightarrow> \<exists>m. stake_weighted_median blake3 xs = Inr m"
  using median_total_ok [of 0 xs] by (fastforce simp: stake_weighted_median_def Let_def)

lemma weight_filter_map_le:
  "(\<And>p. p \<in> set ps \<Longrightarrow> P (g p) \<Longrightarrow> Q p) \<Longrightarrow> weight (filter P (map g ps)) \<le> weight (map g (filter Q ps))"
  by (induction ps) (auto intro: le_SucI trans_le_add2)

lemma weight_cover:
  "(\<And>p. p \<in> set ps \<Longrightarrow> P (g p) \<or> Q p) \<Longrightarrow>
    weight (map g ps) \<le> weight (filter P (map g ps)) + weight (map g (filter Q ps))"
  by (induction ps) fastforce+

text \<open>A median whose faulty samples weigh less than half lies between two honest samples.\<close>

lemma median_between_honest:
  assumes med: "stake_weighted_median blake3 (map g ps) = Inr m"
    and faulty: "2 * weight (map g (filter (\<lambda>p. \<not> H p) ps)) < weight (map g ps)"
  shows "\<exists>p \<in> set ps. H p \<and> snd (g p) \<le> m" and "\<exists>p \<in> set ps. H p \<and> m \<le> snd (g p)"
proof -
  have pos: "0 < weight (map g ps)" using faulty by linarith
  note spec = stake_weighted_median_spec [OF med pos]
  show "\<exists>p \<in> set ps. H p \<and> snd (g p) \<le> m"
  proof (rule ccontr)
    assume "\<not> ?thesis"
    then have "weight (filter (\<lambda>p. snd p \<le> m) (map g ps)) \<le> weight (map g (filter (\<lambda>p. \<not> H p) ps))"
      by (intro weight_filter_map_le) blast
    with spec(3) faulty show False by linarith
  qed
  show "\<exists>p \<in> set ps. H p \<and> m \<le> snd (g p)"
  proof (rule ccontr)
    assume "\<not> ?thesis"
    then have "weight (map g ps)
        \<le> weight (filter (\<lambda>p. snd p < m) (map g ps)) + weight (map g (filter (\<lambda>p. \<not> H p) ps))"
      by (intro weight_cover) (auto simp: not_le)
    with spec(2) faulty show False by linarith
  qed
qed

definition sampled :: "dag \<Rightarrow> validator_set \<Rightarrow> dag_block \<Rightarrow> dag_block_ref list" where
  "sampled d vs b =
     filter (\<lambda>r. parent_sample d vs r \<noteq> None) (ancestors_at_round b (blk_round b - 1))"

lemma map_filter_sampled:
  "List.map_filter (parent_sample d vs) (ancestors_at_round b (blk_round b - 1))
    = map (the \<circ> parent_sample d vs) (sampled d vs b)"
  by (simp add: List.map_filter_def sampled_def)

lemma parent_sample_Some:
  "parent_sample d vs r = Some p \<longleftrightarrow> (\<exists>m b. fmlookup (vs_members vs) (ref_author r) = Some m \<and>
    fmlookup (d_blocks d) r = Some b \<and> p = (m_power m, blk_timestamp_ms b))"
  by (auto simp: parent_sample_def dag_block_get_def split: option.splits)

lemma weight_stake:
  assumes "distinct (map ref_author ps)" and "\<forall>r \<in> set ps. parent_sample d vs r \<noteq> None"
  shows "weight (map (the \<circ> parent_sample d vs) ps) = stake_of vs (ref_author ` set ps)"
  using assms
proof (induction ps)
  case (Cons r ps)
  then obtain p where p: "parent_sample d vs r = Some p" by auto
  then obtain m and b :: dag_block where "p = (m_power m, blk_timestamp_ms b)" "fmlookup (vs_members vs) (ref_author r) = Some m"
    unfolding parent_sample_Some by blast
  with p show ?case using Cons by (auto simp: stake_of_insert power_of_def)
qed simp

lemma sampled_authors_distinct:
  assumes "indexed d" and "distinct (ancestors_at_round b (blk_round b - 1))"
  shows "distinct (map ref_author (sampled d vs b))"
proof -
  have "r = s" if "r \<in> set (sampled d vs b)" "s \<in> set (sampled d vs b)" "ref_author r = ref_author s" for r s
  proof -
    have "dag_contains d r" "dag_contains d s" "ref_slot r = ref_slot s"
      using that by (auto simp: sampled_def ancestors_at_round_def parent_sample_Some dag_contains_def
          fmlookup_dom_iff ref_slot_def)
    then show ?thesis using assms(1) by (metis indexed_def option.inject)
  qed
  moreover have "distinct (sampled d vs b)" using assms(2) by (simp add: sampled_def)
  ultimately show ?thesis by (simp add: distinct_map inj_on_def)
qed

lemma sampled_stake:
  assumes "\<forall>a \<in> set (ancestors_at_round b (blk_round b - 1)). dag_contains d a"
  shows "stake_of vs (ref_author ` set (sampled d vs b)) = stake_of vs (strong_parents b)"
proof -
  have "fmdom' (vs_members vs) \<inter> ref_author ` set (sampled d vs b) = fmdom' (vs_members vs) \<inter> strong_parents b"
  proof (intro equalityI subsetI)
    fix x assume x: "x \<in> fmdom' (vs_members vs) \<inter> strong_parents b"
    then obtain r where r: "r \<in> set (ancestors_at_round b (blk_round b - 1))" "ref_author r = x"
      by (auto simp: strong_parents_def ancestors_at_round_def)
    then have "parent_sample d vs r \<noteq> None"
      using assms x by (fastforce simp: parent_sample_Some dag_contains_def fmlookup_dom_iff fmlookup_dom'_iff)
    then show "x \<in> fmdom' (vs_members vs) \<inter> ref_author ` set (sampled d vs b)"
      using r x by (auto simp: sampled_def)
  qed (auto simp: sampled_def strong_parents_def ancestors_at_round_def)
  then show ?thesis by (simp add: stake_of_def)
qed

lemma sampled_faulty:
  assumes "indexed d" and "distinct (ancestors_at_round b (blk_round b - 1))"
  shows "weight (map (the \<circ> parent_sample d vs) (filter (\<lambda>r. ref_author r \<in> F) (sampled d vs b))) \<le> stake_of vs F"
proof -
  let ?fs = "filter (\<lambda>r. ref_author r \<in> F) (sampled d vs b)"
  have "distinct (map ref_author ?fs)"
    using sampled_authors_distinct [OF assms, of vs] by (auto simp: distinct_map inj_on_def)
  then have "weight (map (the \<circ> parent_sample d vs) ?fs) = stake_of vs (ref_author ` set ?fs)"
    by (rule weight_stake) (auto simp: sampled_def)
  also have "\<dots> \<le> stake_of vs F" by (rule stake_of_mono) auto
  finally show ?thesis .
qed

text \<open>
  With distinct stored parents and faulty stake of at most a third, the timestamp of a
  commit never fails and lies between the timestamps of two honest parents, up to the
  monotonic clamp.
\<close>

lemma commit_timestamp_honest:
  assumes valid: "wf_vset vs" and F: "3 * stake_of vs F \<le> unat (vs_total_power vs)"
    and ix: "indexed d" and rnd: "blk_round b \<noteq> 0" and strong: "strongly_linked vs b"
    and parents: "\<forall>a \<in> set (ancestors_at_round b (blk_round b - 1)). dag_contains d a"
    and dist: "distinct (ancestors_at_round b (blk_round b - 1))"
  obtains ts m r s where "commit_timestamp blake3 b last_ts d vs = Inr ts" "ts = max m last_ts"
    "r \<in> set (sampled d vs b)" "ref_author r \<notin> F" "snd (the (parent_sample d vs r)) \<le> m"
    "s \<in> set (sampled d vs b)" "ref_author s \<notin> F" "m \<le> snd (the (parent_sample d vs s))"
proof -
  let ?g = "the \<circ> parent_sample d vs" and ?ps = "sampled d vs b"
  have "weight (map ?g ?ps) = stake_of vs (ref_author ` set ?ps)"
    by (rule weight_stake [OF sampled_authors_distinct [OF ix dist]]) (simp add: sampled_def)
  then have w: "weight (map ?g ?ps) = stake_of vs (strong_parents b)"
    using sampled_stake [OF parents] by simp
  have quorum: "2 * unat (vs_total_power vs) < 3 * weight (map ?g ?ps)"
    using strong rnd w by (simp add: strongly_linked_def is_quorum_def)
  have bound: "weight (map ?g ?ps) < 2 ^ 128"
    using stake_le_total [OF valid, of "strong_parents b"] w unat_lt_size [of "vs_total_power vs"] by simp
  have faulty: "2 * weight (map ?g (filter (\<lambda>r. \<not> ref_author r \<notin> F) ?ps)) < weight (map ?g ?ps)"
    using sampled_faulty [OF ix dist, of vs F] F quorum by simp
  obtain m where m: "stake_weighted_median blake3 (map ?g ?ps) = Inr m"
    using stake_weighted_median_ok [OF bound] by blast
  have "map ?g ?ps \<noteq> []" using faulty by auto
  then have "commit_timestamp blake3 b last_ts d vs = Inr (max m last_ts)"
    using rnd m by (simp add: commit_timestamp_def map_filter_sampled Let_def)
  then show thesis
    using median_between_honest [OF m faulty] that by auto
qed

subsection \<open>The commit chain\<close>

record linearizer =
  lin_next_index :: u64
  lin_last_digest :: hash
  lin_committed :: "dag_block_ref fset"
  lin_last_timestamp_ms :: u64

definition linearizer_new :: linearizer where
  "linearizer_new = \<lparr>lin_next_index = 1, lin_last_digest = genesis_previous, lin_committed = {||},
     lin_last_timestamp_ms = 0\<rparr>"

text \<open>
  One decided leader. The walk marks blocks before the timestamp is computed, so a failing
  timestamp leaves the marks behind; the state is returned with either result.
\<close>

definition commit_leader ::
  "hasher \<Rightarrow> dag \<Rightarrow> validator_set \<Rightarrow> linearizer \<Rightarrow> dag_block_ref \<Rightarrow> (consensus_error + commit) \<times> linearizer"
where
  "commit_leader blake3 d vset lin leader_ref = (case dag_block_get d leader_ref of
      None \<Rightarrow> (Inl (DecidedLeaderMissing (ref_round leader_ref) (ref_author leader_ref)), lin)
    | Some leader_block \<Rightarrow>
        let (blocks, committed) = linearize_sub_dag (reference leader_block) d (lin_committed lin);
            lin1 = lin\<lparr>lin_committed := committed\<rparr>
        in case commit_timestamp blake3 leader_block (lin_last_timestamp_ms lin) d vset of
            Inl e \<Rightarrow> (Inl e, lin1)
          | Inr ts \<Rightarrow>
              let c = \<lparr>c_index = lin_next_index lin, c_previous_digest = lin_last_digest lin,
                       c_timestamp_ms = ts, c_leader = leader_ref, c_blocks = blocks\<rparr>
              in (Inr c, lin1\<lparr>lin_last_digest := commit_digest blake3 c, lin_last_timestamp_ms := ts,
                              lin_next_index := lin_next_index lin + 1\<rparr>))"

fun commit_loop ::
  "hasher \<Rightarrow> dag \<Rightarrow> validator_set \<Rightarrow> linearizer \<Rightarrow> commit list \<Rightarrow> leader_status list
    \<Rightarrow> (consensus_error + commit list) \<times> linearizer"
where
  "commit_loop blake3 d vset lin commits [] = (Inr commits, lin)"
| "commit_loop blake3 d vset lin commits (Commit leader_ref # rest) =
     (case commit_leader blake3 d vset lin leader_ref of
        (Inl e, lin') \<Rightarrow> (Inl e, lin')
      | (Inr c, lin') \<Rightarrow> commit_loop blake3 d vset lin' (commits @ [c]) rest)"
| "commit_loop blake3 d vset lin commits (_ # rest) = commit_loop blake3 d vset lin commits rest"

definition commit_leaders ::
  "hasher \<Rightarrow> linearizer \<Rightarrow> leader_status list \<Rightarrow> dag \<Rightarrow> validator_set
    \<Rightarrow> (consensus_error + commit list) \<times> linearizer \<times> dag"
where
  "commit_leaders blake3 lin decided d vset =
     (case commit_loop blake3 d vset lin [] decided of
        (Inl e, lin') \<Rightarrow> (Inl e, lin', d)
      | (Inr commits, lin') \<Rightarrow>
          (Inr commits, lin',
           (if commits = [] then d
            else set_last_committed_round d (Max (set (map (ref_round \<circ> c_leader) commits))))))"

fun committed_refs :: "leader_status list \<Rightarrow> dag_block_ref list" where
  "committed_refs [] = []"
| "committed_refs (Commit r # rest) = r # committed_refs rest"
| "committed_refs (_ # rest) = committed_refs rest"

text \<open>
  \<open>chained s cs t\<close>: the records \<open>cs\<close> lead from the chain state \<open>s\<close> to \<open>t\<close>. Indices count up,
  each record names the digest of the one before, time never goes back, no reference is
  committed twice, and a leader has the highest round of its record.
\<close>

inductive chained :: "hasher \<Rightarrow> linearizer \<Rightarrow> commit list \<Rightarrow> linearizer \<Rightarrow> bool" for blake3 where
  nil: "chained blake3 s [] s"
| cons: "\<lbrakk>c_index c = lin_next_index s; c_previous_digest c = lin_last_digest s;
    lin_last_timestamp_ms s \<le> c_timestamp_ms c; distinct (c_blocks c);
    set (c_blocks c) \<inter> fset (lin_committed s) = {}; c_leader c \<in> set (c_blocks c);
    sorted (map ref_slot (c_blocks c)); \<forall>x \<in> set (c_blocks c). ref_round x \<le> ref_round (c_leader c);
    lin_next_index t = lin_next_index s + 1; lin_last_digest t = commit_digest blake3 c;
    lin_last_timestamp_ms t = c_timestamp_ms c;
    fset (lin_committed t) = fset (lin_committed s) \<union> set (c_blocks c);
    chained blake3 t cs u\<rbrakk> \<Longrightarrow> chained blake3 s (c # cs) u"

lemma commit_timestamp_clamped:
  "commit_timestamp blake3 b last_ts d vs = Inr ts \<Longrightarrow> last_ts \<le> ts"
  by (auto simp: commit_timestamp_def Let_def split: if_splits)

lemma commit_leader_step:
  assumes "commit_leader blake3 d vs lin r = (Inr c, lin')" and "r |\<notin>| lin_committed lin"
    and keyed: "\<And>b. fmlookup (d_blocks d) r = Some b \<Longrightarrow> reference b = r" and desc: "rounds_descend d"
  shows "c_leader c = r" and "set (c_blocks c) = sub_dag d (gc_round d) (lin_committed lin) r"
    and "chained blake3 lin' cs u \<Longrightarrow> chained blake3 lin (c # cs) u"
proof -
  obtain b where b: "fmlookup (d_blocks d) r = Some b"
    using assms(1) by (auto simp: commit_leader_def dag_block_get_def split: option.splits)
  obtain blocks committed where lin: "linearize_sub_dag r d (lin_committed lin) = (blocks, committed)"
    by (metis surj_pair)
  obtain ts where ts: "commit_timestamp blake3 b (lin_last_timestamp_ms lin) d vs = Inr ts"
    using assms(1) b lin keyed [OF b]
    by (auto simp: commit_leader_def dag_block_get_def Let_def split: sum.splits)
  have c: "c = \<lparr>c_index = lin_next_index lin, c_previous_digest = lin_last_digest lin,
      c_timestamp_ms = ts, c_leader = r, c_blocks = blocks\<rparr>"
    and lin': "lin' = lin\<lparr>lin_committed := committed, lin_last_digest := commit_digest blake3 c,
      lin_last_timestamp_ms := ts, lin_next_index := lin_next_index lin + 1\<rparr>"
    using assms(1) b lin ts keyed [OF b] by (auto simp: commit_leader_def dag_block_get_def Let_def)
  note spec = linearize_sub_dag_spec [OF assms(2) lin]
  show "c_leader c = r" "set (c_blocks c) = sub_dag d (gc_round d) (lin_committed lin) r"
    using spec by (simp_all add: c)
  have "\<forall>x \<in> set blocks. ref_round x \<le> ref_round r" using sub_dag_rounds [OF desc] spec(1) by blast
  moreover have "r \<in> set blocks" by (simp add: spec(1) sub_dag_def)
  ultimately show "chained blake3 lin' cs u \<Longrightarrow> chained blake3 lin (c # cs) u"
    using spec commit_timestamp_clamped [OF ts] by (intro chained.cons) (auto simp: c lin')
qed

definition below_rounds :: "linearizer \<Rightarrow> dag_block_ref list \<Rightarrow> bool" where
  "below_rounds lin rs \<longleftrightarrow> (\<forall>x r. x |\<in>| lin_committed lin \<and> r \<in> set rs \<longrightarrow> ref_round x < ref_round r)"

lemma chained_committed: "chained blake3 s cs t \<Longrightarrow> fset (lin_committed s) \<subseteq> fset (lin_committed t)"
  by (induction rule: chained.induct) auto

lemma commit_leader_below:
  assumes "commit_leader blake3 d vs lin r = (Inr c, lin')" and "r |\<notin>| lin_committed lin"
    and keyed: "\<And>b. fmlookup (d_blocks d) r = Some b \<Longrightarrow> reference b = r" and "rounds_descend d"
    and "below_rounds lin (r # rs)" and "\<forall>s \<in> set rs. ref_round r < ref_round s"
  shows "below_rounds lin' rs"
proof -
  note step = commit_leader_step [OF assms(1,2) keyed assms(4)]
  have "chained blake3 lin [c] lin'" by (rule step(3)) (auto intro: chained.nil)
  then have "fset (lin_committed lin') = fset (lin_committed lin) \<union> set (c_blocks c)"
    by (auto elim: chained.cases)
  moreover have "ref_round x < ref_round s" if "x \<in> set (c_blocks c)" "s \<in> set rs" for x s
  proof -
    have "ref_round x \<le> ref_round r" using sub_dag_rounds [OF assms(4)] that(1) step(2) by blast
    also have "\<dots> < ref_round s" using assms(6) that(2) by blast
    finally show ?thesis .
  qed
  ultimately show ?thesis using assms(5) unfolding below_rounds_def by auto
qed

lemma commit_loop_chained:
  assumes keyed: "\<And>r b. fmlookup (d_blocks d) r = Some b \<Longrightarrow> reference b = r"
    and desc: "rounds_descend d"
  shows "commit_loop blake3 d vs lin cs0 sts = (Inr cs, lin') \<Longrightarrow>
    sorted_wrt (\<lambda>r s. ref_round r < ref_round s) (committed_refs sts) \<Longrightarrow>
    below_rounds lin (committed_refs sts) \<Longrightarrow>
    \<exists>new. cs = cs0 @ new \<and> chained blake3 lin new lin' \<and> map c_leader new = committed_refs sts"
proof (induction sts arbitrary: lin cs0)
  case Nil
  then show ?case by (auto intro: chained.nil)
next
  case (Cons st sts)
  show ?case
  proof (cases st)
    case (Commit r)
    obtain c lin1 where c: "commit_leader blake3 d vs lin r = (Inr c, lin1)"
      and rest: "commit_loop blake3 d vs lin1 (cs0 @ [c]) sts = (Inr cs, lin')"
      using Cons.prems(1) by (auto simp: Commit split: prod.splits sum.splits)
    have fresh: "r |\<notin>| lin_committed lin"
      using Cons.prems(3) by (auto simp: Commit below_rounds_def)
    note step = commit_leader_step [OF c fresh keyed desc]
    have "below_rounds lin1 (committed_refs sts)"
      using commit_leader_below [OF c fresh keyed desc] Cons.prems(2,3) by (simp add: Commit)
    then obtain new where new: "cs = (cs0 @ [c]) @ new" "chained blake3 lin1 new lin'"
      "map c_leader new = committed_refs sts"
      using Cons.IH [OF rest] Cons.prems(2) by (auto simp: Commit)
    then have "chained blake3 lin (c # new) lin'" using step(3) by blast
    with new step(1) show ?thesis by (auto simp: Commit)
  qed (use Cons in simp_all)
qed

lemma chained_disjoint:
  "chained blake3 s cs t \<Longrightarrow> distinct (concat (map c_blocks cs)) \<and>
    set (concat (map c_blocks cs)) \<inter> fset (lin_committed s) = {}"
  by (induction rule: chained.induct) (auto simp: disjoint_iff)

lemma chained_indices:
  "chained blake3 s cs t \<Longrightarrow> map c_index cs = map (\<lambda>i. lin_next_index s + of_nat i) [0..<length cs] \<and>
    lin_next_index t = lin_next_index s + of_nat (length cs)"
proof (induction rule: chained.induct)
  case (cons c s t cs u)
  then show ?case
    by (simp add: map_upt_Suc algebra_simps del: upt_Suc)
qed simp

lemma chained_links:
  "chained blake3 s cs t \<Longrightarrow> Suc i < length cs \<Longrightarrow>
    c_previous_digest (cs ! Suc i) = commit_digest blake3 (cs ! i) \<and>
    c_timestamp_ms (cs ! i) \<le> c_timestamp_ms (cs ! Suc i)"
proof (induction arbitrary: i rule: chained.induct)
  case (cons c s t cs u)
  then show ?case by (cases i; cases cs) (auto elim: chained.cases)
qed simp

subsection \<open>Properties\<close>

text \<open>
  C13. Linearization commits exactly the causal history: for a leader not committed before, the
  walk terminates with the references reachable from the leader over ancestors above the
  garbage-collection boundary and not committed before, each once, sorted by round and author,
  and adds exactly these to the committed set.
\<close>

theorem linearization_is_causal_history:
  assumes "leader |\<notin>| committed" and "linearize_sub_dag leader d committed = (blocks, committed')"
  shows "set blocks = {x. (\<lambda>x a. \<exists>b. fmlookup (d_blocks d) x = Some b \<and> a \<in> set (blk_ancestors b) \<and>
        gc_round d < ref_round a \<and> a |\<notin>| committed)\<^sup>*\<^sup>* leader x} \<and>
    distinct blocks \<and> sorted (map ref_slot blocks) \<and> fset committed' = fset committed \<union> set blocks"
proof -
  have "dag_edge d (gc_round d) committed = (\<lambda>x a. \<exists>b. fmlookup (d_blocks d) x = Some b \<and>
      a \<in> set (blk_ancestors b) \<and> gc_round d < ref_round a \<and> a |\<notin>| committed)"
    by (simp add: fun_eq_iff dag_edge_def)
  then show ?thesis using linearize_sub_dag_spec [OF assms] by (simp add: sub_dag_def)
qed

definition solo_pair :: dag where
  "solo_pair = accept_block (accept_block (dag_new 0) (DagBlockRef 1 1 0) (solo_block 1 [solo_genesis_ref]))
     (DagBlockRef 2 1 0) (solo_block 2 [DagBlockRef 1 1 0])"

theorem linearization_is_causal_history_witness:
  "linearize_sub_dag (DagBlockRef 2 1 0) solo_pair {||} =
     ([DagBlockRef 1 1 0, DagBlockRef 2 1 0], {|DagBlockRef 1 1 0, DagBlockRef 2 1 0|}) \<and>
   distinct [DagBlockRef 1 1 0, DagBlockRef 2 1 0]"
proof -
  have run: "linearize_sub_dag (DagBlockRef 2 1 0) solo_pair {||} =
     ([DagBlockRef 1 1 0, DagBlockRef 2 1 0], {|DagBlockRef 1 1 0, DagBlockRef 2 1 0|})" by code_simp
  have "DagBlockRef 2 1 0 |\<notin>| {||}" by simp
  from linearization_is_causal_history [OF this run] run show ?thesis by simp
qed

text \<open>
  The commit timestamp is bracketed by honest clocks: for a leader whose distinct parents
  form a quorum, with faulty members holding at most a third of the power, the timestamp is
  the clamp of a value between the timestamps of two parents by honest authors.
\<close>

theorem timestamp_between_honest_parents:
  assumes "wf_vset vs" "3 * stake_of vs F \<le> unat (vs_total_power vs)" "indexed d"
    and "blk_round b \<noteq> 0" "strongly_linked vs b"
    and "\<forall>a \<in> set (ancestors_at_round b (blk_round b - 1)). dag_contains d a"
    and "distinct (ancestors_at_round b (blk_round b - 1))"
  shows "\<exists>m r s p q. commit_timestamp blake3 b last_ts d vs = Inr (max m last_ts) \<and>
    r \<in> set (blk_ancestors b) \<and> ref_author r \<notin> F \<and> fmlookup (d_blocks d) r = Some p \<and> blk_timestamp_ms p \<le> m \<and>
    s \<in> set (blk_ancestors b) \<and> ref_author s \<notin> F \<and> fmlookup (d_blocks d) s = Some q \<and> m \<le> blk_timestamp_ms q"
proof -
  obtain ts m r s where ts: "commit_timestamp blake3 b last_ts d vs = Inr ts" "ts = max m last_ts"
    and r: "r \<in> set (sampled d vs b)" "ref_author r \<notin> F" "snd (the (parent_sample d vs r)) \<le> m"
    and s: "s \<in> set (sampled d vs b)" "ref_author s \<notin> F" "m \<le> snd (the (parent_sample d vs s))"
    using commit_timestamp_honest [OF assms(1-5,6,7)] .
  have parent: "x \<in> set (blk_ancestors b) \<and> (\<exists>p. fmlookup (d_blocks d) x = Some p \<and>
      snd (the (parent_sample d vs x)) = blk_timestamp_ms p)" if "x \<in> set (sampled d vs b)" for x
    using that by (auto simp: sampled_def ancestors_at_round_def parent_sample_def dag_block_get_def split: option.splits)
  show ?thesis using ts r s parent [OF r(1)] parent [OF s(1)] by metis
qed

theorem timestamp_between_honest_parents_witness:
  "\<exists>m. commit_timestamp (\<lambda>_. 0) (solo_block 2 [DagBlockRef 1 1 0]) 3 solo_pair solo_vs = Inr (max m 3)"
proof -
  let ?b = "solo_block 2 [DagBlockRef 1 1 0]"
  have ix: "indexed solo_pair"
    by (auto simp: indexed_def solo_pair_def dag_new_def refs_at_def dag_contains_def accept_block_def
        entry_insert_def ref_slot_def block_slot_def solo_block_def split: if_splits)
  have "strong_parents ?b = {1}" by (simp add: strong_parents_def ancestors_at_round_def solo_block_def)
  then have strong: "strongly_linked solo_vs ?b" using solo_wf(2) by (simp add: strongly_linked_def)
  have parents: "\<forall>a \<in> set (ancestors_at_round ?b (blk_round ?b - 1)). dag_contains solo_pair a"
    by (simp add: ancestors_at_round_def solo_block_def solo_pair_def dag_contains_def)
  have dist: "distinct (ancestors_at_round ?b (blk_round ?b - 1))"
    by (simp add: ancestors_at_round_def solo_block_def)
  have F: "3 * stake_of solo_vs {} \<le> unat (vs_total_power solo_vs)" by simp
  have rnd: "blk_round ?b \<noteq> 0" by (simp add: solo_block_def)
  show ?thesis using timestamp_between_honest_parents [OF solo_wf(1) F ix rnd strong parents dist] by blast
qed

definition skew_vs :: validator_set where
  "skew_vs = \<lparr>vs_epoch = 0, vs_members = fmap_of_list (map (\<lambda>a.
     (a, \<lparr>m_consensus_pubkey = \<lparr>ck_classical = [], ck_quantum = []\<rparr>, m_power = 1\<rparr>)) [1, 2, 3, 4]),
     vs_total_power = 4\<rparr>"

definition skew_parent :: "address \<Rightarrow> u64 \<Rightarrow> dag_block" where
  "skew_parent a ts = solo_block 0 []\<lparr>blk_author := a, blk_timestamp_ms := ts\<rparr>"

definition skew_dag :: dag where
  "skew_dag = fold (\<lambda>(a, ts) d. accept_block d (DagBlockRef 0 a 0) (skew_parent a ts))
     [(1, 10), (2, 10), (3, 10), (4, 999)] (dag_new 0)"

definition skew_leader :: "address list \<Rightarrow> dag_block" where
  "skew_leader ps = solo_block 1 (map (\<lambda>a. DagBlockRef 0 a 0) ps)"

text \<open>
  Repeated parents skew the timestamp: a leader that cites one parent several times has its
  power counted that often. With honest parents of power 3 at time 10 against a faulty one of
  power 1, three copies of the faulty parent move the commit timestamp to its claim.
\<close>

theorem repeated_parents_skew_timestamp:
  "validate_strong_link_quorum (skew_leader [1, 2, 3, 4, 4, 4, 4]) skew_vs = Inr () \<and>
   commit_timestamp (\<lambda>_. 0) (skew_leader [1, 2, 3, 4]) 0 skew_dag skew_vs = Inr 10 \<and>
   commit_timestamp (\<lambda>_. 0) (skew_leader [1, 2, 3, 4, 4, 4, 4]) 0 skew_dag skew_vs = Inr 999"
  by (intro conjI; code_simp)

end
