(* ===== verification/Threshold_Clock.thy ===== *)
theory Threshold_Clock
  imports Dag_Graph
begin

section \<open>The round clock\<close>

text \<open>
  \<^verbatim>\<open>lemma-consensus/src/dag/threshold_clock.rs\<close>: the local round advances when blocks of a quorum
  of distinct authors were presented at the current round. \<open>clock_inv vs A c\<close> says that the
  clock holds exactly the authors \<open>A\<close> of its current round, short of a quorum.
\<close>

record threshold_clock =
  tc_round :: u64
  tc_stake_at_round :: stake_aggregator

definition clock_new :: "amount \<Rightarrow> threshold_clock" where
  "clock_new total_power = \<lparr>tc_round = 0, tc_stake_at_round = agg_quorum total_power\<rparr>"

definition clock_at_round :: "u64 \<Rightarrow> amount \<Rightarrow> threshold_clock" where
  "clock_at_round rnd total_power = \<lparr>tc_round = rnd, tc_stake_at_round = agg_quorum total_power\<rparr>"

text \<open>
  The overflow error is raised before the clock is written; \<open>+= 1\<close> wraps at \<open>u64::MAX\<close>.
\<close>

definition clock_add_block ::
  "threshold_clock \<Rightarrow> dag_block \<Rightarrow> validator_set \<Rightarrow> consensus_error + u64 option \<times> threshold_clock"
where
  "clock_add_block c b vset =
     (if blk_round b \<noteq> tc_round c then Inr (None, c)
      else case fmlookup (vs_members vset) (blk_author b) of
        None \<Rightarrow> Inr (None, c)
      | Some member \<Rightarrow>
          rbind (agg_add (tc_stake_at_round c) (blk_author b) (m_power member)) (\<lambda>(reached, agg).
            if reached then
              Inr (Some (tc_round c + 1),
                   c\<lparr>tc_stake_at_round := agg_clear agg, tc_round := tc_round c + 1\<rparr>)
            else Inr (None, c\<lparr>tc_stake_at_round := agg\<rparr>)))"

definition clock_inv :: "validator_set \<Rightarrow> address set \<Rightarrow> threshold_clock \<Rightarrow> bool" where
  "clock_inv vs A c \<longleftrightarrow> counts_exactly vs (tc_stake_at_round c) A \<and>
     sa_threshold (tc_stake_at_round c) = Quorum \<and> \<not> sa_reached (tc_stake_at_round c)"

lemma clock_inv_at_round: "clock_inv vs {} (clock_at_round rnd (vs_total_power vs))"
  using counts_exactly_new [of vs Quorum] by (simp add: clock_inv_def clock_at_round_def agg_quorum_def)

lemma counts_exactly_clear:
  "counts_exactly vs agg A \<Longrightarrow> counts_exactly vs (agg_clear agg) {}"
  by (simp add: counts_exactly_def) (simp add: agg_clear_def)

lemma counts_exactly_nonmember:
  "fmlookup (vs_members vs) a = None \<Longrightarrow> counts_exactly vs agg A \<Longrightarrow> counts_exactly vs agg (insert a A)"
  using counts_exactly_add_if_member [of vs agg A a agg] by (simp add: add_if_member_def)

text \<open>Rounds of other numbers leave the clock alone; the current round counts the author.\<close>

lemma clock_add_other_round:
  "blk_round b \<noteq> tc_round c \<Longrightarrow> clock_add_block c b vs = Inr (None, c)"
  by (simp add: clock_add_block_def)

lemma clock_add_current_round:
  assumes valid: "wf_vset vs" "2 * unat (vs_total_power vs) < 2 ^ 128 - 1"
    and inv: "clock_inv vs A c" and rnd: "blk_round b = tc_round c"
  shows "if is_quorum vs (insert (blk_author b) A)
    then \<exists>c'. clock_add_block c b vs = Inr (Some (tc_round c + 1), c') \<and>
      tc_round c' = tc_round c + 1 \<and> clock_inv vs {} c'
    else \<exists>c'. clock_add_block c b vs = Inr (None, c') \<and>
      tc_round c' = tc_round c \<and> clock_inv vs (insert (blk_author b) A) c'"
proof (cases "fmlookup (vs_members vs) (blk_author b)")
  case None
  from inv have ex: "counts_exactly vs (tc_stake_at_round c) (insert (blk_author b) A)"
    using counts_exactly_nonmember [OF None] by (simp add: clock_inv_def)
  then have "clock_inv vs (insert (blk_author b) A) c \<and> \<not> is_quorum vs (insert (blk_author b) A)"
    using inv valid(2) quorum_reached_iff [OF ex] by (auto simp: clock_inv_def)
  then show ?thesis using None rnd by (simp add: clock_add_block_def)
next
  case (Some m)
  note exact = inv [unfolded clock_inv_def, THEN conjunct1]
  obtain reached agg where add: "agg_add (tc_stake_at_round c) (blk_author b) (m_power m) = Inr (reached, agg)"
    using agg_add_no_overflow [OF valid(1) exact Some] by blast
  have ex: "counts_exactly vs agg (insert (blk_author b) A)"
    using counts_exactly_add [OF exact Some add] .
  have thr: "sa_threshold agg = Quorum" and reached: "reached = sa_reached agg"
    using agg_add_frame [OF add] inv by (simp_all add: clock_inv_def)
  have "sa_reached agg \<longleftrightarrow> is_quorum vs (insert (blk_author b) A)"
    using quorum_reached_iff [OF ex thr] valid(2) by simp
  moreover have "clock_inv vs {} (c\<lparr>tc_stake_at_round := agg_clear agg, tc_round := n\<rparr>)" for n
    using counts_exactly_clear [OF ex] thr by (simp add: clock_inv_def) (simp add: agg_clear_def)
  moreover have "clock_inv vs (insert (blk_author b) A) (c\<lparr>tc_stake_at_round := agg\<rparr>)"
    if "\<not> sa_reached agg" using ex thr that by (simp add: clock_inv_def)
  ultimately show ?thesis
    using Some rnd add reached by (simp add: clock_add_block_def)
qed

text \<open>A sequence of blocks presented one after the other.\<close>

fun clock_feed :: "validator_set \<Rightarrow> threshold_clock \<Rightarrow> dag_block list \<Rightarrow> consensus_error + threshold_clock" where
  "clock_feed vset c [] = Inr c"
| "clock_feed vset c (b # bs) = rbind (clock_add_block c b vset) (\<lambda>(_, c'). clock_feed vset c' bs)"

lemma clock_feed_past:
  "list_all (\<lambda>b. blk_round b \<noteq> tc_round c) bs \<Longrightarrow> clock_feed vs c bs = Inr c"
  by (induction bs) (simp_all add: clock_add_other_round)

lemma clock_feed_round:
  assumes valid: "wf_vset vs" "2 * unat (vs_total_power vs) < 2 ^ 128 - 1"
  shows "clock_inv vs A c \<Longrightarrow> list_all (\<lambda>b. blk_round b = tc_round c) bs \<Longrightarrow> \<not> is_quorum vs A \<Longrightarrow>
    \<exists>c'. clock_feed vs c bs = Inr c' \<and>
      tc_round c' = (if is_quorum vs (blk_author ` set bs \<union> A) then tc_round c + 1 else tc_round c)"
proof (induction bs arbitrary: A c)
  case Nil
  then show ?case by simp
next
  case (Cons b bs)
  then have rnd: "blk_round b = tc_round c" by simp
  note step = clock_add_current_round [OF valid Cons.prems(1) rnd]
  show ?case
  proof (cases "is_quorum vs (insert (blk_author b) A)")
    case True
    with step obtain c' where c': "clock_add_block c b vs = Inr (Some (tc_round c + 1), c')"
      "tc_round c' = tc_round c + 1" by auto
    then have "clock_feed vs c' bs = Inr c'"
      using Cons.prems(2) by (intro clock_feed_past) (auto simp: list_all_iff)
    moreover have "is_quorum vs (blk_author ` set (b # bs) \<union> A)"
      using True committee.quorum_upward [of "insert (blk_author b) A" "blk_author ` set (b # bs) \<union> A" vs]
      by (simp add: is_quorum_def subset_insertI2)
    ultimately show ?thesis using c' by simp
  next
    case False
    with step obtain c' where c': "clock_add_block c b vs = Inr (None, c')"
      "tc_round c' = tc_round c" "clock_inv vs (insert (blk_author b) A) c'" by auto
    have "list_all (\<lambda>b. blk_round b = tc_round c') bs" using Cons.prems(2) c'(2) by simp
    moreover have "blk_author ` set (b # bs) \<union> A = blk_author ` set bs \<union> insert (blk_author b) A" by auto
    ultimately show ?thesis
      using Cons.IH [OF c'(3) _ False] c'(1,2) by (auto split: if_splits)
  qed
qed

subsection \<open>Properties\<close>

text \<open>
  The clock ticks exactly on a quorum: presented with any blocks of its round, a fresh clock
  ends in the next round when their distinct member authors form a quorum and stays otherwise.
\<close>

theorem clock_ticks_on_quorum:
  assumes "wf_vset vs" "2 * unat (vs_total_power vs) < 2 ^ 128 - 1"
    and "list_all (\<lambda>b. blk_round b = rnd) bs"
  shows "\<exists>c. clock_feed vs (clock_at_round rnd (vs_total_power vs)) bs = Inr c \<and>
    tc_round c = (if is_quorum vs (blk_author ` set bs) then rnd + 1 else rnd)"
proof -
  have "tc_round (clock_at_round rnd (vs_total_power vs)) = rnd" by (simp add: clock_at_round_def)
  then show ?thesis
    using clock_feed_round [OF assms(1,2) clock_inv_at_round, of rnd bs] assms(3)
    by (auto simp: is_quorum_def split: if_splits)
qed

theorem clock_ticks_on_quorum_witness:
  "\<exists>c. clock_feed solo_vs (clock_at_round 1 (vs_total_power solo_vs)) [linked_block, linked_block] = Inr c \<and> tc_round c = 2"
  using clock_ticks_on_quorum [OF solo_wf(1), of 1 "[linked_block, linked_block]"] solo_wf(2)
  by (simp add: linked_block_def solo_vs_def)

end
