(* ===== verification/Reputation.thy ===== *)
theory Reputation
  imports Commit_Record "HOL-Library.Product_Lexorder"
begin

section \<open>Reputation scores and the leader swap table\<close>

text \<open>
  \<^verbatim>\<open>lemma-consensus/src/reputation.rs\<close>: one point per committed block, saturating at \<open>u64::MAX\<close>,
  and a table that replaces the committee members of lowest score by those of highest.
\<close>

type_synonym reputation_scores = "(address, u64) fmap"
type_synonym leader_swap_table = "(address, address) fmap"

definition scores_empty :: reputation_scores where
  "scores_empty = fmempty"

definition score :: "reputation_scores \<Rightarrow> address \<Rightarrow> u64" where
  "score s author = (case fmlookup s author of None \<Rightarrow> 0 | Some n \<Rightarrow> n)"

definition add_point :: "dag_block_ref \<Rightarrow> reputation_scores \<Rightarrow> reputation_scores" where
  "add_point r s = fmupd (ref_author r) (saturating_add (score s (ref_author r)) 1) s"

definition from_commits :: "commit list \<Rightarrow> reputation_scores" where
  "from_commits commits = fold (\<lambda>c s. fold add_point (c_blocks c) s) commits fmempty"

definition scores_is_empty :: "reputation_scores \<Rightarrow> bool" where
  "scores_is_empty s \<longleftrightarrow> s = fmempty"

definition swap_identity :: leader_swap_table where
  "swap_identity = fmempty"

definition swap_pair ::
  "reputation_scores \<Rightarrow> address \<times> address \<Rightarrow> leader_swap_table \<Rightarrow> leader_swap_table" where
  "swap_pair scores p swaps =
     (if score scores (fst p) < score scores (snd p) then fmupd (fst p) (snd p) swaps else swaps)"

definition from_scores :: "reputation_scores \<Rightarrow> validator_set \<Rightarrow> nat \<Rightarrow> leader_swap_table" where
  "from_scores scores committee swap_count =
     (if swap_count = 0 \<or> vset_is_empty committee then swap_identity
      else
        let members = btree_keys (vs_members committee);
            n = length members;
            actual = min swap_count (n div 2)
        in if actual = 0 then swap_identity
           else
             let sorted = sort_key (\<lambda>addr. (score scores addr, addr)) members;
                 bad = take actual sorted;
                 good = drop (n - actual) sorted
             in fold (swap_pair scores) (zip bad (rev good)) fmempty)"

definition swap :: "leader_swap_table \<Rightarrow> address \<Rightarrow> u64 \<Rightarrow> address" where
  "swap t candidate rnd = (case fmlookup t candidate of None \<Rightarrow> candidate | Some g \<Rightarrow> g)"

definition is_identity :: "leader_swap_table \<Rightarrow> bool" where
  "is_identity t \<longleftrightarrow> t = fmempty"

subsection \<open>Scores count committed blocks\<close>

lemma score_fold_add_point:
  "unat (score (fold add_point rs s) a) =
     min (unat (score s a) + count_list (map ref_author rs) a) (2 ^ 64 - 1)"
proof (induction rs arbitrary: s)
  case Nil
  show ?case using unat_lt_size [of "score s a"] by simp
next
  case (Cons r rs)
  have "unat (score (add_point r s) a) =
      (if ref_author r = a then min (unat (score s a) + 1) (2 ^ 64 - 1) else unat (score s a))"
    by (simp add: add_point_def score_def unat_saturating_add)
  with Cons.IH [of "add_point r s"] show ?case by auto
qed

lemma fold_fold_concat: "fold (\<lambda>c. fold f (g c)) xs s = fold f (concat (map g xs)) s"
  by (induction xs arbitrary: s) auto

lemma score_from_commits:
  "unat (score (from_commits cs) a) =
     min (count_list (map ref_author (concat (map c_blocks cs))) a) (2 ^ 64 - 1)"
  using score_fold_add_point [of "concat (map c_blocks cs)" fmempty a]
  by (simp add: from_commits_def fold_fold_concat score_def)

subsection \<open>The swap table\<close>

lemma fold_swap_pair:
  "fmlookup (fold (swap_pair s) ps t) b = Some g \<Longrightarrow>
    fmlookup t b = Some g \<or> (b, g) \<in> set ps \<and> score s b < score s g"
  by (induction ps arbitrary: t) (fastforce simp: swap_pair_def split: if_splits)+

lemma zip_rev_disjoint:
  assumes "distinct xs" and "2 * k \<le> length xs" and "(b, g) \<in> set (zip (take k xs) (rev (drop (length xs - k) xs)))"
  shows "b \<in> set (take k xs)" "g \<in> set (drop (length xs - k) xs)"
    "set (take k xs) \<inter> set (drop (length xs - k) xs) = {}"
  using assms set_zip_leftD [OF assms(3)] set_zip_rightD [OF assms(3)]
    set_take_disj_set_drop_if_distinct [OF assms(1), of k "length xs - k"]
  by simp_all

text \<open>
  Every entry replaces a member by another member of strictly higher score, and nobody is
  both replaced and a replacement.
\<close>

lemma from_scores_entry:
  assumes "fmlookup (from_scores s vs k) b = Some g"
  shows "b |\<in>| fmdom (vs_members vs)" "g |\<in>| fmdom (vs_members vs)" "score s b < score s g"
    "g |\<notin>| fmdom (from_scores s vs k)"
proof -
  define xs where "xs = sort_key (\<lambda>addr. (score s addr, addr)) (btree_keys (vs_members vs))"
  define a where "a = min k (length xs div 2)"
  let ?ps = "zip (take a xs) (rev (drop (length xs - a) xs))"
  have len: "length xs = btree_len (vs_members vs)" by (simp add: xs_def)
  have table: "from_scores s vs k = fold (swap_pair s) ?ps fmempty"
    using assms unfolding from_scores_def Let_def
    by (auto simp: swap_identity_def a_def xs_def split: if_splits)
  have xs: "distinct xs" "2 * a \<le> length xs" "set xs = fset (fmdom (vs_members vs))"
    by (auto simp: xs_def a_def)
  have entry: "(x, y) \<in> set ?ps \<and> score s x < score s y"
    if "fmlookup (from_scores s vs k) x = Some y" for x y
    using fold_swap_pair [of s ?ps fmempty x y] that by (simp add: table)
  note parts = zip_rev_disjoint [OF xs(1,2)]
  have bg: "b \<in> set (take a xs)" "g \<in> set (drop (length xs - a) xs)"
    and disj: "set (take a xs) \<inter> set (drop (length xs - a) xs) = {}"
    using parts entry [OF assms] by blast+
  show "b |\<in>| fmdom (vs_members vs)" "g |\<in>| fmdom (vs_members vs)"
    using bg xs(3) in_set_takeD in_set_dropD by fast+
  show "score s b < score s g" using entry [OF assms] by blast
  show "g |\<notin>| fmdom (from_scores s vs k)"
  proof
    assume "g |\<in>| fmdom (from_scores s vs k)"
    then obtain y where "fmlookup (from_scores s vs k) g = Some y" by (auto simp: fmlookup_dom_iff)
    then have "g \<in> set (take a xs)" using entry parts(1) by blast
    with bg(2) disj show False by blast
  qed
qed

lemma swap_member:
  assumes "a |\<in>| fmdom (vs_members vs)"
  shows "swap (from_scores s vs k) a rnd |\<in>| fmdom (vs_members vs)"
  using assms from_scores_entry(2) by (auto simp: swap_def split: option.splits)

subsection \<open>Properties\<close>

text \<open>
  The reputation of an author is the number of its blocks in the commits, saturated at
  \<open>u64::MAX\<close>.
\<close>

theorem score_counts_committed_blocks:
  "unat (score (from_commits cs) a) =
     min (length (filter (\<lambda>r. ref_author r = a) (concat (map c_blocks cs)))) (2 ^ 64 - 1)"
  by (simp add: score_from_commits count_list_eq_length_filter filter_map o_def eq_commute)

text \<open>
  The swap table replaces a member by a member of strictly higher score, and a replacement
  is never itself replaced, so one application of the table is final.
\<close>

theorem swap_promotes_better_member:
  assumes "fmlookup (from_scores s vs k) bad = Some good"
  shows "bad |\<in>| fmdom (vs_members vs) \<and> good |\<in>| fmdom (vs_members vs) \<and> score s bad < score s good \<and>
    swap (from_scores s vs k) good rnd = good"
  using from_scores_entry [OF assms] by (simp add: swap_def fmlookup_dom_iff split: option.splits)

theorem swap_promotes_better_member_witness:
  "swap (from_scores (fmap_of_list [(3, 5)]) trio_vs 1) 3 0 = 3"
proof -
  have "fmlookup (from_scores (fmap_of_list [(3, 5)]) trio_vs 1) 1 = Some 3" by code_simp
  from swap_promotes_better_member [OF this] show ?thesis by simp
qed

end
