(* ===== verification/Leader.thy ===== *)
theory Leader
  imports Reputation
begin

section \<open>The leader schedule\<close>

text \<open>
  \<^verbatim>\<open>lemma-consensus/src/pulse/leader.rs\<close>: the round-robin over the committee in address order,
  followed by the reputation swap. The rotation is over raw round numbers, while the commit
  rule asks for the leaders of wave-aligned rounds only (\<open>round % WAVE_LENGTH == 0\<close>), so the
  lemmas on fairness separate the two.
\<close>

record leader_schedule =
  ls_committee_order :: "address list"
  ls_offset :: u64
  ls_swap :: leader_swap_table

definition with_swap ::
  "validator_set \<Rightarrow> u64 \<Rightarrow> leader_swap_table \<Rightarrow> consensus_error + leader_schedule" where
  "with_swap vset offset t =
     (if vs_members vset = fmempty then Inl (EmptyCommittee (vs_epoch vset))
      else Inr \<lparr>ls_committee_order = btree_keys (vs_members vset), ls_offset = offset, ls_swap = t\<rparr>)"

definition schedule_new :: "validator_set \<Rightarrow> consensus_error + leader_schedule" where
  "schedule_new vset = with_swap vset LEADER_OFFSET swap_identity"

definition with_offset :: "validator_set \<Rightarrow> u64 \<Rightarrow> consensus_error + leader_schedule" where
  "with_offset vset offset = with_swap vset offset swap_identity"

definition leader_index :: "leader_schedule \<Rightarrow> u64 \<Rightarrow> u64" where
  "leader_index s rnd = (rnd + ls_offset s) mod of_nat (length (ls_committee_order s))"

definition elect_leader :: "leader_schedule \<Rightarrow> u64 \<Rightarrow> slot" where
  "elect_leader s rnd =
     (let candidate = ls_committee_order s ! unat (leader_index s rnd)
      in Slot rnd (swap (ls_swap s) candidate rnd))"

definition committee_size :: "leader_schedule \<Rightarrow> nat" where
  "committee_size s = length (ls_committee_order s)"

lemma elect_leader_round [simp]: "slot_round (elect_leader s rnd) = rnd"
  by (simp add: elect_leader_def Let_def)

lemma with_swap_Inr:
  "with_swap vset offset t = Inr s \<longleftrightarrow> vs_members vset \<noteq> fmempty \<and>
    s = \<lparr>ls_committee_order = btree_keys (vs_members vset), ls_offset = offset, ls_swap = t\<rparr>"
  by (auto simp: with_swap_def)

lemma btree_keys_nonempty: "m \<noteq> fmempty \<longleftrightarrow> btree_keys m \<noteq> []"
  by (metis fmdom_empty fmrestrict_fset_dom fmrestrict_fset_null length_0_conv length_sorted_list_of_fset
      fcard_0_eq)

text \<open>
  The index is below the committee size, as long as the size is a \<open>u64\<close>; a committee holds
  at most \<open>2 ^ 160\<close> addresses, so this is the source's cast from \<open>usize\<close>.
\<close>

lemma leader_index_nat:
  assumes "length (ls_committee_order s) < 2 ^ 64"
  shows "unat (leader_index s rnd) = unat (rnd + ls_offset s) mod length (ls_committee_order s)"
proof -
  have "unat (of_nat (length (ls_committee_order s)) :: u64) = length (ls_committee_order s)"
    using assms by (simp add: unat_of_nat)
  then show ?thesis by (simp add: leader_index_def unat_mod)
qed

lemma elect_leader_swap:
  "slot_author (elect_leader s rnd) =
     swap (ls_swap s) (ls_committee_order s ! unat (leader_index s rnd)) rnd"
  by (simp add: elect_leader_def Let_def)

lemma candidate_member:
  assumes "with_swap vs offset t = Inr s" and "vset_len vs < 2 ^ 64"
  shows "ls_committee_order s ! unat (leader_index s rnd) |\<in>| fmdom (vs_members vs)"
proof -
  have ne: "btree_keys (vs_members vs) \<noteq> []" and s: "ls_committee_order s = btree_keys (vs_members vs)"
    using assms(1) btree_keys_nonempty by (auto simp: with_swap_Inr)
  have "unat (leader_index s rnd) < length (ls_committee_order s)"
    using assms(2) ne s by (simp add: leader_index_nat vset_len_def flip: length_greater_0_conv)
  then have "ls_committee_order s ! unat (leader_index s rnd) \<in> set (ls_committee_order s)"
    by (rule nth_mem)
  then show ?thesis by (simp add: s)
qed

subsection \<open>Rotation\<close>

lemma mod_shift_inj:
  fixes n :: nat
  assumes "i \<le> j" "j < n" "(r + i) mod n = (r + j) mod n"
  shows "i = j"
proof (rule ccontr)
  assume "i \<noteq> j"
  have "n dvd (r + j) - (r + i)" using assms by (metis add_left_mono mod_eq_dvd_iff_nat)
  then have "n dvd j - i" by simp
  then show False using assms \<open>i \<noteq> j\<close> by (auto dest: dvd_imp_le)
qed

lemma mod_window:
  fixes n :: nat
  assumes "0 < n"
  shows "(\<lambda>i. (r + i) mod n) ` {..<n} = {..<n}"
proof -
  have "inj_on (\<lambda>i. (r + i) mod n) {..<n}"
    by (rule inj_onI) (metis lessThan_iff mod_shift_inj nat_le_linear)
  moreover have "(\<lambda>i. (r + i) mod n) ` {..<n} \<subseteq> {..<n}" using assms by auto
  ultimately show ?thesis by (simp add: card_image card_subset_eq)
qed

lemma unat_word_range: "unat (r + of_nat i :: u64) = unat r + i" if "unat r + i < 2 ^ 64"
proof -
  have "unat (of_nat i :: u64) = i" using that by (simp add: unat_of_nat)
  then show ?thesis using unat_add_exact [of r "of_nat i"] that by simp
qed

text \<open>
  Over any window of as many rounds as there are members, below the wrap-around, each
  member is the round-robin candidate exactly once.
\<close>

lemma candidates_window:
  assumes s: "with_swap vs offset t = Inr s" and n: "vset_len vs = n" "n < 2 ^ 64"
    and wrap: "unat (rnd + offset) + n < 2 ^ 64"
  shows "(\<lambda>i. ls_committee_order s ! unat (leader_index s (rnd + of_nat i))) ` {..<n} = fset (fmdom (vs_members vs))"
proof -
  let ?o = "ls_committee_order s"
  have o: "?o = btree_keys (vs_members vs)" "?o \<noteq> []" "ls_offset s = offset"
    using s btree_keys_nonempty by (auto simp: with_swap_Inr)
  have len: "length ?o = n" using n by (simp add: o(1) vset_len_def)
  have idx: "unat (leader_index s (rnd + of_nat i)) = (unat (rnd + offset) + i) mod n" if "i < n" for i
  proof -
    have "rnd + of_nat i + offset = (rnd + offset) + of_nat i" by (simp add: algebra_simps)
    then have "unat (rnd + of_nat i + offset) = unat (rnd + offset) + i"
      using wrap that by (simp only: unat_word_range)
    then show ?thesis using n(2) len by (simp add: leader_index_nat o(3))
  qed
  have "(\<lambda>i. ?o ! unat (leader_index s (rnd + of_nat i))) ` {..<n}
      = (\<lambda>i. ?o ! ((unat (rnd + offset) + i) mod n)) ` {..<n}"
    by (intro image_cong) (simp_all add: idx)
  also have "\<dots> = (!) ?o ` ((\<lambda>i. (unat (rnd + offset) + i) mod n) ` {..<n})"
    by (simp add: image_image)
  also have "\<dots> = (!) ?o ` {..<n}"
    using mod_window [of n] o(2) len by (metis length_greater_0_conv)
  also have "\<dots> = set ?o" by (auto simp: set_conv_nth len)
  finally show ?thesis by (simp add: o(1))
qed

text \<open>
  Wave-aligned rounds of a committee whose size is a multiple of the wave length only reach
  the members at positions divisible by the wave length.
\<close>

lemma wave_aligned_index:
  assumes s: "schedule_new vs = Inr s" and n: "vset_len vs < 2 ^ 64" "3 dvd vset_len vs"
    and r: "rnd mod WAVE_LENGTH = 0"
  shows "3 dvd unat (leader_index s rnd)"
proof -
  have o: "ls_committee_order s = btree_keys (vs_members vs)" "ls_offset s = 0"
    using s by (auto simp: schedule_new_def with_swap_Inr LEADER_OFFSET_def)
  have "unat (rnd mod 3) = 0" using r by (simp add: WAVE_LENGTH_def)
  then have "3 dvd unat rnd" by (simp add: unat_mod mod_eq_0_iff_dvd)
  then show ?thesis using n by (simp add: leader_index_nat o vset_len_def dvd_mod)
qed

lemma wave_leaders_third:
  assumes "schedule_new vs = Inr s" and "vset_len vs = 3 * k" "3 * k < 2 ^ 64"
  shows "card ((\<lambda>rnd. slot_author (elect_leader s rnd)) ` {rnd. rnd mod WAVE_LENGTH = 0}) \<le> k"
proof -
  let ?o = "ls_committee_order s"
  have o: "?o = btree_keys (vs_members vs)" "?o \<noteq> []" "ls_swap s = fmempty"
    using assms(1) btree_keys_nonempty
    by (auto simp: schedule_new_def with_swap_Inr swap_identity_def)
  have len: "length ?o = 3 * k" using assms(2) by (simp add: o(1) vset_len_def)
  have "((\<lambda>rnd. slot_author (elect_leader s rnd)) ` {rnd. rnd mod WAVE_LENGTH = 0}) \<subseteq> (\<lambda>i. ?o ! (3 * i)) ` {..<k}"
  proof
    fix a assume "a \<in> ((\<lambda>rnd. slot_author (elect_leader s rnd)) ` {rnd. rnd mod WAVE_LENGTH = 0})"
    then obtain rnd where "a = slot_author (elect_leader s rnd)" and r: "rnd mod WAVE_LENGTH = 0"
      by (elim imageE) (simp only: mem_Collect_eq)
    then have a: "a = ?o ! unat (leader_index s rnd)"
      by (simp add: elect_leader_swap swap_def o(3))
    obtain i where i: "unat (leader_index s rnd) = 3 * i"
      using wave_aligned_index [OF assms(1) _ _ r] assms(2,3) by (auto elim!: dvdE)
    have "0 < length ?o" using o(2) by simp
    then have "unat (leader_index s rnd) < 3 * k" using assms(3) len by (simp add: leader_index_nat)
    with a i show "a \<in> (\<lambda>i. ?o ! (3 * i)) ` {..<k}" by auto
  qed
  then have "card ((\<lambda>rnd. slot_author (elect_leader s rnd)) ` {rnd. rnd mod WAVE_LENGTH = 0})
      \<le> card ((\<lambda>i. ?o ! (3 * i)) ` {..<k})"
    by (rule card_mono [rotated]) simp
  also have "\<dots> \<le> card {..<k}" by (rule card_image_le) simp
  finally show ?thesis by simp
qed

subsection \<open>Properties\<close>

text \<open>
  Every leader is a member of the committee, for every round, offset and reputation table
  (including the wrap-around of the round counter).
\<close>

theorem leader_is_member:
  assumes "with_swap vs offset (from_scores scores vs k) = Inr s" and "vset_len vs < 2 ^ 64"
  shows "slot_author (elect_leader s rnd) |\<in>| fmdom (vs_members vs) \<and> slot_round (elect_leader s rnd) = rnd"
  using swap_member [OF candidate_member [OF assms]] assms(1) by (simp add: elect_leader_swap with_swap_Inr)

theorem leader_is_member_witness: "\<exists>s. with_swap trio_vs 2 (from_scores fmempty trio_vs 1) = Inr s \<and>
  slot_author (elect_leader s 18446744073709551615) |\<in>| fmdom (vs_members trio_vs)"
proof -
  let ?s = "\<lparr>ls_committee_order = [1, 2, 3], ls_offset = 2, ls_swap = fmempty\<rparr>"
  have s: "with_swap trio_vs 2 (from_scores fmempty trio_vs 1) = Inr ?s" by code_simp
  have "vset_len trio_vs = 3" by code_simp
  then show ?thesis using leader_is_member [OF s] s by auto
qed

text \<open>
  Rotation is fair over consecutive rounds: among as many consecutive rounds as there are
  members, every member is the unswapped candidate once.
\<close>

theorem rotation_covers_committee:
  assumes "with_swap vs offset fmempty = Inr s" and "vset_len vs = n" "n < 2 ^ 64"
    and "unat (rnd + offset) + n < 2 ^ 64"
  shows "(\<lambda>i. slot_author (elect_leader s (rnd + of_nat i))) ` {..<n} = fset (fmdom (vs_members vs))"
  using candidates_window [OF assms] assms(1) by (simp add: elect_leader_swap swap_def with_swap_Inr)

theorem rotation_covers_committee_witness: "\<exists>s. with_swap trio_vs 0 fmempty = Inr s \<and>
  (\<lambda>i. slot_author (elect_leader s (7 + of_nat i))) ` {..<3} = {1, 2, 3}"
proof -
  let ?s = "\<lparr>ls_committee_order = [1, 2, 3], ls_offset = 0, ls_swap = fmempty\<rparr>"
  have s: "with_swap trio_vs 0 fmempty = Inr ?s" and "vset_len trio_vs = 3" by code_simp+
  moreover have "fset (fmdom (vs_members trio_vs)) = {1, 2, 3}" by (simp add: trio_vs_def)
  ultimately show ?thesis using rotation_covers_committee [OF s, of 3 7] by simp
qed

text \<open>
  C39. Only rounds divisible by the wave length carry a leader, and the schedule rotates over all
  rounds: when the committee size is a multiple of three, at most a third of the members ever
  lead.
\<close>

theorem leaders_confined_to_a_third:
  assumes "schedule_new vs = Inr s" and "vset_len vs = 3 * k" "3 * k < 2 ^ 64"
  shows "card ((\<lambda>rnd. slot_author (elect_leader s rnd)) ` {rnd. rnd mod WAVE_LENGTH = 0}) \<le> k"
  by (rule wave_leaders_third [OF assms])

theorem leaders_confined_to_a_third_witness: "\<exists>s. schedule_new trio_vs = Inr s \<and>
  card ((\<lambda>rnd. slot_author (elect_leader s rnd)) ` {rnd. rnd mod WAVE_LENGTH = 0}) \<le> 1"
proof -
  let ?s = "\<lparr>ls_committee_order = [1, 2, 3], ls_offset = 0, ls_swap = fmempty\<rparr>"
  have s: "schedule_new trio_vs = Inr ?s" and "vset_len trio_vs = 3" by code_simp+
  then show ?thesis using leaders_confined_to_a_third [OF s, of 1] by auto
qed

end
