(* ===== verification/Surge.thy ===== *)
theory Surge
  imports Linearizer Threshold_Clock Leader
begin

section \<open>The Surge driver\<close>

text \<open>
  \<^verbatim>\<open>lemma-consensus/src/dag/surge.rs\<close>: the per-epoch orchestrator. \<open>on_block\<close> inserts a block,
  drains equivocations, feeds the clock, runs the commit rule and the linearizer, and
  advances \<open>last_decided\<close>. A \<open>?\<close> in the middle leaves the fields already written, so every
  branch returns the driver beside its result.

  The main result is \<open>trace_chained\<close>: all commits of an epoch, over any sequence of blocks,
  form one chain.
\<close>

record surge_output =
  so_outcome :: insert_outcome
  so_new_round :: "u64 option"
  so_commits :: "commit list"
  so_equivocations :: "insert_outcome list"

record surge_driver =
  sd_dag :: dag
  sd_clock :: threshold_clock
  sd_schedule :: leader_schedule
  sd_linearizer :: linearizer
  sd_last_decided :: slot
  sd_vset :: validator_set

definition genesis_sentinel :: slot where
  "genesis_sentinel = Slot 0 address_zero"

definition surge_new :: "validator_set \<Rightarrow> consensus_error + surge_driver" where
  "surge_new vset = rbind (schedule_new vset) (\<lambda>schedule.
     Inr \<lparr>sd_dag = dag_new (vs_epoch vset), sd_clock = clock_new (vs_total_power vset),
          sd_schedule = schedule, sd_linearizer = linearizer_new,
          sd_last_decided = genesis_sentinel, sd_vset = vset\<rparr>)"

fun is_equivocation_outcome :: "insert_outcome \<Rightarrow> bool" where
  "is_equivocation_outcome (Equivocation _ _ _ _) = True"
| "is_equivocation_outcome _ = False"

text \<open>Steps 4 to 6: the commit pipeline.\<close>

definition commit_pipeline ::
  "hasher \<Rightarrow> surge_driver \<Rightarrow> (consensus_error + commit list) \<times> surge_driver" where
  "commit_pipeline blake3 s =
     (case try_decide (sd_last_decided s) (sd_dag s) (sd_vset s) (elect_leader (sd_schedule s)) of
        Inl e \<Rightarrow> (Inl e, s)
      | Inr decided \<Rightarrow>
          (case commit_leaders blake3 (sd_linearizer s) decided (sd_dag s) (sd_vset s) of
             (Inl e, lin, d) \<Rightarrow> (Inl e, s\<lparr>sd_linearizer := lin, sd_dag := d\<rparr>)
           | (Inr commits, lin, d) \<Rightarrow>
               (Inr commits, s\<lparr>sd_linearizer := lin, sd_dag := d,
                  sd_last_decided :=
                    (if decided = [] then sd_last_decided s
                     else Slot (status_round (last decided))
                       (slot_author (elect_leader (sd_schedule s) (status_round (last decided)))))\<rparr>)))"

definition surge_on_block ::
  "hasher \<Rightarrow> surge_driver \<Rightarrow> dag_block \<Rightarrow> bool \<Rightarrow> (consensus_error + surge_output) \<times> surge_driver" where
  "surge_on_block blake3 s b sig_ok =
     (case dag_insert blake3 (sd_dag s) b (sd_vset s) sig_ok of
        (Inl e, d) \<Rightarrow> (Inl e, s\<lparr>sd_dag := d\<rparr>)
      | (Inr outcome, d) \<Rightarrow>
          let (drained, d1) = drain_equivocations d;
              equivocations = (if is_equivocation_outcome outcome then drained @ [outcome] else drained);
              s1 = s\<lparr>sd_dag := d1\<rparr>
          in if outcome \<noteq> Accepted then
               (Inr \<lparr>so_outcome = outcome, so_new_round = None, so_commits = [],
                     so_equivocations = equivocations\<rparr>, s1)
             else case clock_add_block (sd_clock s1) b (sd_vset s1) of
               Inl e \<Rightarrow> (Inl e, s1)
             | Inr (new_round, clk) \<Rightarrow>
                 (case commit_pipeline blake3 (s1\<lparr>sd_clock := clk\<rparr>) of
                    (Inl e, s2) \<Rightarrow> (Inl e, s2)
                  | (Inr commits, s2) \<Rightarrow>
                      (Inr \<lparr>so_outcome = outcome, so_new_round = new_round, so_commits = commits,
                            so_equivocations = equivocations\<rparr>, s2)))"

definition surge_advance_epoch ::
  "surge_driver \<Rightarrow> validator_set \<Rightarrow> (consensus_error + dag_block list) \<times> surge_driver" where
  "surge_advance_epoch s new_vset = (case schedule_new new_vset of
      Inl e \<Rightarrow> (Inl e, s)
    | Inr schedule \<Rightarrow>
        (Inr (fst (dag_advance_epoch (sd_dag s) (vs_epoch new_vset))),
         s\<lparr>sd_dag := dag_new (vs_epoch new_vset), sd_clock := clock_new (vs_total_power new_vset),
           sd_schedule := schedule, sd_linearizer := linearizer_new,
           sd_last_decided := genesis_sentinel, sd_vset := new_vset\<rparr>))"

subsection \<open>Descending links are kept by the store\<close>

definition descending :: "dag_block \<Rightarrow> bool" where
  "descending b \<longleftrightarrow> (\<forall>a \<in> set (blk_ancestors b). ref_round a < blk_round b)"

definition dag_descends :: "dag \<Rightarrow> bool" where
  "dag_descends d \<longleftrightarrow>
     (\<forall>r b. fmlookup (d_blocks d) r = Some b \<or> fmlookup (d_suspended d) r = Some b \<longrightarrow> descending b)"

lemma unsuspend_loop_descends: "dag_descends d \<Longrightarrow> dag_descends (unsuspend_loop vs xs d)"
proof (rule unsuspend_loop_keeps)
  fix e r b assume "dag_descends e" "ready_to_unsuspend e r = Some b"
  then show "dag_descends (snd (take_waiters (accept_block (drop_suspended e r b) r b) r))"
    by (auto simp: dag_descends_def dest: ready_to_unsuspendD(1))
qed (auto simp: dag_descends_def)

lemma dag_insert_descends:
  assumes "dag_descends d" and "descending b" and "dag_insert blake3 d b vs sig_ok = (res, d')"
  shows "dag_descends d'"
  using assms(3)
proof (cases rule: dag_insert_cases)
  case suspended
  then show ?thesis using assms(1,2) by (auto simp: dag_descends_def)
next
  case accepted
  have "dag_descends (snd (take_waiters (accept_block d (reference b) b) (reference b)))"
    using assms(1,2) by (auto simp: dag_descends_def)
  then show ?thesis using accepted by (simp add: try_unsuspend_def unsuspend_loop_descends)
qed (use assms(1) in \<open>simp_all add: dag_descends_def\<close>)

lemma set_last_committed_round_descends:
  assumes "indexed d" and "dag_descends d"
  shows "dag_descends (set_last_committed_round d n)"
proof -
  let ?d = "d\<lparr>d_last_committed_round := n\<rparr>"
  have ix: "indexed ?d" using assms(1) by (simp add: indexed_def dag_contains_def refs_at_def)
  show ?thesis
    using assms(2)
    by (auto simp: set_last_committed_round_def dag_descends_def drop_collected_blocks [OF ix]
        collect_garbage_suspended [OF ix])
qed

lemma dag_descends_rounds:
  assumes "dag_descends d" and "blocks_ok blake3 vs d"
  shows "rounds_descend d"
  unfolding rounds_descend_def
proof (intro allI impI ballI)
  fix r b a assume b: "fmlookup (d_blocks d) r = Some b" and a: "a \<in> set (blk_ancestors b)"
  then have "ref_round a < blk_round b" using assms(1) by (auto simp: dag_descends_def descending_def)
  moreover have "reference b = r" using assms(2) b by (auto simp: blocks_ok_def)
  ultimately show "ref_round a < ref_round r" by auto
qed

subsection \<open>Rounds the commit rule asks for\<close>

lemma inclusive_range_mem:
  "r \<in> set (inclusive_range lower upper) \<longleftrightarrow> lower \<le> r \<and> r \<le> upper"
proof -
  have bound: "n < 2 ^ 64" if "n < Suc (unat upper)" for n using that unat_lt_size [of upper] by simp
  have "unat (of_nat n :: u64) = n" if "n < Suc (unat upper)" for n
    using bound [OF that] by (simp add: unat_of_nat)
  then have "r \<in> set (inclusive_range lower upper) \<longleftrightarrow> unat lower \<le> unat r \<and> unat r < Suc (unat upper)"
    by (force simp: inclusive_range_def)
  then show ?thesis by (auto simp: word_le_nat_alt less_Suc_eq_le)
qed

lemma inclusive_range_sorted: "sorted_wrt (<) (inclusive_range lower upper)"
proof -
  have "unat (of_nat n :: u64) = n" if "n < Suc (unat upper)" for n
    using that unat_lt_size [of upper] by (simp add: unat_of_nat)
  then show ?thesis
    unfolding inclusive_range_def sorted_wrt_map
    by (intro sorted_wrt_mono_rel [OF _ sorted_wrt_upt]) (auto simp: word_less_nat_alt)
qed

lemma pending_rounds_sorted: "sorted_wrt (<) (pending_rounds l d)"
  using inclusive_range_sorted by (simp add: pending_rounds_def sorted_wrt_filter)

lemma pending_rounds_bounds:
  assumes "r \<in> set (pending_rounds l d)" and "unat (slot_round l) + 1 < 2 ^ 64"
  shows "slot_round l < r" and "unat r + 1 < 2 ^ 64"
proof -
  have r: "slot_round l + 1 \<le> r" "r \<le> saturating_sub (highest_accepted_round d) 2"
    and some: "\<not> slot_round l + 1 > saturating_sub (highest_accepted_round d) 2"
    using assms(1) by (auto simp: pending_rounds_def inclusive_range_mem split: if_splits)
  have succ: "unat (slot_round l + 1) = unat (slot_round l) + 1"
    using assms(2) unat_add_exact [of "slot_round l" 1] by simp
  then show "slot_round l < r" using r(1) by (simp add: word_le_nat_alt word_less_nat_alt)
  have "unat r \<le> unat (highest_accepted_round d) - 2"
    using r(2) by (simp add: word_le_nat_alt unat_saturating_sub)
  moreover have "1 \<le> unat r" using r(1) succ by (simp add: word_le_nat_alt)
  ultimately show "unat r + 1 < 2 ^ 64" using unat_lt_size [of "highest_accepted_round d"] by simp
qed

lemma committed_refs_sublist:
  "r \<in> set (committed_refs sts) \<Longrightarrow> Commit r \<in> set sts"
  by (induction sts rule: committed_refs.induct) auto

lemma committed_refs_sorted:
  "sorted_wrt (<) (map status_round sts) \<Longrightarrow>
    sorted_wrt (\<lambda>r s. ref_round r < ref_round s) (committed_refs sts)"
proof (induction sts rule: committed_refs.induct)
  case (2 r rest)
  have "ref_round r < ref_round s" if "s \<in> set (committed_refs rest)" for s
    using 2(2) committed_refs_sublist [OF that] by fastforce
  then show ?case using 2 by simp
qed simp_all

lemma sorted_wrt_take: "sorted_wrt P xs \<Longrightarrow> sorted_wrt P (take n xs)"
  by (simp add: sorted_wrt_iff_nth_less)

subsection \<open>The driver's invariant\<close>

definition surge_inv :: "hasher \<Rightarrow> surge_driver \<Rightarrow> bool" where
  "surge_inv blake3 s \<longleftrightarrow>
     dag_inv blake3 (sd_vset s) (sd_dag s) \<and> dag_descends (sd_dag s) \<and> sound_committee (sd_vset s) \<and>
     (\<exists>A. clock_inv (sd_vset s) A (sd_clock s)) \<and>
     unat (slot_round (sd_last_decided s)) + 1 < 2 ^ 64 \<and>
     (\<forall>x. x |\<in>| lin_committed (sd_linearizer s) \<longrightarrow> ref_round x \<le> slot_round (sd_last_decided s))"

lemma surge_new_inv:
  assumes "sound_committee vs" and "surge_new vs = Inr s"
  shows "surge_inv blake3 s" and "sd_linearizer s = linearizer_new" and "sd_vset s = vs"
  using assms dag_new_inv clock_inv_at_round [of vs 0]
  by (auto simp: surge_new_def surge_inv_def genesis_sentinel_def linearizer_new_def dag_descends_def
      dag_new_def clock_new_def clock_at_round_def)

lemma dag_inv_indexed: "dag_inv blake3 vs d \<Longrightarrow> indexed d \<and> blocks_ok blake3 vs d"
  by (simp add: dag_inv_def dag_inv_upto_def)

lemma chained_committed_rounds:
  assumes "chained blake3 s cs t" and "\<forall>c \<in> set cs. ref_round (c_leader c) \<le> n"
    and "\<forall>x. x |\<in>| lin_committed s \<longrightarrow> ref_round x \<le> n"
  shows "\<forall>x. x |\<in>| lin_committed t \<longrightarrow> ref_round x \<le> n"
  using assms by (induction rule: chained.induct) (auto intro: order_trans)

lemma chained_append:
  "chained blake3 s cs t \<Longrightarrow> chained blake3 t cs' u \<Longrightarrow> chained blake3 s (cs @ cs') u"
  by (induction rule: chained.induct) (auto intro: chained.cons)

text \<open>
  The commit rule on a driver that satisfies the invariant: the decided rounds lie above
  \<open>last_decided\<close>, ascend, and every committed leader is stored.
\<close>

lemma surge_decides:
  assumes inv: "surge_inv blake3 s"
  obtains out where "try_decide (sd_last_decided s) (sd_dag s) (sd_vset s) (elect_leader (sd_schedule s)) = Inr out"
    and "sorted_wrt (<) (map status_round out)"
    and "\<And>st. st \<in> set out \<Longrightarrow> slot_round (sd_last_decided s) < status_round st \<and> unat (status_round st) + 1 < 2 ^ 64"
    and "\<And>r. Commit r \<in> set out \<Longrightarrow> dag_contains (sd_dag s) r"
proof -
  let ?d = "sd_dag s" and ?vs = "sd_vset s" and ?l = "sd_last_decided s"
  have ix: "indexed ?d" and snd: "sound_committee ?vs" and wrap: "unat (slot_round ?l) + 1 < 2 ^ 64"
    using inv dag_inv_indexed by (auto simp: surge_inv_def)
  obtain out where out: "try_decide ?l ?d ?vs (elect_leader (sd_schedule s)) = Inr out"
    and rounds: "map status_round out = take (length out) (pending_rounds ?l ?d)"
    and just: "list_all (\<lambda>st. justified ?vs ?d (elect_leader (sd_schedule s) (status_round st)) st) out"
    using try_decide_gapless [OF snd ix, of "elect_leader (sd_schedule s)" ?l] by auto
  have "sorted_wrt (<) (map status_round out)"
    unfolding rounds by (rule sorted_wrt_take [OF pending_rounds_sorted])
  moreover have "slot_round ?l < status_round st \<and> unat (status_round st) + 1 < 2 ^ 64" if "st \<in> set out" for st
  proof -
    have "status_round st \<in> set (take (length out) (pending_rounds ?l ?d))"
      using that rounds by (metis image_eqI list.set_map)
    then have "status_round st \<in> set (pending_rounds ?l ?d)" by (rule in_set_takeD)
    then show ?thesis using pending_rounds_bounds wrap by blast
  qed
  moreover have "dag_contains ?d r" if "Commit r \<in> set out" for r
    using just that ix by (auto simp: list_all_iff justified_def block_at_slot_def indexed_def)
  ultimately show thesis using that out by blast
qed


lemma commit_pipeline_inv:
  assumes inv: "surge_inv blake3 s" and run: "commit_pipeline blake3 s = (Inr commits, s')"
  shows "chained blake3 (sd_linearizer s) commits (sd_linearizer s')" and "surge_inv blake3 s'"
    and "sd_vset s' = sd_vset s"
proof -
  let ?d = "sd_dag s" and ?vs = "sd_vset s"
  from inv have parts: "dag_inv blake3 ?vs ?d" "dag_descends ?d" "sound_committee ?vs"
    "\<exists>A. clock_inv ?vs A (sd_clock s)"
    "\<forall>x. x |\<in>| lin_committed (sd_linearizer s) \<longrightarrow> ref_round x \<le> slot_round (sd_last_decided s)"
    "unat (slot_round (sd_last_decided s)) + 1 < 2 ^ 64"
    by (auto simp: surge_inv_def)
  note ix = dag_inv_indexed [OF parts(1)]
  obtain out where out: "try_decide (sd_last_decided s) ?d ?vs (elect_leader (sd_schedule s)) = Inr out"
    and sorted: "sorted_wrt (<) (map status_round out)"
    and beyond: "\<And>st. st \<in> set out \<Longrightarrow> slot_round (sd_last_decided s) < status_round st \<and> unat (status_round st) + 1 < 2 ^ 64"
    using surge_decides [OF inv] by metis
  define d where "d = (if commits = [] then ?d
      else set_last_committed_round ?d (Max (set (map (ref_round \<circ> c_leader) commits))))"
  obtain lin where loop: "commit_loop blake3 ?d ?vs (sd_linearizer s) [] out = (Inr commits, lin)"
    using run out by (auto simp: commit_pipeline_def commit_leaders_def split: prod.splits sum.splits)
  have leaders_run: "commit_leaders blake3 (sd_linearizer s) out ?d ?vs = (Inr commits, lin, d)"
    by (simp add: commit_leaders_def loop d_def)
  have s': "s' = s\<lparr>sd_linearizer := lin, sd_dag := d, sd_last_decided :=
      (if out = [] then sd_last_decided s else Slot (status_round (last out))
        (slot_author (elect_leader (sd_schedule s) (status_round (last out)))))\<rparr>"
    using run by (simp add: commit_pipeline_def out leaders_run)
  have below: "below_rounds (sd_linearizer s) (committed_refs out)"
    using parts(5) beyond committed_refs_sublist unfolding below_rounds_def
    by (metis le_less_trans status_round.simps(1))
  have keyed: "fmlookup (d_blocks ?d) r = Some b \<Longrightarrow> reference b = r" for r b
    using ix by (simp add: blocks_ok_def)
  have ch: "chained blake3 (sd_linearizer s) commits lin" and leaders: "map c_leader commits = committed_refs out"
    using commit_loop_chained [OF keyed dag_descends_rounds loop committed_refs_sorted [OF sorted] below]
      parts(2) ix by auto
  then show "chained blake3 (sd_linearizer s) commits (sd_linearizer s')" by (simp add: s')
  show "sd_vset s' = sd_vset s" by (simp add: s')
  have last: "status_round st \<le> slot_round (sd_last_decided s')" if "st \<in> set out" for st
    using sorted that by (cases out rule: rev_cases) (auto simp: s' sorted_wrt_append)
  have mono: "slot_round (sd_last_decided s) \<le> slot_round (sd_last_decided s')"
    using beyond [of "last out"] by (cases "out = []") (auto simp: s')
  have "\<forall>c \<in> set commits. ref_round (c_leader c) \<le> slot_round (sd_last_decided s')"
    using leaders last committed_refs_sublist by (metis image_eqI list.set_map status_round.simps(1))
  then have "\<forall>x. x |\<in>| lin_committed lin \<longrightarrow> ref_round x \<le> slot_round (sd_last_decided s')"
    using chained_committed_rounds [OF ch] parts(5) mono by (blast intro: order_trans)
  moreover have "dag_inv blake3 ?vs d \<and> dag_descends d"
    using parts(1,2) ix by (simp add: d_def set_last_committed_round_inv set_last_committed_round_descends)
  moreover have "unat (slot_round (sd_last_decided s')) + 1 < 2 ^ 64"
    using beyond [of "last out"] parts(6) by (cases "out = []") (auto simp: s')
  ultimately show "surge_inv blake3 s'" using parts(3,4) by (simp add: surge_inv_def s')
qed

subsection \<open>One block\<close>

lemma clock_add_block_total:
  assumes "sound_committee vs" and "clock_inv vs A c"
  shows "\<exists>nr c' A'. clock_add_block c b vs = Inr (nr, c') \<and> clock_inv vs A' c'"
proof (cases "blk_round b = tc_round c")
  case True
  then show ?thesis
    using clock_add_current_round [OF _ _ assms(2) True] assms(1)
    by (auto simp: sound_committee_def split: if_splits)
next
  case False
  then show ?thesis using assms(2) by (auto simp: clock_add_other_round)
qed

lemma dag_insert_Inl: "dag_insert blake3 d b vs sig_ok = (Inl e, d') \<Longrightarrow> d' = d"
  by (erule dag_insert_cases) auto

lemma insert_drain_inv:
  assumes "surge_inv blake3 s" and "descending b"
    and "dag_insert blake3 (sd_dag s) b (sd_vset s) sig_ok = (res, d)"
  shows "surge_inv blake3 (s\<lparr>sd_dag := snd (drain_equivocations d)\<rparr>)"
proof -
  have "dag_inv blake3 (sd_vset s) d" "dag_descends d"
    using assms dag_insert_inv dag_insert_descends by (auto simp: surge_inv_def)
  moreover have "dag_descends (snd (drain_equivocations d)) = dag_descends d"
    by (simp add: drain_equivocations_def dag_descends_def)
  ultimately show ?thesis using assms(1) drain_equivocations_inv by (simp add: surge_inv_def)
qed

lemma surge_on_block_ok:
  assumes inv: "surge_inv blake3 s" and desc: "descending b"
    and run: "surge_on_block blake3 s b sig_ok = (Inr out, s')"
  shows "chained blake3 (sd_linearizer s) (so_commits out) (sd_linearizer s')" and "surge_inv blake3 s'"
    and "sd_vset s' = sd_vset s"
proof -
  obtain outcome d where ins: "dag_insert blake3 (sd_dag s) b (sd_vset s) sig_ok = (Inr outcome, d)"
    using run by (auto simp: surge_on_block_def split: prod.splits sum.splits)
  let ?s1 = "s\<lparr>sd_dag := snd (drain_equivocations d)\<rparr>"
  have inv1: "surge_inv blake3 ?s1" using insert_drain_inv [OF inv desc ins] .
  then obtain nr clk A where clk: "clock_add_block (sd_clock s) b (sd_vset s) = Inr (nr, clk)"
    "clock_inv (sd_vset s) A clk"
    using clock_add_block_total by (fastforce simp: surge_inv_def)
  let ?s2 = "?s1\<lparr>sd_clock := clk\<rparr>"
  have inv2: "surge_inv blake3 ?s2" using inv1 clk(2) by (auto simp: surge_inv_def)
  have "chained blake3 (sd_linearizer s) (so_commits out) (sd_linearizer s') \<and> surge_inv blake3 s'
    \<and> sd_vset s' = sd_vset s"
  proof (cases "outcome = Accepted")
    case False
    then have "s' = ?s1" "so_commits out = []"
      using run ins by (auto simp: surge_on_block_def Let_def split: prod.splits)
    then show ?thesis using inv1 by (simp add: chained.nil)
  next
    case True
    then obtain commits where pipe: "commit_pipeline blake3 ?s2 = (Inr commits, s')" "so_commits out = commits"
      using run ins clk(1) by (auto simp: surge_on_block_def Let_def split: prod.splits sum.splits)
    then show ?thesis using commit_pipeline_inv [OF inv2 pipe(1)] by simp
  qed
  then show "chained blake3 (sd_linearizer s) (so_commits out) (sd_linearizer s')" "surge_inv blake3 s'"
    "sd_vset s' = sd_vset s" by simp_all
qed

text \<open>
  What can go wrong in one block: the insertion is rejected and the driver is unchanged, or
  the timestamp of a commit overflows. The commit rule and the clock do not fail, and a
  decided leader is never missing.
\<close>

lemma commit_timestamp_error:
  "commit_timestamp blake3 b ts d vs = Inl e \<Longrightarrow> e = StakeOverflow (address_from_public_key blake3 (replicate 32 0))"
proof -
  have "try_fold (\<lambda>acc p. ok_or (checked_add acc (fst p)) x) a xs = Inl e \<Longrightarrow> e = x" for a x and xs :: "(u128 \<times> u64) list"
    by (induction xs arbitrary: a) (auto simp: rbind_Inl)
  then show "commit_timestamp blake3 b ts d vs = Inl e \<Longrightarrow> ?thesis"
    by (auto simp: commit_timestamp_def stake_weighted_median_def Let_def rbind_Inl split: if_splits)
qed

lemma commit_loop_error:
  assumes "\<And>r. Commit r \<in> set sts \<Longrightarrow> dag_contains d r"
    and "commit_loop blake3 d vs lin cs sts = (Inl e, lin')"
  shows "e = StakeOverflow (address_from_public_key blake3 (replicate 32 0))"
  using assms
proof (induction sts arbitrary: lin cs)
  case (Cons st sts)
  show ?case
  proof (cases st)
    case (Commit r)
    then have "dag_contains d r" using Cons.prems(1) by simp
    then obtain b where b: "dag_block_get d r = Some b"
      by (auto simp: dag_contains_def dag_block_get_def fmlookup_dom_iff)
    show ?thesis
      using Cons b by (auto simp: Commit commit_leader_def Let_def dest: commit_timestamp_error
          split: prod.splits sum.splits)
  qed (use Cons in auto)
qed simp

text \<open>
  This needs no more of the driver than a sound store, committee and clock, which every call keeps,
  whatever it is given and whether it succeeds or fails.
\<close>

definition driver_inv :: "hasher \<Rightarrow> surge_driver \<Rightarrow> bool" where
  "driver_inv blake3 s \<longleftrightarrow>
     dag_inv blake3 (sd_vset s) (sd_dag s) \<and> sound_committee (sd_vset s) \<and> (\<exists>A. clock_inv (sd_vset s) A (sd_clock s))"

lemma driver_decides:
  assumes "driver_inv blake3 s"
  obtains sts where "try_decide (sd_last_decided s) (sd_dag s) (sd_vset s) (elect_leader (sd_schedule s)) = Inr sts"
    and "\<And>r. Commit r \<in> set sts \<Longrightarrow> dag_contains (sd_dag s) r"
proof -
  have ix: "indexed (sd_dag s)" using assms dag_inv_indexed by (auto simp: driver_inv_def)
  with assms obtain sts where "try_decide (sd_last_decided s) (sd_dag s) (sd_vset s) (elect_leader (sd_schedule s)) = Inr sts"
    and just: "list_all (\<lambda>st. justified (sd_vset s) (sd_dag s) (elect_leader (sd_schedule s) (status_round st)) st) sts"
    using try_decide_gapless [of "sd_vset s" "sd_dag s" "elect_leader (sd_schedule s)" "sd_last_decided s"] by (auto simp: driver_inv_def)
  moreover have "dag_contains (sd_dag s) r" if "Commit r \<in> set sts" for r
    using just that ix by (auto simp: list_all_iff justified_def block_at_slot_def indexed_def)
  ultimately show thesis using that by blast
qed

lemma commit_pipeline_driver:
  assumes "driver_inv blake3 s" "commit_pipeline blake3 s = (res, s')"
  shows "driver_inv blake3 s'"
  using assms by (auto simp: commit_pipeline_def commit_leaders_def driver_inv_def set_last_committed_round_inv
      split: sum.splits prod.splits if_splits)

lemma inserted_driver:
  assumes "driver_inv blake3 s" "dag_insert blake3 (sd_dag s) b (sd_vset s) sig_ok = (res, d)"
  shows "driver_inv blake3 (s\<lparr>sd_dag := snd (drain_equivocations d)\<rparr>)"
    and "\<exists>nr clk. clock_add_block (sd_clock s) b (sd_vset s) = Inr (nr, clk) \<and>
      driver_inv blake3 (s\<lparr>sd_dag := snd (drain_equivocations d), sd_clock := clk\<rparr>)"
proof -
  show inv: "driver_inv blake3 (s\<lparr>sd_dag := snd (drain_equivocations d)\<rparr>)"
    using assms dag_insert_inv drain_equivocations_inv by (auto simp: driver_inv_def)
  obtain nr clk A where "clock_add_block (sd_clock s) b (sd_vset s) = Inr (nr, clk)" "clock_inv (sd_vset s) A clk"
    using assms(1) clock_add_block_total by (fastforce simp: driver_inv_def)
  with inv show "\<exists>nr clk. clock_add_block (sd_clock s) b (sd_vset s) = Inr (nr, clk) \<and>
      driver_inv blake3 (s\<lparr>sd_dag := snd (drain_equivocations d), sd_clock := clk\<rparr>)"
    by (auto simp: driver_inv_def)
qed

lemma surge_on_block_driver:
  assumes inv: "driver_inv blake3 s" and run: "surge_on_block blake3 s b sig_ok = (res, s')"
  shows "driver_inv blake3 s'"
proof (cases "dag_insert blake3 (sd_dag s) b (sd_vset s) sig_ok")
  case (Pair r d)
  obtain nr clk where clk: "clock_add_block (sd_clock s) b (sd_vset s) = Inr (nr, clk)"
    "driver_inv blake3 (s\<lparr>sd_dag := snd (drain_equivocations d), sd_clock := clk\<rparr>)"
    using inserted_driver(2) [OF inv Pair] by blast
  show ?thesis
  proof (cases r)
    case (Inl e)
    then show ?thesis using run inv Pair dag_insert_Inl [of blake3 "sd_dag s" b "sd_vset s" sig_ok e d]
      by (auto simp: surge_on_block_def)
  next
    case (Inr outcome)
    then show ?thesis
      using run Pair clk(1) inserted_driver(1) [OF inv Pair] commit_pipeline_driver [OF clk(2)]
      by (auto simp: surge_on_block_def Let_def split: prod.splits sum.splits if_splits)
  qed
qed

lemma surge_on_block_error:
  assumes inv: "driver_inv blake3 s"
    and run: "surge_on_block blake3 s b sig_ok = (Inl e, s')"
  shows "s' = s \<and> (\<exists>d. dag_insert blake3 (sd_dag s) b (sd_vset s) sig_ok = (Inl e, d)) \<or>
    e = StakeOverflow (address_from_public_key blake3 (replicate 32 0))"
proof (cases "dag_insert blake3 (sd_dag s) b (sd_vset s) sig_ok")
  case (Pair res d)
  show ?thesis
  proof (cases res)
    case (Inl e')
    then show ?thesis using run Pair dag_insert_Inl [of blake3 "sd_dag s" b "sd_vset s" sig_ok e' d]
      by (auto simp: surge_on_block_def)
  next
    case (Inr outcome)
    note ins = Pair [unfolded Inr]
    obtain nr clk where clk: "clock_add_block (sd_clock s) b (sd_vset s) = Inr (nr, clk)"
      "driver_inv blake3 (s\<lparr>sd_dag := snd (drain_equivocations d), sd_clock := clk\<rparr>)"
      using inserted_driver(2) [OF inv ins] by blast
    let ?s2 = "s\<lparr>sd_dag := snd (drain_equivocations d), sd_clock := clk\<rparr>"
    obtain sts where sts: "try_decide (sd_last_decided ?s2) (sd_dag ?s2) (sd_vset ?s2) (elect_leader (sd_schedule ?s2)) = Inr sts"
      and stored: "\<And>r. Commit r \<in> set sts \<Longrightarrow> dag_contains (sd_dag ?s2) r"
      using driver_decides [OF clk(2)] by metis
    have "commit_pipeline blake3 ?s2 = (Inl e, s')"
      using run ins clk(1) by (auto simp: surge_on_block_def Let_def split: prod.splits sum.splits if_splits)
    then obtain lin where "commit_loop blake3 (sd_dag ?s2) (sd_vset ?s2) (sd_linearizer ?s2) [] sts = (Inl e, lin)"
      using sts by (auto simp: commit_pipeline_def commit_leaders_def split: prod.splits sum.splits)
    then show ?thesis using commit_loop_error [OF stored] by blast
  qed
qed

text \<open>Any sequence of calls: blocks of whatever content, with either result, and changes of epoch.\<close>

inductive surge_call :: "hasher \<Rightarrow> surge_driver \<Rightarrow> surge_driver \<Rightarrow> bool" for blake3 where
  call_block: "surge_on_block blake3 s b sig_ok = (res, s') \<Longrightarrow> surge_call blake3 s s'"
| call_epoch: "surge_advance_epoch s new_vset = (res, s') \<Longrightarrow> sound_committee new_vset \<Longrightarrow> surge_call blake3 s s'"

interpretation driver_run: invariant_system "surge_call blake3" "driver_inv blake3" for blake3
proof
  fix s t assume inv: "driver_inv blake3 s" and "surge_call blake3 s t"
  from this(2) show "driver_inv blake3 t"
  proof cases
    case (call_epoch vs res)
    then show ?thesis using inv dag_new_inv [of blake3 vs] clock_inv_at_round [of vs 0]
      by (auto simp: surge_advance_epoch_def driver_inv_def clock_new_def clock_at_round_def split: sum.splits)
  qed (use inv surge_on_block_driver in blast)
qed

lemma surge_new_driver: "sound_committee vs \<Longrightarrow> surge_new vs = Inr s \<Longrightarrow> driver_inv blake3 s"
  using surge_new_inv(1) [of vs s blake3] by (auto simp: driver_inv_def surge_inv_def)

subsection \<open>An epoch of blocks\<close>

inductive surge_trace :: "hasher \<Rightarrow> surge_driver \<Rightarrow> commit list \<Rightarrow> surge_driver \<Rightarrow> bool" for blake3 where
  empty: "surge_trace blake3 s [] s"
| block: "\<lbrakk>descending b; surge_on_block blake3 s b sig_ok = (Inr out, s'); surge_trace blake3 s' cs t\<rbrakk>
    \<Longrightarrow> surge_trace blake3 s (so_commits out @ cs) t"
| rejected: "\<lbrakk>dag_insert blake3 (sd_dag s) b (sd_vset s) sig_ok = (Inl e, d);
    surge_trace blake3 s cs t\<rbrakk> \<Longrightarrow> surge_trace blake3 s cs t"

lemma trace_chained:
  "surge_trace blake3 s cs t \<Longrightarrow> surge_inv blake3 s \<Longrightarrow>
    chained blake3 (sd_linearizer s) cs (sd_linearizer t) \<and> surge_inv blake3 t"
proof (induction rule: surge_trace.induct)
  case (block b s sig_ok out s' cs t)
  note ok = surge_on_block_ok [OF block.prems block.hyps(1,2)]
  show ?case using block.IH [OF ok(2)] chained_append [OF ok(1)] by simp
qed (auto intro: chained.nil)

definition surge_step :: "hasher \<Rightarrow> surge_driver \<Rightarrow> surge_driver \<Rightarrow> bool" where
  "surge_step blake3 s t \<longleftrightarrow>
     (\<exists>b sig_ok out. descending b \<and> surge_on_block blake3 s b sig_ok = (Inr out, t))"

interpretation surge_run: invariant_system "surge_step blake3" "surge_inv blake3" for blake3
  by unfold_locales (auto simp: surge_step_def intro: surge_on_block_ok(2))

text \<open>Feeding a list of signed blocks to the driver, collecting the commits in order.\<close>

fun surge_feed ::
  "hasher \<Rightarrow> surge_driver \<Rightarrow> dag_block list \<Rightarrow> (consensus_error + commit list) \<times> surge_driver" where
  "surge_feed blake3 s [] = (Inr [], s)"
| "surge_feed blake3 s (b # bs) = (case surge_on_block blake3 s b True of
      (Inl e, s') \<Rightarrow> (Inl e, s')
    | (Inr out, s') \<Rightarrow> (case surge_feed blake3 s' bs of
        (Inl e, s'') \<Rightarrow> (Inl e, s'')
      | (Inr cs, s'') \<Rightarrow> (Inr (so_commits out @ cs), s'')))"

lemma surge_feed_trace:
  "surge_feed blake3 s bs = (Inr cs, t) \<Longrightarrow> list_all descending bs \<Longrightarrow> surge_trace blake3 s cs t"
proof (induction bs arbitrary: s cs)
  case (Cons b bs)
  then obtain out s' cs' where "surge_on_block blake3 s b True = (Inr out, s')"
    "surge_feed blake3 s' bs = (Inr cs', t)" "cs = so_commits out @ cs'"
    by (auto split: prod.splits sum.splits)
  with Cons show ?case by (auto intro: surge_trace.block)
qed (auto intro: surge_trace.empty)

end
