(* ===== verification/Commit_Safety.thy ===== *)
theory Commit_Safety
  imports Surge
begin

section \<open>Two honest views of one committee\<close>

text \<open>
  A committee of three members, of power 1, 1 and 2, and the blocks it writes in nine rounds
  without a single faulty member. The round-5 block of member 2 may reach a validator in its
  round or only after round 8: \<open>store_a\<close> holds it and \<open>store_b\<close> does not. The theory evaluates the
  commit rule and the driver on the two orders and instantiates the theorems that speak of two
  views. The hasher of the examples is constant; since every slot has one block, no two
  references collide.
\<close>

definition trio_schedule :: leader_schedule where
  "trio_schedule = \<lparr>ls_committee_order = [1, 2, 3], ls_offset = 0, ls_swap = fmempty\<rparr>"

definition ex_block :: "u64 \<Rightarrow> address \<Rightarrow> address list \<Rightarrow> dag_block" where
  "ex_block rnd a ps = \<lparr>blk_epoch = 0, blk_round = rnd, blk_author = a, blk_timestamp_ms = 7,
     blk_ancestors = (if rnd = 0 then [] else map (\<lambda>p. DagBlockRef (rnd - 1) p 0) ps),
     blk_payload = [], blk_commit_votes = [], blk_signature = Unsigned, blk_digest = 0\<rparr>"

definition early_blocks :: "dag_block list" where
  "early_blocks =
     concat (map (\<lambda>rnd. map (\<lambda>a. ex_block rnd a [1, 3]) [1, 3]) [0, 1, 2])
     @ map (\<lambda>a. ex_block 3 a [1, 3]) [1, 2, 3]
     @ [ex_block 4 1 [2, 3], ex_block 4 2 [1, 3], ex_block 4 3 [1, 3]]
     @ map (\<lambda>a. ex_block 5 a [1, 3]) [1, 3]"

definition later_blocks :: "dag_block list" where
  "later_blocks = concat (map (\<lambda>rnd. map (\<lambda>a. ex_block rnd a [1, 3]) [1, 3]) [6, 7, 8])"

definition late_block :: dag_block where
  "late_block = ex_block 5 2 [2, 3]"


fun insert_all :: "dag \<Rightarrow> dag_block list \<Rightarrow> dag" where
  "insert_all d [] = d"
| "insert_all d (b # bs) = insert_all (snd (insert_verified d b trio_vs True)) bs"

fun fresh_all :: "dag \<Rightarrow> dag_block list \<Rightarrow> bool" where
  "fresh_all d [] = True"
| "fresh_all d (b # bs) = (\<not> dag_contains d (reference b) \<and> blk_epoch b = d_epoch d \<and> blk_digest b = 0 \<and>
     fresh_all (snd (insert_verified d b trio_vs True)) bs)"

definition store_b :: dag where
  "store_b = insert_all (dag_new 0) (early_blocks @ later_blocks)"

definition store_a :: dag where
  "store_a = insert_all (dag_new 0) (early_blocks @ later_blocks @ [late_block])"

lemma insert_all_run:
  "fresh_all d bs \<Longrightarrow> (dag_step (\<lambda>_. 0) trio_vs)\<^sup>*\<^sup>* d (insert_all d bs)"
proof (induction bs arbitrary: d)
  case (Cons b bs)
  then have "dag_insert (\<lambda>_. 0) d b trio_vs True = insert_verified d b trio_vs True"
    by (simp add: zero_hash_insert)
  then have "dag_step (\<lambda>_. 0) trio_vs d (snd (insert_verified d b trio_vs True))"
    by (intro dag_step.insert [of _ _ _ _ True]) (simp add: prod_eq_iff)
  with Cons show ?case by (simp add: converse_rtranclp_into_rtranclp)
qed simp

lemma store_a_fresh: "fresh_all (dag_new 0) (early_blocks @ later_blocks @ [late_block])"
  by code_simp

lemma insert_all_append: "insert_all d (xs @ ys) = insert_all (insert_all d xs) ys"
  by (induction xs arbitrary: d) simp_all

lemma fresh_all_append: "fresh_all d (xs @ ys) \<longleftrightarrow> fresh_all d xs \<and> fresh_all (insert_all d xs) ys"
  by (induction xs arbitrary: d) simp_all

lemma store_b_fresh: "fresh_all (dag_new 0) (early_blocks @ later_blocks)"
  using store_a_fresh by (simp only: fresh_all_append append_assoc [symmetric])

lemma store_runs:
  "(dag_step (\<lambda>_. 0) trio_vs)\<^sup>*\<^sup>* (dag_new 0) store_a"
  "(dag_step (\<lambda>_. 0) trio_vs)\<^sup>*\<^sup>* (dag_new 0) store_b"
  unfolding store_a_def store_b_def by (rule insert_all_run [OF store_a_fresh], rule insert_all_run [OF store_b_fresh])

lemma trio_sound: "sound_committee trio_vs"
  using trio_wf by (simp add: sound_committee_def trio_vs_def)

lemma trio_schedule: "schedule_new trio_vs = Inr trio_schedule"
  by code_simp

text \<open>An insertion into a store in which nothing waits adds at most its own block.\<close>

lemma insert_verified_keeps:
  assumes "d_waiting_for d = fmempty" "\<not> dag_contains d (reference x)" "fmlookup (d_blocks d) r = Some b"
  shows "fmlookup (d_blocks (snd (insert_verified d x vs sig_ok))) r = Some b"
proof -
  have "r \<noteq> reference x" using assms(2,3) by (auto simp: dag_contains_def fmlookup_dom_iff)
  then have "fmlookup (d_blocks (try_unsuspend (accept_block d (reference x) x) (reference x) vs)) r = Some b"
    using assms(1,3) by (simp add: try_unsuspend_def take_waiters_def)
  then show ?thesis
    using assms(3) by (auto simp: insert_verified_def Let_def split: sum.splits consensus_error.splits)
qed

lemma store_b_lookup: "fmlookup (d_blocks store_b) r = Some b \<Longrightarrow> fmlookup (d_blocks store_a) r = Some b"
proof -
  assume r: "fmlookup (d_blocks store_b) r = Some b"
  have "d_waiting_for store_b = fmempty" by code_simp
  moreover have "\<not> dag_contains store_b (reference late_block)"
    using store_a_fresh unfolding append_assoc [symmetric] fresh_all_append [of _ "early_blocks @ later_blocks"]
    by (simp flip: store_b_def)
  ultimately show ?thesis
    using r insert_verified_keeps
    unfolding store_a_def append_assoc [symmetric] insert_all_append [of _ "early_blocks @ later_blocks"]
    by (simp flip: store_b_def)
qed

lemma one_per_slot:
  assumes "dag_inv blake3 vs d" "dag_contains d x" "dag_contains d y" "ref_slot x = ref_slot y"
  shows "x = y"
  using dag_inv_indexed [OF assms(1)] assms(2-4) by (metis indexed_def option.inject)

lemma store_inv: "dag_inv (\<lambda>_. 0) trio_vs store_a" "dag_inv (\<lambda>_. 0) trio_vs store_b"
  using store_runs reachable_dag_inv by blast+

lemma consistent_stores: "consistent_views {} store_a store_b"
  unfolding consistent_views_def
proof (intro conjI allI impI)
  show "blk_ancestors a = blk_ancestors b"
    if "fmlookup (d_blocks store_a) r = Some a \<and> fmlookup (d_blocks store_b) r = Some b" for r a b
    using that store_b_lookup [of r b] by auto
  show "x = y" if xy: "dag_contains store_a x \<and> dag_contains store_b y \<and> ref_slot x = ref_slot y \<and> ref_author x \<notin> {}" for x y
  proof -
    have "dag_contains store_a y"
      using xy store_b_lookup [of y] by (auto simp: dag_contains_def fmlookup_dom_iff)
    then show ?thesis using one_per_slot [OF store_inv(1)] xy by blast
  qed
qed

subsection \<open>Decisions of two views\<close>

text \<open>
  The decisions a view emits are those of its leader slots, and a commit rests on a quorum of
  votes in the view; the cross-view statements follow from the quorum intersection.
\<close>

lemma try_decide_commit:
  assumes "sound_committee vs" "indexed d" "\<And>r. slot_round (leader_of r) = r"
    and "try_decide l d vs leader_of = Inr out" "Commit r \<in> set out"
  shows "\<exists>b. certifies vs d (leader_of (ref_round r)) r b"
proof -
  obtain out' where "try_decide l d vs leader_of = Inr out'"
    "list_all (\<lambda>st. justified vs d (leader_of (status_round st)) st) out'"
    using try_decide_gapless [OF assms(1-3), of l] by blast
  with assms(4,5) show ?thesis by (auto simp: list_all_iff justified_def)
qed

lemma direct_skip_blamed:
  "sound_committee vs \<Longrightarrow> try_direct_decide s d vs = Inr (Skip s) \<Longrightarrow> is_quorum vs (blamers s d)"
  by (auto simp: try_direct_decide_outcome direct_outcome_def split: if_splits option.splits)

text \<open>
  C7. The emitted decisions are a gapless prefix: on a sound committee and any reachable store
  the rule never fails, decides exactly the first leader rounds after the last decided one
  with no hole, and commits only the stored block of the elected leader's slot, certified by a
  quorum of votes.
\<close>

theorem decisions_are_gapless_prefix:
  assumes "sound_committee vs" and "(dag_step blake3 vs)\<^sup>*\<^sup>* (dag_new e) d"
  shows "\<exists>out. try_decide last_decided d vs (elect_leader sched) = Inr out \<and> list_all is_decided out \<and>
    map status_round out = take (length out) (pending_rounds last_decided d) \<and>
    (\<forall>r. Commit r \<in> set out \<longrightarrow> block_at_slot d (elect_leader sched (ref_round r)) = Some r \<and>
       (\<exists>b. is_quorum vs (cert_voters (elect_leader sched (ref_round r)) r d b)))"
proof -
  have "indexed d" using assms(2) reachable_dag_inv by (auto simp: dag_inv_def dag_inv_upto_def)
  from try_decide_gapless [where leader_of = "elect_leader sched", OF assms(1) this elect_leader_round, of last_decided]
  show ?thesis by (fastforce simp: list_all_iff justified_def certifies_def)
qed

theorem decisions_are_gapless_prefix_witness:
  "\<exists>out. try_decide (Slot 0 0) solo_accepted solo_vs (elect_leader \<lparr>ls_committee_order = [1], ls_offset = 0, ls_swap = fmempty\<rparr>) = Inr out \<and>
    list_all is_decided out"
  using decisions_are_gapless_prefix [OF solo_sound solo_accepted_run] by blast

text \<open>
  C1. Agreement on committed leaders: two validators of one committee, whose stores are the
  result of any insertions and commits, with faulty authors holding at most a third of the
  stake, never commit different blocks in the same leader round.
\<close>

theorem commits_agree:
  assumes "sound_committee vs" "3 * stake_of vs F \<le> unat (vs_total_power vs)"
    and "(dag_step blake3 vs)\<^sup>*\<^sup>* (dag_new e) A" "(dag_step blake3 vs)\<^sup>*\<^sup>* (dag_new e) B"
    and "consistent_views F A B"
    and "try_decide la A vs (elect_leader s) = Inr outa" "try_decide lb B vs (elect_leader s) = Inr outb"
    and "Commit r \<in> set outa" "Commit r' \<in> set outb" "ref_round r = ref_round r'"
  shows "r = r'"
proof -
  have "indexed A" "indexed B" using assms(3,4) reachable_dag_inv dag_inv_indexed by blast+
  then obtain a b where "certifies vs A (elect_leader s (ref_round r)) r a"
    "certifies vs B (elect_leader s (ref_round r)) r' b"
    using try_decide_commit [OF assms(1) _ elect_leader_round assms(6,8)]
      try_decide_commit [OF assms(1) _ elect_leader_round assms(7,9)] assms(10) by auto
  moreover have "wf_vset vs" using assms(1) by (simp add: sound_committee_def)
  ultimately show ?thesis using certificates_agree assms(2,5) by blast
qed

text \<open>
  A leader that one validator skips by a quorum of blames is committed by no validator,
  directly or through an anchor.
\<close>

theorem blame_skip_final:
  assumes "sound_committee vs" "3 * stake_of vs F \<le> unat (vs_total_power vs)"
    and "(dag_step blake3 vs)\<^sup>*\<^sup>* (dag_new e) A" "(dag_step blake3 vs)\<^sup>*\<^sup>* (dag_new e) B"
    and "consistent_views F A B"
    and "try_decide la A vs (elect_leader s) = Inr outa" "Commit r \<in> set outa"
  shows "try_direct_decide (elect_leader s (ref_round r)) B vs \<noteq> Inr (Skip (elect_leader s (ref_round r)))"
proof
  assume "try_direct_decide (elect_leader s (ref_round r)) B vs = Inr (Skip (elect_leader s (ref_round r)))"
  then have "is_quorum vs (blamers (elect_leader s (ref_round r)) B)"
    using assms(1) by (simp add: direct_skip_blamed)
  moreover have "indexed A" "dag_inv blake3 vs B" using assms(3,4) reachable_dag_inv dag_inv_indexed by blast+
  ultimately show False
    using try_decide_commit [OF assms(1) _ elect_leader_round assms(6,7)] certificate_excludes_blame assms(1,2,5)
    by (metis sound_committee_def)
qed

subsection \<open>Evaluation\<close>



lemma decisions_a: "try_decide genesis_sentinel store_a trio_vs (elect_leader trio_schedule)
  = Inr [Commit (DagBlockRef 3 1 0), Commit (DagBlockRef 6 1 0)]"
  by code_simp

lemma decisions_b: "try_decide genesis_sentinel store_b trio_vs (elect_leader trio_schedule)
  = Inr [Skip (Slot 3 1), Commit (DagBlockRef 6 1 0)]"
  by code_simp

theorem commits_agree_witness:
  "\<exists>!r. ref_round r = 6 \<and> Commit r \<in> set [Commit (DagBlockRef 3 1 0), Commit (DagBlockRef 6 1 0)] \<and>
    Commit r \<in> set [Skip (Slot 3 1), Commit (DagBlockRef 6 1 0)]"
proof (rule ex1I [of _ "DagBlockRef 6 1 0"])
  fix r assume "ref_round r = 6 \<and> Commit r \<in> set [Commit (DagBlockRef 3 1 0), Commit (DagBlockRef 6 1 0)] \<and>
    Commit r \<in> set [Skip (Slot 3 1), Commit (DagBlockRef 6 1 0)]"
  then show "r = DagBlockRef 6 1 0"
    using commits_agree [OF trio_sound _ store_runs consistent_stores decisions_a decisions_b, of r "DagBlockRef 6 1 0"]
    by simp
qed simp

theorem blame_skip_final_witness:
  "try_direct_decide (elect_leader trio_schedule 6) store_b trio_vs \<noteq> Inr (Skip (elect_leader trio_schedule 6))"
  using blame_skip_final [OF trio_sound _ store_runs consistent_stores decisions_a, of "DagBlockRef 6 1 0"] by simp

text \<open>
  C14. The direct rule against its documentation, on every store. The comments ask for a quorum of
  certificates at the decision round (\<open>documented_direct\<close>). On a sound committee the code never
  fails and gives exactly that outcome, with one departure: where the documented rule is undecided,
  the code also commits the block of the slot as soon as a single block of the decision round
  certifies it and the authors of that round, certifying or not, hold a quorum. The witness is a store
  where one certificate, by a member with one third of the power, commits a leader.
\<close>

theorem direct_rule_commits_early:
  assumes "sound_committee vs"
  shows "try_direct_decide s d vs = Inr (case block_at_slot d s of
      None \<Rightarrow> documented_direct s d vs
    | Some lref \<Rightarrow>
        if documented_direct s d vs = Undecided s \<and> certifiers vs d s lref \<noteq> {} \<and>
           is_quorum vs (authors_at d (decision_round (slot_round s)))
        then Commit lref else documented_direct s d vs)"
proof -
  have one: "(\<exists>b \<in> set (blocks_at_round d (decision_round (slot_round s))). certifies vs d s lref b) \<longleftrightarrow> certifiers vs d s lref \<noteq> {}" for lref
    by (auto simp: certifiers_def filter_empty_conv)
  have "is_quorum vs (certifiers vs d s lref) \<Longrightarrow>
      certifiers vs d s lref \<noteq> {} \<and> is_quorum vs (authors_at d (decision_round (slot_round s)))" for lref
    using is_quorum_mono [OF _ certifiers_authors] quorum_nonempty by blast
  then show ?thesis
    by (auto simp: try_direct_decide_outcome [OF assms] direct_outcome_def documented_direct_def one split: option.split)
qed

theorem direct_rule_commits_early_witness:
  "try_direct_decide (Slot 3 1) store_a trio_vs = Inr (Commit (DagBlockRef 3 1 0)) \<and>
    documented_direct (Slot 3 1) store_a trio_vs = Undecided (Slot 3 1)"
proof -
  have slot: "block_at_slot store_a (Slot 3 1) = Some (DagBlockRef 3 1 0)" by code_simp
  have "is_quorum trio_vs (authors_at store_a (decision_round (slot_round (Slot 3 1))))" by code_simp
  moreover have "certifiers trio_vs store_a (Slot 3 1) (DagBlockRef 3 1 0) = {2}" by code_simp
  moreover have "documented_direct (Slot 3 1) store_a trio_vs = Undecided (Slot 3 1)" by code_simp
  ultimately show ?thesis using direct_rule_commits_early [OF trio_sound, of "Slot 3 1" store_a] slot by simp
qed


end
