(* ===== verification/Fee.thy ===== *)
theory Fee
  imports Core_Types
begin

section \<open>Base fee and fee distribution\<close>

text \<open>
  \<^verbatim>\<open>lemma-consensus/src/fee.rs\<close>: the base fee of the next block from the parent header, and the
  split of a transaction's fee into a burned and a proposer part. All amounts are \<open>u128\<close>
  drops; the lemmas read them as natural numbers.
\<close>

definition GAS_TARGET_DENOMINATOR :: u64 where
  "GAS_TARGET_DENOMINATOR = 2"

definition BASE_FEE_CHANGE_DENOMINATOR :: u128 where
  "BASE_FEE_CHANGE_DENOMINATOR = 8"

definition MIN_BASE_FEE_DELTA_DROP :: u128 where
  "MIN_BASE_FEE_DELTA_DROP = 1"

definition MIN_BASE_FEE_DROP :: u128 where
  "MIN_BASE_FEE_DROP = 1000000000"

record fee_distribution =
  fd_burned :: amount
  fd_to_proposer :: amount

definition compute_fee_delta :: "u128 \<Rightarrow> u128 \<Rightarrow> u128 \<Rightarrow> amount_error + u128" where
  "compute_fee_delta base_fee gas_diff target =
     ok_or (map_option (\<lambda>n. n div target div BASE_FEE_CHANGE_DENOMINATOR) (checked_mul base_fee gas_diff))
       (Overflow base_fee gas_diff)"

definition calculate_base_fee :: "block_header \<Rightarrow> amount_error + amount" where
  "calculate_base_fee parent =
     (let base_fee = hdr_base_fee parent;
          target_u64 = hdr_gas_limit parent div GAS_TARGET_DENOMINATOR
      in if target_u64 = 0 then Inr (max base_fee MIN_BASE_FEE_DROP)
         else
           let target = ucast target_u64 :: u128;
               gas_used = ucast (hdr_gas_used parent) :: u128
           in rbind
                (if gas_used = target then Inr base_fee
                 else if gas_used > target then
                   rbind (compute_fee_delta base_fee (gas_used - target) target) (\<lambda>delta0.
                     let delta = max delta0 MIN_BASE_FEE_DELTA_DROP
                     in ok_or (checked_add base_fee delta) (Overflow base_fee delta))
                 else
                   rbind (compute_fee_delta base_fee (target - gas_used) target) (\<lambda>delta.
                     Inr (saturating_sub base_fee delta)))
                (\<lambda>new_fee_drop. Inr (max new_fee_drop MIN_BASE_FEE_DROP)))"

definition distribute_fee :: "u64 \<Rightarrow> amount \<Rightarrow> amount \<Rightarrow> amount_error + fee_distribution" where
  "distribute_fee gas_used base_fee gas_price =
     rbind (amount_sub gas_price base_fee) (\<lambda>tip_per_gas.
     rbind (amount_mul base_fee (ucast gas_used)) (\<lambda>burned.
     rbind (amount_mul tip_per_gas (ucast gas_used)) (\<lambda>to_proposer.
     Inr \<lparr>fd_burned = burned, fd_to_proposer = to_proposer\<rparr>)))"

subsection \<open>The fee step as natural numbers\<close>

definition fee_delta :: "nat \<Rightarrow> nat \<Rightarrow> nat \<Rightarrow> nat" where
  "fee_delta base diff target = base * diff div target div 8"

definition next_fee :: "nat \<Rightarrow> nat \<Rightarrow> nat \<Rightarrow> nat" where
  "next_fee base used target =
     (if target = 0 \<or> used = target then base
      else if used > target then base + max (fee_delta base (used - target) target) 1
      else base - fee_delta base (target - used) target)"

lemma compute_fee_delta_Inr:
  "compute_fee_delta b x t = Inr d \<Longrightarrow> unat d = fee_delta (unat b) (unat x) (unat t)"
  by (auto simp: compute_fee_delta_def fee_delta_def BASE_FEE_CHANGE_DENOMINATOR_def unat_div
      checked_mul_Some)

lemma compute_fee_delta_ok:
  assumes "unat b * unat x < 2 ^ 128"
  shows "\<exists>d. compute_fee_delta b x t = Inr d"
proof -
  have "checked_mul b x \<noteq> None" using assms by (simp add: checked_mul_None not_le)
  then show ?thesis by (auto simp: compute_fee_delta_def)
qed

lemma calculate_base_fee_Inr:
  assumes "calculate_base_fee h = Inr f"
  shows "unat f = max (next_fee (unat (hdr_base_fee h)) (unat (hdr_gas_used h)) (unat (hdr_gas_limit h) div 2))
    1000000000"
proof -
  let ?t = "hdr_gas_limit h div GAS_TARGET_DENOMINATOR"
  let ?target = "ucast ?t :: u128" and ?used = "ucast (hdr_gas_used h) :: u128"
  have t: "unat ?t = unat (hdr_gas_limit h) div 2" by (simp add: GAS_TARGET_DENOMINATOR_def unat_div)
  have zero: "?t = 0 \<longleftrightarrow> unat (hdr_gas_limit h) div 2 = 0" using t by (metis unat_0_iff)
  have cmp: "?used = ?target \<longleftrightarrow> unat (hdr_gas_used h) = unat (hdr_gas_limit h) div 2"
    "?target < ?used \<longleftrightarrow> unat (hdr_gas_limit h) div 2 < unat (hdr_gas_used h)"
    using t by (simp_all add: word_unat_eq_iff word_less_nat_alt)
  have diff: "?target < ?used \<Longrightarrow> unat (?used - ?target) = unat (hdr_gas_used h) - unat (hdr_gas_limit h) div 2"
    "\<not> ?target < ?used \<Longrightarrow> unat (?target - ?used) = unat (hdr_gas_limit h) div 2 - unat (hdr_gas_used h)"
    using t by (simp_all add: unat_sub_exact order.strict_implies_order not_less)
  have floor: "unat (max x MIN_BASE_FEE_DROP) = max (unat x) 1000000000" for x
    by (simp add: unat_max MIN_BASE_FEE_DROP_def)
  consider (none) "?t = 0" | (same) "?t \<noteq> 0" "?used = ?target" | (above) "?t \<noteq> 0" "?target < ?used"
    | (below) "?t \<noteq> 0" "?used < ?target" by force
  then show ?thesis
  proof cases
    case none
    then show ?thesis using assms zero
      by (auto simp: calculate_base_fee_def Let_def floor next_fee_def)
  next
    case same
    then show ?thesis using assms cmp
      by (auto simp: calculate_base_fee_def Let_def floor next_fee_def)
  next
    case above
    then obtain d n where d: "compute_fee_delta (hdr_base_fee h) (?used - ?target) ?target = Inr d"
      and n: "checked_add (hdr_base_fee h) (max d MIN_BASE_FEE_DELTA_DROP) = Some n"
      and f: "f = max n MIN_BASE_FEE_DROP"
      using assms by (auto simp: calculate_base_fee_def Let_def split: if_splits)
    have "unat n = unat (hdr_base_fee h) + max (unat d) 1"
      using n by (simp add: checked_add_Some unat_max MIN_BASE_FEE_DELTA_DROP_def)
    then show ?thesis
      using above zero cmp diff(1) compute_fee_delta_Inr [OF d] t f by (auto simp: floor next_fee_def)
  next
    case below
    then obtain d where d: "compute_fee_delta (hdr_base_fee h) (?target - ?used) ?target = Inr d"
      and f: "f = max (saturating_sub (hdr_base_fee h) d) MIN_BASE_FEE_DROP"
      using assms by (auto simp: calculate_base_fee_def Let_def split: if_splits)
    then show ?thesis
      using below zero cmp diff(2) compute_fee_delta_Inr [OF d] t
      by (auto simp: floor next_fee_def unat_saturating_sub)
  qed
qed

lemma fee_delta_le:
  assumes "diff \<le> target"
  shows "fee_delta base diff target \<le> base div 8"
proof (cases "target = 0")
  case False
  have "base * diff div target \<le> base * target div target"
    using assms by (intro div_le_mono mult_le_mono2)
  then have "base * diff div target \<le> base" using False by simp
  then show ?thesis unfolding fee_delta_def by (rule div_le_mono)
qed (simp add: fee_delta_def)

lemma next_fee_bounds:
  assumes "used \<le> 2 * target"
  shows "next_fee base used target \<le> base + max (base div 8) 1" and "base - base div 8 \<le> next_fee base used target"
proof -
  have "fee_delta base (used - target) target \<le> base div 8" "fee_delta base (target - used) target \<le> base div 8"
    using assms by (intro fee_delta_le; simp)+
  then show "next_fee base used target \<le> base + max (base div 8) 1" "base - base div 8 \<le> next_fee base used target"
    unfolding next_fee_def by auto
qed

lemma next_fee_direction:
  "target \<noteq> 0 \<Longrightarrow> used > target \<Longrightarrow> base < next_fee base used target"
  "used \<le> target \<Longrightarrow> next_fee base used target \<le> base"
  by (auto simp: next_fee_def)

lemma calculate_base_fee_ok:
  assumes "unat (hdr_base_fee h) < 2 ^ 63"
  shows "\<exists>f. calculate_base_fee h = Inr f"
proof -
  let ?t = "hdr_gas_limit h div GAS_TARGET_DENOMINATOR"
  let ?target = "ucast ?t :: u128" and ?used = "ucast (hdr_gas_used h) :: u128"
  have lt: "unat ?target < 2 ^ 64" "unat ?used < 2 ^ 64"
    using unat_lt_size [of ?t] unat_lt_size [of "hdr_gas_used h"] by simp_all
  have mul: "unat (hdr_base_fee h) * unat x < 2 ^ 128" if "unat x < 2 ^ 64" for x :: u128
  proof -
    have "unat (hdr_base_fee h) * unat x \<le> 2 ^ 63 * 2 ^ 64"
      using assms that by (intro mult_le_mono) simp_all
    then show ?thesis by simp
  qed
  have up_lt: "?target < ?used \<Longrightarrow> unat (?used - ?target) < 2 ^ 64"
    and down_lt: "?used < ?target \<Longrightarrow> unat (?target - ?used) < 2 ^ 64"
    using lt by (simp_all add: unat_sub_exact)
  have up: "?target < ?used \<Longrightarrow> \<exists>d. compute_fee_delta (hdr_base_fee h) (?used - ?target) ?target = Inr d"
    and down: "?used < ?target \<Longrightarrow> \<exists>d. compute_fee_delta (hdr_base_fee h) (?target - ?used) ?target = Inr d"
    using compute_fee_delta_ok mul up_lt down_lt by blast+
  have sum: "checked_add (hdr_base_fee h) (max d MIN_BASE_FEE_DELTA_DROP) \<noteq> None"
    if "compute_fee_delta (hdr_base_fee h) x t = Inr d" "unat x < 2 ^ 64" for d x t
  proof -
    have "unat d \<le> unat (hdr_base_fee h) * unat x"
      using compute_fee_delta_Inr [OF that(1)] unfolding fee_delta_def by (metis div_le_dividend le_trans)
    also have "\<dots> \<le> 2 ^ 63 * 2 ^ 64" using assms that(2) by (intro mult_le_mono) simp_all
    finally have "unat (max d MIN_BASE_FEE_DELTA_DROP) \<le> 2 ^ 127" by (simp add: unat_max MIN_BASE_FEE_DELTA_DROP_def)
    then show ?thesis using assms by (simp add: checked_add_None)
  qed
  consider (same) "?t = 0 \<or> ?used = ?target" | (above) "?t \<noteq> 0" "?target < ?used"
    | (below) "?t \<noteq> 0" "?used < ?target" by force
  then show ?thesis
  proof cases
    case above
    then obtain d where d: "compute_fee_delta (hdr_base_fee h) (?used - ?target) ?target = Inr d" using up by blast
    then obtain n where "checked_add (hdr_base_fee h) (max d MIN_BASE_FEE_DELTA_DROP) = Some n"
      using sum [OF d up_lt] above(2) by blast
    with above d show ?thesis by (auto simp: calculate_base_fee_def Let_def)
  next
    case below
    then show ?thesis using down by (auto simp: calculate_base_fee_def Let_def)
  qed (auto simp: calculate_base_fee_def Let_def)
qed

subsection \<open>Properties\<close>

text \<open>
  The base fee of the next block: with a base fee below \<open>2 ^ 63\<close> drops the computation
  succeeds; the result never falls below one drip; and for a header whose gas used is at
  most twice the target, it rises by at most an eighth (at least one drop) and falls by at
  most an eighth, up to that floor.
\<close>

theorem base_fee_step_bounded:
  assumes "unat (hdr_base_fee h) < 2 ^ 63" and "unat (hdr_gas_used h) \<le> 2 * (unat (hdr_gas_limit h) div 2)"
  shows "\<exists>f. calculate_base_fee h = Inr f \<and> 1000000000 \<le> unat f \<and>
    unat (hdr_base_fee h) - unat (hdr_base_fee h) div 8 \<le> unat f \<and>
    unat f \<le> max (unat (hdr_base_fee h) + max (unat (hdr_base_fee h) div 8) 1) 1000000000"
proof -
  obtain f where f: "calculate_base_fee h = Inr f" using calculate_base_fee_ok [OF assms(1)] by blast
  note val = calculate_base_fee_Inr [OF f] and bounds = next_fee_bounds [OF assms(2), of "unat (hdr_base_fee h)"]
  have "unat f \<le> max (unat (hdr_base_fee h) + max (unat (hdr_base_fee h) div 8) 1) 1000000000"
    unfolding val using bounds(1) by (intro max.mono order_refl)
  moreover have "unat (hdr_base_fee h) - unat (hdr_base_fee h) div 8 \<le> unat f"
    unfolding val using bounds(2) by (rule max.coboundedI1)
  moreover have "1000000000 \<le> unat f" unfolding val by (rule max.cobounded2)
  ultimately show ?thesis using f by blast
qed

definition busy_header :: "u64 \<Rightarrow> u64 \<Rightarrow> block_header" where
  "busy_header limit used = \<lparr>hdr_height = 1, hdr_timestamp = 0, hdr_parent_hash = 0, hdr_transactions_root = 0,
     hdr_state_root = 0, hdr_receipts_root = 0, hdr_proposer = 0, hdr_epoch = 0, hdr_protocol_version = 1,
     hdr_dag_round = 0, hdr_dag_anchor = 0, hdr_validators_hash = 0, hdr_next_validators_hash = 0,
     hdr_gas_limit = limit, hdr_gas_used = used, hdr_base_fee = 8000000000, hdr_extra_data = []\<rparr>"

theorem base_fee_step_bounded_witness:
  "\<exists>f. calculate_base_fee (busy_header 1000 1000) = Inr f \<and> unat f \<le> 9000000000"
  using base_fee_step_bounded [of "busy_header 1000 1000"] by (auto simp: busy_header_def)

text \<open>
  The cap of an eighth is not kept for an odd gas limit: a valid header with gas limit 3,
  fully used, has target 1 and raises the base fee by a quarter.
\<close>

theorem base_fee_cap_exceeded:
  "header_validate (busy_header 3 3) = Inr () \<and>
    calculate_base_fee (busy_header 3 3) = Inr 10000000000 \<and> hdr_base_fee (busy_header 3 3) = 8000000000"
  by code_simp

text \<open>
  Fee distribution is exact: what is burned and what the proposer receives add up to
  gas price times gas used with no rounding loss, and the base fee part is the burned one.
\<close>

theorem fee_split_exact:
  assumes "distribute_fee gas_used base_fee gas_price = Inr fd"
  shows "unat (fd_burned fd) + unat (fd_to_proposer fd) = unat gas_price * unat gas_used \<and>
    unat (fd_burned fd) = unat base_fee * unat gas_used"
proof -
  obtain tip :: u128 where "unat tip + unat base_fee = unat gas_price"
    and "unat (fd_burned fd) = unat base_fee * unat gas_used"
    and "unat (fd_to_proposer fd) = unat tip * unat gas_used"
    using assms by (auto simp: distribute_fee_def amount_sub_Inr amount_mul_Inr)
  then show ?thesis by (metis add.commute distrib_right)
qed

theorem fee_split_exact_witness:
  "distribute_fee 21000 5 7 = Inr \<lparr>fd_burned = 105000, fd_to_proposer = 42000\<rparr> \<and> unat (105000 :: u128) + unat (42000 :: u128) = unat (7 :: u128) * unat (21000 :: u64)"
proof -
  have d: "distribute_fee 21000 5 7 = Inr \<lparr>fd_burned = 105000, fd_to_proposer = 42000\<rparr>" by code_simp
  then show ?thesis using fee_split_exact [OF d] by simp
qed

end
