(* ===== verification/Slashing.thy ===== *)
theory Slashing
  imports Dag_Block
begin

section \<open>Slashing, jail, evidence, liveness\<close>

text \<open>
  \<^verbatim>\<open>lemma-consensus/src/slashing/mod.rs\<close>, \<^verbatim>\<open>jail.rs\<close>, \<^verbatim>\<open>evidence.rs\<close> and \<^verbatim>\<open>liveness.rs\<close>. \<open>slash\<close> computes
  before it writes, so its model returns the new validator only on success; an error
  carries no state because the validator is left as it was.
\<close>

definition DOUBLE_SIGN_SLASH_BPS :: u16 where
  "DOUBLE_SIGN_SLASH_BPS = 500"

definition DOWNTIME_SLASH_BPS :: u16 where
  "DOWNTIME_SLASH_BPS = 100"

definition SHARE_WITHHOLDING_SLASH_BPS :: u16 where
  "SHARE_WITHHOLDING_SLASH_BPS = 1000"

definition MAX_FRACTION_BPS :: u16 where
  "MAX_FRACTION_BPS = 10000"

definition UNBONDING_PERIOD_SECONDS :: u64 where
  "UNBONDING_PERIOD_SECONDS = 14 * 24 * 60 * 60"

definition EVIDENCE_MAX_AGE_SECONDS :: u64 where
  "EVIDENCE_MAX_AGE_SECONDS = UNBONDING_PERIOD_SECONDS"

datatype slash_error =
    InvalidFraction u16
  | ComputeOverflow address amount_error
  | ApplyOverflow address amount_error

subsection \<open>The slash\<close>

definition fraction_of :: "amount \<Rightarrow> u16 \<Rightarrow> amount_error + amount" where
  "fraction_of a fraction_bps =
     rbind (amount_mul a (ucast fraction_bps)) (\<lambda>x. amount_div x (ucast MAX_FRACTION_BPS))"

text \<open>
  The loop over \<open>pending_inactive\<close>. The source collects (index, new balance) pairs and writes
  them after the last fallible step; here the updated list is built along the way.
\<close>

fun slash_pending ::
  "address \<Rightarrow> u64 \<Rightarrow> u16 \<Rightarrow> amount \<Rightarrow> unbonding_entry list
    \<Rightarrow> slash_error + unbonding_entry list \<times> amount"
where
  "slash_pending addr infraction_height fraction_bps from_pending [] = Inr ([], from_pending)"
| "slash_pending addr infraction_height fraction_bps from_pending (e # es) =
     (if start_height e \<le> infraction_height then
        rbind (slash_pending addr infraction_height fraction_bps from_pending es)
          (\<lambda>(es', total). Inr (e # es', total))
      else
        rbind (map_err (ApplyOverflow addr) (fraction_of (initial_balance e) fraction_bps)) (\<lambda>entry_slash.
        rbind (map_err (ApplyOverflow addr) (amount_sub (initial_balance e) entry_slash)) (\<lambda>new_balance.
        rbind (map_err (ApplyOverflow addr) (amount_add from_pending entry_slash)) (\<lambda>from_pending'.
        rbind (slash_pending addr infraction_height fraction_bps from_pending' es)
          (\<lambda>(es', total). Inr (e\<lparr>initial_balance := new_balance\<rparr> # es', total))))))"

text \<open>Step 2: what is taken from the active stake, and what remains.\<close>

definition slash_active :: "address \<Rightarrow> amount \<Rightarrow> amount \<Rightarrow> slash_error + amount \<times> amount" where
  "slash_active addr act intended =
     (if act < intended then Inr (act, amount_zero)
      else rbind (map_err (ApplyOverflow addr) (amount_sub act intended)) (\<lambda>rest. Inr (intended, rest)))"

definition slash ::
  "validator \<Rightarrow> u64 \<Rightarrow> amount \<Rightarrow> u16 \<Rightarrow> slash_error + amount \<times> validator" where
  "slash v infraction_height validator_power fraction_bps =
     (if fraction_bps > MAX_FRACTION_BPS then Inl (InvalidFraction fraction_bps)
      else
        let addr = v_address v; s = v_self_stake v
        in rbind (map_err (ComputeOverflow addr) (fraction_of validator_power fraction_bps)) (\<lambda>intended.
           rbind (slash_active addr (active s) intended) (\<lambda>(from_active, new_active).
           rbind (slash_pending addr infraction_height fraction_bps amount_zero (pending_inactive s))
             (\<lambda>(entries, from_pending).
           rbind (map_err (ApplyOverflow addr) (amount_add from_active from_pending)) (\<lambda>total_burned.
           Inr (total_burned, v\<lparr>v_self_stake := s\<lparr>active := new_active, pending_inactive := entries\<rparr>\<rparr>))))))"

subsection \<open>Jail and tombstone\<close>

definition tombstone :: "validator \<Rightarrow> validator" where
  "tombstone v = v\<lparr>v_tombstoned := True\<rparr>"

definition jail :: "validator \<Rightarrow> u64 \<Rightarrow> validator" where
  "jail v until_time = v\<lparr>v_jailed_until := Some (case v_jailed_until v of
      Some existing \<Rightarrow> max existing until_time
    | None \<Rightarrow> until_time)\<rparr>"

subsection \<open>Double-sign evidence\<close>

record double_sign_evidence =
  ev_vote_a :: dag_block_ref
  ev_vote_b :: dag_block_ref
  ev_infraction_height :: u64
  ev_infraction_time :: u64
  ev_validator :: address
  ev_validator_power :: amount
  ev_total_power :: amount

datatype evidence_error =
    SlotMismatch u64 address u64 address
  | IdenticalDigests
  | InvalidEvidenceSignature bool bool
  | NotInCommittee address u64
  | Expired u64 u64
  | Duplicate address u64
  | SlashFailed slash_error

definition verify_double_sign ::
  "double_sign_evidence \<Rightarrow> validator_set \<Rightarrow> bool \<Rightarrow> bool \<Rightarrow> u64 \<Rightarrow> (address \<times> u64) fset
    \<Rightarrow> evidence_error + unit"
where
  "verify_double_sign ev vset sig_a_ok sig_b_ok current_time dedup =
     (if ref_round (ev_vote_a ev) \<noteq> ref_round (ev_vote_b ev) \<or>
         ref_author (ev_vote_a ev) \<noteq> ref_author (ev_vote_b ev)
      then Inl (SlotMismatch (ref_round (ev_vote_a ev)) (ref_author (ev_vote_a ev))
                             (ref_round (ev_vote_b ev)) (ref_author (ev_vote_b ev)))
      else if ref_digest (ev_vote_a ev) = ref_digest (ev_vote_b ev) then Inl IdenticalDigests
      else if \<not> sig_a_ok \<or> \<not> sig_b_ok then Inl (InvalidEvidenceSignature sig_a_ok sig_b_ok)
      else if ev_validator ev |\<notin>| fmdom (vs_members vset)
      then Inl (NotInCommittee (ev_validator ev) (ev_infraction_height ev))
      else if saturating_sub current_time (ev_infraction_time ev) \<ge> EVIDENCE_MAX_AGE_SECONDS
      then Inl (Expired (ev_infraction_time ev) current_time)
      else if (ev_validator ev, ev_infraction_height ev) |\<in>| dedup
      then Inl (Duplicate (ev_validator ev) (ev_infraction_height ev))
      else Inr ())"

definition apply_double_sign ::
  "validator \<Rightarrow> double_sign_evidence \<Rightarrow> evidence_error + amount \<times> validator" where
  "apply_double_sign v ev =
     rbind (map_err SlashFailed
              (slash v (ev_infraction_height ev) (ev_validator_power ev) DOUBLE_SIGN_SLASH_BPS))
       (\<lambda>(burned, v'). Inr (burned, tombstone v'))"

subsection \<open>Liveness window\<close>

definition SIGNED_BLOCKS_WINDOW :: u64 where
  "SIGNED_BLOCKS_WINDOW = 345600"

definition MAX_MISSED_BLOCKS :: u64 where
  "MAX_MISSED_BLOCKS = SIGNED_BLOCKS_WINDOW div 2"

definition DOWNTIME_JAIL_DURATION_SECONDS :: u64 where
  "DOWNTIME_JAIL_DURATION_SECONDS = 24 * 60 * 60"

record signed_blocks_window =
  w_bits :: "bool list"
  w_missed_count :: u64
  w_max_missed :: u64
  w_last_breach_height :: "u64 option"

text \<open>\<open>new\<close> asserts a positive window; the panic is \<open>None\<close>.\<close>

definition window_new :: "u64 \<Rightarrow> u64 \<Rightarrow> signed_blocks_window option" where
  "window_new window_size max_missed =
     (if window_size = 0 then None
      else Some \<lparr>w_bits = replicate (unat window_size) True, w_missed_count = 0,
                 w_max_missed = max_missed, w_last_breach_height = None\<rparr>)"

text \<open>The result is the breach height, if the threshold is exceeded.\<close>

definition record_block :: "signed_blocks_window \<Rightarrow> u64 \<Rightarrow> bool \<Rightarrow> u64 option \<times> signed_blocks_window" where
  "record_block w height was_signed =
     (let i = unat (height mod of_nat (length (w_bits w)));
          previously_signed = w_bits w ! i;
          missed = (if previously_signed \<and> \<not> was_signed then w_missed_count w + 1
                    else if \<not> previously_signed \<and> was_signed then saturating_sub (w_missed_count w) 1
                    else w_missed_count w);
          w1 = w\<lparr>w_missed_count := missed, w_bits := (w_bits w)[i := was_signed]\<rparr>
      in if missed > w_max_missed w \<and> w_last_breach_height w \<noteq> Some height
         then (Some height, w1\<lparr>w_last_breach_height := Some height\<rparr>)
         else (None, w1))"

definition window_reset :: "signed_blocks_window \<Rightarrow> signed_blocks_window" where
  "window_reset w = w\<lparr>w_bits := replicate (length (w_bits w)) True, w_missed_count := 0,
     w_last_breach_height := None\<rparr>"

definition apply_downtime ::
  "validator \<Rightarrow> u64 \<Rightarrow> amount \<Rightarrow> u64 \<Rightarrow> signed_blocks_window
    \<Rightarrow> slash_error + amount \<times> validator \<times> signed_blocks_window"
where
  "apply_downtime v breach_height validator_power block_time w =
     rbind (slash v breach_height validator_power DOWNTIME_SLASH_BPS) (\<lambda>(burned, v').
       Inr (burned, jail v' (block_time + DOWNTIME_JAIL_DURATION_SECONDS), window_reset w))"

subsection \<open>A slash conserves stake\<close>

lemma fraction_of_Inr: "fraction_of a bps = Inr f \<Longrightarrow> unat f = unat a * unat bps div 10000"
  by (auto simp: fraction_of_def amount_mul_Inr amount_div_Inr MAX_FRACTION_BPS_def)

lemma fraction_of_ok:
  assumes "unat a * unat bps < 2 ^ 128"
  shows "\<exists>f. fraction_of a bps = Inr f"
proof -
  have "amount_mul a (ucast bps) = Inr (a * ucast bps)"
    using assms unat_mult_exact [of a "ucast bps"] by (simp add: amount_mul_Inr)
  then show ?thesis by (simp add: fraction_of_def amount_div_def checked_div_def MAX_FRACTION_BPS_def)
qed

abbreviation entries_total :: "unbonding_entry list \<Rightarrow> nat" where
  "entries_total es \<equiv> (\<Sum>e \<leftarrow> es. unat (initial_balance e))"

definition entry_kept :: "u64 \<Rightarrow> u16 \<Rightarrow> unbonding_entry \<Rightarrow> unbonding_entry \<Rightarrow> bool" where
  "entry_kept ih bps e e' \<longleftrightarrow> start_height e' = start_height e \<and> complete_time e' = complete_time e \<and>
     on_hold e' = on_hold e \<and>
     unat (initial_balance e') = unat (initial_balance e)
       - (if start_height e \<le> ih then 0 else unat (initial_balance e) * unat bps div 10000)"

lemma slash_pending_Inr:
  "slash_pending addr ih bps acc es = Inr (es', tot) \<Longrightarrow>
    list_all2 (entry_kept ih bps) es es' \<and> entries_total es' + unat tot = entries_total es + unat acc"
proof (induction es arbitrary: acc es' tot)
  case (Cons e es)
  show ?case
  proof (cases "start_height e \<le> ih")
    case True
    then show ?thesis using Cons by (auto simp: entry_kept_def)
  next
    case False
    then obtain s n acc' rest where s: "fraction_of (initial_balance e) bps = Inr s"
      and n: "unat n + unat s = unat (initial_balance e)" and acc': "unat acc' = unat acc + unat s"
      and rest: "slash_pending addr ih bps acc' es = Inr (rest, tot)"
      and es': "es' = e\<lparr>initial_balance := n\<rparr> # rest"
      using Cons.prems by (auto simp: amount_sub_Inr amount_add_Inr)
    from Cons.IH [OF rest] show ?thesis
      using False n acc' fraction_of_Inr [OF s] by (auto simp: es' entry_kept_def)
  qed
qed simp

lemma slash_Inr:
  assumes "slash v ih p bps = Inr (burned, v')"
  shows "stake_total (v_self_stake v') + unat burned = stake_total (v_self_stake v)"
    and "unat (active (v_self_stake v')) = unat (active (v_self_stake v)) - unat p * unat bps div 10000"
    and "list_all2 (entry_kept ih bps) (pending_inactive (v_self_stake v)) (pending_inactive (v_self_stake v'))"
    and "v' = v\<lparr>v_self_stake := v_self_stake v'\<rparr>" and "inactive (v_self_stake v') = inactive (v_self_stake v)"
    and "pending_active (v_self_stake v') = pending_active (v_self_stake v)"
proof -
  let ?s = "v_self_stake v"
  obtain intended fa na es fp where i: "fraction_of p bps = Inr intended"
    and a: "slash_active (v_address v) (active ?s) intended = Inr (fa, na)"
    and pend: "slash_pending (v_address v) ih bps amount_zero (pending_inactive ?s) = Inr (es, fp)"
    and tot: "unat burned = unat fa + unat fp"
    and v': "v' = v\<lparr>v_self_stake := ?s\<lparr>active := na, pending_inactive := es\<rparr>\<rparr>"
    using assms by (auto simp: slash_def Let_def amount_add_Inr split: if_splits)
  have act: "unat fa + unat na = unat (active ?s) \<and> unat na = unat (active ?s) - unat intended"
    using a by (auto simp: slash_active_def amount_sub_Inr word_less_nat_alt split: if_splits)
  note p = slash_pending_Inr [OF pend]
  show "stake_total (v_self_stake v') + unat burned = stake_total ?s"
    using act p tot by (simp add: v' stake_total_def)
  show "unat (active (v_self_stake v')) = unat (active ?s) - unat p * unat bps div 10000"
    using act fraction_of_Inr [OF i] by (simp add: v')
  show "list_all2 (entry_kept ih bps) (pending_inactive ?s) (pending_inactive (v_self_stake v'))"
    using p by (simp add: v')
  show "v' = v\<lparr>v_self_stake := v_self_stake v'\<rparr>" "inactive (v_self_stake v') = inactive ?s"
    "pending_active (v_self_stake v') = pending_active ?s" by (simp_all add: v')
qed

lemma fraction_le: "unat bps \<le> 10000 \<Longrightarrow> unat (a :: u128) * unat (bps :: u16) div 10000 \<le> unat a"
  by (metis div_le_mono mult.commute mult_le_mono1 nonzero_mult_div_cancel_left zero_neq_numeral)

lemma slash_pending_ok:
  assumes "unat bps \<le> 10000"
  shows "(entries_total es + unat acc) * 10000 < 2 ^ 128 \<Longrightarrow>
    \<exists>r. slash_pending addr ih bps acc es = Inr r"
proof (induction es arbitrary: acc)
  case (Cons e es)
  show ?case
  proof (cases "start_height e \<le> ih")
    case True
    then show ?thesis using Cons.IH [of acc] Cons.prems by (auto simp: algebra_simps)
  next
    case False
    have "unat (initial_balance e) * unat bps \<le> unat (initial_balance e) * 10000"
      using assms by (rule mult_le_mono2)
    also have "\<dots> \<le> (entries_total (e # es) + unat acc) * 10000" by (simp add: algebra_simps)
    also have "\<dots> < 2 ^ 128" by (rule Cons.prems)
    finally have "unat (initial_balance e) * unat bps < 2 ^ 128" .
    then obtain s where s: "fraction_of (initial_balance e) bps = Inr s" using fraction_of_ok by blast
    have le: "unat s \<le> unat (initial_balance e)"
      using fraction_of_Inr [OF s] fraction_le [OF assms] by simp
    then have sub: "amount_sub (initial_balance e) s = Inr (initial_balance e - s)"
      by (simp add: amount_sub_def checked_sub_def word_le_nat_alt)
    have lt: "unat acc + unat s < 2 ^ LENGTH(128)" using le Cons.prems by simp
    then have add: "amount_add acc s = Inr (acc + s)" by (simp add: amount_add_def checked_add_def)
    have "(entries_total es + unat (acc + s)) * 10000 < 2 ^ 128"
      using Cons.prems le unat_add_exact [OF lt] by simp
    then show ?thesis using Cons.IH [of "acc + s"] False s sub add by auto
  qed
qed simp

lemma slash_ok:
  assumes "unat bps \<le> 10000" and "unat p * 10000 < 2 ^ 128" and "stake_total (v_self_stake v) * 10000 < 2 ^ 128"
  shows "\<exists>r. slash v ih p bps = Inr r"
proof -
  let ?s = "v_self_stake v"
  have "unat p * unat bps \<le> unat p * 10000" using assms(1) by (rule mult_le_mono2)
  also note assms(2)
  finally obtain intended where i: "fraction_of p bps = Inr intended" using fraction_of_ok by blast
  obtain fa na where a: "slash_active (v_address v) (active ?s) intended = Inr (fa, na)" "unat fa \<le> unat (active ?s)"
    by (cases "active ?s < intended")
      (auto simp: slash_active_def amount_sub_def checked_sub_def word_less_nat_alt word_le_nat_alt)
  have "(entries_total (pending_inactive ?s) + unat amount_zero) * 10000 < 2 ^ 128"
    using assms(3) by (simp add: stake_total_def)
  then obtain es fp where pend: "slash_pending (v_address v) ih bps amount_zero (pending_inactive ?s) = Inr (es, fp)"
    using slash_pending_ok [OF assms(1)] by fastforce
  have "unat fp \<le> entries_total (pending_inactive ?s)" using slash_pending_Inr [OF pend] by simp
  then have "unat fa + unat fp \<le> stake_total ?s" using a(2) by (simp add: stake_total_def)
  then have "unat fa + unat fp < 2 ^ 128" using assms(3) by linarith
  then have "amount_add fa fp = Inr (fa + fp)" by (simp add: amount_add_def checked_add_def)
  moreover have "\<not> MAX_FRACTION_BPS < bps" using assms(1) by (simp add: MAX_FRACTION_BPS_def word_less_nat_alt)
  ultimately show ?thesis using i a pend by (simp add: slash_def Let_def)
qed

subsection \<open>The liveness window slides\<close>

definition missed :: "bool list \<Rightarrow> nat" where
  "missed xs = length (filter Not xs)"

text \<open>
  \<open>window_shows w k H\<close>: the bits, read from slot \<open>k\<close> around, are the history \<open>H\<close> of the last
  blocks, oldest first, and the counter is the number of missed blocks in it.
\<close>

definition window_shows :: "signed_blocks_window \<Rightarrow> nat \<Rightarrow> bool list \<Rightarrow> bool" where
  "window_shows w k H \<longleftrightarrow> 0 < length (w_bits w) \<and> length (w_bits w) < 2 ^ 64 \<and>
     rotate k (w_bits w) = H \<and> unat (w_missed_count w) = missed H"

lemma rotate_update:
  assumes "k < length xs"
  shows "rotate k (xs[k := v]) = v # tl (rotate k xs)"
proof -
  have "drop k xs = xs ! k # drop (Suc k) xs" using assms by (rule Cons_nth_drop_Suc [symmetric])
  then show ?thesis using assms by (simp add: rotate_drop_take drop_update_swap)
qed

lemma missed_rotate: "missed (rotate k xs) = missed xs"
proof (induction k)
  case (Suc k)
  then show ?case by (cases "rotate k xs") (simp_all add: missed_def split: if_splits)
qed simp

lemma missed_le: "missed xs \<le> length xs"
  by (simp add: missed_def)

lemma missed_update:
  assumes "k < length xs"
  shows "missed (xs[k := v]) + (if xs ! k then 0 else 1) = missed xs + (if v then 0 else 1)"
  using assms
proof (induction xs arbitrary: k)
  case (Cons x xs)
  show ?case
  proof (cases k)
    case (Suc j)
    then have "missed (xs[j := v]) + (if xs ! j then 0 else 1) = missed xs + (if v then 0 else 1)"
      using Cons by simp
    then show ?thesis by (cases x) (simp_all add: Suc missed_def split: if_splits)
  qed (simp add: missed_def)
qed simp

lemma record_block_shows:
  assumes w: "window_shows w (unat height mod length (w_bits w)) H" and rec: "record_block w height v = (r, w')"
  shows "window_shows w' (Suc (unat height) mod length (w_bits w')) (tl H @ [v])"
    and "w_max_missed w' = w_max_missed w"
proof -
  let ?n = "length (w_bits w)" and ?i = "unat height mod length (w_bits w)"
  have n: "0 < ?n" "?n < 2 ^ 64" and H: "rotate ?i (w_bits w) = H" and cnt: "unat (w_missed_count w) = missed (w_bits w)"
    using w missed_rotate by (auto simp: window_shows_def)
  have i: "unat (height mod of_nat ?n) = ?i" using n(2) by (simp add: unat_mod unat_of_nat)
  have lt: "?i < ?n" using n(1) by simp
  have bits: "w_bits w' = (w_bits w)[?i := v]" and max: "w_max_missed w' = w_max_missed w"
    and count: "w_missed_count w' = (if w_bits w ! ?i \<and> \<not> v then w_missed_count w + 1
      else if \<not> w_bits w ! ?i \<and> v then saturating_sub (w_missed_count w) 1 else w_missed_count w)"
    using rec by (auto simp: record_block_def Let_def i split: if_splits)
  note upd = missed_update [OF lt, of v]
  have "unat (w_missed_count w + 1) = unat (w_missed_count w) + 1" if "w_bits w ! ?i" "\<not> v"
  proof (rule trans [OF unat_add_exact])
    have "missed ((w_bits w)[?i := v]) \<le> ?n" using missed_le [of "(w_bits w)[?i := v]"] by simp
    then show "unat (w_missed_count w) + unat (1 :: u64) < 2 ^ LENGTH(64)"
      using upd that cnt n(2) by simp
  qed simp
  then have cnt': "unat (w_missed_count w') = missed (w_bits w')"
    using upd cnt by (auto simp: count bits unat_saturating_sub split: if_splits)
  have "rotate (Suc (unat height) mod ?n) (w_bits w') = rotate (Suc ?i) (w_bits w')"
    by (metis bits length_list_update mod_Suc_eq rotate_conv_mod)
  also have "\<dots> = rotate1 (v # tl H)" using rotate_update [OF lt, of v] H by (simp add: bits)
  finally have rot: "rotate (Suc (unat height) mod length (w_bits w')) (w_bits w') = tl H @ [v]" by (simp add: bits)
  moreover have "missed (tl H @ [v]) = missed (w_bits w')" unfolding rot [symmetric] by (rule missed_rotate)
  ultimately show "window_shows w' (Suc (unat height) mod length (w_bits w')) (tl H @ [v])"
    using n cnt' by (simp add: window_shows_def bits)
  show "w_max_missed w' = w_max_missed w" by (rule max)
qed

fun record_run :: "signed_blocks_window \<Rightarrow> u64 \<Rightarrow> bool list \<Rightarrow> signed_blocks_window" where
  "record_run w height [] = w"
| "record_run w height (v # vs) = record_run (snd (record_block w height v)) (height + 1) vs"

lemma record_run_shows:
  assumes "window_shows w (unat height mod length (w_bits w)) H" and "unat height + length vs < 2 ^ 64"
  shows "window_shows (record_run w height vs)
    ((unat height + length vs) mod length (w_bits (record_run w height vs))) (drop (length vs) (H @ vs))"
  using assms
proof (induction vs arbitrary: w height H)
  case (Cons v vs)
  let ?w = "snd (record_block w height v)"
  have "record_block w height v = (fst (record_block w height v), ?w)" by simp
  note step = record_block_shows(1) [OF Cons.prems(1) this]
  have succ: "unat (height + 1) = Suc (unat height)"
    using unat_add_exact [of height 1] Cons.prems(2) by simp
  have H: "H \<noteq> []" using Cons.prems(1) by (auto simp: window_shows_def)
  have "window_shows ?w (unat (height + 1) mod length (w_bits ?w)) (tl H @ [v])" using step succ by simp
  from Cons.IH [OF this] show ?case
    using Cons.prems(2) succ H by (cases H) simp_all
qed simp

subsection \<open>Properties\<close>

text \<open>
  A slash of at most 100 percent, on stake and power far below the \<open>u128\<close> limit, always
  succeeds, and conserves stake: what is burned is exactly what the buckets lose. The active
  stake loses its fraction of the power, capped at zero; each unbonding entry that began
  after the infraction loses the same fraction and older entries, pending and matured stake
  and every other field are untouched.
\<close>

theorem slash_conserves_stake:
  assumes "unat bps \<le> 10000" and "unat p * 10000 < 2 ^ 128" and "stake_total (v_self_stake v) * 10000 < 2 ^ 128"
  shows "\<exists>burned v'. slash v ih p bps = Inr (burned, v') \<and>
    stake_total (v_self_stake v') + unat burned = stake_total (v_self_stake v) \<and>
    unat (active (v_self_stake v')) = unat (active (v_self_stake v)) - unat p * unat bps div 10000 \<and>
    list_all2 (entry_kept ih bps) (pending_inactive (v_self_stake v)) (pending_inactive (v_self_stake v')) \<and>
    inactive (v_self_stake v') = inactive (v_self_stake v) \<and>
    pending_active (v_self_stake v') = pending_active (v_self_stake v) \<and>
    v' = v\<lparr>v_self_stake := v_self_stake v'\<rparr>"
proof -
  obtain burned v' where "slash v ih p bps = Inr (burned, v')" using slash_ok [OF assms] by fastforce
  note run = this and facts = slash_Inr [OF this]
  show ?thesis by (intro exI [of _ burned] exI [of _ v'] conjI) (rule run facts)+
qed

definition offender :: validator where
  "offender = \<lparr>v_address = 1, v_consensus_pubkey = \<lparr>ck_classical = [], ck_quantum = []\<rparr>, v_status = Bonded,
     v_tombstoned = False,
     v_self_stake = \<lparr>active = 1000, pending_active = 5, pending_inactive =
       [\<lparr>initial_balance = 200, start_height = 9, complete_time = 90, on_hold = False\<rparr>,
        \<lparr>initial_balance = 400, start_height = 11, complete_time = 99, on_hold = False\<rparr>], inactive = 7\<rparr>,
     v_delegated = 0, v_commission_bps = 0, v_jailed_until = None\<rparr>"

theorem slash_conserves_stake_witness:
  "\<exists>burned v'. slash offender 10 1000 500 = Inr (burned, v') \<and>
    stake_total (v_self_stake v') + unat burned = 1612"
  using slash_conserves_stake [of 500 1000 offender 10] by (auto simp: offender_def stake_total_def)

definition two_members :: validator_set where
  "two_members = \<lparr>vs_epoch = 0, vs_members = fmap_of_list (map (\<lambda>a.
     (a, \<lparr>m_consensus_pubkey = \<lparr>ck_classical = [], ck_quantum = []\<rparr>, m_power = 1\<rparr>)) [1, 2]), vs_total_power = 2\<rparr>"

definition own_evidence :: double_sign_evidence where
  "own_evidence = \<lparr>ev_vote_a = DagBlockRef 4 1 10, ev_vote_b = DagBlockRef 4 1 11,
     ev_infraction_height = 4, ev_infraction_time = 100, ev_validator = 1, ev_validator_power = 1,
     ev_total_power = 2\<rparr>"

text \<open>
  C40. Double-sign evidence does not bind the accused to the votes. Take any evidence that verifies,
  against whomever, and re-aim it: any committee member as the accused, any height not recorded yet
  and any claimed power. The result verifies too, on the same two signatures of the real author, and
  applying it takes five percent of the claimed power from the accused member's active stake and
  tombstones the member for good.
\<close>

theorem evidence_frames_another_member:
  assumes "verify_double_sign ev vset sig_a_ok sig_b_ok now dedup = Inr ()"
    and "victim |\<in>| fmdom (vs_members vset)" "(victim, height) |\<notin>| dedup"
    and "unat claimed * 10000 < 2 ^ 128" "stake_total (v_self_stake v) * 10000 < 2 ^ 128"
    and "ev' = ev\<lparr>ev_validator := victim, ev_infraction_height := height, ev_validator_power := claimed\<rparr>"
  shows "verify_double_sign ev' vset sig_a_ok sig_b_ok now dedup = Inr () \<and>
    (\<exists>burned v'. apply_double_sign v ev' = Inr (burned, v') \<and> v_tombstoned v' \<and>
      unat (active (v_self_stake v')) = unat (active (v_self_stake v)) - unat claimed * 500 div 10000)"
proof -
  have bps: "unat DOUBLE_SIGN_SLASH_BPS = 500" by (simp add: DOUBLE_SIGN_SLASH_BPS_def)
  obtain burned v1 where slash: "slash v height claimed DOUBLE_SIGN_SLASH_BPS = Inr (burned, v1)"
    using slash_ok [of DOUBLE_SIGN_SLASH_BPS claimed v height] assms(4,5) bps by fastforce
  have "unat (active (v_self_stake v1)) = unat (active (v_self_stake v)) - unat claimed * 500 div 10000"
    using slash_Inr(2) [OF slash] bps by simp
  with slash assms(1-3) show ?thesis
    by (auto simp: assms(6) verify_double_sign_def apply_double_sign_def tombstone_def split: if_splits)
qed

theorem evidence_frames_another_member_witness:
  "\<exists>ev'. ref_author (ev_vote_a ev') = 1 \<and> ev_validator ev' = 2 \<and> verify_double_sign ev' two_members True True 200 {||} = Inr () \<and>
    (\<exists>burned v'. apply_double_sign offender ev' = Inr (burned, v') \<and> v_tombstoned v' \<and> unat (active (v_self_stake v')) = 950)"
proof -
  have "verify_double_sign own_evidence two_members True True 200 {||} = Inr ()" by code_simp
  moreover have "2 |\<in>| fmdom (vs_members two_members)" by code_simp
  ultimately have "verify_double_sign (own_evidence\<lparr>ev_validator := 2, ev_infraction_height := 4, ev_validator_power := 1000\<rparr>)
      two_members True True 200 {||} = Inr () \<and>
    (\<exists>burned v'. apply_double_sign offender (own_evidence\<lparr>ev_validator := 2, ev_infraction_height := 4, ev_validator_power := 1000\<rparr>) =
      Inr (burned, v') \<and> v_tombstoned v' \<and>
      unat (active (v_self_stake v')) = unat (active (v_self_stake offender)) - unat (1000 :: u128) * 500 div 10000)"
    by (rule evidence_frames_another_member) (simp_all add: offender_def stake_total_def)
  then show ?thesis
    by (intro exI [of _ "own_evidence\<lparr>ev_validator := 2, ev_infraction_height := 4, ev_validator_power := 1000\<rparr>"])
      (simp add: own_evidence_def offender_def)
qed

text \<open>
  The liveness window counts exactly: after any run of consecutive heights from a fresh
  window, the counter is the number of missed blocks among the last \<open>window_size\<close> blocks,
  heights before the start counting as signed.
\<close>

theorem liveness_window_exact:
  assumes "window_new wsize max_missed = Some w" and "unat height + length vs < 2 ^ 64"
  shows "unat (w_missed_count (record_run w height vs)) =
    missed (drop (length vs) (replicate (unat wsize) True @ vs))"
proof -
  have w: "w = \<lparr>w_bits = replicate (unat wsize) True, w_missed_count = 0, w_max_missed = max_missed,
      w_last_breach_height = None\<rparr>" and pos: "wsize \<noteq> 0"
    using assms(1) by (auto simp: window_new_def split: if_splits)
  have "rotate k (replicate n True) = replicate n True" for k n
    by (induction k) (simp_all add: rotate1_replicate)
  then have "window_shows w (unat height mod length (w_bits w)) (replicate (unat wsize) True)"
    using pos unat_lt_size [of wsize] by (simp add: window_shows_def w missed_def unat_gt_0)
  from record_run_shows [OF this assms(2)] show ?thesis by (simp add: window_shows_def)
qed

theorem liveness_window_exact_witness:
  "\<exists>w. window_new 3 1 = Some w \<and> unat (w_missed_count (record_run w 5 [False, True, False, False])) = 2"
proof -
  let ?w = "\<lparr>w_bits = [True, True, True], w_missed_count = 0, w_max_missed = 1, w_last_breach_height = None\<rparr>"
  have w: "window_new 3 1 = Some ?w" by code_simp
  have m: "missed (drop (length [False, True, False, False]) (replicate (unat (3 :: u64)) True @ [False, True, False, False])) = 2"
    by code_simp
  have "unat (w_missed_count (record_run ?w 5 [False, True, False, False])) = 2"
    unfolding m [symmetric] by (rule liveness_window_exact [OF w]) simp
  with w show ?thesis by blast
qed

text \<open>
  One sustained outage is reported at every height, not once: with the threshold
  exceeded, two missed blocks in a row each return a breach.
\<close>

theorem breach_repeats:
  "\<exists>w0 w1. window_new 4 0 = Some w0 \<and> record_block w0 7 False = (Some 7, w1) \<and>
    fst (record_block w1 8 False) = Some 8"
proof -
  let ?w = "\<lparr>w_bits = [True, True, True, True], w_missed_count = 0, w_max_missed = 0, w_last_breach_height = None\<rparr>"
  let ?v = "\<lparr>w_bits = [True, True, True, False], w_missed_count = 1, w_max_missed = 0, w_last_breach_height = Some 7\<rparr>"
  have "window_new 4 0 = Some ?w" by code_simp
  moreover have "record_block ?w 7 False = (Some 7, ?v)" by code_simp
  moreover have "fst (record_block ?v 8 False) = Some 8" by code_simp
  ultimately show ?thesis by blast
qed

end
