(* ===== verification/Rewards.thy ===== *)
theory Rewards
  imports Stake
begin

section \<open>Epoch inflation and reward distribution\<close>

text \<open>
  \<^verbatim>\<open>lemma-consensus/src/rewards.rs\<close>. The inflation schedule is a table by year; the pool is split
  by voting power in whole drips, credited to the active stake, and the rest is burned.
  The loop writes a validator before the running total is checked, so the model returns the
  validator map beside either result.
\<close>

definition EPOCHS_PER_YEAR :: u64 where
  "EPOCHS_PER_YEAR = 365"

definition INFLATION_SCHEDULE_BPS :: "u32 list" where
  "INFLATION_SCHEDULE_BPS = [200, 170, 140, 120, 100, 80]"

datatype reward_error =
    InflationOverflow amount_error
  | DistributionOverflow address amount_error
  | RemainderUnderflow amount_error

record reward_outcome =
  ro_distributed :: amount
  ro_burned_remainder :: amount

definition compute_epoch_inflation :: "amount \<Rightarrow> u64 \<Rightarrow> reward_error + amount" where
  "compute_epoch_inflation total_supply epoch_number =
     (let year = epoch_number div EPOCHS_PER_YEAR;
          idx = unat (min year 5);
          rate_bps = ucast (INFLATION_SCHEDULE_BPS ! idx) :: u128
      in rbind (map_err InflationOverflow (amount_mul total_supply rate_bps)) (\<lambda>a.
         rbind (map_err InflationOverflow (amount_div a 10000)) (\<lambda>b.
         map_err InflationOverflow (amount_div b (ucast EPOCHS_PER_YEAR)))))"

definition credit_active ::
  "(address, validator) fmap \<Rightarrow> address \<Rightarrow> amount \<Rightarrow> amount_error + (address, validator) fmap" where
  "credit_active vals addr share = (case fmlookup vals addr of
      None \<Rightarrow> Inr vals
    | Some v \<Rightarrow> rbind (amount_add (active (v_self_stake v)) share) (\<lambda>a.
        Inr (fmupd addr (v\<lparr>v_self_stake := (v_self_stake v)\<lparr>active := a\<rparr>\<rparr>) vals)))"

fun distribute_loop ::
  "u128 \<Rightarrow> u128 \<Rightarrow> (address, validator) fmap \<Rightarrow> amount \<Rightarrow> (address \<times> member) list
    \<Rightarrow> (reward_error + amount) \<times> (address, validator) fmap"
where
  "distribute_loop pool_drip total_power_drip vals distributed [] = (Inr distributed, vals)"
| "distribute_loop pool_drip total_power_drip vals distributed ((addr, m) # rest) =
     (let power_drip = m_power m div DROPS_PER_DRIP in
      case checked_mul pool_drip power_drip of
        None \<Rightarrow> (Inl (DistributionOverflow addr (Overflow pool_drip power_drip)), vals)
      | Some product \<Rightarrow>
          (case amount_mul (product div total_power_drip) DROPS_PER_DRIP of
             Inl e \<Rightarrow> (Inl (DistributionOverflow addr e), vals)
           | Inr share \<Rightarrow>
               (case credit_active vals addr share of
                  Inl e \<Rightarrow> (Inl (DistributionOverflow addr e), vals)
                | Inr vals' \<Rightarrow>
                    (case amount_add distributed share of
                       Inl e \<Rightarrow> (Inl (DistributionOverflow addr e), vals')
                     | Inr distributed' \<Rightarrow>
                         distribute_loop pool_drip total_power_drip vals' distributed' rest))))"

definition distribute_rewards ::
  "(address, validator) fmap \<Rightarrow> validator_set \<Rightarrow> amount
    \<Rightarrow> (reward_error + reward_outcome) \<times> (address, validator) fmap"
where
  "distribute_rewards vals vset pool =
     (let total_power_drip = vs_total_power vset div DROPS_PER_DRIP in
      if total_power_drip = 0
      then (Inr \<lparr>ro_distributed = amount_zero, ro_burned_remainder = pool\<rparr>, vals)
      else
        (case distribute_loop (pool div DROPS_PER_DRIP) total_power_drip vals amount_zero
                (sorted_list_of_fmap (vs_members vset)) of
           (Inl e, vals') \<Rightarrow> (Inl e, vals')
         | (Inr distributed, vals') \<Rightarrow>
             (case amount_sub pool distributed of
                Inl e \<Rightarrow> (Inl (RemainderUnderflow e), vals')
              | Inr rest \<Rightarrow> (Inr \<lparr>ro_distributed = distributed, ro_burned_remainder = rest\<rparr>, vals'))))"

subsection \<open>Shares as natural numbers\<close>

definition share_of :: "nat \<Rightarrow> nat \<Rightarrow> member \<Rightarrow> nat" where
  "share_of P T m = P * (unat (m_power m) div 1000000000) div T * 1000000000"

definition total_stake :: "(address, validator) fmap \<Rightarrow> nat" where
  "total_stake vals = (\<Sum>a \<in> fmdom' vals. stake_total (v_self_stake (the (fmlookup vals a))))"

lemma total_stake_upd:
  assumes "fmlookup vals a = Some v"
  shows "total_stake (fmupd a v' vals) + stake_total (v_self_stake v) = total_stake vals + stake_total (v_self_stake v')"
proof -
  let ?f = "\<lambda>m x. stake_total (v_self_stake (the (fmlookup m x)))"
  have a: "a \<in> fmdom' vals" using assms by (rule fmdom'I)
  have dom: "fmdom' (fmupd a v' vals) = fmdom' vals" using a by auto
  have "sum (?f (fmupd a v' vals)) (fmdom' vals) = stake_total (v_self_stake v') + sum (?f (fmupd a v' vals)) (fmdom' vals - {a})"
    using a by (subst sum.remove [of _ a]) auto
  moreover have "sum (?f vals) (fmdom' vals) = stake_total (v_self_stake v) + sum (?f vals) (fmdom' vals - {a})"
    using a assms by (subst sum.remove [of _ a]) auto
  moreover have "sum (?f (fmupd a v' vals)) (fmdom' vals - {a}) = sum (?f vals) (fmdom' vals - {a})"
    by (rule sum.cong) auto
  ultimately show ?thesis unfolding total_stake_def dom by linarith
qed

lemma credit_active_total:
  assumes "credit_active vals a share = Inr vals'"
  shows "total_stake vals' = total_stake vals + (if a \<in> fmdom' vals then unat share else 0)"
    and "fmdom' vals' = fmdom' vals"
proof -
  have "total_stake vals' = total_stake vals + (if a \<in> fmdom' vals then unat share else 0) \<and> fmdom' vals' = fmdom' vals"
  proof (cases "fmlookup vals a")
    case None
    then show ?thesis using assms by (auto simp: credit_active_def fmlookup_dom'_iff)
  next
    case (Some v)
    then obtain n where n: "unat n = unat (active (v_self_stake v)) + unat share"
      and vals': "vals' = fmupd a (v\<lparr>v_self_stake := (v_self_stake v)\<lparr>active := n\<rparr>\<rparr>) vals"
      using assms by (auto simp: credit_active_def amount_add_Inr)
    have "a \<in> fmdom' vals" using Some by (rule fmdom'I)
    then show ?thesis
      using total_stake_upd [OF Some, of "v\<lparr>v_self_stake := (v_self_stake v)\<lparr>active := n\<rparr>\<rparr>"] n
      by (auto simp: vals' stake_total_def)
  qed
  then show "total_stake vals' = total_stake vals + (if a \<in> fmdom' vals then unat share else 0)"
    "fmdom' vals' = fmdom' vals" by simp_all
qed

lemma distribute_loop_Inr:
  assumes "distribute_loop P T vals dist ms = (Inr dist', vals')"
  shows "unat dist' = unat dist + (\<Sum>(a, m) \<leftarrow> ms. share_of (unat P) (unat T) m)"
    and "fst ` set ms \<subseteq> fmdom' vals \<Longrightarrow>
      total_stake vals' + unat dist = total_stake vals + unat dist'"
    and "fmdom' vals' = fmdom' vals"
proof -
  have "unat dist' = unat dist + (\<Sum>(a, m) \<leftarrow> ms. share_of (unat P) (unat T) m) \<and>
    (fst ` set ms \<subseteq> fmdom' vals \<longrightarrow> total_stake vals' + unat dist = total_stake vals + unat dist') \<and>
    fmdom' vals' = fmdom' vals"
    using assms
  proof (induction P T vals dist ms rule: distribute_loop.induct)
    case (2 P T vals dist addr m rest)
    obtain product share vals1 dist1 where
      pr: "checked_mul P (m_power m div DROPS_PER_DRIP) = Some product"
      and sh: "amount_mul (product div T) DROPS_PER_DRIP = Inr share"
      and cr: "credit_active vals addr share = Inr vals1" and ad: "amount_add dist share = Inr dist1"
      and rest: "distribute_loop P T vals1 dist1 rest = (Inr dist', vals')"
      using "2.prems" by (auto simp: Let_def split: option.splits sum.splits)
    have share: "unat share = share_of (unat P) (unat T) m"
      using pr sh by (simp add: share_of_def checked_mul_Some amount_mul_Inr unat_div)
    note IH = "2.IH" [OF refl pr sh cr ad rest]
    show ?case
      using IH credit_active_total [OF cr] ad share by (auto simp: amount_add_Inr)
  qed simp
  then show "unat dist' = unat dist + (\<Sum>(a, m) \<leftarrow> ms. share_of (unat P) (unat T) m)"
    "fst ` set ms \<subseteq> fmdom' vals \<Longrightarrow> total_stake vals' + unat dist = total_stake vals + unat dist'"
    "fmdom' vals' = fmdom' vals" by simp_all
qed

subsection \<open>The shares never exceed the pool\<close>

lemma div_add_le: "(a :: nat) div c + b div c \<le> (a + b) div c"
proof (cases "c = 0")
  case False
  have "(a div c + b div c) * c \<le> a + b"
    by (metis add_mono add_mult_distrib div_times_less_eq_dividend)
  then show ?thesis using False by (simp add: less_eq_div_iff_mult_less_eq)
qed simp

lemma sum_list_div_le: "(\<Sum>x \<leftarrow> xs. f x div (c :: nat)) \<le> (\<Sum>x \<leftarrow> xs. f x) div c"
  by (induction xs) (auto intro: order_trans [OF add_left_mono div_add_le])

lemma sum_powers:
  assumes "wf_vset vs"
  shows "(\<Sum>(a, m) \<leftarrow> sorted_list_of_fmap (vs_members vs). unat (m_power m)) = unat (vs_total_power vs)"
proof -
  have "(\<Sum>(a, m) \<leftarrow> sorted_list_of_fmap (vs_members vs). unat (m_power m))
      = (\<Sum>a \<leftarrow> btree_keys (vs_members vs). power_of vs a)"
    unfolding sorted_list_of_fmap_def map_map
    by (intro arg_cong [of _ _ sum_list] map_cong) (auto simp: power_of_def fmlookup_dom_iff)
  also have "\<dots> = sum (power_of vs) (fmdom' (vs_members vs))"
    by (simp add: sum_list_sorted_fset fmdom'_alt_def)
  finally show ?thesis using assms by (simp add: wf_vset_def stake_of_def)
qed

lemma shares_le_pool:
  assumes "wf_vset vs" and "T = unat (vs_total_power vs) div 1000000000"
  shows "(\<Sum>(a, m) \<leftarrow> sorted_list_of_fmap (vs_members vs). share_of P T m) \<le> P * 1000000000"
proof -
  let ?ms = "sorted_list_of_fmap (vs_members vs)"
  let ?p = "\<lambda>e. unat (m_power (snd e)) div 1000000000"
  have "(\<Sum>e \<leftarrow> ?ms. ?p e) \<le> (\<Sum>e \<leftarrow> ?ms. unat (m_power (snd e))) div 1000000000"
    by (rule sum_list_div_le)
  then have powers: "(\<Sum>e \<leftarrow> ?ms. ?p e) \<le> T"
    using sum_powers [OF assms(1)] assms(2) by (simp add: case_prod_beta')
  have "(\<Sum>e \<leftarrow> ?ms. P * ?p e div T) \<le> (\<Sum>e \<leftarrow> ?ms. P * ?p e) div T" by (rule sum_list_div_le)
  also have "\<dots> = P * (\<Sum>e \<leftarrow> ?ms. ?p e) div T" by (simp add: sum_list_const_mult)
  also have "\<dots> \<le> P * T div T" using powers by (intro div_le_mono mult_le_mono2)
  also have "\<dots> \<le> P" by (cases "T = 0") simp_all
  finally show ?thesis by (simp add: share_of_def case_prod_beta' sum_list_mult_const)
qed

lemma distribute_rewards_Inr:
  assumes "distribute_rewards vals vs pool = (Inr out, vals')"
  shows "unat (ro_distributed out) + unat (ro_burned_remainder out) = unat pool"
    and "fmdom' (vs_members vs) \<subseteq> fmdom' vals \<Longrightarrow> total_stake vals' = total_stake vals + unat (ro_distributed out)"
    and "fmdom' vals' = fmdom' vals"
proof -
  have keys: "fst ` set (sorted_list_of_fmap (vs_members vs)) = fmdom' (vs_members vs)"
    using map_fst_sorted_list_of_fmap [of "vs_members vs"]
    by (metis fmdom'_alt_def list.set_map set_sorted_list_of_fset)
  show "unat (ro_distributed out) + unat (ro_burned_remainder out) = unat pool"
    using assms by (auto simp: distribute_rewards_def Let_def amount_sub_Inr split: if_splits prod.splits sum.splits)
  show "fmdom' (vs_members vs) \<subseteq> fmdom' vals \<Longrightarrow> total_stake vals' = total_stake vals + unat (ro_distributed out)"
    using assms keys
    by (auto simp: distribute_rewards_def Let_def split: if_splits prod.splits sum.splits
        dest!: distribute_loop_Inr(2))
  show "fmdom' vals' = fmdom' vals"
    using assms by (auto simp: distribute_rewards_def Let_def split: if_splits prod.splits sum.splits
        dest: distribute_loop_Inr(3))
qed

lemma distribute_rewards_remainder:
  assumes "wf_vset vs"
  shows "fst (distribute_rewards vals vs pool) \<noteq> Inl (RemainderUnderflow e)"
proof
  let ?T = "vs_total_power vs div DROPS_PER_DRIP"
  assume under: "fst (distribute_rewards vals vs pool) = Inl (RemainderUnderflow e)"
  have "fst (distribute_loop P T vs' d ms) \<noteq> Inl (RemainderUnderflow e)" for P T vs' d ms
    by (induction P T vs' d ms rule: distribute_loop.induct)
      (auto simp: Let_def split: option.splits sum.splits)
  note never = this
  obtain r vals' where run: "distribute_loop (pool div DROPS_PER_DRIP) ?T vals amount_zero
      (sorted_list_of_fmap (vs_members vs)) = (r, vals')" by fastforce
  obtain dist where r: "r = Inr dist" and lt: "unat pool < unat dist"
    using under never [of "pool div DROPS_PER_DRIP" ?T vals amount_zero "sorted_list_of_fmap (vs_members vs)"]
    by (cases r) (auto simp: distribute_rewards_def Let_def run amount_sub_Inl split: if_splits sum.splits)
  note loop = run [unfolded r]
  have "unat dist \<le> unat (pool div DROPS_PER_DRIP) * 1000000000"
    using distribute_loop_Inr(1) [OF loop] shares_le_pool [OF assms, of "unat ?T"] by (simp add: unat_div)
  also have "\<dots> \<le> unat pool" by (simp add: unat_div)
  finally show False using lt by simp
qed

subsection \<open>Properties\<close>

text \<open>
  Distribution neither creates nor loses value: the credited stake is exactly the reported
  distribution, distribution and burned remainder add up to the pool, and the loop never ends
  in an underflow of the remainder.
\<close>

theorem rewards_conserve_pool:
  assumes "wf_vset vs" and "fmdom' (vs_members vs) \<subseteq> fmdom' vals"
    and "distribute_rewards vals vs pool = (res, vals')"
  shows "case res of
      Inr out \<Rightarrow> unat (ro_distributed out) + unat (ro_burned_remainder out) = unat pool \<and>
        total_stake vals' = total_stake vals + unat (ro_distributed out)
    | Inl e \<Rightarrow> \<forall>u. e \<noteq> RemainderUnderflow u"
proof (cases res)
  case (Inl e)
  have "fst (distribute_rewards vals vs pool) \<noteq> Inl (RemainderUnderflow u)" for u
    by (rule distribute_rewards_remainder [OF assms(1)])
  then show ?thesis using assms(3) Inl by auto
next
  case (Inr out)
  then show ?thesis using distribute_rewards_Inr [of vals vs pool out vals'] assms by simp
qed

definition plain_validator :: "address \<Rightarrow> amount \<Rightarrow> validator" where
  "plain_validator a stk = \<lparr>v_address = a, v_consensus_pubkey = \<lparr>ck_classical = [], ck_quantum = []\<rparr>,
     v_status = Bonded, v_tombstoned = False, v_self_stake = stake_zero\<lparr>active := stk\<rparr>, v_delegated = 0,
     v_commission_bps = 0, v_jailed_until = None\<rparr>"

definition drip_vals :: "(address, validator) fmap" where
  "drip_vals = fmap_of_list [(1, plain_validator 1 1500000000), (2, plain_validator 2 1500000000)]"

definition drip_vs :: validator_set where
  "drip_vs = \<lparr>vs_epoch = 0, vs_members = fmap_of_list (map (\<lambda>a.
     (a, \<lparr>m_consensus_pubkey = \<lparr>ck_classical = [], ck_quantum = []\<rparr>, m_power = 1500000000\<rparr>)) [1, 2]),
     vs_total_power = 3000000000\<rparr>"

lemma drip_wf: "wf_vset drip_vs" "fmdom' (vs_members drip_vs) \<subseteq> fmdom' drip_vals"
  by (simp_all add: wf_vset_def stake_of_def power_of_def drip_vs_def drip_vals_def)

lemma drip_rewards: "fst (distribute_rewards drip_vals drip_vs 9000000000) =
    Inr \<lparr>ro_distributed = 6000000000, ro_burned_remainder = 3000000000\<rparr>"
  by code_simp

theorem rewards_conserve_pool_witness:
  "total_stake (snd (distribute_rewards drip_vals drip_vs 9000000000)) = total_stake drip_vals + 6000000000"
  using rewards_conserve_pool [OF drip_wf prod.collapse [symmetric], of 9000000000] by (simp add: drip_rewards)

text \<open>
  The burned remainder is not bounded by one drip per validator: for two validators of one
  and a half drip each, a third of a pool of nine drip is burned.
\<close>

theorem burned_remainder_exceeds_dust:
  "\<exists>out. fst (distribute_rewards drip_vals drip_vs 9000000000) = Inr out \<and>
     unat (ro_burned_remainder out) > vset_len drip_vs * unat DROPS_PER_DRIP"
proof -
  have "vset_len drip_vs = 2" by code_simp
  then show ?thesis by (simp add: drip_rewards)
qed

lemma inflation_rate: "unat (INFLATION_SCHEDULE_BPS ! unat (min year (5 :: u64))) \<le> 200"
proof -
  have "unat (min year 5) \<le> 5" by (simp add: min_def word_le_nat_alt)
  then have "unat (min year 5) \<in> {0, 1, 2, 3, 4, 5}" by auto
  then show ?thesis by (auto simp: INFLATION_SCHEDULE_BPS_def)
qed

text \<open>
  Inflation per epoch is at most the first-year rate: it is the scheduled share of the
  supply, rounded down, and it fails only when the supply times the rate leaves \<open>u128\<close>.
\<close>

theorem inflation_bounded:
  "case compute_epoch_inflation total_supply epoch_number of
     Inr minted \<Rightarrow> unat minted * 3650000 \<le> unat total_supply * 200
   | Inl e \<Rightarrow> 2 ^ 128 \<le> unat total_supply * 200"
proof -
  let ?rate = "INFLATION_SCHEDULE_BPS ! unat (min (epoch_number div EPOCHS_PER_YEAR) 5)"
  have rate: "unat (ucast ?rate :: u128) \<le> 200"
    using inflation_rate [of "epoch_number div EPOCHS_PER_YEAR"] by simp
  note cap = mult_le_mono2 [OF rate, of "unat total_supply"]
  show ?thesis
  proof (cases "amount_mul total_supply (ucast ?rate)")
    case (Inl e)
    then have "2 ^ 128 \<le> unat total_supply * 200" using cap order_trans unfolding amount_mul_Inl by blast
    then show ?thesis using Inl by (simp add: compute_epoch_inflation_def Let_def map_err_def)
  next
    case (Inr a)
    then have "unat a \<le> unat total_supply * 200" using cap by (simp add: amount_mul_Inr)
    moreover have "unat a div 10000 div 365 * 3650000 \<le> unat a"
      by (simp add: div_mult2_eq [symmetric])
    ultimately show ?thesis
      using Inr by (simp add: compute_epoch_inflation_def Let_def amount_div_def checked_div_def
          EPOCHS_PER_YEAR_def unat_div)
  qed
qed

end
