(* ===== verification/Quorum_Cert.thy ===== *)
theory Quorum_Cert
  imports Stake
begin

section \<open>Quorum certificates\<close>

text \<open>
  Verification of a certificate (\<^verbatim>\<open>lemma-consensus/src/cert.rs\<close>), its collection from commit
  acknowledgements (\<^verbatim>\<open>commit_ack.rs\<close>) and the walk over end-of-epoch headers that advances the
  trusted committee (\<^verbatim>\<open>epoch/proof.rs\<close>). Signature checks are injected by the caller as booleans,
  as in the code. The collected certificate verifies, and verification is shown to be exact.
\<close>

subsection \<open>Verification\<close>

datatype cert_error =
    CertDigestMismatch hash hash
  | NonMemberSigner address
  | CertInvalidSignature address
  | InsufficientQuorum u128 u128
  | CertStakeOverflow consensus_error

type_synonym sig_results = "(address, bool) fmap"

definition sig_valid :: "sig_results \<Rightarrow> address \<Rightarrow> bool" where
  "sig_valid sigs a \<longleftrightarrow> fmlookup sigs a = Some True"

definition count_signer ::
  "validator_set \<Rightarrow> sig_results \<Rightarrow> stake_aggregator \<Rightarrow> address \<Rightarrow> cert_error + stake_aggregator" where
  "count_signer vset sigs agg a =
     rbind (ok_or (fmlookup (vs_members vset) a) (NonMemberSigner a)) (\<lambda>m.
     if \<not> sig_valid sigs a then Inl (CertInvalidSignature a)
     else rbind (map_err CertStakeOverflow (agg_add agg a (m_power m))) (\<lambda>(_, agg'). Inr agg'))"

definition verify_quorum_cert ::
  "quorum_cert \<Rightarrow> validator_set \<Rightarrow> hash \<Rightarrow> sig_results \<Rightarrow> cert_error + unit" where
  "verify_quorum_cert qc vset expected_digest sigs =
     (if qc_header_digest qc \<noteq> expected_digest
      then Inl (CertDigestMismatch expected_digest (qc_header_digest qc))
      else rbind (try_fold (count_signer vset sigs) (agg_quorum (vs_total_power vset)) (btree_keys (qc_signers qc)))
        (\<lambda>agg. if \<not> sa_reached agg
               then Inl (InsufficientQuorum (sa_accumulated agg) (vs_total_power vset))
               else Inr ()))"

lemma count_signers_Inr:
  "try_fold (count_signer vs sigs) agg as = Inr agg' \<Longrightarrow>
    (\<forall>a \<in> set as. a |\<in>| fmdom (vs_members vs) \<and> sig_valid sigs a) \<and> add_authors vs agg as = Inr agg'"
  unfolding add_authors_def
  by (induction as arbitrary: agg)
    (auto simp: count_signer_def add_if_member_def fmlookup_dom_iff split: if_splits)

lemma count_signers_ok:
  "\<forall>a \<in> set as. a |\<in>| fmdom (vs_members vs) \<and> sig_valid sigs a \<Longrightarrow>
    add_authors vs agg as = Inr agg' \<Longrightarrow> try_fold (count_signer vs sigs) agg as = Inr agg'"
  unfolding add_authors_def
  by (induction as arbitrary: agg)
    (auto simp: count_signer_def add_if_member_def fmlookup_dom_iff)

lemma verify_quorum_cert_iff:
  assumes "wf_vset vs" "2 * unat (vs_total_power vs) < 2 ^ 128 - 1"
  shows "verify_quorum_cert qc vs d sigs = Inr () \<longleftrightarrow> qc_header_digest qc = d \<and>
    (\<forall>a. a |\<in>| fmdom (qc_signers qc) \<longrightarrow> a |\<in>| fmdom (vs_members vs) \<and> sig_valid sigs a) \<and>
    is_quorum vs (fset (fmdom (qc_signers qc)))"
proof -
  let ?as = "btree_keys (qc_signers qc)" and ?agg = "agg_quorum (vs_total_power vs)"
  obtain agg where agg: "add_authors vs ?agg ?as = Inr agg"
    using add_authors_no_overflow [OF assms(1), of ?agg "{}" ?as] by (auto simp: agg_quorum_def)
  have reached: "sa_reached agg \<longleftrightarrow> is_quorum vs (set ?as)"
    using quorum_reached_iff [OF add_authors_quorum [OF agg]] assms(2) by simp
  have "verify_quorum_cert qc vs d sigs = Inr () \<longleftrightarrow> qc_header_digest qc = d \<and>
    try_fold (count_signer vs sigs) ?agg ?as = Inr agg \<and> sa_reached agg"
    using count_signers_Inr [of vs sigs ?agg ?as] agg
    by (auto simp: verify_quorum_cert_def split: if_splits)
  also have "\<dots> \<longleftrightarrow> qc_header_digest qc = d \<and> (\<forall>a \<in> set ?as. a |\<in>| fmdom (vs_members vs) \<and> sig_valid sigs a) \<and>
    is_quorum vs (set ?as)"
    using count_signers_Inr [of vs sigs ?agg ?as agg] count_signers_ok [OF _ agg, of sigs] reached by blast
  finally show ?thesis by auto
qed

subsection \<open>Commit acknowledgements\<close>

definition COMMIT_ACK_DOMAIN :: bytes where
  "COMMIT_ACK_DOMAIN = map (\<lambda>c. of_nat (of_char c)) ''commit-ack''"

record commit_ack_payload =
  ack_height :: u64
  ack_header_digest :: hash
  ack_signer :: address
  ack_signature :: signature

definition commit_ack_message :: "hasher \<Rightarrow> u64 \<Rightarrow> hash \<Rightarrow> hash" where
  "commit_ack_message blake3 height digest =
     blake3 (COMMIT_ACK_DOMAIN @ rev (to_be_bytes height) @ to_be_bytes digest)"

datatype commit_ack_error =
    AckHeightMismatch u64 u64
  | AckDigestMismatch hash hash
  | AckUnknownSigner address
  | AckInvalidSignature address
  | AckEquivocation address
  | AckStakeOverflow consensus_error

record commit_ack_accumulator =
  caa_height :: u64
  caa_header_digest :: hash
  caa_inner :: stake_aggregator
  caa_signers :: "(address, signature) fmap"
  caa_total_power :: amount

definition ack_new :: "u64 \<Rightarrow> hash \<Rightarrow> amount \<Rightarrow> commit_ack_accumulator" where
  "ack_new height digest total_power =
     \<lparr>caa_height = height, caa_header_digest = digest, caa_inner = agg_quorum total_power,
      caa_signers = fmempty, caa_total_power = total_power\<rparr>"

definition ack_for_validator_set :: "u64 \<Rightarrow> hash \<Rightarrow> validator_set \<Rightarrow> commit_ack_accumulator" where
  "ack_for_validator_set height digest vset = ack_new height digest (vs_total_power vset)"

definition has_quorum :: "commit_ack_accumulator \<Rightarrow> bool" where
  "has_quorum acc \<longleftrightarrow> sa_reached (caa_inner acc)"

definition signer_count :: "commit_ack_accumulator \<Rightarrow> nat" where
  "signer_count acc = btree_len (caa_signers acc)"

text \<open>Every error is returned before the accumulator is written.\<close>

definition ack_add ::
  "commit_ack_accumulator \<Rightarrow> commit_ack_payload \<Rightarrow> validator_set \<Rightarrow> bool
    \<Rightarrow> commit_ack_error + bool \<times> commit_ack_accumulator" where
  "ack_add acc ack vset sig_ok =
     (if ack_height ack \<noteq> caa_height acc then Inl (AckHeightMismatch (caa_height acc) (ack_height ack))
      else if ack_header_digest ack \<noteq> caa_header_digest acc
        then Inl (AckDigestMismatch (caa_header_digest acc) (ack_header_digest ack))
      else rbind (ok_or (fmlookup (vs_members vset) (ack_signer ack)) (AckUnknownSigner (ack_signer ack))) (\<lambda>m.
        if \<not> sig_ok then Inl (AckInvalidSignature (ack_signer ack))
        else if ack_signer ack |\<in>| fmdom (caa_signers acc) then Inl (AckEquivocation (ack_signer ack))
        else rbind (map_err AckStakeOverflow (agg_add (caa_inner acc) (ack_signer ack) (m_power m)))
          (\<lambda>(reached, inner). Inr (reached, acc\<lparr>caa_inner := inner,
             caa_signers := fmupd (ack_signer ack) (ack_signature ack) (caa_signers acc)\<rparr>))))"

definition try_build_qc :: "commit_ack_accumulator \<Rightarrow> quorum_cert option" where
  "try_build_qc acc =
     (if \<not> sa_reached (caa_inner acc) then None
      else Some \<lparr>qc_height = caa_height acc, qc_header_digest = caa_header_digest acc,
                 qc_signers = caa_signers acc\<rparr>)"

text \<open>
  The node adds the acknowledgements it receives one after the other and drops the failing
  ones. \<open>ack_inv\<close> ties the accumulator to the set of its signers.
\<close>

definition ack_step ::
  "validator_set \<Rightarrow> commit_ack_payload \<times> bool \<Rightarrow> commit_ack_accumulator \<Rightarrow> commit_ack_accumulator" where
  "ack_step vset a acc = (case ack_add acc (fst a) vset (snd a) of Inl _ \<Rightarrow> acc | Inr (_, acc') \<Rightarrow> acc')"

definition ack_run ::
  "validator_set \<Rightarrow> commit_ack_accumulator \<Rightarrow> (commit_ack_payload \<times> bool) list \<Rightarrow> commit_ack_accumulator" where
  "ack_run vset acc as = fold (ack_step vset) as acc"

definition ack_inv :: "validator_set \<Rightarrow> commit_ack_accumulator \<Rightarrow> bool" where
  "ack_inv vs acc \<longleftrightarrow> counts_exactly vs (caa_inner acc) (fset (fmdom (caa_signers acc))) \<and>
     sa_threshold (caa_inner acc) = Quorum \<and> fmdom (caa_signers acc) |\<subseteq>| fmdom (vs_members vs)"

definition ack_valid :: "validator_set \<Rightarrow> u64 \<Rightarrow> hash \<Rightarrow> commit_ack_payload \<times> bool \<Rightarrow> bool" where
  "ack_valid vs h d a \<longleftrightarrow> snd a \<and> ack_height (fst a) = h \<and> ack_header_digest (fst a) = d \<and>
     ack_signer (fst a) |\<in>| fmdom (vs_members vs)"

lemma ack_inv_new: "ack_inv vs (ack_for_validator_set h d vs)"
  using counts_exactly_new [of vs Quorum]
  by (simp add: ack_inv_def ack_for_validator_set_def ack_new_def agg_quorum_def)

lemma ack_add_Inr:
  assumes "ack_inv vs acc" and "ack_add acc a vs sig_ok = Inr (reached, acc')"
  shows "ack_inv vs acc' \<and> ack_valid vs (caa_height acc) (caa_header_digest acc) (a, sig_ok) \<and>
    caa_height acc' = caa_height acc \<and> caa_header_digest acc' = caa_header_digest acc \<and>
    fmdom (caa_signers acc') = finsert (ack_signer a) (fmdom (caa_signers acc))"
proof -
  obtain m b inner where *: "fmlookup (vs_members vs) (ack_signer a) = Some m" "sig_ok"
      "ack_height a = caa_height acc" "ack_header_digest a = caa_header_digest acc"
      "agg_add (caa_inner acc) (ack_signer a) (m_power m) = Inr (b, inner)"
      "acc' = acc\<lparr>caa_inner := inner, caa_signers := fmupd (ack_signer a) (ack_signature a) (caa_signers acc)\<rparr>"
    using assms(2) by (auto simp: ack_add_def split: if_splits)
  have counts: "counts_exactly vs inner (insert (ack_signer a) (fset (fmdom (caa_signers acc))))"
    using counts_exactly_add [OF _ *(1,5)] assms(1) by (simp add: ack_inv_def)
  have "sa_threshold inner = Quorum"
    using agg_add_frame [OF *(5)] assms(1) by (simp add: ack_inv_def)
  then show ?thesis
    using counts * assms(1) by (auto simp: ack_inv_def ack_valid_def fmlookup_dom_iff)
qed

lemma ack_add_valid:
  assumes "wf_vset vs" "ack_inv vs acc"
    and "ack_valid vs (caa_height acc) (caa_header_digest acc) (a, sig_ok)"
  shows "ack_signer a |\<in>| fmdom (caa_signers acc) \<or> (\<exists>r. ack_add acc a vs sig_ok = Inr r)"
proof -
  obtain m where m: "fmlookup (vs_members vs) (ack_signer a) = Some m"
    using assms(3) by (auto simp: ack_valid_def fmlookup_dom_iff)
  obtain b agg where "agg_add (caa_inner acc) (ack_signer a) (m_power m) = Inr (b, agg)"
    using agg_add_no_overflow [OF assms(1) _ m] assms(2) unfolding ack_inv_def by blast
  then show ?thesis using m assms(3) by (auto simp: ack_add_def ack_valid_def)
qed

lemma ack_step_spec:
  assumes "wf_vset vs" "ack_inv vs acc"
  shows "ack_inv vs (ack_step vs a acc) \<and> caa_height (ack_step vs a acc) = caa_height acc \<and>
    caa_header_digest (ack_step vs a acc) = caa_header_digest acc \<and>
    fset (fmdom (caa_signers (ack_step vs a acc))) = fset (fmdom (caa_signers acc)) \<union>
      (if ack_valid vs (caa_height acc) (caa_header_digest acc) a then {ack_signer (fst a)} else {})"
proof (cases "ack_add acc (fst a) vs (snd a)")
  case (Inl e)
  then show ?thesis using assms(2) ack_add_valid [OF assms, of "fst a" "snd a"] by (auto simp: ack_step_def)
next
  case (Inr r)
  then show ?thesis
    using ack_add_Inr [OF assms(2), of "fst a" "snd a" "fst r" "snd r"] by (cases r) (simp add: ack_step_def)
qed

lemma ack_run_spec:
  assumes "wf_vset vs" "ack_inv vs acc"
  shows "ack_inv vs (ack_run vs acc as) \<and> caa_height (ack_run vs acc as) = caa_height acc \<and>
    caa_header_digest (ack_run vs acc as) = caa_header_digest acc \<and>
    fset (fmdom (caa_signers (ack_run vs acc as))) = fset (fmdom (caa_signers acc)) \<union>
      (ack_signer \<circ> fst) ` {a \<in> set as. ack_valid vs (caa_height acc) (caa_header_digest acc) a}"
  using assms(2)
proof (induction as arbitrary: acc)
  case Nil
  then show ?case by (simp add: ack_run_def)
next
  case (Cons a as)
  note step = ack_step_spec [OF assms(1) Cons.prems, of a]
  have "ack_run vs acc (a # as) = ack_run vs (ack_step vs a acc) as" by (simp add: ack_run_def)
  then show ?case using Cons.IH [of "ack_step vs a acc"] step by (auto split: if_splits)
qed

subsection \<open>Epoch-change proofs\<close>

datatype proof_error =
    EmptyProof
  | LengthMismatch nat nat nat
  | InjectedDataLengthMismatch nat nat nat
  | ValidatorSetHashMismatch nat hash hash
  | NextValidatorSetHashMismatch nat hash hash
  | CertFailed nat cert_error

record epoch_change_proof =
  boundary_headers :: "block_header list"
  boundary_certs :: "quorum_cert list"
  next_validator_sets :: "validator_set list"

definition verify_full ::
  "hasher \<Rightarrow> validator_set \<Rightarrow> block_header \<Rightarrow> hash \<Rightarrow> quorum_cert \<Rightarrow> sig_results \<Rightarrow> proof_error + unit" where
  "verify_full blake3 vset header digest qc sigs =
     (let vset_hash = vset_hash blake3 vset in
      if vset_hash \<noteq> hdr_validators_hash header
      then Inl (ValidatorSetHashMismatch 0 vset_hash (hdr_validators_hash header))
      else map_err (CertFailed 0) (verify_quorum_cert qc vset digest sigs))"

text \<open>One step of the walk, on the \<open>i\<close>-th entries of the five lists.\<close>

definition verify_boundary ::
  "hasher \<Rightarrow> epoch_change_proof \<Rightarrow> hash list \<Rightarrow> sig_results list \<Rightarrow> validator_set \<Rightarrow> nat \<Rightarrow> proof_error + validator_set"
where
  "verify_boundary blake3 prf digests sigs current i =
     (let header = boundary_headers prf ! i; qc = boundary_certs prf ! i;
          next = next_validator_sets prf ! i; current_hash = vset_hash blake3 current
      in if current_hash \<noteq> hdr_validators_hash header
         then Inl (ValidatorSetHashMismatch i current_hash (hdr_validators_hash header))
         else rbind (map_err (CertFailed i) (verify_quorum_cert qc current (digests ! i) (sigs ! i))) (\<lambda>_.
           let next_hash = vset_hash blake3 next in
           if next_hash \<noteq> hdr_next_validators_hash header
           then Inl (NextValidatorSetHashMismatch i (hdr_next_validators_hash header) next_hash)
           else Inr next))"

definition verify_epoch_change ::
  "hasher \<Rightarrow> epoch_change_proof \<Rightarrow> validator_set \<Rightarrow> hash list \<Rightarrow> sig_results list \<Rightarrow> proof_error + unit"
where
  "verify_epoch_change blake3 prf initial digests sigs =
     (let n = length (boundary_headers prf) in
      if boundary_headers prf = [] then Inl EmptyProof
      else if length (boundary_certs prf) \<noteq> n \<or> length (next_validator_sets prf) \<noteq> n
        then Inl (LengthMismatch n (length (boundary_certs prf)) (length (next_validator_sets prf)))
      else if length digests \<noteq> n \<or> length sigs \<noteq> n
        then Inl (InjectedDataLengthMismatch n (length digests) (length sigs))
      else rbind (try_fold (verify_boundary blake3 prf digests sigs) initial [0..<n]) (\<lambda>_. Inr ()))"

text \<open>The committee that step \<open>i\<close> trusts: the given one, then the one the previous header names.\<close>

definition trusted_at :: "validator_set \<Rightarrow> epoch_change_proof \<Rightarrow> nat \<Rightarrow> validator_set" where
  "trusted_at initial prf i = (if i = 0 then initial else next_validator_sets prf ! (i - 1))"

lemma verify_boundaries:
  assumes "try_fold (verify_boundary blake3 prf digests sigs) current [k..<n] = Inr final"
    and "current = trusted_at initial prf k" "i \<in> {k..<n}"
  shows "vset_hash blake3 (trusted_at initial prf i) = hdr_validators_hash (boundary_headers prf ! i) \<and>
    verify_quorum_cert (boundary_certs prf ! i) (trusted_at initial prf i) (digests ! i) (sigs ! i) = Inr () \<and>
    vset_hash blake3 (next_validator_sets prf ! i) = hdr_next_validators_hash (boundary_headers prf ! i)"
  using assms
proof (induction "n - k" arbitrary: k current)
  case (Suc x)
  then have k: "k < n" by simp
  then obtain mid where mid: "verify_boundary blake3 prf digests sigs current k = Inr mid"
    and rest: "try_fold (verify_boundary blake3 prf digests sigs) mid [Suc k..<n] = Inr final"
    using Suc.prems(1) by (auto simp: upt_conv_Cons)
  have step: "vset_hash blake3 current = hdr_validators_hash (boundary_headers prf ! k) \<and>
      verify_quorum_cert (boundary_certs prf ! k) current (digests ! k) (sigs ! k) = Inr () \<and>
      vset_hash blake3 (next_validator_sets prf ! k) = hdr_next_validators_hash (boundary_headers prf ! k)"
    and mid': "mid = next_validator_sets prf ! k"
    using mid by (auto simp: verify_boundary_def Let_def split: if_splits)
  show ?case
  proof (cases "i = k")
    case True
    then show ?thesis using step Suc.prems(2) by simp
  next
    case False
    then show ?thesis using Suc.hyps(1) [OF _ rest] Suc.hyps(2) Suc.prems(3) mid' k by (auto simp: trusted_at_def)
  qed
qed simp

subsection \<open>Properties\<close>

text \<open>
  C18. Certificate verification is exact: it accepts exactly the certificates over the expected
  digest whose signers are all members with a valid signature and together form a quorum.
\<close>

theorem certificate_check_exact:
  assumes "wf_vset vs" "2 * unat (vs_total_power vs) < 2 ^ 128 - 1"
  shows "verify_quorum_cert qc vs digest sigs = Inr () \<longleftrightarrow> qc_header_digest qc = digest \<and>
    (\<forall>a. a |\<in>| fmdom (qc_signers qc) \<longrightarrow> a |\<in>| fmdom (vs_members vs) \<and> fmlookup sigs a = Some True) \<and>
    2 * unat (vs_total_power vs) < 3 * stake_of vs (fset (fmdom (qc_signers qc)))"
  using verify_quorum_cert_iff [OF assms] by (simp add: sig_valid_def is_quorum_def)

definition solo_qc :: quorum_cert where
  "solo_qc = \<lparr>qc_height = 4, qc_header_digest = 9, qc_signers = fmap_of_list [(1, Unsigned)]\<rparr>"

theorem certificate_check_exact_witness:
  "verify_quorum_cert solo_qc solo_vs 9 (fmap_of_list [(1, True)]) = Inr () \<and>
   verify_quorum_cert solo_qc solo_vs 9 fmempty \<noteq> Inr ()"
  using certificate_check_exact [OF solo_wf(1), of solo_qc 9] solo_wf(2)
  by (simp add: solo_qc_def is_quorum_def) (simp add: solo_vs_def)

text \<open>
  Two accepted certificates over different digests convict someone: for one committee, two
  certificates that verify share a signer outside any set holding at most a third of the power,
  so a member outside that set has signed both digests.
\<close>

theorem conflicting_certificates_share_signer:
  assumes "wf_vset vs" "2 * unat (vs_total_power vs) < 2 ^ 128 - 1" "3 * stake_of vs F \<le> unat (vs_total_power vs)"
    and "verify_quorum_cert qc vs d sigs = Inr ()" "verify_quorum_cert qc' vs d' sigs' = Inr ()"
  shows "\<exists>a. a \<notin> F \<and> a |\<in>| fmdom (qc_signers qc) \<and> a |\<in>| fmdom (qc_signers qc') \<and>
    fmlookup sigs a = Some True \<and> fmlookup sigs' a = Some True"
proof -
  note verified = assms(4,5) [unfolded verify_quorum_cert_iff [OF assms(1,2)] is_quorum_def sig_valid_def]
  obtain a where "a |\<in>| fmdom (qc_signers qc)" "a |\<in>| fmdom (qc_signers qc')" "a \<notin> F"
    using committee.intersection_outside [OF assms(1) _ _ assms(3)] verified by metis
  then show ?thesis using verified by blast
qed

theorem conflicting_certificates_share_signer_witness:
  "\<exists>a. a |\<in>| fmdom (qc_signers solo_qc) \<and> a |\<in>| fmdom (qc_signers (solo_qc\<lparr>qc_header_digest := 8\<rparr>))"
proof -
  have a: "verify_quorum_cert solo_qc solo_vs 9 (fmap_of_list [(1, True)]) = Inr ()" by code_simp
  have b: "verify_quorum_cert (solo_qc\<lparr>qc_header_digest := 8\<rparr>) solo_vs 8 (fmap_of_list [(1, True)]) = Inr ()" by code_simp
  show ?thesis
    using conflicting_certificates_share_signer [OF solo_wf(1) _ _ a b, of "{}"] by (auto simp: solo_vs_def)
qed

text \<open>
  Collected certificates verify, and a quorum of acknowledgements suffices: whatever
  acknowledgements arrive in whatever order, a certificate is produced exactly when the valid
  ones among them come from a quorum of members, and then it carries these signers and passes
  verification.
\<close>

theorem acknowledgements_yield_verifiable_cert:
  assumes "wf_vset vs" "2 * unat (vs_total_power vs) < 2 ^ 128 - 1"
    and "signers = (ack_signer \<circ> fst) ` {a \<in> set as. ack_valid vs h d a}"
    and "\<forall>a \<in> signers. fmlookup sigs a = Some True"
  shows "case try_build_qc (ack_run vs (ack_for_validator_set h d vs) as) of
      None \<Rightarrow> \<not> is_quorum vs signers
    | Some qc \<Rightarrow> is_quorum vs signers \<and> qc_height qc = h \<and> fset (fmdom (qc_signers qc)) = signers \<and>
        verify_quorum_cert qc vs d sigs = Inr ()"
proof -
  let ?acc = "ack_run vs (ack_for_validator_set h d vs) as"
  have "caa_height (ack_for_validator_set h d vs) = h" "caa_header_digest (ack_for_validator_set h d vs) = d"
    "fmdom (caa_signers (ack_for_validator_set h d vs)) = {||}"
    by (simp_all add: ack_for_validator_set_def ack_new_def)
  then have run: "ack_inv vs ?acc" "caa_height ?acc = h" "caa_header_digest ?acc = d"
    "fset (fmdom (caa_signers ?acc)) = signers"
    using ack_run_spec [OF assms(1) ack_inv_new, of h d as] assms(3) by simp_all
  have reached: "sa_reached (caa_inner ?acc) \<longleftrightarrow> is_quorum vs signers"
    using quorum_reached_iff [of vs "caa_inner ?acc" signers] run assms(2) by (simp add: ack_inv_def)
  have members: "a |\<in>| fmdom (vs_members vs) \<and> sig_valid sigs a" if "a \<in> signers" for a
    using that run(1,4) assms(4) by (auto simp: ack_inv_def sig_valid_def)
  show ?thesis
    using reached run(2-4) members by (auto simp: try_build_qc_def verify_quorum_cert_iff [OF assms(1,2)])
qed

definition solo_ack :: commit_ack_payload where
  "solo_ack = \<lparr>ack_height = 4, ack_header_digest = 9, ack_signer = 1, ack_signature = Unsigned\<rparr>"

theorem acknowledgements_yield_verifiable_cert_witness:
  "\<exists>qc. try_build_qc (ack_run solo_vs (ack_for_validator_set 4 9 solo_vs) [(solo_ack, False), (solo_ack, True), (solo_ack, True)]) = Some qc \<and>
    verify_quorum_cert qc solo_vs 9 (fmap_of_list [(1, True)]) = Inr ()"
proof -
  let ?as = "[(solo_ack, False), (solo_ack, True), (solo_ack, True)]"
  have signers: "(ack_signer \<circ> fst) ` {a \<in> set ?as. ack_valid solo_vs 4 9 a} = {1}"
  proof -
    have "filter (ack_valid solo_vs 4 9) ?as = [(solo_ack, True), (solo_ack, True)]" by code_simp
    then have "{a \<in> set ?as. ack_valid solo_vs 4 9 a} = set [(solo_ack, True), (solo_ack, True)]"
      by (simp only: set_filter [symmetric])
    then show ?thesis by (simp add: solo_ack_def)
  qed
  have power: "2 * unat (vs_total_power solo_vs) < 2 ^ 128 - 1" by (simp add: solo_vs_def)
  have sigs: "\<forall>a \<in> {1}. fmlookup (fmap_of_list [(1 :: address, True)]) a = Some True" by simp
  show ?thesis
    using acknowledgements_yield_verifiable_cert [OF solo_wf(1) power signers [symmetric] sigs] solo_wf(2)
    by (auto split: option.splits)
qed

text \<open>
  C36. An accepted epoch-change proof is a chain of trust: at every step the committee trusted so
  far matches the header's committee hash, signed the header's digest with a quorum, and the
  header names the hash of the committee the next step trusts.
\<close>

theorem epoch_change_chain_of_trust:
  assumes "verify_epoch_change blake3 prf initial digests sigs = Inr ()" and "i < length (boundary_headers prf)"
  shows "length (next_validator_sets prf) = length (boundary_headers prf) \<and>
    vset_hash blake3 (trusted_at initial prf i) = hdr_validators_hash (boundary_headers prf ! i) \<and>
    verify_quorum_cert (boundary_certs prf ! i) (trusted_at initial prf i) (digests ! i) (sigs ! i) = Inr () \<and>
    vset_hash blake3 (trusted_at initial prf (Suc i)) = hdr_next_validators_hash (boundary_headers prf ! i)"
proof -
  obtain final where "try_fold (verify_boundary blake3 prf digests sigs) initial [0..<length (boundary_headers prf)] = Inr final"
    and "length (next_validator_sets prf) = length (boundary_headers prf)"
    using assms(1) by (auto simp: verify_epoch_change_def Let_def split: if_splits)
  then show ?thesis
    using verify_boundaries [where k = 0 and current = initial and initial = initial and i = i] assms(2)
    by (simp add: trusted_at_def)
qed

definition plain_header :: block_header where
  "plain_header = \<lparr>hdr_height = 4, hdr_timestamp = 0, hdr_parent_hash = 0, hdr_transactions_root = 0,
     hdr_state_root = 0, hdr_receipts_root = 0, hdr_proposer = 1, hdr_epoch = 0, hdr_protocol_version = 1,
     hdr_dag_round = 0, hdr_dag_anchor = 0, hdr_validators_hash = 0, hdr_next_validators_hash = 0,
     hdr_gas_limit = 100, hdr_gas_used = 0, hdr_base_fee = 0, hdr_extra_data = []\<rparr>"

definition solo_proof :: epoch_change_proof where
  "solo_proof = \<lparr>boundary_headers = [plain_header], boundary_certs = [solo_qc], next_validator_sets = [solo_vs]\<rparr>"

theorem epoch_change_chain_of_trust_witness:
  "verify_quorum_cert solo_qc solo_vs 9 (fmap_of_list [(1, True)]) = Inr () \<and>
   vset_hash (\<lambda>_. 0) (trusted_at solo_vs solo_proof 1) = 0"
proof -
  have "verify_epoch_change (\<lambda>_. 0) solo_proof solo_vs [9] [fmap_of_list [(1, True)]] = Inr ()" by code_simp
  from epoch_change_chain_of_trust [OF this, of 0] show ?thesis
    by (simp add: solo_proof_def trusted_at_def vset_hash_def plain_header_def)
qed

end
