(* ===== verification/Epoch_Transition.thy ===== *)
theory Epoch_Transition
  imports Rewards Leader Quorum_Cert
begin

section \<open>The epoch boundary\<close>

text \<open>
  \<^verbatim>\<open>lemma-consensus/src/epoch/transition.rs\<close> and \<^verbatim>\<open>epoch/recovery.rs\<close>. The routine mutates the map of
  validators in place and may fail between two mutations, so every operation returns the map
  beside either result. A loop over \<open>iter_mut()\<close> is \<open>iter_mut\<close>; the loops share the contract
  \<open>stake_keeping\<close>: what one iteration does to a validator keeps its stake.
\<close>

datatype epoch_error =
    SettlementOverflow address amount_error
  | EpochPowerOverflow address amount_error
  | EmptyNextCommittee u64
  | EpochNumberOverflow u64
  | ScheduleError consensus_error
  | RewardFailed reward_error

record epoch_output =
  eo_epoch :: epoch
  eo_next_validators_hash :: hash
  eo_leader_schedule :: leader_schedule
  eo_minted :: amount
  eo_burned_remainder :: amount

type_synonym validators = "(address, validator) fmap"

fun iter_mut ::
  "('k \<Rightarrow> 'v \<Rightarrow> ('e + unit) \<times> 'v) \<Rightarrow> 'k list \<Rightarrow> ('k, 'v) fmap \<Rightarrow> ('e + unit) \<times> ('k, 'v) fmap"
where
  "iter_mut f [] m = (Inr (), m)"
| "iter_mut f (k # ks) m = (case fmlookup m k of
      None \<Rightarrow> iter_mut f ks m
    | Some v \<Rightarrow> (case f k v of
        (Inl e, v') \<Rightarrow> (Inl e, fmupd k v' m)
      | (Inr _, v') \<Rightarrow> iter_mut f ks (fmupd k v' m)))"

definition matured :: "u64 \<Rightarrow> unbonding_entry \<Rightarrow> bool" where
  "matured block_time e \<longleftrightarrow> \<not> on_hold e \<and> complete_time e \<le> block_time"

text \<open>The entries are drained before the sums are checked: an overflow leaves them lost.\<close>

definition settle_one :: "u64 \<Rightarrow> address \<Rightarrow> validator \<Rightarrow> (epoch_error + unit) \<times> validator" where
  "settle_one block_time addr v =
     (let s = v_self_stake v;
          expired = filter (matured block_time) (pending_inactive s);
          remaining = filter (Not \<circ> matured block_time) (pending_inactive s);
          drained = v\<lparr>v_self_stake := s\<lparr>pending_inactive := []\<rparr>\<rparr>
      in case amount_sum (map initial_balance expired) of
           Inl e \<Rightarrow> (Inl (SettlementOverflow addr e), drained)
         | Inr sum_matured \<Rightarrow> (case amount_add (inactive s) sum_matured of
             Inl e \<Rightarrow> (Inl (SettlementOverflow addr e), drained)
           | Inr new_inactive \<Rightarrow>
               (Inr (), v\<lparr>v_self_stake := s\<lparr>inactive := new_inactive, pending_inactive := remaining\<rparr>\<rparr>)))"

definition settle_expired_unbonding :: "validators \<Rightarrow> u64 \<Rightarrow> (epoch_error + unit) \<times> validators" where
  "settle_expired_unbonding vals block_time = iter_mut (settle_one block_time) (btree_keys vals) vals"

definition activate_one :: "address \<Rightarrow> validator \<Rightarrow> (epoch_error + unit) \<times> validator" where
  "activate_one addr v = (case amount_add (active (v_self_stake v)) (pending_active (v_self_stake v)) of
      Inl e \<Rightarrow> (Inl (SettlementOverflow addr e), v)
    | Inr new_active \<Rightarrow>
        (Inr (), v\<lparr>v_self_stake := (v_self_stake v)\<lparr>active := new_active, pending_active := amount_zero\<rparr>\<rparr>))"

definition activate_pending_stake :: "validators \<Rightarrow> (epoch_error + unit) \<times> validators" where
  "activate_pending_stake vals = iter_mut activate_one (btree_keys vals) vals"

definition unjail_elapsed :: "u64 \<Rightarrow> validator \<Rightarrow> validator" where
  "unjail_elapsed block_time v = (case v_jailed_until v of
      Some t \<Rightarrow> if block_time \<ge> t then v\<lparr>v_jailed_until := None\<rparr> else v
    | None \<Rightarrow> v)"

definition update_status :: "amount \<Rightarrow> u64 \<Rightarrow> validator \<Rightarrow> validator" where
  "update_status min_stake block_time v0 =
     (let v = unjail_elapsed block_time v0 in
      if v_tombstoned v then v
      else case v_status v of
        Unbonded \<Rightarrow> if active (v_self_stake v) \<ge> min_stake then v\<lparr>v_status := Bonded\<rparr> else v
      | Bonded \<Rightarrow> if active (v_self_stake v) < min_stake then v\<lparr>v_status := Unbonding\<rparr> else v
      | Unbonding \<Rightarrow>
          if active (v_self_stake v) = 0 \<and> pending_inactive (v_self_stake v) = []
          then v\<lparr>v_status := Unbonded\<rparr> else v)"

definition update_validator_status :: "validators \<Rightarrow> amount \<Rightarrow> u64 \<Rightarrow> validators" where
  "update_validator_status vals min_stake block_time = fmmap (update_status min_stake block_time) vals"

fun to_epoch_error :: "validator_error \<Rightarrow> epoch_error" where
  "to_epoch_error (PowerOverflow a e) = EpochPowerOverflow a e"
| "to_epoch_error (EmptyValidatorSet n) = EmptyNextCommittee n"

definition build_next_validator_set :: "u64 \<Rightarrow> validators \<Rightarrow> epoch_error + validator_set" where
  "build_next_validator_set epoch_number vals =
     map_err to_epoch_error (from_active_validators epoch_number vals)"

definition recompute_leader_schedule :: "validator_set \<Rightarrow> commit list \<Rightarrow> epoch_error + leader_schedule" where
  "recompute_leader_schedule vset commits =
     (let f = (vset_len vset - 1) div 3
      in map_err ScheduleError (with_swap vset LEADER_OFFSET (from_scores (from_commits commits) vset f)))"

definition settle_and_reseat ::
  "hasher \<Rightarrow> validators \<Rightarrow> commit list \<Rightarrow> u64 \<Rightarrow> u64 \<Rightarrow> amount \<Rightarrow> u64 \<Rightarrow> amount \<Rightarrow> amount
    \<Rightarrow> (epoch_error + epoch_output) \<times> validators"
where
  "settle_and_reseat blake3 vals commits block_time block_height min_stake next_number minted burned =
     (case settle_expired_unbonding vals block_time of
        (Inl e, vals1) \<Rightarrow> (Inl e, vals1)
      | (Inr _, vals1) \<Rightarrow> (case activate_pending_stake vals1 of
          (Inl e, vals2) \<Rightarrow> (Inl e, vals2)
        | (Inr _, vals2) \<Rightarrow>
            let vals3 = update_validator_status vals2 min_stake block_time in
            (rbind (build_next_validator_set next_number vals3) (\<lambda>next_vset.
             rbind (recompute_leader_schedule next_vset commits) (\<lambda>schedule.
             Inr \<lparr>eo_epoch = \<lparr>ep_number = next_number, ep_start_height = saturating_add block_height 1,
                     ep_start_timestamp = block_time, ep_validators = next_vset\<rparr>,
                  eo_next_validators_hash = vset_hash blake3 next_vset,
                  eo_leader_schedule = schedule, eo_minted = minted, eo_burned_remainder = burned\<rparr>)),
             vals3)))"

definition advance_epoch ::
  "hasher \<Rightarrow> epoch \<Rightarrow> validators \<Rightarrow> commit list \<Rightarrow> amount \<Rightarrow> u64 \<Rightarrow> u64 \<Rightarrow> amount
    \<Rightarrow> (epoch_error + epoch_output) \<times> validators"
where
  "advance_epoch blake3 current vals commits total_supply block_time block_height min_stake =
     (case checked_add (ep_number current) 1 of
        None \<Rightarrow> (Inl (EpochNumberOverflow (ep_number current)), vals)
      | Some next_number \<Rightarrow> (case compute_epoch_inflation total_supply (ep_number current) of
          Inl e \<Rightarrow> (Inl (RewardFailed e), vals)
        | Inr minted \<Rightarrow> (case distribute_rewards vals (ep_validators current) minted of
            (Inl e, vals1) \<Rightarrow> (Inl (RewardFailed e), vals1)
          | (Inr out, vals1) \<Rightarrow>
              settle_and_reseat blake3 vals1 commits block_time block_height min_stake next_number
                minted (ro_burned_remainder out))))"

subsection \<open>Forced closing\<close>

datatype recovery_error =
    RecoveryQuorum cert_error
  | RollbackForbidden u64 u64
  | DuplicateRecovery u64 u64
  | SettlementFailed epoch_error

record recovery_output =
  rec_epoch_output :: epoch_output
  rec_recovery_cert :: quorum_cert
  rec_at_commit_index :: u64

definition force_epoch_close ::
  "hasher \<Rightarrow> epoch \<Rightarrow> validators \<Rightarrow> commit list \<Rightarrow> amount \<Rightarrow> u64 \<Rightarrow> u64 \<Rightarrow> quorum_cert \<Rightarrow> hash
    \<Rightarrow> sig_results \<Rightarrow> (u64 \<times> u64) fset \<Rightarrow> u64 \<Rightarrow> u64 \<Rightarrow> amount
    \<Rightarrow> (recovery_error + recovery_output) \<times> validators"
where
  "force_epoch_close blake3 current vals commits total_supply at_commit_index last_final cert cert_digest
     sigs dedup block_time block_height min_stake =
     (case verify_quorum_cert cert (ep_validators current) cert_digest sigs of
        Inl e \<Rightarrow> (Inl (RecoveryQuorum e), vals)
      | Inr _ \<Rightarrow>
          if at_commit_index > last_final then (Inl (RollbackForbidden at_commit_index last_final), vals)
          else if (ep_number current, at_commit_index) |\<in>| dedup
            then (Inl (DuplicateRecovery (ep_number current) at_commit_index), vals)
          else case advance_epoch blake3 current vals commits total_supply block_time block_height min_stake of
              (Inl e, vals') \<Rightarrow> (Inl (SettlementFailed e), vals')
            | (Inr out, vals') \<Rightarrow>
                (Inr \<lparr>rec_epoch_output = out, rec_recovery_cert = cert, rec_at_commit_index = at_commit_index\<rparr>, vals'))"

subsection \<open>Loops over the validators\<close>

lemma iter_mut_Inr:
  assumes "iter_mut f ks m = (Inr u, m')" "distinct ks"
  shows "fmlookup m' k = (if k \<in> set ks then map_option (\<lambda>v. snd (f k v)) (fmlookup m k) else fmlookup m k)"
    and "k \<in> set ks \<Longrightarrow> fmlookup m k = Some v \<Longrightarrow> \<exists>w. f k v = (Inr (), w)"
proof -
  have "fmlookup m' k = (if k \<in> set ks then map_option (\<lambda>v. snd (f k v)) (fmlookup m k) else fmlookup m k) \<and>
    (k \<in> set ks \<longrightarrow> fmlookup m k = Some v \<longrightarrow> (\<exists>w. f k v = (Inr (), w)))" for v
    using assms
  proof (induction f ks m rule: iter_mut.induct)
    case (2 f j ks m)
    show ?case
    proof (cases "fmlookup m j")
      case None
      then show ?thesis using 2 by (cases "k = j") auto
    next
      case (Some x)
      then obtain x' where x': "f j x = (Inr (), x')" and rest: "iter_mut f ks (fmupd j x' m) = (Inr u, m')"
        using "2.prems"(1) by (auto split: prod.splits sum.splits)
      have IH: "fmlookup m' k = (if k \<in> set ks then map_option (\<lambda>v. snd (f k v)) (fmlookup (fmupd j x' m) k)
            else fmlookup (fmupd j x' m) k) \<and>
          (k \<in> set ks \<longrightarrow> fmlookup (fmupd j x' m) k = Some v \<longrightarrow> (\<exists>w. f k v = (Inr (), w)))"
        using "2.IH"(2) [OF Some x' [symmetric] refl rest] "2.prems"(2) by simp
      then show ?thesis using "2.prems"(2) Some x' by (cases "k = j") auto
    qed
  qed simp
  then show "fmlookup m' k = (if k \<in> set ks then map_option (\<lambda>v. snd (f k v)) (fmlookup m k) else fmlookup m k)"
    "k \<in> set ks \<Longrightarrow> fmlookup m k = Some v \<Longrightarrow> \<exists>w. f k v = (Inr (), w)" by blast+
qed

text \<open>Every validator of the map is visited.\<close>

lemma iter_mut_all:
  assumes "iter_mut f (btree_keys m) m = (Inr u, m')"
  shows "fmlookup m' k = map_option (\<lambda>v. snd (f k v)) (fmlookup m k)"
    and "fmlookup m k = Some v \<Longrightarrow> \<exists>w. f k v = (Inr (), w) \<and> fmlookup m' k = Some w"
  using iter_mut_Inr [OF assms, of k] by (auto simp: fmlookup_dom_iff option.map_id0)

lemma total_stake_cong:
  assumes "\<And>a. map_option (stake_total \<circ> v_self_stake) (fmlookup m' a) = map_option (stake_total \<circ> v_self_stake) (fmlookup m a)"
  shows "total_stake m' = total_stake m"
proof -
  have "fmlookup m' a = None \<longleftrightarrow> fmlookup m a = None" for a
    using arg_cong [OF assms [of a], of "\<lambda>x. x = None"] by simp
  then have dom: "fmdom' m' = fmdom' m" by (auto simp: fmdom'_def dom_def)
  have "stake_total (v_self_stake (the (fmlookup m' a))) = stake_total (v_self_stake (the (fmlookup m a)))"
    if "a \<in> fmdom' m" for a
    using assms [of a] that dom by (auto simp: fmlookup_dom'_iff)
  then show ?thesis unfolding total_stake_def dom by (rule sum.cong [OF refl])
qed

locale stake_keeping =
  fixes f :: "address \<Rightarrow> validator \<Rightarrow> ('e + unit) \<times> validator"
  assumes keeps: "f a v = (Inr (), w) \<Longrightarrow> stake_total (v_self_stake w) = stake_total (v_self_stake v)"
    and same: "f a v = (Inr (), w) \<Longrightarrow> v_tombstoned w = v_tombstoned v \<and> v_status w = v_status v \<and>
      v_jailed_until w = v_jailed_until v \<and> v_delegated w = v_delegated v"
begin

lemma loop_stake:
  assumes "iter_mut f (btree_keys m) m = (Inr u, m')"
  shows "total_stake m' = total_stake m"
proof (rule total_stake_cong)
  fix a
  show "map_option (stake_total \<circ> v_self_stake) (fmlookup m' a) = map_option (stake_total \<circ> v_self_stake) (fmlookup m a)"
    using iter_mut_all [OF assms, of a] keeps by (cases "fmlookup m a") auto
qed

lemma loop_same:
  assumes "iter_mut f (btree_keys m) m = (Inr u, m')" "fmlookup m a = Some v"
  obtains w where "fmlookup m' a = Some w" "f a v = (Inr (), w)" "v_tombstoned w = v_tombstoned v"
    "v_status w = v_status v" "v_jailed_until w = v_jailed_until v" "v_delegated w = v_delegated v"
  using iter_mut_all(2) [OF assms] same by blast

end

lemma filter_matured_sum:
  "(\<Sum>e \<leftarrow> filter P es. g e) + (\<Sum>e \<leftarrow> filter (Not \<circ> P) es. g e) = (\<Sum>e \<leftarrow> es. g e :: nat)"
  by (induction es) auto

interpretation settle: stake_keeping "settle_one block_time" for block_time
proof
  fix a v w
  assume run: "settle_one block_time a v = (Inr (), w)"
  let ?s = "v_self_stake v"
  obtain sm i where sums: "amount_sum (map initial_balance (filter (matured block_time) (pending_inactive ?s))) = Inr sm"
    "amount_add (inactive ?s) sm = Inr i"
    and w: "w = v\<lparr>v_self_stake := ?s\<lparr>inactive := i, pending_inactive := filter (Not \<circ> matured block_time) (pending_inactive ?s)\<rparr>\<rparr>"
    using run by (auto simp: settle_one_def Let_def split: sum.splits)
  have "unat i = unat (inactive ?s) + (\<Sum>e \<leftarrow> filter (matured block_time) (pending_inactive ?s). unat (initial_balance e))"
    using amount_sum_Inr [OF sums(1)] sums(2) by (simp add: amount_add_Inr o_def)
  then show "stake_total (v_self_stake w) = stake_total (v_self_stake v)"
    using filter_matured_sum [of "\<lambda>e. unat (initial_balance e)" "matured block_time" "pending_inactive ?s"]
    by (simp add: w stake_total_def)
  show "v_tombstoned w = v_tombstoned v \<and> v_status w = v_status v \<and>
      v_jailed_until w = v_jailed_until v \<and> v_delegated w = v_delegated v" by (simp add: w)
qed

interpretation activate: stake_keeping activate_one
  by unfold_locales (auto simp: activate_one_def stake_total_def amount_add_Inr split: sum.splits)

subsection \<open>The next committee\<close>

definition seat_of :: "validator \<Rightarrow> member \<Rightarrow> bool" where
  "seat_of v m \<longleftrightarrow> is_active v \<and> m_consensus_pubkey m = v_consensus_pubkey v \<and>
     unat (m_power m) = unat (active (v_self_stake v)) + unat (v_delegated v)"

definition member_sum :: "(address, member) fmap \<Rightarrow> nat" where
  "member_sum ms = (\<Sum>a \<in> fmdom' ms. unat (m_power (the (fmlookup ms a))))"

lemma member_sum_upd:
  assumes "fmlookup ms a = None"
  shows "member_sum (fmupd a m ms) = unat (m_power m) + member_sum ms"
proof -
  have a: "a \<notin> fmdom' ms" using assms by (auto simp: fmlookup_dom'_iff)
  then have "(\<Sum>x \<in> fmdom' ms. unat (m_power (the (fmlookup (fmupd a m ms) x)))) = member_sum ms"
    unfolding member_sum_def by (intro sum.cong) auto
  then show ?thesis using a by (simp add: member_sum_def)
qed

lemma add_active_member_pair:
  "add_active_member (ms, t) (a, v) =
     (if \<not> is_active v then Inr (ms, t)
      else rbind (map_err (PowerOverflow a) (voting_power v)) (\<lambda>p.
        rbind (map_err (PowerOverflow a) (amount_add t p)) (\<lambda>t'.
        Inr (fmupd a \<lparr>m_consensus_pubkey = v_consensus_pubkey v, m_power = p\<rparr> ms, t'))))"
  by (simp add: add_active_member_def)

lemma add_active_members:
  assumes "try_fold add_active_member (ms0, t0) es = Inr (ms, t)"
    and "distinct (map fst es)" "\<forall>e \<in> set es. fmlookup ms0 (fst e) = None" "unat t0 = member_sum ms0"
  shows "unat t = member_sum ms \<and> (\<forall>a m. fmlookup ms a = Some m \<longrightarrow>
      fmlookup ms0 a = Some m \<or> (\<exists>v. (a, v) \<in> set es \<and> seat_of v m)) \<and>
    (\<forall>a v. (a, v) \<in> set es \<and> is_active v \<longrightarrow> a |\<in>| fmdom ms) \<and>
    (\<forall>a m. fmlookup ms0 a = Some m \<longrightarrow> fmlookup ms a = Some m)"
  using assms
proof (induction es arbitrary: ms0 t0)
  case Nil
  then show ?case by simp
next
  case (Cons e es)
  obtain a v where e: "e = (a, v)" by fastforce
  show ?case
  proof (cases "is_active v")
    case False
    then have "try_fold add_active_member (ms0, t0) es = Inr (ms, t)"
      using Cons.prems(1) by (simp add: e add_active_member_pair)
    from Cons.IH [OF this] Cons.prems(2-4) have IH: "unat t = member_sum ms \<and> (\<forall>a m. fmlookup ms a = Some m \<longrightarrow>
        fmlookup ms0 a = Some m \<or> (\<exists>v. (a, v) \<in> set es \<and> seat_of v m)) \<and>
      (\<forall>a v. (a, v) \<in> set es \<and> is_active v \<longrightarrow> a |\<in>| fmdom ms) \<and>
      (\<forall>a m. fmlookup ms0 a = Some m \<longrightarrow> fmlookup ms a = Some m)" by simp
    then show ?thesis using False by (auto simp: e) blast
  next
    case True
    then obtain p t1 where p: "voting_power v = Inr p" and t1: "amount_add t0 p = Inr t1"
      and rest: "try_fold add_active_member (fmupd a \<lparr>m_consensus_pubkey = v_consensus_pubkey v, m_power = p\<rparr> ms0, t1) es = Inr (ms, t)"
      using Cons.prems(1) by (auto simp: e add_active_member_pair)
    let ?m = "\<lparr>m_consensus_pubkey = v_consensus_pubkey v, m_power = p\<rparr>"
    have fresh: "fmlookup ms0 a = None" using Cons.prems(3) by (simp add: e)
    have seat: "seat_of v ?m" using True p by (simp add: seat_of_def voting_power_def amount_add_Inr)
    have "unat t1 = member_sum (fmupd a ?m ms0)"
      using t1 Cons.prems(4) member_sum_upd [OF fresh, of ?m] by (simp add: amount_add_Inr)
    moreover have "\<forall>x \<in> set es. fmlookup (fmupd a ?m ms0) (fst x) = None"
      using Cons.prems(2,3) by (auto simp: e)
    ultimately have IH: "unat t = member_sum ms \<and> (\<forall>x m. fmlookup ms x = Some m \<longrightarrow>
        fmlookup (fmupd a ?m ms0) x = Some m \<or> (\<exists>v. (x, v) \<in> set es \<and> seat_of v m)) \<and>
      (\<forall>x v. (x, v) \<in> set es \<and> is_active v \<longrightarrow> x |\<in>| fmdom ms) \<and>
      (\<forall>x m. fmlookup (fmupd a ?m ms0) x = Some m \<longrightarrow> fmlookup ms x = Some m)"
      using Cons.IH [OF rest] Cons.prems(2) by simp
    then have "fmlookup ms a = Some ?m" by (meson fmupd_lookup)
    then have mem: "a |\<in>| fmdom ms" by (rule fmdomI)
    have old: "fmlookup ms x = Some m" if "fmlookup ms0 x = Some m" for x m
      using IH that fresh by (cases "x = a") auto
    have new: "fmlookup ms0 x = Some m \<or> (\<exists>v. (x, v) \<in> set (e # es) \<and> seat_of v m)"
      if "fmlookup ms x = Some m" for x m
    proof (cases "fmlookup (fmupd a ?m ms0) x = Some m")
      case True
      then show ?thesis using seat by (cases "x = a") (auto simp: e)
    next
      case False
      then show ?thesis using IH that by (meson list.set_intros(2))
    qed
    have "x |\<in>| fmdom ms" if "(x, v') \<in> set (e # es) \<and> is_active v'" for x v'
      using that IH mem by (auto simp: e)
    then show ?thesis using IH old new by blast
  qed
qed

lemma from_active_validators_spec:
  assumes "from_active_validators n vals = Inr vs"
  shows "vs_epoch vs = n" "wf_vset vs" "vs_members vs \<noteq> fmempty"
    and "a |\<in>| fmdom (vs_members vs) \<longleftrightarrow> (\<exists>v. fmlookup vals a = Some v \<and> is_active v)"
    and "fmlookup (vs_members vs) a = Some m \<Longrightarrow> \<exists>v. fmlookup vals a = Some v \<and> seat_of v m"
proof -
  obtain ms t where fold: "try_fold add_active_member (fmempty, amount_zero) (sorted_list_of_fmap vals) = Inr (ms, t)"
    and vs: "vs = \<lparr>vs_epoch = n, vs_members = ms, vs_total_power = t\<rparr>" "ms \<noteq> fmempty"
    using assms by (auto simp: from_active_validators_def split: if_splits)
  have "distinct (map fst (sorted_list_of_fmap vals))" "unat amount_zero = member_sum fmempty"
    by (simp_all add: member_sum_def)
  note spec = add_active_members [OF fold this(1) _ this(2), simplified]
  show "vs_epoch vs = n" "vs_members vs \<noteq> fmempty" using vs by simp_all
  have "stake_of vs UNIV = member_sum ms"
    unfolding stake_of_def member_sum_def by (rule sum.cong) (auto simp: vs power_of_def fmlookup_dom'_iff)
  then show "wf_vset vs" using spec by (simp add: wf_vset_def vs)
  show seat: "\<exists>v. fmlookup vals a = Some v \<and> seat_of v m" if "fmlookup (vs_members vs) a = Some m" for a m
    using spec that by (auto simp: vs)
  show "a |\<in>| fmdom (vs_members vs) \<longleftrightarrow> (\<exists>v. fmlookup vals a = Some v \<and> is_active v)"
    using seat spec by (fastforce simp: vs fmlookup_dom_iff seat_of_def)
qed

subsection \<open>One epoch\<close>

lemma update_status_stake [simp]: "v_self_stake (update_status ms bt v) = v_self_stake v"
  by (simp add: update_status_def unjail_elapsed_def Let_def split: option.splits validator_status.splits)

lemma update_status_tombstoned [simp]: "v_tombstoned (update_status ms bt v) = v_tombstoned v"
  by (simp add: update_status_def unjail_elapsed_def Let_def split: option.splits validator_status.splits)

lemma update_validator_status_stake: "total_stake (update_validator_status vals ms bt) = total_stake vals"
  by (rule total_stake_cong) (simp add: update_validator_status_def option.map_comp o_def)

lemma settle_and_reseat_Inr:
  assumes "settle_and_reseat blake3 vals commits bt bh ms n minted burned = (Inr out, vals')"
  obtains v1 v2 where "iter_mut (settle_one bt) (btree_keys vals) vals = (Inr (), v1)"
    "iter_mut activate_one (btree_keys v1) v1 = (Inr (), v2)" "vals' = update_validator_status v2 ms bt"
    "from_active_validators n vals' = Inr (ep_validators (eo_epoch out))" "ep_number (eo_epoch out) = n"
    "eo_next_validators_hash out = vset_hash blake3 (ep_validators (eo_epoch out))"
    "recompute_leader_schedule (ep_validators (eo_epoch out)) commits = Inr (eo_leader_schedule out)"
    "eo_minted out = minted" "eo_burned_remainder out = burned"
  using assms
  by (auto simp: settle_and_reseat_def settle_expired_unbonding_def activate_pending_stake_def
      build_next_validator_set_def Let_def split: prod.splits sum.splits)

lemma advance_epoch_Inr:
  assumes "advance_epoch blake3 cur vals commits supply bt bh ms = (Inr out, vals')"
  obtains n minted rew v1 where "unat n = unat (ep_number cur) + 1"
    "compute_epoch_inflation supply (ep_number cur) = Inr minted"
    "distribute_rewards vals (ep_validators cur) minted = (Inr rew, v1)"
    "settle_and_reseat blake3 v1 commits bt bh ms n minted (ro_burned_remainder rew) = (Inr out, vals')"
  using assms by (auto simp: advance_epoch_def checked_add_Some split: option.splits prod.splits sum.splits)

subsection \<open>Properties\<close>

text \<open>
  C15. An epoch creates exactly the inflation it reports: after a successful transition the stake
  of all validators, over every bucket, has grown by the minted amount less the burned remainder.
\<close>

theorem epoch_conserves_stake:
  assumes "wf_vset (ep_validators cur)" "fmdom' (vs_members (ep_validators cur)) \<subseteq> fmdom' vals"
    and "advance_epoch blake3 cur vals commits supply bt bh ms = (Inr out, vals')"
  shows "total_stake vals' + unat (eo_burned_remainder out) = total_stake vals + unat (eo_minted out)"
proof -
  obtain n minted rew v1 where rew: "distribute_rewards vals (ep_validators cur) minted = (Inr rew, v1)"
    and run: "settle_and_reseat blake3 v1 commits bt bh ms n minted (ro_burned_remainder rew) = (Inr out, vals')"
    using advance_epoch_Inr [OF assms(3)] .
  obtain v2 v3 where "iter_mut (settle_one bt) (btree_keys v1) v1 = (Inr (), v2)"
    "iter_mut activate_one (btree_keys v2) v2 = (Inr (), v3)" "vals' = update_validator_status v3 ms bt"
    "eo_minted out = minted" "eo_burned_remainder out = ro_burned_remainder rew"
    using settle_and_reseat_Inr [OF run] .
  moreover from this have "total_stake vals' = total_stake v1"
    using settle.loop_stake activate.loop_stake update_validator_status_stake by metis
  ultimately show ?thesis
    using distribute_rewards_Inr(1,2) [OF rew] assms(2) by simp
qed

text \<open>
  The next committee is exactly the active validators: after a successful transition the
  epoch number has grown by one, a validator is seated if and only if it is bonded, not
  tombstoned and not jailed, its power is its settled active stake plus delegations, the total
  power is the sum of the members', and the reported hash is that of the committee.
\<close>

theorem next_committee_is_active_set:
  assumes "advance_epoch blake3 cur vals commits supply bt bh ms = (Inr out, vals')"
    and "nxt = ep_validators (eo_epoch out)"
  shows "unat (ep_number (eo_epoch out)) = unat (ep_number cur) + 1 \<and> wf_vset nxt \<and>
    eo_next_validators_hash out = vset_hash blake3 nxt \<and>
    (\<forall>a. a |\<in>| fmdom (vs_members nxt) \<longleftrightarrow> (\<exists>v. fmlookup vals' a = Some v \<and>
      v_status v = Bonded \<and> \<not> v_tombstoned v \<and> v_jailed_until v = None)) \<and>
    (\<forall>a m. fmlookup (vs_members nxt) a = Some m \<longrightarrow> (\<exists>v. fmlookup vals' a = Some v \<and>
      unat (m_power m) = unat (active (v_self_stake v)) + unat (v_delegated v)))"
proof -
  obtain n minted v1 and rew :: reward_outcome where n: "unat n = unat (ep_number cur) + 1"
    and run: "settle_and_reseat blake3 v1 commits bt bh ms n minted (ro_burned_remainder rew) = (Inr out, vals')"
    using advance_epoch_Inr [OF assms(1)] .
  have built: "from_active_validators n vals' = Inr nxt" "ep_number (eo_epoch out) = n"
    "eo_next_validators_hash out = vset_hash blake3 nxt"
    using settle_and_reseat_Inr [OF run] assms(2) by metis+
  note spec = from_active_validators_spec [OF built(1)]
  have "\<exists>v. fmlookup vals' a = Some v \<and> unat (m_power m) = unat (active (v_self_stake v)) + unat (v_delegated v)"
    if "fmlookup (vs_members nxt) a = Some m" for a m
    using spec(5) [OF that] by (auto simp: seat_of_def)
  then show ?thesis using spec(2) spec(4) [unfolded is_active_def] built(2,3) n by simp
qed

text \<open>
  Settlement is complete and slashable stake stays: after a successful transition no
  validator has pending-active stake, the pending-inactive entries left are those on hold or
  not yet mature, a validator that was bonded is not unbonded at once, and a tombstone is kept.
\<close>

theorem settlement_keeps_stake_slashable:
  assumes "settle_and_reseat blake3 vals commits bt bh ms n minted burned = (Inr out, vals')"
    and "fmlookup vals a = Some v"
  shows "\<exists>w. fmlookup vals' a = Some w \<and> pending_active (v_self_stake w) = 0 \<and>
    pending_inactive (v_self_stake w) = filter (\<lambda>e. on_hold e \<or> bt < complete_time e) (pending_inactive (v_self_stake v)) \<and>
    (v_status v = Bonded \<longrightarrow> v_status w \<noteq> Unbonded) \<and> v_tombstoned w = v_tombstoned v"
proof -
  obtain v1 v2 where loops: "iter_mut (settle_one bt) (btree_keys vals) vals = (Inr (), v1)"
    "iter_mut activate_one (btree_keys v1) v1 = (Inr (), v2)" and vals': "vals' = update_validator_status v2 ms bt"
    using settle_and_reseat_Inr [OF assms(1)] .
  obtain x where x: "fmlookup v1 a = Some x" "settle_one bt a v = (Inr (), x)" "v_tombstoned x = v_tombstoned v" "v_status x = v_status v"
    using settle.loop_same [OF loops(1) assms(2)] .
  obtain y where y: "fmlookup v2 a = Some y" "activate_one a x = (Inr (), y)" "v_tombstoned y = v_tombstoned x" "v_status y = v_status x"
    using activate.loop_same [OF loops(2) x(1)] .
  have "(Not \<circ> matured bt) = (\<lambda>e. on_hold e \<or> bt < complete_time e)" by (auto simp: matured_def fun_eq_iff)
  then have "pending_inactive (v_self_stake x) = filter (\<lambda>e. on_hold e \<or> bt < complete_time e) (pending_inactive (v_self_stake v))"
    using x(2) by (auto simp: settle_one_def Let_def split: sum.splits)
  moreover have "pending_active (v_self_stake y) = 0 \<and> pending_inactive (v_self_stake y) = pending_inactive (v_self_stake x)"
    using y(2) by (auto simp: activate_one_def amount_zero_def split: sum.splits)
  moreover have "v_status z = Bonded \<longrightarrow> v_status (update_status ms bt z) \<noteq> Unbonded" for z
    by (simp add: update_status_def unjail_elapsed_def Let_def split: option.splits)
  ultimately show ?thesis
    using x(3,4) y(1,3,4) by (simp add: vals' update_validator_status_def)
qed

definition drip_epoch :: epoch where
  "drip_epoch = \<lparr>ep_number = 0, ep_start_height = 0, ep_start_timestamp = 0, ep_validators = drip_vs\<rparr>"

definition drip_advance :: "amount \<Rightarrow> (epoch_error + epoch_output) \<times> validators" where
  "drip_advance min_stake = advance_epoch (\<lambda>_. 0) drip_epoch drip_vals [] 164250000000000 50 7 min_stake"

lemma drip_advance_ok:
  obtains out where "drip_advance 1 = (Inr out, snd (drip_advance 1))"
    and "eo_minted out = 9000000000" "eo_burned_remainder out = 3000000000"
proof -
  have "map_sum id (\<lambda>out. (eo_minted out, eo_burned_remainder out)) (fst (drip_advance 1)) = Inr (9000000000, 3000000000)"
    by code_simp
  then obtain out where "fst (drip_advance 1) = Inr out" "eo_minted out = 9000000000" "eo_burned_remainder out = 3000000000"
    by (cases "fst (drip_advance 1)") auto
  then show thesis using that by (metis prod.collapse)
qed

theorem epoch_conserves_stake_witness:
  "total_stake (snd (drip_advance 1)) + 3000000000 = total_stake drip_vals + 9000000000"
proof -
  obtain out where out: "drip_advance 1 = (Inr out, snd (drip_advance 1))"
    "eo_minted out = 9000000000" "eo_burned_remainder out = 3000000000" by (rule drip_advance_ok)
  have "ep_validators drip_epoch = drip_vs" by (simp add: drip_epoch_def)
  then show ?thesis
    using epoch_conserves_stake [of drip_epoch drip_vals, OF _ _ out(1) [unfolded drip_advance_def]] drip_wf out(2,3)
    by (simp add: drip_advance_def)
qed

theorem next_committee_is_active_set_witness:
  "\<exists>out. fst (drip_advance 1) = Inr out \<and> wf_vset (ep_validators (eo_epoch out)) \<and> unat (ep_number (eo_epoch out)) = 1"
proof -
  obtain out where out: "drip_advance 1 = (Inr out, snd (drip_advance 1))" by (rule drip_advance_ok)
  have "ep_number drip_epoch = 0" by (simp add: drip_epoch_def)
  then show ?thesis
    using next_committee_is_active_set [OF out [unfolded drip_advance_def] refl] out
    by (auto simp: prod_eq_iff)
qed

definition unbonding_validator :: validator where
  "unbonding_validator = plain_validator 1 20\<lparr>v_self_stake := \<lparr>active = 20, pending_active = 4, pending_inactive =
     [\<lparr>initial_balance = 5, start_height = 1, complete_time = 10, on_hold = False\<rparr>,
      \<lparr>initial_balance = 6, start_height = 2, complete_time = 90, on_hold = False\<rparr>,
      \<lparr>initial_balance = 7, start_height = 3, complete_time = 10, on_hold = True\<rparr>], inactive = 1\<rparr>\<rparr>"

definition unbonding_settled :: "(epoch_error + epoch_output) \<times> validators" where
  "unbonding_settled = settle_and_reseat (\<lambda>_. 0) (fmap_of_list [(1, unbonding_validator)]) [] 50 7 1 1 0 0"

theorem settlement_keeps_stake_slashable_witness:
  "\<exists>w. fmlookup (snd unbonding_settled) 1 = Some w \<and> pending_active (v_self_stake w) = 0 \<and>
    length (pending_inactive (v_self_stake w)) = 2"
proof -
  have "map_sum id (\<lambda>_. ()) (fst unbonding_settled) = Inr ()" by code_simp
  then obtain out where "unbonding_settled = (Inr out, snd unbonding_settled)"
    by (cases "fst unbonding_settled") (auto simp: prod_eq_iff)
  note run = this [unfolded unbonding_settled_def]
  have look: "fmlookup (fmap_of_list [(1 :: address, unbonding_validator)]) 1 = Some unbonding_validator" by simp
  have "length (filter (\<lambda>e. on_hold e \<or> 50 < complete_time e) (pending_inactive (v_self_stake unbonding_validator))) = 2"
    by code_simp
  with settlement_keeps_stake_slashable [OF run look] show ?thesis
    unfolding unbonding_settled_def by auto
qed

text \<open>
  A forced close is authorized, bounded and not replayed: it succeeds only with a
  certificate that verifies against the committee of the epoch being closed, at a final commit
  index not closed before, and then it is the ordinary transition; when the certificate, the
  bound or the replay check fails, no validator is touched.
\<close>

theorem forced_close_guarded:
  assumes "force_epoch_close blake3 cur vals commits supply idx final cert digest sigs dedup bt bh ms = (res, vals')"
  shows "case res of
      Inr out \<Rightarrow> verify_quorum_cert cert (ep_validators cur) digest sigs = Inr () \<and> idx \<le> final \<and>
        (ep_number cur, idx) |\<notin>| dedup \<and> rec_recovery_cert out = cert \<and> rec_at_commit_index out = idx \<and>
        advance_epoch blake3 cur vals commits supply bt bh ms = (Inr (rec_epoch_output out), vals')
    | Inl (SettlementFailed e) \<Rightarrow> advance_epoch blake3 cur vals commits supply bt bh ms = (Inl e, vals')
    | Inl _ \<Rightarrow> vals' = vals"
  using assms
  by (auto simp: force_epoch_close_def split: sum.splits prod.splits if_splits)

theorem forced_close_guarded_witness:
  "snd (force_epoch_close (\<lambda>_. 0) drip_epoch drip_vals [] 164250000000000 5 4
      \<lparr>qc_height = 0, qc_header_digest = 9, qc_signers = fmap_of_list [(1, Unsigned), (2, Unsigned)]\<rparr> 9
      (fmap_of_list [(1, True), (2, True)]) {||} 50 7 1) = drip_vals"
proof -
  let ?run = "force_epoch_close (\<lambda>_. 0) drip_epoch drip_vals [] 164250000000000 5 4
      \<lparr>qc_height = 0, qc_header_digest = 9, qc_signers = fmap_of_list [(1, Unsigned), (2, Unsigned)]\<rparr> 9
      (fmap_of_list [(1, True), (2, True)]) {||} 50 7 1"
  have "fst ?run = Inl (RollbackForbidden 5 4)" by code_simp
  then have "?run = (Inl (RollbackForbidden 5 4), snd ?run)" by (simp add: prod_eq_iff)
  from forced_close_guarded [OF this] show ?thesis by simp
qed

text \<open>
  A failing transition is not atomic: when every validator falls below the minimum stake the
  transition ends in \<open>EmptyNextCommittee\<close>, but the rewards are already credited and the statuses
  already changed; a forced close of the same epoch credits the rewards a second time.
\<close>

theorem failed_transition_keeps_rewards:
  "fst (drip_advance 1000000000000) = Inl (EmptyNextCommittee 1) \<and>
   total_stake (snd (drip_advance 1000000000000)) = total_stake drip_vals + 6000000000"
proof -
  have sums: "total_stake (fmap_of_list [(1, v), (2, w)]) = stake_total (v_self_stake v) + stake_total (v_self_stake w)" for v w
    by (simp add: total_stake_def)
  have res: "fst (drip_advance 1000000000000) = Inl (EmptyNextCommittee 1)" by code_simp
  have after: "snd (drip_advance 1000000000000) = fmap_of_list
      [(1, plain_validator 1 4500000000\<lparr>v_status := Unbonding\<rparr>), (2, plain_validator 2 4500000000\<lparr>v_status := Unbonding\<rparr>)]"
    by code_simp
  show ?thesis
    unfolding res after drip_vals_def sums by (simp add: plain_validator_def stake_total_def stake_zero_def)
qed

end
