(* ===== verification/Trie_Node.thy ===== *)
theory Trie_Node
  imports Core_Types
begin

section \<open>The key-value store and the nodes of the state trie\<close>

text \<open>
  \<^verbatim>\<open>lemma-storage/src/error.rs\<close>, \<^verbatim>\<open>db.rs\<close> and \<^verbatim>\<open>trie/node.rs\<close>.

  RocksDB and the bincode serializer are third-party code: the first is the record of
  operations \<open>rocksdb\<close> over a type \<open>'db\<close> of database states, the second a pair of functions per
  type, and both are arguments of every definition that calls them. What the code relies
  on is stated in the locales \<open>rocksdb_laws\<close> (a read returns the last write, no I/O faults) and
  \<open>trie_backend\<close> (decoding inverts encoding). The error variants carry the hash or the key whose
  hexadecimal text the source formats into the message.
\<close>

subsection \<open>Errors\<close>

datatype storage_error =
    Database string
  | ColumnFamilyNotFound string
  | BatchFailed string
  | Corrupted string
  | KeyNotFound string
  | InvalidKeyLength nat nat
  | TrieNodeNotFound hash
  | TrieRootMismatch hash hash
  | InvalidProof bytes
  | AccountNotFound string
  | SnapshotFailed string
  | RestoreFailed string
  | SerializationFailed string

subsection \<open>Column families\<close>

definition CF_STATE :: string where "CF_STATE = ''state''"
definition CF_STORAGE :: string where "CF_STORAGE = ''storage''"
definition CF_BLOCKS :: string where "CF_BLOCKS = ''blocks''"
definition CF_BLOCK_HASH :: string where "CF_BLOCK_HASH = ''block_hash''"
definition CF_TRANSACTIONS :: string where "CF_TRANSACTIONS = ''transactions''"
definition CF_RECEIPTS :: string where "CF_RECEIPTS = ''receipts''"
definition CF_TRIE_NODES :: string where "CF_TRIE_NODES = ''trie_nodes''"
definition CF_METADATA :: string where "CF_METADATA = ''metadata''"
definition CF_CODE :: string where "CF_CODE = ''code''"

definition ALL_CFS :: "string list" where
  "ALL_CFS = [CF_STATE, CF_STORAGE, CF_BLOCKS, CF_BLOCK_HASH, CF_TRANSACTIONS, CF_RECEIPTS,
     CF_TRIE_NODES, CF_METADATA, CF_CODE]"

datatype batch_op = Put_cf string bytes bytes | Delete_cf string bytes

type_synonym write_batch = "batch_op list"

text \<open>The operations of RocksDB the crate calls; a failure carries the text of the error.\<close>

record 'db rocksdb =
  cf_handle :: "'db \<Rightarrow> string \<Rightarrow> bool"
  get_cf :: "'db \<Rightarrow> string \<Rightarrow> bytes \<Rightarrow> string + bytes option"
  put_cf :: "'db \<Rightarrow> string \<Rightarrow> bytes \<Rightarrow> bytes \<Rightarrow> string + 'db"
  delete_cf :: "'db \<Rightarrow> string \<Rightarrow> bytes \<Rightarrow> string + 'db"
  write_cf :: "'db \<Rightarrow> write_batch \<Rightarrow> string + 'db"

definition resolve_cf :: "'db rocksdb \<Rightarrow> 'db \<Rightarrow> string \<Rightarrow> storage_error + unit" where
  "resolve_cf rdb db cf = (if cf_handle rdb db cf then Inr () else Inl (ColumnFamilyNotFound cf))"

definition db_get :: "'db rocksdb \<Rightarrow> 'db \<Rightarrow> string \<Rightarrow> bytes \<Rightarrow> storage_error + bytes option" where
  "db_get rdb db cf key = rbind (resolve_cf rdb db cf) (\<lambda>_. map_err Database (get_cf rdb db cf key))"

definition db_put :: "'db rocksdb \<Rightarrow> 'db \<Rightarrow> string \<Rightarrow> bytes \<Rightarrow> bytes \<Rightarrow> storage_error + 'db" where
  "db_put rdb db cf key val = rbind (resolve_cf rdb db cf) (\<lambda>_. map_err Database (put_cf rdb db cf key val))"

definition db_delete :: "'db rocksdb \<Rightarrow> 'db \<Rightarrow> string \<Rightarrow> bytes \<Rightarrow> storage_error + 'db" where
  "db_delete rdb db cf key = rbind (resolve_cf rdb db cf) (\<lambda>_. map_err Database (delete_cf rdb db cf key))"

definition batch_put ::
  "'db rocksdb \<Rightarrow> 'db \<Rightarrow> write_batch \<Rightarrow> string \<Rightarrow> bytes \<Rightarrow> bytes \<Rightarrow> storage_error + write_batch" where
  "batch_put rdb db batch cf key val = rbind (resolve_cf rdb db cf) (\<lambda>_. Inr (batch @ [Put_cf cf key val]))"

definition batch_delete ::
  "'db rocksdb \<Rightarrow> 'db \<Rightarrow> write_batch \<Rightarrow> string \<Rightarrow> bytes \<Rightarrow> storage_error + write_batch" where
  "batch_delete rdb db batch cf key = rbind (resolve_cf rdb db cf) (\<lambda>_. Inr (batch @ [Delete_cf cf key]))"

definition write_batch :: "'db rocksdb \<Rightarrow> 'db \<Rightarrow> write_batch \<Rightarrow> storage_error + 'db" where
  "write_batch rdb db batch = map_err BatchFailed (write_cf rdb db batch)"

subsection \<open>What the crate relies on\<close>

text \<open>The value a batch leaves at a key: of its last operation there, or the one before the batch.\<close>

fun after_batch :: "write_batch \<Rightarrow> string \<Rightarrow> bytes \<Rightarrow> bytes option \<Rightarrow> bytes option" where
  "after_batch [] cf k old = old"
| "after_batch (Put_cf cf' k' v # ops) cf k old =
     after_batch ops cf k (if cf' = cf \<and> k' = k then Some v else old)"
| "after_batch (Delete_cf cf' k' # ops) cf k old =
     after_batch ops cf k (if cf' = cf \<and> k' = k then None else old)"

locale rocksdb_laws =
  fixes rdb :: "'db rocksdb"
    and view :: "'db \<Rightarrow> string \<Rightarrow> bytes \<Rightarrow> bytes option"
  assumes opened: "cf \<in> set ALL_CFS \<Longrightarrow> cf_handle rdb db cf"
    and read: "get_cf rdb db cf k = Inr (view db cf k)"
    and written: "\<exists>db'. write_cf rdb db batch = Inr db' \<and>
      (\<forall>cf k. view db' cf k = after_batch batch cf k (view db cf k))"
    and put: "\<exists>db'. put_cf rdb db cf k v = Inr db' \<and>
      (\<forall>cf' k'. view db' cf' k' = (if cf' = cf \<and> k' = k then Some v else view db cf' k'))"
    and deleted: "\<exists>db'. delete_cf rdb db cf k = Inr db' \<and>
      (\<forall>cf' k'. view db' cf' k' = (if cf' = cf \<and> k' = k then None else view db cf' k'))"
begin

lemma get_view: "cf \<in> set ALL_CFS \<Longrightarrow> db_get rdb db cf k = Inr (view db cf k)"
  by (simp add: db_get_def resolve_cf_def opened read)

lemma write_view:
  obtains db' where "write_batch rdb db batch = Inr db'"
    and "\<And>cf k. view db' cf k = after_batch batch cf k (view db cf k)"
  using written [of db batch] by (auto simp: write_batch_def)

lemma put_view:
  assumes "cf \<in> set ALL_CFS"
  obtains db' where "db_put rdb db cf k v = Inr db'"
    and "\<And>cf' k'. view db' cf' k' = (if cf' = cf \<and> k' = k then Some v else view db cf' k')"
  using put [of db cf k v] assms by (auto simp: db_put_def resolve_cf_def opened)

lemma delete_view:
  assumes "cf \<in> set ALL_CFS"
  obtains db' where "db_delete rdb db cf k = Inr db'"
    and "\<And>cf' k'. view db' cf' k' = (if cf' = cf \<and> k' = k then None else view db cf' k')"
  using deleted [of db cf k] assms by (auto simp: db_delete_def resolve_cf_def opened)

end

subsection \<open>An in-memory store\<close>

text \<open>
  The contract has a model: a finite map over column family and key. It also runs, so the
  operations below can be evaluated on it.
\<close>

type_synonym mem_db = "(string \<times> bytes, bytes) fmap"

fun mem_apply :: "batch_op \<Rightarrow> (string \<times> bytes, bytes) fmap \<Rightarrow> (string \<times> bytes, bytes) fmap" where
  "mem_apply (Put_cf cf k v) m = fmupd (cf, k) v m"
| "mem_apply (Delete_cf cf k) m = fmdrop (cf, k) m"

definition mem_rocksdb :: "(string \<times> bytes, bytes) fmap rocksdb" where
  "mem_rocksdb = \<lparr>cf_handle = (\<lambda>_ cf. cf \<in> set ALL_CFS),
     get_cf = (\<lambda>m cf k. Inr (fmlookup m (cf, k))),
     put_cf = (\<lambda>m cf k v. Inr (fmupd (cf, k) v m)),
     delete_cf = (\<lambda>m cf k. Inr (fmdrop (cf, k) m)),
     write_cf = (\<lambda>m batch. Inr (fold mem_apply batch m))\<rparr>"

lemma fold_mem_apply:
  "fmlookup (fold mem_apply batch m) (cf, k) = after_batch batch cf k (fmlookup m (cf, k))"
proof (induction batch arbitrary: m)
  case (Cons op batch)
  then show ?case by (cases op) auto
qed simp

interpretation mem: rocksdb_laws mem_rocksdb "\<lambda>m cf k. fmlookup m (cf, k)"
  by unfold_locales (auto simp: mem_rocksdb_def fold_mem_apply)

subsection \<open>Nibble paths\<close>

type_synonym nibble_path = "u8 list"

definition from_bytes :: "bytes \<Rightarrow> nibble_path" where
  "from_bytes key = concat (map (\<lambda>b. [drop_bit 4 b, and b 0x0F]) key)"

definition from_nibbles :: "u8 list \<Rightarrow> nibble_path option" where
  "from_nibbles nibbles = (if list_ex (\<lambda>n. n > 15) nibbles then None else Some nibbles)"

definition np_get :: "nibble_path \<Rightarrow> nat \<Rightarrow> u8 option" where
  "np_get p i = (if i < length p then Some (p ! i) else None)"

definition skip :: "nibble_path \<Rightarrow> nat \<Rightarrow> nibble_path" where
  "skip p n = drop (min n (length p)) p"

definition np_take :: "nibble_path \<Rightarrow> nat \<Rightarrow> nibble_path" where
  "np_take p n = take (min n (length p)) p"

definition common_prefix_len :: "nibble_path \<Rightarrow> nibble_path \<Rightarrow> nat" where
  "common_prefix_len p q = length (takeWhile (\<lambda>(a, b). a = b) (zip p q))"

definition starts_with :: "nibble_path \<Rightarrow> nibble_path \<Rightarrow> bool" where
  "starts_with p pre \<longleftrightarrow> length pre \<le> length p \<and> take (length pre) p = pre"

definition prepend_nibble :: "nibble_path \<Rightarrow> u8 \<Rightarrow> nibble_path" where
  "prepend_nibble p n = n # p"

definition nibbles_ok :: "nibble_path \<Rightarrow> bool" where
  "nibbles_ok p \<longleftrightarrow> list_all (\<lambda>n. n \<le> 15) p"

lemma skip_drop [simp]: "skip p n = drop n p"
  by (simp add: skip_def min_def)

lemma np_take_take [simp]: "np_take p n = take n p"
  by (simp add: np_take_def min_def)

lemma starts_with_iff: "starts_with p pre \<longleftrightarrow> (\<exists>q. p = pre @ q)"
  unfolding starts_with_def by (metis append_take_drop_id append_eq_conv_conj nat_le_linear take_all)

lemma starts_with_append [simp]: "starts_with (pre @ q) pre"
  by (auto simp: starts_with_iff)

lemma common_prefix_split:
  "take (common_prefix_len p q) p = take (common_prefix_len p q) q"
  "common_prefix_len p q \<le> length p" "common_prefix_len p q \<le> length q"
  "common_prefix_len p q < length p \<Longrightarrow> common_prefix_len p q < length q \<Longrightarrow>
    p ! common_prefix_len p q \<noteq> q ! common_prefix_len p q"
  unfolding common_prefix_len_def
  by (induction p q rule: list_induct2') auto

lemma common_prefix_append [simp]: "common_prefix_len p (p @ q) = length p" "common_prefix_len (p @ q) p = length p"
  "common_prefix_len p p = length p"
  unfolding common_prefix_len_def by (induction p) auto

subsection \<open>Trie nodes\<close>

text \<open>The array \<open>[Option<Hash>; 16]\<close> is a list; \<open>node_ok\<close> says that it has its 16 slots.\<close>

datatype trie_node =
    Branch "hash option list" "bytes option"
  | Extension nibble_path hash
  | Leaf nibble_path bytes

definition empty_branch :: trie_node where
  "empty_branch = Branch (replicate 16 None) None"

fun set_child :: "trie_node \<Rightarrow> nat \<Rightarrow> hash \<Rightarrow> trie_node" where
  "set_child (Branch children val) n h = Branch (if n < length children then children[n := Some h] else children) val"
| "set_child node n h = node"

fun get_child :: "trie_node \<Rightarrow> nat \<Rightarrow> hash option" where
  "get_child (Branch children val) n = (if n < length children then children ! n else None)"
| "get_child node n = None"

fun child_count :: "trie_node \<Rightarrow> nat option" where
  "child_count (Branch children val) = Some (length (filter (\<lambda>c. c \<noteq> None) children))"
| "child_count node = None"

text \<open>\<open>if let TrieNode::Branch { ref mut value, .. } = branch { *value = Some(v) }\<close>\<close>

fun set_value :: "trie_node \<Rightarrow> bytes \<Rightarrow> trie_node" where
  "set_value (Branch children val) v = Branch children (Some v)"
| "set_value node v = node"

fun node_ok :: "trie_node \<Rightarrow> bool" where
  "node_ok (Branch children val) \<longleftrightarrow> length children = 16"
| "node_ok node \<longleftrightarrow> True"

text \<open>
  The services the trie is built on: the database, the hasher, and the two directions of
  bincode for nodes. \<open>TrieNode::hash\<close> serializes and hashes; the text of a serializer error
  passes through \<open>CryptoError\<close>.
\<close>

record 'db trie_env =
  te_rdb :: "'db rocksdb"
  te_blake3 :: hasher
  te_ser :: "trie_node \<Rightarrow> string + bytes"
  te_de :: "bytes \<Rightarrow> string + trie_node"

definition node_hash :: "'db trie_env \<Rightarrow> trie_node \<Rightarrow> storage_error + hash" where
  "node_hash env node = map_err (\<lambda>reason. SerializationFailed (''serialization failed: '' @ reason))
     (rbind (te_ser env node) (\<lambda>bs. Inr (te_blake3 env bs)))"

text \<open>
  Ways a trie operation ends without a result: an error of the source, an index out of
  bounds, or a recursion deeper than the given fuel.
\<close>

datatype trie_abort = Failed storage_error | Panicked | OutOfFuel

definition load_node :: "'db trie_env \<Rightarrow> 'db \<Rightarrow> hash \<Rightarrow> trie_abort + trie_node" where
  "load_node env db h =
     rbind (map_err Failed (db_get (te_rdb env) db CF_TRIE_NODES (to_be_bytes h))) (\<lambda>found.
     rbind (ok_or found (Failed (TrieNodeNotFound h))) (\<lambda>bs.
     map_err (\<lambda>reason. Failed (SerializationFailed reason)) (te_de env bs)))"

definition store_node ::
  "'db trie_env \<Rightarrow> 'db \<Rightarrow> write_batch \<Rightarrow> trie_node \<Rightarrow> trie_abort + hash \<times> write_batch" where
  "store_node env db batch node =
     rbind (map_err Failed (node_hash env node)) (\<lambda>h.
     rbind (map_err (\<lambda>reason. Failed (SerializationFailed reason)) (te_ser env node)) (\<lambda>encoded.
     rbind (map_err Failed (batch_put (te_rdb env) db batch CF_TRIE_NODES (to_be_bytes h) encoded)) (\<lambda>batch'.
     Inr (h, batch'))))"

subsection \<open>The services a trie relies on\<close>

text \<open>The bytes of a node, where serialization succeeds, and their hash.\<close>

definition node_bytes :: "'db trie_env \<Rightarrow> trie_node \<Rightarrow> bytes" where
  "node_bytes env node = (case te_ser env node of Inr bs \<Rightarrow> bs | Inl _ \<Rightarrow> [])"

definition node_ref :: "'db trie_env \<Rightarrow> trie_node \<Rightarrow> hash" where
  "node_ref env node = te_blake3 env (node_bytes env node)"

definition node_put :: "'db trie_env \<Rightarrow> trie_node \<Rightarrow> batch_op" where
  "node_put env node = Put_cf CF_TRIE_NODES (to_be_bytes (node_ref env node)) (node_bytes env node)"

text \<open>A store holds a node when the node's bytes are found under its hash.\<close>

definition holds_node :: "'db trie_env \<Rightarrow> ('db \<Rightarrow> string \<Rightarrow> bytes \<Rightarrow> bytes option) \<Rightarrow> 'db \<Rightarrow> trie_node \<Rightarrow> bool" where
  "holds_node env view db node \<longleftrightarrow>
     view db CF_TRIE_NODES (to_be_bytes (node_ref env node)) = Some (node_bytes env node)"

locale trie_backend = rocksdb_laws "te_rdb env" view
  for env :: "'db trie_env" and view :: "'db \<Rightarrow> string \<Rightarrow> bytes \<Rightarrow> bytes option" +
  assumes lossless: "node_ok node \<Longrightarrow> \<exists>bs. te_ser env node = Inr bs \<and> te_de env bs = Inr node"
begin

lemma ser_node: "node_ok node \<Longrightarrow> te_ser env node = Inr (node_bytes env node)"
  and de_node: "node_ok node \<Longrightarrow> te_de env (node_bytes env node) = Inr node"
  using lossless [of node] by (auto simp: node_bytes_def)

lemma hash_node: "node_ok node \<Longrightarrow> node_hash env node = Inr (node_ref env node)"
  by (simp add: node_hash_def ser_node node_ref_def)

lemma trie_family: "CF_TRIE_NODES \<in> set ALL_CFS"
  by (simp add: ALL_CFS_def)

lemma load_held:
  "node_ok node \<Longrightarrow> holds_node env view db node \<Longrightarrow> load_node env db (node_ref env node) = Inr node"
  by (simp add: load_node_def get_view [OF trie_family] holds_node_def de_node)

lemma store_ok:
  "node_ok node \<Longrightarrow> store_node env db batch node = Inr (node_ref env node, batch @ [node_put env node])"
  by (simp add: store_node_def hash_node ser_node batch_put_def resolve_cf_def opened [OF trie_family] node_put_def)

lemma bytes_inj: "node_ok m \<Longrightarrow> node_ok n \<Longrightarrow> node_bytes env m = node_bytes env n \<Longrightarrow> m = n"
  using de_node by (metis sum.inject(2))

end

subsection \<open>An in-memory backend\<close>

text \<open>A self-delimiting code for nodes: the serializer's contract has a model that runs.\<close>

function code_nat :: "nat \<Rightarrow> bytes" where
  "code_nat n = (if n = 0 then [0] else 1 # of_nat (n mod 256) # code_nat (n div 256))"
  by pat_completeness auto

termination code_nat
  by (relation "measure id") auto

declare code_nat.simps [simp del]

fun cut_nat :: "bytes \<Rightarrow> (nat \<times> bytes) option" where
  "cut_nat (b # bs) = (if b = 0 then Some (0, bs) else
     (case bs of d # bs' \<Rightarrow> map_option (\<lambda>(n, r). (256 * n + unat d, r)) (cut_nat bs') | [] \<Rightarrow> None))"
| "cut_nat [] = None"

fun code_bytes :: "bytes \<Rightarrow> bytes" where
  "code_bytes [] = [0]"
| "code_bytes (b # bs) = 1 # b # code_bytes bs"

fun cut_bytes :: "bytes \<Rightarrow> (bytes \<times> bytes) option" where
  "cut_bytes (b # bs) = (if b = 0 then Some ([], bs) else
     (case bs of d # bs' \<Rightarrow> map_option (\<lambda>(xs, r). (d # xs, r)) (cut_bytes bs') | [] \<Rightarrow> None))"
| "cut_bytes [] = None"

fun code_slots :: "hash option list \<Rightarrow> bytes" where
  "code_slots [] = [0]"
| "code_slots (None # cs) = 1 # code_slots cs"
| "code_slots (Some h # cs) = 2 # code_nat (unat h) @ code_slots cs"

lemma cut_nat_shorter: "cut_nat bs = Some (n, r) \<Longrightarrow> length r < length bs"
  by (induction bs arbitrary: n r rule: cut_nat.induct) (auto split: if_splits list.splits, fastforce)

function cut_slots :: "bytes \<Rightarrow> (hash option list \<times> bytes) option" where
  "cut_slots bs = (case bs of [] \<Rightarrow> None
   | b # bs' \<Rightarrow> if b = 0 then Some ([], bs')
     else if b = 1 then map_option (\<lambda>(cs, r). (None # cs, r)) (cut_slots bs')
     else (case cut_nat bs' of None \<Rightarrow> None
       | Some (n, r) \<Rightarrow> map_option (\<lambda>(cs, r'). (Some (of_nat n) # cs, r')) (cut_slots r)))"
  by pat_completeness auto

termination cut_slots
  by (relation "measure length") (auto dest: cut_nat_shorter)

declare cut_slots.simps [simp del]

fun code_value :: "bytes option \<Rightarrow> bytes" where
  "code_value None = [0]"
| "code_value (Some v) = 1 # code_bytes v"

definition cut_value :: "bytes \<Rightarrow> (bytes option \<times> bytes) option" where
  "cut_value bs = (case bs of [] \<Rightarrow> None
   | b # r \<Rightarrow> if b = 0 then Some (None, r) else map_option (\<lambda>(v, r'). (Some v, r')) (cut_bytes r))"

fun code_node :: "trie_node \<Rightarrow> bytes" where
  "code_node (Branch cs val) = 0 # code_slots cs @ code_value val"
| "code_node (Extension p h) = 1 # code_bytes p @ code_nat (unat h)"
| "code_node (Leaf p v) = 2 # code_bytes p @ code_bytes v"

definition cut_node :: "bytes \<Rightarrow> trie_node option" where
  "cut_node bs = (case bs of [] \<Rightarrow> None
   | b # r \<Rightarrow>
     if b = 0 then (case cut_slots r of None \<Rightarrow> None
       | Some (cs, r') \<Rightarrow> map_option (\<lambda>(val, _). Branch cs val) (cut_value r'))
     else (case cut_bytes r of None \<Rightarrow> None
       | Some (p, r') \<Rightarrow> if b = 1 then map_option (\<lambda>(n, _). Extension p (of_nat n)) (cut_nat r')
           else map_option (\<lambda>(v, _). Leaf p v) (cut_bytes r')))"

lemma cut_code_nat [simp]: "cut_nat (code_nat n @ r) = Some (n, r)"
proof (induction n rule: code_nat.induct)
  case (1 n)
  have "unat (of_nat (n mod 256) :: u8) = n mod 256"
    by (simp add: unat_of_nat)
  with 1 show ?case by (simp add: code_nat.simps [of n])
qed

lemma cut_code_bytes [simp]: "cut_bytes (code_bytes xs @ r) = Some (xs, r)"
  by (induction xs) auto

lemma cut_code_slots [simp]: "cut_slots (code_slots cs @ r) = Some (cs, r)"
  by (induction cs rule: code_slots.induct) (auto simp: cut_slots.simps)

lemma cut_code_value [simp]: "cut_value (code_value val @ r) = Some (val, r)"
  by (cases val) (auto simp: cut_value_def)

lemma cut_code_value' [simp]: "cut_value (code_value val) = Some (val, [])"
  "cut_nat (code_nat n) = Some (n, [])" "cut_bytes (code_bytes v) = Some (v, [])"
  using cut_code_value [of val "[]"] cut_code_nat [of n "[]"] cut_code_bytes [of v "[]"] by simp_all

lemma cut_code_node: "cut_node (code_node node) = Some node"
  by (cases node) (simp_all add: cut_node_def)

definition mem_trie_env :: "hasher \<Rightarrow> (string \<times> bytes, bytes) fmap trie_env" where
  "mem_trie_env blake3 = \<lparr>te_rdb = mem_rocksdb, te_blake3 = blake3,
     te_ser = (\<lambda>node. Inr (code_node node)),
     te_de = (\<lambda>bs. ok_or (cut_node bs) ''io error: unexpected end of file'')\<rparr>"

interpretation mem_trie: trie_backend "mem_trie_env blake3" "\<lambda>m cf k. fmlookup m (cf, k)"
  by (intro trie_backend.intro trie_backend_axioms.intro)
    (simp_all add: mem_trie_env_def cut_code_node mem.rocksdb_laws_axioms)

end
