(* ===== verification/Trie_Spec.thy ===== *)
theory Trie_Spec
  imports Trie_Node
begin

section \<open>Specification of the state trie\<close>

text \<open>
  A trie as a value, without hashes and databases: the reference against which the code of
  \<^verbatim>\<open>trie/trie.rs\<close> is verified in \<open>State_Trie\<close>. The trees insertion builds are canonical (\<open>tree_ok\<close>):
  an extension is non-empty and leads to a branch, a branch has at least two entries. Two
  canonical trees with the same contents are equal, which is why a state root depends on the
  contents alone.
\<close>

datatype tree =
    TLeaf nibble_path bytes
  | TExt nibble_path tree
  | TBranch "tree option list" "bytes option"

primrec tree_lookup :: "tree \<Rightarrow> nibble_path \<Rightarrow> bytes option" where
  "tree_lookup (TLeaf p v) = (\<lambda>path. if p = path then Some v else None)"
| "tree_lookup (TExt p t) = (\<lambda>path. if starts_with path p then tree_lookup t (drop (length p) path) else None)"
| "tree_lookup (TBranch ts bv) = (\<lambda>path. case path of
     [] \<Rightarrow> bv
   | n # path' \<Rightarrow> if unat n < length ts
       then case map (map_option tree_lookup) ts ! unat n of None \<Rightarrow> None | Some look \<Rightarrow> look path'
       else None)"

definition branch0 :: tree where
  "branch0 = TBranch (replicate 16 None) None"

definition wrap :: "nibble_path \<Rightarrow> tree \<Rightarrow> tree" where
  "wrap p t = (if p = [] then t else TExt p t)"

fun hang :: "tree \<Rightarrow> nibble_path \<Rightarrow> tree \<Rightarrow> tree" where
  "hang (TBranch ts bv) (n # _) t = TBranch (ts[unat n := Some t]) bv"
| "hang b _ t = b"

fun hang_value :: "tree \<Rightarrow> nibble_path \<Rightarrow> bytes \<Rightarrow> tree" where
  "hang_value (TBranch ts bv) [] v = TBranch ts (Some v)"
| "hang_value b p v = hang b p (TLeaf (tl p) v)"

primrec tree_insert :: "tree \<Rightarrow> nibble_path \<Rightarrow> bytes \<Rightarrow> tree" where
  "tree_insert (TLeaf p u) = (\<lambda>path v.
     let c = common_prefix_len p path in
     if c = length p \<and> c = length path then TLeaf p v
     else wrap (take c p) (hang_value (hang_value branch0 (drop c p) u) (drop c path) v))"
| "tree_insert (TExt p t) = (\<lambda>path v.
     let c = common_prefix_len path p in
     if c = length p then TExt p (tree_insert t (drop c path) v)
     else wrap (take c p) (hang_value (hang branch0 (drop c p) (wrap (drop (c + 1) p) t)) (drop c path) v))"
| "tree_insert (TBranch ts bv) = (\<lambda>path v. case path of
     [] \<Rightarrow> TBranch ts (Some v)
   | n # path' \<Rightarrow> TBranch (ts[unat n := Some
       (case map (map_option tree_insert) ts ! unat n of None \<Rightarrow> TLeaf path' v | Some ins \<Rightarrow> ins path' v)]) bv)"

fun is_TBranch :: "tree \<Rightarrow> bool" where
  "is_TBranch (TBranch _ _) = True"
| "is_TBranch _ = False"

definition entries :: "tree option list \<Rightarrow> bytes option \<Rightarrow> nat" where
  "entries ts bv = length (filter (\<lambda>c. c \<noteq> None) ts) + (if bv = None then 0 else 1)"

primrec tree_ok :: "tree \<Rightarrow> bool" where
  "tree_ok (TLeaf p v) \<longleftrightarrow> nibbles_ok p"
| "tree_ok (TExt p t) \<longleftrightarrow> p \<noteq> [] \<and> nibbles_ok p \<and> is_TBranch t \<and> tree_ok t"
| "tree_ok (TBranch ts bv) \<longleftrightarrow> length ts = 16 \<and> 2 \<le> entries ts bv \<and>
     list_all (\<lambda>c. c \<noteq> Some False) (map (map_option tree_ok) ts)"

lemma tree_lookup_branch [simp]:
  "tree_lookup (TBranch ts bv) [] = bv"
  "tree_lookup (TBranch ts bv) (n # p) = (if unat n < length ts
     then case ts ! unat n of None \<Rightarrow> None | Some t \<Rightarrow> tree_lookup t p else None)"
  by (auto split: option.split)

lemma tree_insert_branch [simp]:
  "tree_insert (TBranch ts bv) [] v = TBranch ts (Some v)"
  "unat n < length ts \<Longrightarrow> tree_insert (TBranch ts bv) (n # p) v = TBranch (ts[unat n := Some
     (case ts ! unat n of None \<Rightarrow> TLeaf p v | Some t \<Rightarrow> tree_insert t p v)]) bv"
  by (auto split: option.split)

lemma tree_ok_branch [simp]:
  "tree_ok (TBranch ts bv) \<longleftrightarrow> length ts = 16 \<and> 2 \<le> entries ts bv \<and> (\<forall>t. Some t \<in> set ts \<longrightarrow> tree_ok t)"
  by (auto simp: list_all_iff)

declare tree_lookup.simps(3) [simp del] tree_insert.simps(3) [simp del] tree_ok.simps(3) [simp del]

lemma common_prefixE:
  obtains c x y where "p = c @ x" "q = c @ y" "common_prefix_len p q = length c"
    "x = [] \<or> y = [] \<or> hd x \<noteq> hd y"
proof -
  let ?n = "common_prefix_len p q"
  have "p = take ?n p @ drop ?n p" by simp
  moreover have "q = take ?n p @ drop ?n q"
    using common_prefix_split(1) [of p q] by (metis append_take_drop_id)
  moreover have "drop ?n p = [] \<or> drop ?n q = [] \<or> hd (drop ?n p) \<noteq> hd (drop ?n q)"
    using common_prefix_split(4) [of p q] by (auto simp: hd_drop_conv_nth not_le)
  moreover have "?n = length (take ?n p)" using common_prefix_split(2) by simp
  ultimately show thesis using that by blast
qed

lemma nibble_less: "(n :: u8) \<le> 15 \<Longrightarrow> unat n < 16"
  by (simp add: word_le_nat_alt)

lemma unat_byte_eq [simp]: "unat (a :: u8) = unat b \<longleftrightarrow> a = b"
  by (simp add: word_unat_eq_iff)

lemma nibbles_ok_simps [simp]:
  "nibbles_ok []" "nibbles_ok (n # p) \<longleftrightarrow> n \<le> 15 \<and> nibbles_ok p" "nibbles_ok (p @ q) \<longleftrightarrow> nibbles_ok p \<and> nibbles_ok q"
  by (auto simp: nibbles_ok_def)

subsection \<open>Lookup after insertion\<close>

lemma lookup_wrap:
  "tree_lookup (wrap p t) q = (if starts_with q p then tree_lookup t (drop (length p) q) else None)"
  by (simp add: wrap_def starts_with_def)

fun free_at :: "tree \<Rightarrow> nibble_path \<Rightarrow> bool" where
  "free_at (TBranch ts bv) [] \<longleftrightarrow> length ts = 16 \<and> bv = None"
| "free_at (TBranch ts bv) (n # p) \<longleftrightarrow> length ts = 16 \<and> unat n < 16 \<and> ts ! unat n = None"
| "free_at _ _ \<longleftrightarrow> False"

lemma lookup_hang:
  "free_at b (n # p) \<Longrightarrow> tree_lookup (hang b (n # p) t) q =
    (case q of [] \<Rightarrow> tree_lookup b q | m # q' \<Rightarrow> if m = n then tree_lookup t q' else tree_lookup b q)"
  by (cases b; cases q) (auto simp: nth_list_update)

lemma lookup_hang_value:
  "free_at b p \<Longrightarrow> tree_lookup (hang_value b p v) q = (if q = p then Some v else tree_lookup b q)"
  by (cases b; cases p; cases q) (auto simp: nth_list_update)

lemma free_branch0 [simp]: "free_at branch0 p \<longleftrightarrow> (p = [] \<or> unat (hd p) < 16)"
  by (cases p) (auto simp: branch0_def)

lemma lookup_branch0 [simp]: "tree_lookup branch0 q = None"
  by (cases q) (auto simp: branch0_def)

lemma free_hang:
  "free_at b (n # x) \<Longrightarrow> free_at b p \<Longrightarrow> p = [] \<or> hd p \<noteq> n \<Longrightarrow> free_at (hang b (n # x) t) p"
  by (cases b; cases p) (auto simp: nth_list_update)

lemma free_hang_value:
  "free_at b x \<Longrightarrow> free_at b p \<Longrightarrow> x \<noteq> [] \<or> p \<noteq> [] \<Longrightarrow> x = [] \<or> p = [] \<or> hd x \<noteq> hd p \<Longrightarrow>
    free_at (hang_value b x v) p"
  by (cases b; cases p; cases x) (auto simp: nth_list_update)

lemma lookup_insert:
  "tree_ok t \<Longrightarrow> nibbles_ok path \<Longrightarrow>
    tree_lookup (tree_insert t path v) q = (if q = path then Some v else tree_lookup t q)"
proof (induction t arbitrary: path q)
  case (TLeaf p u)
  obtain c x y where cxy: "p = c @ x" "path = c @ y" "common_prefix_len p path = length c"
    "x = [] \<or> y = [] \<or> hd x \<noteq> hd y" by (rule common_prefixE)
  have heads: "x = [] \<or> unat (hd x) < 16" "y = [] \<or> unat (hd y) < 16"
    using TLeaf.prems cxy nibble_less by (cases x; cases y; auto)+
  show ?case
  proof (cases "x = [] \<and> y = []")
    case True with cxy show ?thesis by simp
  next
    case False
    with cxy(4) heads have "free_at (hang_value branch0 x u) y"
      by (intro free_hang_value) auto
    moreover have "tree_lookup (hang_value branch0 x u) z = (if z = x then Some u else None)" for z
      using heads by (simp add: lookup_hang_value)
    ultimately show ?thesis
      using False cxy by (auto simp: lookup_wrap lookup_hang_value starts_with_iff split: if_splits)
  qed
next
  case (TExt p t)
  obtain c x y where cxy: "path = c @ x" "p = c @ y" "common_prefix_len path p = length c"
    "x = [] \<or> y = [] \<or> hd x \<noteq> hd y" by (rule common_prefixE)
  show ?case
  proof (cases y)
    case Nil
    with TExt cxy show ?thesis by (auto simp: starts_with_iff)
  next
    case (Cons m y')
    have heads: "unat m < 16" "x = [] \<or> unat (hd x) < 16"
      using TExt.prems cxy Cons nibble_less by (cases x; auto)+
    with cxy(4) Cons have "free_at (hang branch0 y (wrap y' t)) x"
      by (auto intro!: free_hang)
    with cxy heads Cons show ?thesis
      by (auto simp: lookup_wrap lookup_hang_value lookup_hang starts_with_iff split: list.splits)
  qed
next
  case (TBranch ts bv)
  show ?case
  proof (cases path)
    case Nil then show ?thesis by (cases q) auto
  next
    case (Cons n p)
    with TBranch.prems have n: "unat n < length ts" using nibble_less by auto
    have IH: "tree_lookup (tree_insert t p v) q = (if q = p then Some v else tree_lookup t q)"
      if "ts ! unat n = Some t" for t q
      using TBranch.IH [of "Some t" t p q] TBranch.prems Cons that n nth_mem [OF n] by auto
    from Cons n IH show ?thesis
      by (cases q) (auto simp: nth_list_update split: option.splits)
  qed
qed
subsection \<open>Insertion keeps trees canonical\<close>

lemma length_filter_update:
  "i < length xs \<Longrightarrow> length (filter P (xs[i := x])) + (if P (xs ! i) then 1 else 0) =
    length (filter P xs) + (if P x then 1 else 0)"
proof (induction xs arbitrary: i)
  case (Cons y xs)
  then show ?case by (cases i) auto
qed simp

lemma entries_update:
  "i < length ts \<Longrightarrow> ts ! i = None \<Longrightarrow> entries (ts[i := Some t]) bv = entries ts bv + 1"
  "i < length ts \<Longrightarrow> ts ! i \<noteq> None \<Longrightarrow> entries (ts[i := Some t]) bv = entries ts bv"
  using length_filter_update [of i ts "\<lambda>c. c \<noteq> None" "Some t"] by (auto simp: entries_def)

fun branch_with :: "nat \<Rightarrow> tree \<Rightarrow> bool" where
  "branch_with k (TBranch ts bv) \<longleftrightarrow> length ts = 16 \<and> k \<le> entries ts bv \<and> (\<forall>t. Some t \<in> set ts \<longrightarrow> tree_ok t)"
| "branch_with k _ \<longleftrightarrow> False"

lemma branch_with_ok: "branch_with 2 b \<longleftrightarrow> tree_ok b \<and> is_TBranch b"
  by (cases b) auto

lemma branch_with_branch0: "branch_with 0 branch0"
  by (simp add: branch0_def)

lemma Some_in_update: "Some t \<in> set (ts[i := Some u]) \<Longrightarrow> t = u \<or> Some t \<in> set ts"
  using set_update_subset_insert [of ts i "Some u"] by auto

lemma branch_with_hang:
  "branch_with k b \<Longrightarrow> free_at b (n # p) \<Longrightarrow> tree_ok t \<Longrightarrow> branch_with (Suc k) (hang b (n # p) t)"
  by (cases b) (auto simp: entries_update dest: Some_in_update)

lemma branch_with_hang_value:
  "branch_with k b \<Longrightarrow> free_at b p \<Longrightarrow> nibbles_ok p \<Longrightarrow> branch_with (Suc k) (hang_value b p v)"
proof (cases p)
  case Nil
  assume "branch_with k b" "free_at b p"
  with Nil show ?thesis by (cases b) (auto simp: entries_def)
next
  case (Cons n q)
  assume "branch_with k b" "free_at b p" "nibbles_ok p"
  with Cons show ?thesis by (cases b) (auto simp: entries_update dest: Some_in_update)
qed

lemma wrap_ok: "branch_with 2 b \<Longrightarrow> nibbles_ok p \<Longrightarrow> tree_ok (wrap p b)"
  by (simp add: wrap_def branch_with_ok)

lemma is_TBranch_insert: "is_TBranch t \<Longrightarrow> is_TBranch (tree_insert t p v)"
  by (cases t) (auto simp: tree_insert.simps(3) split: list.splits)

lemma insert_ok: "tree_ok t \<Longrightarrow> nibbles_ok path \<Longrightarrow> tree_ok (tree_insert t path v)"
proof (induction t arbitrary: path)
  case (TLeaf p u)
  obtain c x y where cxy: "p = c @ x" "path = c @ y" "common_prefix_len p path = length c"
    "x = [] \<or> y = [] \<or> hd x \<noteq> hd y" by (rule common_prefixE)
  have heads: "x = [] \<or> unat (hd x) < 16" "y = [] \<or> unat (hd y) < 16"
    using TLeaf.prems cxy nibble_less by (cases x; cases y; auto)+
  show ?case
  proof (cases "x = [] \<and> y = []")
    case True with cxy TLeaf.prems show ?thesis by simp
  next
    case False
    with cxy(4) heads have "free_at (hang_value branch0 x u) y"
      by (intro free_hang_value) auto
    then have "branch_with 2 (hang_value (hang_value branch0 x u) y v)"
      using TLeaf.prems cxy heads
        branch_with_hang_value [OF branch_with_hang_value [OF branch_with_branch0]] by (simp add: numeral_2_eq_2)
    with wrap_ok False TLeaf.prems cxy show ?thesis by auto
  qed
next
  case (TExt p t)
  obtain c x y where cxy: "path = c @ x" "p = c @ y" "common_prefix_len path p = length c"
    "x = [] \<or> y = [] \<or> hd x \<noteq> hd y" by (rule common_prefixE)
  show ?case
  proof (cases y)
    case Nil
    with TExt cxy is_TBranch_insert show ?thesis by auto
  next
    case (Cons m y')
    have heads: "unat m < 16" "x = [] \<or> unat (hd x) < 16"
      using TExt.prems cxy Cons nibble_less by (cases x; auto)+
    have free: "free_at (hang branch0 y (wrap y' t)) x"
      using heads cxy(4) Cons by (auto intro!: free_hang)
    have "tree_ok (wrap y' t)"
      using TExt.prems cxy Cons by (simp add: wrap_def)
    then have "branch_with (Suc 0) (hang branch0 y (wrap y' t))"
      using branch_with_hang [OF branch_with_branch0] heads Cons by simp
    then have "branch_with 2 (hang_value (hang branch0 y (wrap y' t)) x v)"
      using branch_with_hang_value [OF _ free] TExt.prems cxy by (simp add: numeral_2_eq_2)
    with wrap_ok TExt.prems cxy Cons show ?thesis by auto
  qed
next
  case (TBranch ts bv)
  show ?case
  proof (cases path)
    case Nil then show ?thesis using TBranch.prems by (auto simp: entries_def split: if_splits)
  next
    case (Cons n p)
    with TBranch.prems have n: "unat n < length ts" using nibble_less by auto
    have IH: "tree_ok (tree_insert t p v)" if "ts ! unat n = Some t" for t
      using TBranch.IH [of "Some t" t p] TBranch.prems Cons that n nth_mem [OF n] by auto
    from TBranch.prems Cons n IH show ?thesis
      by (auto simp: entries_update dest!: Some_in_update split: option.splits)
  qed
qed

subsection \<open>The contents determine the tree\<close>

lemma unat_nibble: "i < 16 \<Longrightarrow> unat (of_nat i :: u8) = i"
  by (simp add: unat_of_nat)

lemma ok_has_key: "tree_ok t \<Longrightarrow> \<exists>p v. tree_lookup t p = Some v"
proof (induction t)
  case (TExt p t)
  then obtain q v where "tree_lookup t q = Some v" by auto
  then have "tree_lookup (TExt p t) (p @ q) = Some v" by simp
  then show ?case by blast
next
  case (TBranch ts bv)
  show ?case
  proof (cases bv)
    case None
    with TBranch.prems have "filter (\<lambda>c. c \<noteq> None) ts \<noteq> []" by (auto simp: entries_def)
    then obtain t where t: "Some t \<in> set ts" by (auto simp: filter_empty_conv)
    then obtain i where i: "i < 16" "ts ! i = Some t" using TBranch.prems by (auto simp: in_set_conv_nth)
    obtain q v where "tree_lookup t q = Some v" using TBranch.IH [OF t] TBranch.prems t by auto
    then have "tree_lookup (TBranch ts bv) (of_nat i # q) = Some v"
      using i TBranch.prems by (simp add: unat_of_nat)
    then show ?thesis by blast
  next
    case (Some v)
    then have "tree_lookup (TBranch ts bv) [] = Some v" by simp
    then show ?thesis by blast
  qed
qed auto

lemma two_entries:
  assumes "2 \<le> length (filter P xs)"
  obtains i j where "i < j" "j < length xs" "P (xs ! i)" "P (xs ! j)"
proof -
  have "card {i. i < length xs \<and> P (xs ! i)} \<ge> 2"
    using assms by (simp add: length_filter_conv_card)
  then obtain i j where "i \<noteq> j" "i < length xs" "P (xs ! i)" "j < length xs" "P (xs ! j)"
    by (auto simp: card_le_Suc_iff numeral_2_eq_2)
  then show thesis using that by (metis linorder_neqE_nat)
qed

lemma branch_two_keys:
  assumes ok: "tree_ok (TBranch ts bv)"
  obtains p q u v where "tree_lookup (TBranch ts bv) p = Some u" "tree_lookup (TBranch ts bv) q = Some v"
    "p \<noteq> q" "p = [] \<or> q = [] \<or> hd p \<noteq> hd q"
proof -
  have below: "\<exists>q v. tree_lookup (TBranch ts bv) (of_nat i # q) = Some v" if "i < 16" "ts ! i \<noteq> None" for i
  proof -
    from that obtain t where t: "ts ! i = Some t" by auto
    then have "Some t \<in> set ts" using that ok by (metis nth_mem tree_ok_branch)
    then obtain q v where "tree_lookup t q = Some v" using ok ok_has_key by (meson tree_ok_branch)
    then show ?thesis using t that ok by (auto simp: unat_of_nat)
  qed
  show thesis
  proof (cases bv)
    case (Some u)
    with ok have "filter (\<lambda>c. c \<noteq> None) ts \<noteq> []" by (auto simp: entries_def)
    then obtain i where "i < 16" "ts ! i \<noteq> None" using ok by (auto simp: filter_empty_conv in_set_conv_nth)
    with below obtain q v where "tree_lookup (TBranch ts bv) (of_nat i # q) = Some v" by blast
    with Some that [of "[]" u "of_nat i # q" v] show thesis by simp
  next
    case None
    with ok have "2 \<le> length (filter (\<lambda>c. c \<noteq> None) ts)" by (simp add: entries_def)
    then obtain i j where ij: "i < j" "j < length ts" "ts ! i \<noteq> None" "ts ! j \<noteq> None" by (rule two_entries)
    then obtain p q u v where "tree_lookup (TBranch ts bv) (of_nat i # p) = Some u"
      "tree_lookup (TBranch ts bv) (of_nat j # q) = Some v" using below ok by (metis less_trans tree_ok_branch)
    moreover have "(of_nat i :: u8) \<noteq> of_nat j"
      using ij ok by (metis unat_nibble less_trans less_irrefl tree_ok_branch)
    ultimately show thesis using that by (metis list.inject list.sel(1))
  qed
qed

lemma ext_keys:
  "tree_lookup (TExt p t) q = Some v \<longleftrightarrow> (\<exists>q'. q = p @ q' \<and> tree_lookup t q' = Some v)"
  by (auto simp: starts_with_iff)

lemma ext_two_keys:
  assumes "tree_ok (TExt p t)"
  obtains x y u v where "tree_lookup (TExt p t) (p @ x) = Some u" "tree_lookup (TExt p t) (p @ y) = Some v"
    "x \<noteq> y" "x = [] \<or> y = [] \<or> hd x \<noteq> hd y"
proof -
  from assms obtain ts bv where t: "t = TBranch ts bv" "tree_ok (TBranch ts bv)"
    by (cases t) auto
  obtain x y u v where "tree_lookup t x = Some u" "tree_lookup t y = Some v"
    "x \<noteq> y" "x = [] \<or> y = [] \<or> hd x \<noteq> hd y" unfolding t(1) by (rule branch_two_keys [OF t(2)])
  then show thesis using that [of x u y v] by simp
qed

lemma ext_prefix_le:
  assumes "tree_ok (TExt p t)" and same: "\<And>q. tree_lookup (TExt p t) q = tree_lookup (TExt p' t') q"
  shows "length p' \<le> length p"
proof (rule ccontr)
  assume longer: "\<not> length p' \<le> length p"
  obtain x y u v where xy: "tree_lookup (TExt p t) (p @ x) = Some u" "tree_lookup (TExt p t) (p @ y) = Some v"
    "x \<noteq> y" "x = [] \<or> y = [] \<or> hd x \<noteq> hd y" by (rule ext_two_keys [OF assms(1)])
  then obtain x' y' where "p @ x = p' @ x'" "p @ y = p' @ y'" using same ext_keys by metis
  with longer obtain z where "z \<noteq> []" "x = z @ x'" "y = z @ y'"
    by (auto simp: append_eq_append_conv2)
  with xy(4) show False by auto
qed

lemma ok_unique:
  "tree_ok t \<Longrightarrow> tree_ok t' \<Longrightarrow> (\<And>q. tree_lookup t q = tree_lookup t' q) \<Longrightarrow> t = t'"
proof (induction t arbitrary: t')
  case (TLeaf p u)
  have one: "q = p" if "tree_lookup t' q = Some v" for q v
    using that TLeaf.prems(3) [of q] by (auto split: if_splits)
  show ?case
  proof (cases t')
    case (TLeaf p' u')
    with TLeaf.prems(3) [of p] TLeaf.prems(3) [of p'] show ?thesis by (auto split: if_splits)
  next
    case (TExt p' s)
    with TLeaf.prems(2) ext_two_keys [of p' s] one show ?thesis by (metis append_same_eq same_append_eq)
  next
    case (TBranch ts bv)
    with TLeaf.prems(2) branch_two_keys [of ts bv] one show ?thesis by metis
  qed
next
  case (TExt p s)
  obtain x y u v where xy: "tree_lookup (TExt p s) (p @ x) = Some u" "tree_lookup (TExt p s) (p @ y) = Some v"
    "x \<noteq> y" "x = [] \<or> y = [] \<or> hd x \<noteq> hd y" by (rule ext_two_keys [OF TExt.prems(1)])
  show ?case
  proof (cases t')
    case (TLeaf p' u')
    with xy TExt.prems(3) [of "p @ x"] TExt.prems(3) [of "p @ y"] show ?thesis by (auto split: if_splits)
  next
    case (TExt p' s')
    have len: "length p' = length p"
      using ext_prefix_le [of p s p' s'] ext_prefix_le [of p' s' p s] TExt.prems \<open>t' = TExt p' s'\<close> by (metis le_antisym)
    obtain x' where "p @ x = p' @ x'" using xy(1) TExt.prems(3) \<open>t' = TExt p' s'\<close> ext_keys by metis
    with len have p: "p' = p" by (simp add: append_eq_append_conv)
    have "tree_lookup s q = tree_lookup s' q" for q
      using TExt.prems(3) [of "p @ q"] \<open>t' = TExt p' s'\<close> p by simp
    then show ?thesis using TExt.IH [of s'] TExt.prems(1,2) \<open>t' = TExt p' s'\<close> p by simp
  next
    case (TBranch ts bv)
    then obtain q r a b where "tree_lookup t' q = Some a" "tree_lookup t' r = Some b"
      "q \<noteq> r" "q = [] \<or> r = [] \<or> hd q \<noteq> hd r" using TExt.prems(2) branch_two_keys by metis
    then obtain q' r' where "q = p @ q'" "r = p @ r'" using TExt.prems(3) ext_keys by metis
    with \<open>q = [] \<or> r = [] \<or> hd q \<noteq> hd r\<close> TExt.prems(1) show ?thesis by auto
  qed
next
  case (TBranch ts bv)
  obtain q r a b where qr: "tree_lookup (TBranch ts bv) q = Some a" "tree_lookup (TBranch ts bv) r = Some b"
      "q \<noteq> r" "q = [] \<or> r = [] \<or> hd q \<noteq> hd r" using branch_two_keys [OF TBranch.prems(1)] by metis
  show ?case
  proof (cases t')
    case (TLeaf p' u')
    with qr TBranch.prems(3) [of q] TBranch.prems(3) [of r] show ?thesis by (auto split: if_splits)
  next
    case (TExt p' s')
    with qr TBranch.prems(3) obtain q' r' where "q = p' @ q'" "r = p' @ r'" by (metis ext_keys)
    with qr(4) TBranch.prems(2) TExt show ?thesis by auto
  next
    case (TBranch ts' bv')
    note t' = this
    have bv: "bv = bv'" using TBranch.prems(3) [of "[]"] t' by simp
    have "ts ! i = ts' ! i" if i: "i < 16" for i
    proof -
      have len: "i < length ts" "i < length ts'" using i TBranch.prems(1,2) t' by auto
      have look: "(case ts ! i of None \<Rightarrow> None | Some t \<Rightarrow> tree_lookup t p) =
          (case ts' ! i of None \<Rightarrow> None | Some t \<Rightarrow> tree_lookup t p)" for p
        using TBranch.prems(3) [of "of_nat i # p"] t' len i by (simp add: unat_nibble)
      have key: "\<exists>p v. tree_lookup t p = Some v" if "Some t = ts ! i \<or> Some t = ts' ! i" for t
        using that ok_has_key TBranch.prems(1,2) t' len nth_mem by (metis tree_ok_branch)
      show ?thesis
      proof (cases "ts ! i")
        case None
        with look key show ?thesis by (cases "ts' ! i") force+
      next
        case (Some t)
        with look key obtain t2 where t2: "ts' ! i = Some t2" by (cases "ts' ! i") force+
        moreover have "t = t2"
          using TBranch.IH [of "Some t" t t2] look Some t2 TBranch.prems(1,2) t' len nth_mem [OF len(1)] nth_mem [OF len(2)]
          by auto
        ultimately show ?thesis using Some by simp
      qed
    qed
    then have "ts = ts'" using TBranch.prems(1,2) t' by (intro nth_equalityI) auto
    with bv t' show ?thesis by simp
  qed
qed

end
