(* ===== verification/State_Trie.thy ===== *)
theory State_Trie
  imports Trie_Spec
begin

section \<open>The state trie\<close>

text \<open>
  \<^verbatim>\<open>lemma-storage/src/trie/trie.rs\<close>: lookup, insertion and proof generation over nodes addressed by
  their hash. The recursion follows hashes found in the database, so nothing in the code
  bounds it: every recursive operation takes fuel and ends in \<open>OutOfFuel\<close> below zero. The
  helpers of \<open>insert_recursive\<close> that call it back take it as their argument \<open>rec\<close>.

  Refinement: \<open>tree\<close> is the trie as a value, \<open>tree_lookup\<close> and \<open>tree_insert\<close> its operations, and
  \<open>held\<close> says that a database holds all nodes of a tree. On a held tree, fuel above the length of
  the path is enough, and the operations of the code compute those of the tree.
\<close>

subsection \<open>Lookup\<close>

primrec get_recursive ::
  "nat \<Rightarrow> 'db trie_env \<Rightarrow> 'db \<Rightarrow> hash option \<Rightarrow> nibble_path \<Rightarrow> trie_abort + bytes option" where
  "get_recursive 0 env db node path = Inl OutOfFuel"
| "get_recursive (Suc fuel) env db node path =
     (case node of
       None \<Rightarrow> Inr None
     | Some h \<Rightarrow> rbind (load_node env db h) (\<lambda>n. case n of
         Leaf lp val \<Rightarrow> Inr (if lp = path then Some val else None)
       | Extension pre child \<Rightarrow>
           if starts_with path pre then get_recursive fuel env db (Some child) (skip path (length pre)) else Inr None
       | Branch children bv \<Rightarrow>
           (case np_get path 0 of
             None \<Rightarrow> Inr bv
           | Some nibble \<Rightarrow>
               if unat nibble < length children
               then get_recursive fuel env db (children ! unat nibble) (skip path 1)
               else Inl Panicked)))"

definition trie_get :: "nat \<Rightarrow> 'db trie_env \<Rightarrow> 'db \<Rightarrow> hash option \<Rightarrow> bytes \<Rightarrow> trie_abort + bytes option" where
  "trie_get fuel env db root key = get_recursive fuel env db root (from_bytes key)"

subsection \<open>Insertion\<close>

type_synonym insert_result = "trie_abort + hash \<times> write_batch"

definition insert_at_branch ::
  "'db trie_env \<Rightarrow> 'db \<Rightarrow> (write_batch \<Rightarrow> hash option \<Rightarrow> nibble_path \<Rightarrow> bytes \<Rightarrow> insert_result) \<Rightarrow>
    write_batch \<Rightarrow> hash option list \<Rightarrow> bytes option \<Rightarrow> nibble_path \<Rightarrow> bytes \<Rightarrow> insert_result" where
  "insert_at_branch env db rec batch children bv path val =
     (case np_get path 0 of
       None \<Rightarrow> store_node env db batch (Branch children (Some val))
     | Some nibble \<Rightarrow>
         if unat nibble < length children then
           rbind (rec batch (children ! unat nibble) (skip path 1) val) (\<lambda>(new_child, batch).
           store_node env db batch (Branch (children[unat nibble := Some new_child]) bv))
         else Inl Panicked)"

text \<open>
  The step \<open>split_extension\<close> and \<open>build_diverging_branch\<close> repeat for each of their values: a value
  whose path ends at the branch is stored in it, any other in a leaf below its next nibble.
\<close>

definition hang_leaf ::
  "'db trie_env \<Rightarrow> 'db \<Rightarrow> write_batch \<Rightarrow> trie_node \<Rightarrow> nibble_path \<Rightarrow> bytes \<Rightarrow> nat \<Rightarrow> trie_abort + trie_node \<times> write_batch" where
  "hang_leaf env db batch branch path val common =
     (if length path = common then Inr (set_value branch val, batch)
      else rbind (ok_or (np_get path common) Panicked) (\<lambda>n.
        rbind (store_node env db batch (Leaf (skip path (common + 1)) val)) (\<lambda>(lh, batch).
        Inr (set_child branch (unat n) lh, batch))))"

definition split_extension ::
  "'db trie_env \<Rightarrow> 'db \<Rightarrow> write_batch \<Rightarrow> nibble_path \<Rightarrow> hash \<Rightarrow> nibble_path \<Rightarrow> bytes \<Rightarrow> nat \<Rightarrow> insert_result" where
  "split_extension env db batch pre child path new_value common =
     rbind (ok_or (np_get pre common) Panicked) (\<lambda>ext_nibble.
     rbind (if common + 1 < length pre
         then rbind (store_node env db batch (Extension (skip pre (common + 1)) child)) (\<lambda>(sub_hash, batch).
           Inr (set_child empty_branch (unat ext_nibble) sub_hash, batch))
         else Inr (set_child empty_branch (unat ext_nibble) child, batch)) (\<lambda>(branch, batch).
     rbind (hang_leaf env db batch branch path new_value common) (\<lambda>(branch, batch).
     store_node env db batch branch)))"

definition insert_at_extension ::
  "'db trie_env \<Rightarrow> 'db \<Rightarrow> (write_batch \<Rightarrow> hash option \<Rightarrow> nibble_path \<Rightarrow> bytes \<Rightarrow> insert_result) \<Rightarrow>
    write_batch \<Rightarrow> nibble_path \<Rightarrow> hash \<Rightarrow> nibble_path \<Rightarrow> bytes \<Rightarrow> insert_result" where
  "insert_at_extension env db rec batch pre child path new_value =
     (let common = common_prefix_len path pre in
      if common = length pre then
        rbind (rec batch (Some child) (skip path common) new_value) (\<lambda>(nc, batch).
        store_node env db batch (Extension pre nc))
      else
        rbind (split_extension env db batch pre child path new_value common) (\<lambda>(branch_hash, batch).
        if common > 0 then store_node env db batch (Extension (np_take pre common) branch_hash)
        else Inr (branch_hash, batch)))"

definition build_diverging_branch ::
  "'db trie_env \<Rightarrow> 'db \<Rightarrow> write_batch \<Rightarrow> nibble_path \<Rightarrow> bytes \<Rightarrow> nibble_path \<Rightarrow> bytes \<Rightarrow> nat \<Rightarrow> insert_result" where
  "build_diverging_branch env db batch leaf_path leaf_value new_path new_value common =
     rbind (hang_leaf env db batch empty_branch leaf_path leaf_value common) (\<lambda>(branch, batch).
     rbind (hang_leaf env db batch branch new_path new_value common) (\<lambda>(branch, batch).
     store_node env db batch branch))"

definition insert_at_leaf ::
  "'db trie_env \<Rightarrow> 'db \<Rightarrow> write_batch \<Rightarrow> nibble_path \<Rightarrow> bytes \<Rightarrow> nibble_path \<Rightarrow> bytes \<Rightarrow> insert_result" where
  "insert_at_leaf env db batch leaf_path leaf_value new_path new_value =
     (let common = common_prefix_len leaf_path new_path in
      if common = length leaf_path \<and> common = length new_path
      then store_node env db batch (Leaf leaf_path new_value)
      else
        rbind (build_diverging_branch env db batch leaf_path leaf_value new_path new_value common) (\<lambda>(bh, batch).
        if common > 0 then store_node env db batch (Extension (np_take leaf_path common) bh)
        else Inr (bh, batch)))"

primrec insert_recursive ::
  "nat \<Rightarrow> 'db trie_env \<Rightarrow> 'db \<Rightarrow> write_batch \<Rightarrow> hash option \<Rightarrow> nibble_path \<Rightarrow> bytes \<Rightarrow> insert_result" where
  "insert_recursive 0 env db batch node path val = Inl OutOfFuel"
| "insert_recursive (Suc fuel) env db batch node path val =
     (case node of
       None \<Rightarrow> store_node env db batch (Leaf path val)
     | Some h \<Rightarrow> rbind (load_node env db h) (\<lambda>n. case n of
         Leaf lp lv \<Rightarrow> insert_at_leaf env db batch lp lv path val
       | Extension pre child \<Rightarrow> insert_at_extension env db (insert_recursive fuel env db) batch pre child path val
       | Branch children bv \<Rightarrow> insert_at_branch env db (insert_recursive fuel env db) batch children bv path val))"

text \<open>The trie is its root beside the database; a failed insertion leaves both.\<close>

definition trie_insert ::
  "nat \<Rightarrow> 'db trie_env \<Rightarrow> 'db \<Rightarrow> hash option \<Rightarrow> bytes \<Rightarrow> bytes \<Rightarrow> trie_abort + 'db \<times> hash option" where
  "trie_insert fuel env db root key val =
     rbind (insert_recursive fuel env db [] root (from_bytes key) val) (\<lambda>(new_root, batch).
     rbind (map_err Failed (write_batch (te_rdb env) db batch)) (\<lambda>db'.
     Inr (db', Some new_root)))"

subsection \<open>Trees in a database\<close>

primrec tree_ref :: "'db trie_env \<Rightarrow> tree \<Rightarrow> hash" where
  "tree_ref env (TLeaf p v) = node_ref env (Leaf p v)"
| "tree_ref env (TExt p t) = node_ref env (Extension p (tree_ref env t))"
| "tree_ref env (TBranch ts bv) = node_ref env (Branch (map (map_option (tree_ref env)) ts) bv)"

fun top_node :: "'db trie_env \<Rightarrow> tree \<Rightarrow> trie_node" where
  "top_node env (TLeaf p v) = Leaf p v"
| "top_node env (TExt p t) = Extension p (tree_ref env t)"
| "top_node env (TBranch ts bv) = Branch (map (map_option (tree_ref env)) ts) bv"

primrec tree_nodes :: "'db trie_env \<Rightarrow> tree \<Rightarrow> trie_node set" where
  "tree_nodes env (TLeaf p v) = {Leaf p v}"
| "tree_nodes env (TExt p t) = insert (Extension p (tree_ref env t)) (tree_nodes env t)"
| "tree_nodes env (TBranch ts bv) = insert (Branch (map (map_option (tree_ref env)) ts) bv)
     (\<Union> (set (map (case_option {} id) (map (map_option (tree_nodes env)) ts))))"

fun below :: "'db trie_env \<Rightarrow> tree \<Rightarrow> trie_node set" where
  "below env (TLeaf p v) = {}"
| "below env (TExt p t) = tree_nodes env t"
| "below env (TBranch ts bv) = {n. \<exists>t. Some t \<in> set ts \<and> n \<in> tree_nodes env t}"

lemma tree_ref_top: "tree_ref env t = node_ref env (top_node env t)"
  by (cases t) auto

lemma tree_nodes_top: "tree_nodes env t = insert (top_node env t) (below env t)"
  by (cases t) (auto split: option.splits)

lemma below_hang:
  "free_at b (n # p) \<Longrightarrow> below env (hang b (n # p) t) = below env b \<union> tree_nodes env t"
proof (cases b)
  case (TBranch ts bv)
  assume free: "free_at b (n # p)"
  have "Some u \<in> set (ts[unat n := Some t]) \<longleftrightarrow> u = t \<or> Some u \<in> set ts" for u
    using free TBranch by (auto simp: in_set_conv_nth nth_list_update dest: Some_in_update) (metis option.distinct(1))+
  then show ?thesis using TBranch by auto
qed auto

lemma top_hang:
  "free_at b (n # p) \<Longrightarrow> top_node env (hang b (n # p) t) = set_child (top_node env b) (unat n) (tree_ref env t)"
  by (cases b) (auto simp: map_update)

lemma below_hang_value:
  "free_at b p \<Longrightarrow> below env (hang_value b p v) = below env b \<union> (if p = [] then {} else {Leaf (tl p) v})"
  by (cases b; cases p) (simp_all add: below_hang del: hang.simps)

lemma top_hang_value:
  "free_at b p \<Longrightarrow> top_node env (hang_value b p v) =
    (if p = [] then set_value (top_node env b) v
     else set_child (top_node env b) (unat (hd p)) (node_ref env (Leaf (tl p) v)))"
  by (cases b; cases p) (simp_all add: map_update)

lemma top_branch0 [simp]: "top_node env branch0 = empty_branch" "below env branch0 = {}"
  by (simp_all add: branch0_def empty_branch_def)

lemma top_node_ok: "tree_ok t \<Longrightarrow> node_ok (top_node env t)"
  by (cases t) auto

lemma tree_nodes_ok: "tree_ok t \<Longrightarrow> n \<in> tree_nodes env t \<Longrightarrow> node_ok n"
proof (induction t)
  case (TBranch ts bv)
  show ?case
  proof (cases "n = top_node env (TBranch ts bv)")
    case True
    then show ?thesis using top_node_ok [OF TBranch.prems(1)] by simp
  next
    case False
    with TBranch.prems(2) obtain t where "Some t \<in> set ts" "n \<in> tree_nodes env t"
      unfolding tree_nodes_top [of env "TBranch ts bv"] by auto
    then show ?thesis using TBranch.IH [of "Some t" t] TBranch.prems(1) by auto
  qed
qed auto

lemma child_nodes: "Some t \<in> set ts \<Longrightarrow> tree_nodes env t \<subseteq> below env (TBranch ts bv)"
  by auto

lemma np_get_simps [simp]: "np_get [] i = None" "np_get (n # p) 0 = Some n" "np_get (c @ n # p) (length c) = Some n"
  by (simp_all add: np_get_def)

text \<open>
  \<open>builds\<close>: an insertion returned the reference of a tree and appended to the batch exactly
  nodes of this tree, all but those of \<open>old\<close>. \<open>building\<close>: the same for a branch whose own node
  is not stored yet.
\<close>

definition builds :: "'db trie_env \<Rightarrow> write_batch \<Rightarrow> trie_node set \<Rightarrow> insert_result \<Rightarrow> tree \<Rightarrow> bool" where
  "builds env batch old r t \<longleftrightarrow> (\<exists>new. r = Inr (tree_ref env t, batch @ map (node_put env) new) \<and>
     set new \<subseteq> tree_nodes env t \<and> tree_nodes env t \<subseteq> set new \<union> old)"

definition building ::
  "'db trie_env \<Rightarrow> write_batch \<Rightarrow> trie_node set \<Rightarrow> (trie_abort + trie_node \<times> write_batch) \<Rightarrow> tree \<Rightarrow> bool" where
  "building env batch old r b \<longleftrightarrow> (\<exists>new. r = Inr (top_node env b, batch @ map (node_put env) new) \<and>
     set new \<subseteq> below env b \<and> below env b \<subseteq> set new \<union> old)"

lemma rbind_assoc: "rbind (rbind r f) g = rbind r (\<lambda>x. rbind (f x) g)"
  by (cases r) auto

context trie_backend
begin

definition held :: "'db \<Rightarrow> tree \<Rightarrow> bool" where
  "held db t \<longleftrightarrow> (\<forall>n \<in> tree_nodes env t. holds_node env view db n)"

lemma load_top: "tree_ok t \<Longrightarrow> held db t \<Longrightarrow> load_node env db (tree_ref env t) = Inr (top_node env t)"
  using load_held [of "top_node env t" db] top_node_ok [of t env]
  by (simp add: held_def tree_ref_top [of env t] tree_nodes_top [of env t])

lemma held_child: "held db (TBranch ts bv) \<Longrightarrow> Some t \<in> set ts \<Longrightarrow> held db t"
  and held_ext: "held db (TExt p t) \<Longrightarrow> held db t"
  using child_nodes [of t ts env bv] by (auto simp: held_def tree_nodes_top [of env "TBranch ts bv"])

lemma get_refines:
  "tree_ok t \<Longrightarrow> held db t \<Longrightarrow> nibbles_ok path \<Longrightarrow> length path < fuel \<Longrightarrow>
    get_recursive fuel env db (Some (tree_ref env t)) path = Inr (tree_lookup t path)"
proof (induction t arbitrary: path fuel)
  case (TLeaf p v)
  then show ?case by (cases fuel) (auto simp: load_top [OF TLeaf.prems(1,2)] simp del: tree_ref.simps)
next
  case (TExt p t)
  obtain fuel' where fuel: "fuel = Suc fuel'" using TExt.prems(4) by (cases fuel) auto
  have "get_recursive fuel' env db (Some (tree_ref env t)) q = Inr (tree_lookup t q)" if "path = p @ q" for q
    using TExt.IH [of q fuel'] TExt.prems fuel held_ext [OF TExt.prems(2)] that by (cases p) auto
  then show ?case by (auto simp: fuel load_top [OF TExt.prems(1,2)] starts_with_iff simp del: tree_ref.simps)
next
  case (TBranch ts bv)
  obtain fuel' where fuel: "fuel = Suc fuel'" using TBranch.prems(4) by (cases fuel) auto
  show ?case
  proof (cases path)
    case Nil
    then show ?thesis by (simp add: fuel load_top [OF TBranch.prems(1,2)] del: tree_ref.simps)
  next
    case (Cons n p)
    with TBranch.prems have n: "unat n < length ts" using nibble_less by auto
    have fuel'': "0 < fuel'" using TBranch.prems(4) fuel Cons by auto
    have "get_recursive fuel' env db (Some (tree_ref env t)) p = Inr (tree_lookup t p)" if "ts ! unat n = Some t" for t
      using TBranch.IH [of "Some t" t p fuel'] TBranch.prems held_child [OF TBranch.prems(2), of t] that fuel Cons
        nth_mem [OF n] by auto
    moreover have "get_recursive fuel' env db None p = Inr None" using fuel'' by (cases fuel') auto
    ultimately show ?thesis using n Cons
      by (auto simp: fuel load_top [OF TBranch.prems(1,2)] simp del: tree_ref.simps split: option.splits)
  qed
qed

lemma builds_store:
  assumes "node_ok (top_node env t)" "building env batch old r t"
  shows "builds env batch old (rbind r (\<lambda>(b, batch). store_node env db batch b)) t"
proof -
  from assms(2) obtain new where "r = Inr (top_node env t, batch @ map (node_put env) new)"
    "set new \<subseteq> below env t" "below env t \<subseteq> set new \<union> old" by (auto simp: building_def)
  then show ?thesis using assms(1) unfolding builds_def
    by (intro exI [of _ "new @ [top_node env t]"]) (auto simp: store_ok tree_ref_top tree_nodes_top)
qed

lemma builds_leaf: "builds env batch old (store_node env db batch (Leaf p v)) (TLeaf p v)"
  using builds_store [of "TLeaf p v" batch old "Inr (Leaf p v, batch)" db] by (simp add: building_def)

lemma building_start: "below env b \<subseteq> old \<Longrightarrow> building env batch old (Inr (top_node env b, batch)) b"
  by (auto simp: building_def intro: exI [of _ "[]"])

lemma building_hang_value:
  assumes "building env batch old r b" "free_at b x" "path = c @ x"
  shows "building env batch old (rbind r (\<lambda>(b, batch). hang_leaf env db batch b path v (length c))) (hang_value b x v)"
proof -
  from assms(1) obtain new where r: "r = Inr (top_node env b, batch @ map (node_put env) new)"
    "set new \<subseteq> below env b" "below env b \<subseteq> set new \<union> old" by (auto simp: building_def)
  show ?thesis
  proof (cases x)
    case Nil
    with r assms show ?thesis
      by (auto simp: building_def hang_leaf_def top_hang_value below_hang_value)
  next
    case (Cons n y)
    with r assms show ?thesis unfolding building_def
      by (intro exI [of _ "new @ [Leaf y v]"])
        (auto simp: hang_leaf_def top_hang below_hang store_ok node_put_def simp del: hang.simps)
  qed
qed

lemma builds_ext:
  assumes "builds env batch old r t"
  shows "builds env batch old (rbind r (\<lambda>(h, batch). store_node env db batch (Extension p h))) (TExt p t)"
proof -
  from assms obtain new where "r = Inr (tree_ref env t, batch @ map (node_put env) new)"
    "set new \<subseteq> tree_nodes env t" "tree_nodes env t \<subseteq> set new \<union> old" by (auto simp: builds_def)
  then show ?thesis unfolding builds_def
    by (intro exI [of _ "new @ [Extension p (tree_ref env t)]"]) (auto simp: store_ok)
qed

lemma builds_wrap:
  assumes "builds env batch old r t"
  shows "builds env batch old (rbind r (\<lambda>(h, batch). if p \<noteq> [] then store_node env db batch (Extension p h) else Inr (h, batch)))
    (wrap p t)"
proof (cases "p = []")
  case True
  with assms show ?thesis by (auto simp: wrap_def builds_def)
next
  case False
  with builds_ext [OF assms, of db p] show ?thesis by (simp add: wrap_def)
qed

lemma builds_mono: "builds env batch old r t \<Longrightarrow> old \<subseteq> old' \<Longrightarrow> builds env batch old' r t"
  by (fastforce simp: builds_def)

lemma builds_child:
  assumes "builds env batch old r t" "n < length ts" "length ts = 16" "below env (TBranch ts bv) \<subseteq> old"
  shows "builds env batch old
    (rbind r (\<lambda>(h, batch). store_node env db batch (Branch ((map (map_option (tree_ref env)) ts)[n := Some h]) bv)))
    (TBranch (ts[n := Some t]) bv)"
proof -
  from assms(1) obtain new where r: "r = Inr (tree_ref env t, batch @ map (node_put env) new)"
    "set new \<subseteq> tree_nodes env t" "tree_nodes env t \<subseteq> set new \<union> old" by (auto simp: builds_def)
  have "tree_nodes env t \<subseteq> below env (TBranch (ts[n := Some t]) bv)"
    using child_nodes [OF set_update_memI [OF assms(2)]] .
  moreover have "below env (TBranch (ts[n := Some t]) bv) \<subseteq> tree_nodes env t \<union> old"
    using assms(4) by (auto dest: Some_in_update)
  ultimately have "building env batch old
      (Inr (top_node env (TBranch (ts[n := Some t]) bv), batch @ map (node_put env) new)) (TBranch (ts[n := Some t]) bv)"
    using r(2,3) unfolding building_def by (intro exI [of _ new]) auto
  from builds_store [OF _ this, of db] show ?thesis using r(1) assms(3) by (simp add: map_update)
qed

lemma building_split:
  assumes "unat m < 16"
  shows "building env batch (tree_nodes env t)
    (if length c + 1 < length (c @ m # y)
      then rbind (store_node env db batch (Extension (skip (c @ m # y) (length c + 1)) (tree_ref env t))) (\<lambda>(h, batch).
        Inr (set_child empty_branch (unat m) h, batch))
      else Inr (set_child empty_branch (unat m) (tree_ref env t), batch))
    (hang branch0 (m # y) (wrap y t))"
proof (cases y)
  case Nil
  with assms show ?thesis unfolding building_def
    by (intro exI [of _ "[]"]) (auto simp: wrap_def top_hang below_hang)
next
  case (Cons k z)
  with assms show ?thesis unfolding building_def
    by (intro exI [of _ "[Extension y (tree_ref env t)]"]) (auto simp: wrap_def top_hang below_hang store_ok node_put_def)
qed

lemma insert_leaf_refines:
  assumes ok: "nibbles_ok p" "nibbles_ok path"
  shows "builds env batch old (insert_at_leaf env db batch p u path v) (tree_insert (TLeaf p u) path v)"
proof -
  obtain c x y where cxy: "p = c @ x" "path = c @ y" "common_prefix_len p path = length c"
    "x = [] \<or> y = [] \<or> hd x \<noteq> hd y" by (rule common_prefixE)
  show ?thesis
  proof (cases "x = [] \<and> y = []")
    case True
    with cxy builds_leaf show ?thesis by (simp add: insert_at_leaf_def)
  next
    case False
    have heads: "x = [] \<or> unat (hd x) < 16" "y = [] \<or> unat (hd y) < 16"
      using ok cxy nibble_less by (cases x; cases y; auto)+
    let ?b = "hang_value branch0 x u"
    have free: "free_at ?b y" using False cxy(4) heads by (intro free_hang_value) auto
    have "branch_with 2 (hang_value ?b y v)"
      using ok cxy heads free branch_with_hang_value [OF branch_with_hang_value [OF branch_with_branch0]]
      by (simp add: numeral_2_eq_2)
    then have ok2: "node_ok (top_node env (hang_value ?b y v))" using top_node_ok branch_with_ok by blast
    have b1: "building env batch old (hang_leaf env db batch empty_branch p u (length c)) ?b"
      using building_hang_value [OF building_start [of branch0], of old x p c batch db u] heads cxy by simp
    from builds_store [OF ok2 building_hang_value [OF b1 free cxy(2), where db = db and v = v], where db = db]
    have "builds env batch old (build_diverging_branch env db batch p u path v (length c)) (hang_value ?b y v)"
      by (simp add: build_diverging_branch_def rbind_assoc case_prod_unfold)
    from builds_wrap [OF this, of c db] show ?thesis
      using False cxy by (cases "c = []") (auto simp: insert_at_leaf_def Let_def case_prod_unfold)
  qed
qed

lemma insert_ext_refines:
  assumes ok: "tree_ok (TExt p t)" "nibbles_ok path"
    and rec: "\<And>q. path = p @ q \<Longrightarrow> builds env batch (tree_nodes env t) (rec batch (Some (tree_ref env t)) q v) (tree_insert t q v)"
  shows "builds env batch (tree_nodes env (TExt p t))
    (insert_at_extension env db rec batch p (tree_ref env t) path v) (tree_insert (TExt p t) path v)"
proof -
  obtain c x y where cxy: "path = c @ x" "p = c @ y" "common_prefix_len path p = length c"
    "x = [] \<or> y = [] \<or> hd x \<noteq> hd y" by (rule common_prefixE)
  have "builds env batch (tree_nodes env t)
    (insert_at_extension env db rec batch p (tree_ref env t) path v) (tree_insert (TExt p t) path v)"
  proof (cases y)
    case Nil
    with builds_ext [OF rec [of x], of db p] cxy show ?thesis by (simp add: insert_at_extension_def)
  next
    case (Cons m y')
    let ?b = "hang branch0 y (wrap y' t)"
    have heads: "unat m < 16" "x = [] \<or> unat (hd x) < 16"
      using ok cxy Cons nibble_less by (cases x; auto)+
    have free: "free_at ?b x" using heads cxy(4) Cons by (auto intro!: free_hang)
    have "tree_ok (wrap y' t)" using ok cxy Cons by (simp add: wrap_def)
    then have "branch_with (Suc 0) ?b"
      using branch_with_hang [OF branch_with_branch0] heads Cons by simp
    then have "branch_with 2 (hang_value ?b x v)"
      using branch_with_hang_value [OF _ free] ok cxy by (simp add: numeral_2_eq_2)
    then have ok2: "node_ok (top_node env (hang_value ?b x v))" using top_node_ok branch_with_ok by blast
    note b1 = building_split [OF heads(1), of batch t c y' db]
    from builds_store [OF ok2 [unfolded Cons] building_hang_value [OF b1 free [unfolded Cons] cxy(1), where db = db and v = v], where db = db]
    have "builds env batch (tree_nodes env t) (split_extension env db batch p (tree_ref env t) path v (length c)) (hang_value ?b x v)"
      using cxy(2) Cons by (simp add: split_extension_def rbind_assoc case_prod_unfold)
    from builds_wrap [OF this, of c db] show ?thesis
      using Cons cxy by (cases "c = []") (auto simp: insert_at_extension_def Let_def case_prod_unfold)
  qed
  then show ?thesis by (rule builds_mono) auto
qed

lemma insert_refines:
  "tree_ok t \<Longrightarrow> held db t \<Longrightarrow> nibbles_ok path \<Longrightarrow> length path < fuel \<Longrightarrow>
    builds env batch (tree_nodes env t)
      (insert_recursive fuel env db batch (Some (tree_ref env t)) path v) (tree_insert t path v)"
proof (induction t arbitrary: path fuel batch)
  case (TLeaf p u)
  then show ?case using insert_leaf_refines [of p path batch _ db u v]
    by (cases fuel) (simp_all add: load_top [OF TLeaf.prems(1,2)] del: tree_ref.simps tree_insert.simps)
next
  case (TExt p t)
  obtain fuel' where fuel: "fuel = Suc fuel'" using TExt.prems(4) by (cases fuel) auto
  have "builds env batch (tree_nodes env t) (insert_recursive fuel' env db batch (Some (tree_ref env t)) q v) (tree_insert t q v)"
    if "path = p @ q" for q
    using TExt.IH [of q fuel'] TExt.prems fuel held_ext [OF TExt.prems(2)] that by (cases p) auto
  from insert_ext_refines [of p t path batch "insert_recursive fuel' env db" v db, OF TExt.prems(1,3) this] show ?case
    by (simp add: fuel load_top [OF TExt.prems(1,2)] del: tree_ref.simps tree_insert.simps tree_nodes.simps)
next
  case (TBranch ts bv)
  obtain fuel' where fuel: "fuel = Suc fuel'" using TBranch.prems(4) by (cases fuel) auto
  have below: "below env (TBranch ts w) \<subseteq> tree_nodes env (TBranch ts bv)" for w
    by (auto simp: tree_nodes_top [of env "TBranch ts bv"])
  show ?case
  proof (cases path)
    case Nil
    have "builds env batch (tree_nodes env (TBranch ts bv))
        (store_node env db batch (top_node env (TBranch ts (Some v)))) (TBranch ts (Some v))"
      using builds_store [OF _ building_start [OF below], of "Some v" batch db] TBranch.prems(1) by simp
    with Nil show ?thesis
      by (simp add: fuel load_top [OF TBranch.prems(1,2)] insert_at_branch_def del: tree_ref.simps tree_nodes.simps)
  next
    case (Cons n p)
    with TBranch.prems have n: "unat n < length ts" "length ts = 16" using nibble_less by auto
    let ?t = "case ts ! unat n of None \<Rightarrow> TLeaf p v | Some t \<Rightarrow> tree_insert t p v"
    let ?r = "insert_recursive fuel' env db batch (map (map_option (tree_ref env)) ts ! unat n) p v"
    have "builds env batch (tree_nodes env (TBranch ts bv)) ?r ?t"
    proof (cases "ts ! unat n")
      case None
      moreover have "0 < fuel'" using TBranch.prems(4) fuel Cons by auto
      ultimately show ?thesis using n builds_leaf by (cases fuel') auto
    next
      case (Some t)
      then have t: "Some t \<in> set ts" using nth_mem [OF n(1)] by simp
      have "builds env batch (tree_nodes env t) (insert_recursive fuel' env db batch (Some (tree_ref env t)) p v) (tree_insert t p v)"
        using TBranch.IH [OF t, of t p fuel' batch] TBranch.prems held_child [OF TBranch.prems(2) t] t fuel Cons by auto
      then show ?thesis using Some n builds_mono child_nodes [OF t, of env bv] below [of bv] by (simp del: tree_nodes.simps below.simps)
    qed
    from builds_child [OF this n below, where db = db] show ?thesis
      using Cons n by (simp add: fuel load_top [OF TBranch.prems(1,2)] insert_at_branch_def del: tree_ref.simps tree_nodes.simps)
  qed
qed
end

subsection \<open>Sequences of writes\<close>

text \<open>Insertions one after the other, each on the database and root the last one returned.\<close>

fun trie_run ::
  "nat \<Rightarrow> 'db trie_env \<Rightarrow> 'db \<Rightarrow> hash option \<Rightarrow> (bytes \<times> bytes) list \<Rightarrow> trie_abort + 'db \<times> hash option" where
  "trie_run fuel env db root [] = Inr (db, root)"
| "trie_run fuel env db root ((k, v) # kvs) =
     rbind (trie_insert fuel env db root k v) (\<lambda>(db', root'). trie_run fuel env db' root' kvs)"

fun grow :: "bytes \<times> bytes \<Rightarrow> tree option \<Rightarrow> tree option" where
  "grow (k, v) None = Some (TLeaf (from_bytes k) v)"
| "grow (k, v) (Some t) = Some (tree_insert t (from_bytes k) v)"

definition root_ok :: "tree option \<Rightarrow> bool" where
  "root_ok r \<longleftrightarrow> (\<forall>t. r = Some t \<longrightarrow> tree_ok t)"

definition root_ref :: "'db trie_env \<Rightarrow> tree option \<Rightarrow> hash option" where
  "root_ref env = map_option (tree_ref env)"

definition root_nodes :: "'db trie_env \<Rightarrow> tree option \<Rightarrow> trie_node set" where
  "root_nodes env r = (case r of None \<Rightarrow> {} | Some t \<Rightarrow> tree_nodes env t)"

definition root_lookup :: "tree option \<Rightarrow> nibble_path \<Rightarrow> bytes option" where
  "root_lookup r q = (case r of None \<Rightarrow> None | Some t \<Rightarrow> tree_lookup t q)"

text \<open>The nodes of all tries a sequence of writes goes through.\<close>

fun written_nodes :: "'db trie_env \<Rightarrow> tree option \<Rightarrow> (bytes \<times> bytes) list \<Rightarrow> trie_node set" where
  "written_nodes env r [] = root_nodes env r"
| "written_nodes env r (kv # kvs) = root_nodes env r \<union> written_nodes env (grow kv r) kvs"

definition collision_free :: "'db trie_env \<Rightarrow> trie_node set \<Rightarrow> bool" where
  "collision_free env N \<longleftrightarrow> (\<forall>m \<in> N. \<forall>n \<in> N. node_ref env m = node_ref env n \<longrightarrow> m = n)"

lemma collision_free_code [code]:
  "collision_free env (set ns) =
    (let hs = map (\<lambda>n. (node_ref env n, n)) ns in list_all (\<lambda>(h, m). list_all (\<lambda>(h', n). h = h' \<longrightarrow> m = n) hs) hs)"
  by (auto simp: collision_free_def Let_def list_all_iff)

lemma from_bytes_simps [simp]:
  "from_bytes [] = []" "from_bytes (b # bs) = drop_bit 4 b # and b 0x0F # from_bytes bs"
  by (simp_all add: from_bytes_def)

lemma length_from_bytes [simp]: "length (from_bytes k) = 2 * length k"
  by (induction k) auto

lemma nibbles_byte: "drop_bit 4 b \<le> (15 :: u8)" "and b 0x0F \<le> (15 :: u8)"
proof -
  have "unat (drop_bit 4 b) = unat b div 16"
    by (simp only: unat_drop_bit_eq) (simp add: drop_bit_eq_div)
  then have "unat (drop_bit 4 b) \<le> 15"
    using unat_lt_size [of b] by simp
  then show "drop_bit 4 b \<le> 15" by (simp add: word_le_nat_alt)
  show "and b 0x0F \<le> (15 :: u8)" by (rule word_and_le1)
qed

lemma nibbles_determine_byte:
  assumes "drop_bit 4 a = drop_bit 4 (b :: u8)" "and a 0x0F = and b 0x0F"
  shows "a = b"
proof -
  have "take_bit 4 w = and w 0x0F" for w :: u8
    by (simp add: take_bit_eq_mask mask_eq_exp_minus_1)
  then show ?thesis
    using bits_ident [of 4 a] bits_ident [of 4 b] assms by metis
qed

lemma nibbles_ok_from_bytes [simp]: "nibbles_ok (from_bytes k)"
  by (induction k) (auto simp: nibbles_byte)

lemma from_bytes_inj [simp]: "from_bytes a = from_bytes b \<longleftrightarrow> a = b"
proof (induction a arbitrary: b)
  case Nil then show ?case by (cases b) auto
next
  case (Cons x a) then show ?case by (cases b) (auto intro: nibbles_determine_byte)
qed

lemma grow_ok: "root_ok r \<Longrightarrow> root_ok (grow (k, v) r)"
  by (cases r) (auto simp: root_ok_def insert_ok)

lemma grow_lookup: "root_ok r \<Longrightarrow> root_lookup (grow (k, v) r) q = (if q = from_bytes k then Some v else root_lookup r q)"
  by (cases r) (auto simp: root_ok_def root_lookup_def lookup_insert)

lemma fold_grow:
  "root_ok r \<Longrightarrow> root_ok (fold grow kvs r) \<and> root_lookup (fold grow kvs r) q =
    (case map_of (rev (map (apfst from_bytes) kvs)) q of Some v \<Rightarrow> Some v | None \<Rightarrow> root_lookup r q)"
proof (induction kvs arbitrary: r)
  case (Cons kv kvs)
  obtain k v where kv: "kv = (k, v)" by (cases kv)
  show ?case using Cons.IH [OF grow_ok [OF Cons.prems]] Cons.prems
    by (auto simp: kv grow_lookup map_add_def split: option.split)
qed auto

lemma map_of_from_bytes:
  "map_of (map (apfst from_bytes) kvs) (from_bytes k) = map_of kvs k"
  "q \<notin> range from_bytes \<Longrightarrow> map_of (map (apfst from_bytes) kvs) q = None"
  by (induction kvs) auto

lemma root_empty: "root_ok r \<Longrightarrow> r = None \<longleftrightarrow> (\<forall>q. root_lookup r q = None)"
proof (cases r)
  case (Some t)
  assume "root_ok r"
  with Some ok_has_key [of t] show ?thesis by (auto simp: root_ok_def root_lookup_def)
qed (simp add: root_lookup_def)

lemma fold_grow_unique:
  assumes "map_of (rev kvs) = map_of (rev kvs')"
  shows "fold grow kvs None = fold grow kvs' None"
proof -
  have ok: "root_ok None" by (simp add: root_ok_def)
  have look: "root_lookup (fold grow kvs None) q = root_lookup (fold grow kvs' None) q" for q
    using fold_grow [OF ok, of kvs q] fold_grow [OF ok, of kvs' q] assms
    by (cases "q \<in> range from_bytes") (auto simp: map_of_from_bytes rev_map)
  note empty = root_empty [of "fold grow kvs None"] root_empty [of "fold grow kvs' None"]
    fold_grow [OF ok, of kvs] fold_grow [OF ok, of kvs']
  show ?thesis
  proof (cases "fold grow kvs None")
    case None
    with look empty show ?thesis by metis
  next
    case (Some t)
    with look empty obtain t' where t': "fold grow kvs' None = Some t'" by (metis not_None_eq)
    have "t = t'" using fold_grow [OF ok, of kvs] fold_grow [OF ok, of kvs'] look Some t'
      by (intro ok_unique) (auto simp: root_ok_def root_lookup_def)
    with Some t' show ?thesis by simp
  qed
qed

lemma root_nodes_written: "root_nodes env r \<subseteq> written_nodes env r kvs"
  by (cases kvs) auto

lemma written_append:
  "written_nodes env r (xs @ ys) = written_nodes env r xs \<union> written_nodes env (fold grow xs r) ys"
proof (induction xs arbitrary: r)
  case Nil then show ?case using root_nodes_written by auto
qed auto

lemma after_batch_append: "after_batch (xs @ ys) cf k old = after_batch ys cf k (after_batch xs cf k old)"
proof (induction xs arbitrary: old)
  case (Cons x xs) then show ?case by (cases x) auto
qed simp

lemma after_puts:
  assumes "collision_free env N" "set new \<subseteq> N" "n \<in> N"
  shows "after_batch (map (node_put env) new) CF_TRIE_NODES (to_be_bytes (node_ref env n)) old =
    (if n \<in> set new then Some (node_bytes env n) else old)"
  using assms(2)
proof (induction new rule: rev_induct)
  case (snoc m new)
  have "node_ref env m = node_ref env n \<longleftrightarrow> m = n" using assms snoc.prems by (auto simp: collision_free_def)
  with snoc show ?case by (auto simp: after_batch_append node_put_def)
qed simp


lemma after_puts_other:
  "cf \<noteq> CF_TRIE_NODES \<Longrightarrow> after_batch (map (node_put env) new) cf k old = old"
  by (induction new arbitrary: old) (auto simp: node_put_def)

context trie_backend
begin

definition root_held :: "'db \<Rightarrow> tree option \<Rightarrow> bool" where
  "root_held db r \<longleftrightarrow> (\<forall>n \<in> root_nodes env r. holds_node env view db n)"

lemma get_root:
  assumes "root_ok r" "root_held db r" "2 * length k < fuel"
  shows "trie_get fuel env db (root_ref env r) k = Inr (root_lookup r (from_bytes k))"
proof (cases r)
  case None
  with assms show ?thesis by (cases fuel) (auto simp: trie_get_def root_ref_def root_lookup_def)
next
  case (Some t)
  with assms get_refines [of t db "from_bytes k" fuel] show ?thesis
    by (auto simp: trie_get_def root_ref_def root_lookup_def root_ok_def root_held_def root_nodes_def held_def)
qed

lemma insert_root:
  assumes "root_ok r" "root_held db r" "2 * length k < fuel"
  obtains new where "insert_recursive fuel env db [] (root_ref env r) (from_bytes k) v =
      Inr (the (root_ref env (grow (k, v) r)), map (node_put env) new)"
    and "set new \<subseteq> root_nodes env (grow (k, v) r)" "root_nodes env (grow (k, v) r) \<subseteq> set new \<union> root_nodes env r"
proof -
  obtain t where t: "grow (k, v) r = Some t" by (cases r) auto
  have "builds env [] (root_nodes env r) (insert_recursive fuel env db [] (root_ref env r) (from_bytes k) v) t"
  proof (cases r)
    case None
    with assms t builds_leaf show ?thesis by (cases fuel) (auto simp: root_ref_def)
  next
    case (Some s)
    with assms t insert_refines [of s db "from_bytes k" fuel "[]" v] show ?thesis
      by (auto simp: root_ref_def root_ok_def root_held_def root_nodes_def held_def)
  qed
  with t show thesis using that by (auto simp: builds_def root_ref_def root_nodes_def)
qed

lemma insert_step:
  assumes "root_ok r" "root_held db r" "2 * length k < fuel"
    and free: "collision_free env N" "root_nodes env r \<subseteq> N" "root_nodes env (grow (k, v) r) \<subseteq> N"
  shows "\<exists>db'. trie_insert fuel env db (root_ref env r) k v = Inr (db', root_ref env (grow (k, v) r)) \<and>
    root_held db' (grow (k, v) r) \<and>
    (\<forall>n \<in> N. holds_node env view db n \<longrightarrow> holds_node env view db' n) \<and>
    (\<forall>cf k. cf \<noteq> CF_TRIE_NODES \<longrightarrow> view db' cf k = view db cf k)"
proof -
  obtain new where new: "insert_recursive fuel env db [] (root_ref env r) (from_bytes k) v =
      Inr (the (root_ref env (grow (k, v) r)), map (node_put env) new)"
    "set new \<subseteq> root_nodes env (grow (k, v) r)" "root_nodes env (grow (k, v) r) \<subseteq> set new \<union> root_nodes env r"
    by (rule insert_root [OF assms(1-3)])
  obtain db' where db': "write_batch (te_rdb env) db (map (node_put env) new) = Inr db'"
    "\<And>cf k. view db' cf k = after_batch (map (node_put env) new) cf k (view db cf k)"
    using write_view [of db "map (node_put env) new"] by blast
  have "set new \<subseteq> N" using new(2) free(3) by blast
  then have keep: "holds_node env view db' n" if "n \<in> N" "n \<in> set new \<or> holds_node env view db n" for n
    using that by (auto simp: holds_node_def db'(2) after_puts [OF free(1)])
  have "root_ref env (grow (k, v) r) \<noteq> None" by (cases r) (auto simp: root_ref_def)
  then have "trie_insert fuel env db (root_ref env r) k v = Inr (db', root_ref env (grow (k, v) r))"
    by (simp add: trie_insert_def new(1) db'(1))
  moreover have "root_held db' (grow (k, v) r)"
    using keep new(3) assms(2) free(3) by (fastforce simp: root_held_def)
  moreover have "view db' cf k = view db cf k" if "cf \<noteq> CF_TRIE_NODES" for cf k
    using after_puts_other [OF that] db'(2) by simp
  ultimately show ?thesis using keep by blast
qed

lemma run_refines:
  "root_ok r \<Longrightarrow> root_held db r \<Longrightarrow> \<forall>(k, v) \<in> set kvs. 2 * length k < fuel \<Longrightarrow>
    collision_free env N \<Longrightarrow> written_nodes env r kvs \<subseteq> N \<Longrightarrow>
    \<exists>db'. trie_run fuel env db (root_ref env r) kvs = Inr (db', root_ref env (fold grow kvs r)) \<and>
      root_held db' (fold grow kvs r) \<and>
      (\<forall>n \<in> N. holds_node env view db n \<longrightarrow> holds_node env view db' n)"
proof (induction kvs arbitrary: r db)
  case (Cons kv kvs)
  obtain k v where kv: "kv = (k, v)" by (cases kv)
  have N: "root_nodes env r \<subseteq> N" "root_nodes env (grow (k, v) r) \<subseteq> N" "written_nodes env (grow (k, v) r) kvs \<subseteq> N"
    using Cons.prems(5) root_nodes_written [of env "grow (k, v) r" kvs] by (auto simp: kv)
  have k: "2 * length k < fuel" using Cons.prems(3) by (simp add: kv)
  obtain db1 where db1: "trie_insert fuel env db (root_ref env r) k v = Inr (db1, root_ref env (grow (k, v) r))"
    "root_held db1 (grow (k, v) r)" "\<forall>n \<in> N. holds_node env view db n \<longrightarrow> holds_node env view db1 n"
    using insert_step [OF Cons.prems(1,2) k Cons.prems(4) N(1,2)] by blast
  from Cons.IH [OF grow_ok [OF Cons.prems(1)] db1(2) _ Cons.prems(4) N(3)] Cons.prems(3) db1 show ?case
    by (auto simp: kv)
qed auto

lemma root_held_None [simp]: "root_held db None" "root_ok None" "root_ref env None = None"
  by (simp_all add: root_held_def root_nodes_def root_ok_def root_ref_def)

lemma run_from_empty:
  assumes "\<forall>(k, v) \<in> set kvs. 2 * length k < fuel" "collision_free env (written_nodes env None kvs)"
  obtains db' where "trie_run fuel env db None kvs = Inr (db', root_ref env (fold grow kvs None))"
    and "root_held db' (fold grow kvs None)"
  using run_refines [of None db kvs fuel, OF _ _ assms(1,2) order_refl] by auto

lemma run_twice:
  assumes "\<forall>(k, v) \<in> set (kvs @ later). 2 * length k < fuel" "collision_free env (written_nodes env None (kvs @ later))"
  obtains db1 db2 root where "trie_run fuel env db None kvs = Inr (db1, root_ref env (fold grow kvs None))"
    and "trie_run fuel env db1 (root_ref env (fold grow kvs None)) later = Inr (db2, root)"
    and "root_held db2 (fold grow kvs None)"
proof -
  let ?r = "fold grow kvs None" and ?N = "written_nodes env None (kvs @ later)"
  have N: "written_nodes env None kvs \<subseteq> ?N" "written_nodes env ?r later \<subseteq> ?N"
    by (auto simp: written_append)
  obtain db1 where db1: "trie_run fuel env db None kvs = Inr (db1, root_ref env ?r)" "root_held db1 ?r"
    using run_refines [of None db kvs fuel ?N] assms N(1) by auto
  obtain db2 where "trie_run fuel env db1 (root_ref env ?r) later = Inr (db2, root_ref env (fold grow later ?r))"
    "\<forall>n \<in> ?N. holds_node env view db1 n \<longrightarrow> holds_node env view db2 n"
    using run_refines [of ?r db1 later fuel ?N] assms N(2) db1(2) fold_grow [of None kvs] by auto
  moreover have "root_nodes env ?r \<subseteq> ?N" using root_nodes_written N(2) by blast
  with calculation(2) db1(2) have "root_held db2 ?r" by (auto simp: root_held_def)
  ultimately show thesis using that db1(1) by blast
qed

lemma contents: "root_ok (fold grow kvs None)" "root_lookup (fold grow kvs None) (from_bytes k) = map_of (rev kvs) k"
  using fold_grow [of None kvs "from_bytes k"] map_of_from_bytes(1) [of "rev kvs" k]
  by (auto simp: root_lookup_def rev_map split: option.splits)

end


subsection \<open>Properties\<close>

definition checksum :: hasher where
  "checksum bs = sum_list (map ucast bs)"

definition sample_writes :: "(bytes \<times> bytes) list" where
  "sample_writes = [([0x12], [1]), ([0x13], [2, 2]), ([0x12], [3, 3, 7])]"

definition fewer_writes :: "(bytes \<times> bytes) list" where
  "fewer_writes = [([0x13], [2, 2]), ([0x12], [3, 3, 7])]"

lemma sample_collision_free:
  "collision_free (mem_trie_env checksum) (written_nodes (mem_trie_env checksum) None sample_writes)"
  by code_simp

lemma fewer_collision_free:
  "collision_free (mem_trie_env checksum) (written_nodes (mem_trie_env checksum) None fewer_writes)"
  by code_simp

text \<open>
  C19. The trie is a map: after any sequence of insertions into an empty trie, on any database,
  every insertion has succeeded and a lookup returns the value of the last insertion at its key,
  or nothing where there was none. The hypotheses are the contract of the database and the
  serializer, the absence of hash collisions among the nodes of the tries gone through, and fuel
  above the number of nibbles of a key.
\<close>

theorem trie_returns_last_write:
  assumes "trie_backend env view" "collision_free env (written_nodes env None kvs)"
    and "\<forall>(k, v) \<in> set kvs. 2 * length k < fuel" "2 * length key < fuel"
  shows "\<exists>db' root. trie_run fuel env db None kvs = Inr (db', root) \<and>
    trie_get fuel env db' root key = Inr (map_of (rev kvs) key)"
proof -
  obtain db' where "trie_run fuel env db None kvs = Inr (db', root_ref env (fold grow kvs None))"
    "trie_backend.root_held env view db' (fold grow kvs None)"
    using trie_backend.run_from_empty [OF assms(1,3,2)] by blast
  then show ?thesis
    using trie_backend.get_root [OF assms(1) _ _ assms(4)] trie_backend.contents [OF assms(1)] by metis
qed

theorem trie_returns_last_write_witness:
  "\<exists>db' root. trie_run 5 (mem_trie_env checksum) fmempty None sample_writes = Inr (db', root) \<and>
    trie_get 5 (mem_trie_env checksum) db' root [0x12] = Inr (Some [3, 3, 7])"
proof -
  have "\<forall>(k, v) \<in> set sample_writes. 2 * length k < 5" "map_of (rev sample_writes) [0x12] = Some [3, 3, 7]"
    by code_simp+
  then show ?thesis
    using trie_returns_last_write [OF mem_trie.trie_backend_axioms sample_collision_free, of 5 "[0x12]" fmempty] by simp
qed

text \<open>
  C23. The state root is a function of the contents: two sequences of insertions, on whatever
  databases and in whatever order, with overwritten values in between, end in the same root
  hash when they leave the same value at every key.
\<close>

theorem state_root_determined_by_contents:
  assumes "trie_backend env view"
    and "collision_free env (written_nodes env None kvs)" "collision_free env (written_nodes env None kvs')"
    and "\<forall>(k, v) \<in> set kvs. 2 * length k < fuel" "\<forall>(k, v) \<in> set kvs'. 2 * length k < fuel"
    and "map_of (rev kvs) = map_of (rev kvs')"
  shows "\<exists>db1' db2' root. trie_run fuel env db1 None kvs = Inr (db1', root) \<and>
    trie_run fuel env db2 None kvs' = Inr (db2', root)"
proof -
  obtain db1' db2' where "trie_run fuel env db1 None kvs = Inr (db1', root_ref env (fold grow kvs None))"
    "trie_run fuel env db2 None kvs' = Inr (db2', root_ref env (fold grow kvs' None))"
    using trie_backend.run_from_empty [OF assms(1,4,2)] trie_backend.run_from_empty [OF assms(1,5,3)] by metis
  moreover have "fold grow kvs None = fold grow kvs' None"
    using fold_grow_unique [OF assms(6)] .
  ultimately show ?thesis by auto
qed

theorem state_root_determined_by_contents_witness:
  "\<exists>db1' db2' root. trie_run 5 (mem_trie_env checksum) fmempty None sample_writes = Inr (db1', root) \<and>
    trie_run 5 (mem_trie_env checksum) fmempty None fewer_writes = Inr (db2', root)"
proof -
  have "\<forall>(k, v) \<in> set sample_writes. 2 * length k < 5" "\<forall>(k, v) \<in> set fewer_writes. 2 * length k < 5"
    by code_simp+
  moreover have "map_of (rev sample_writes) = map_of (rev fewer_writes)"
    by (auto simp: sample_writes_def fewer_writes_def)
  ultimately show ?thesis
    by (rule state_root_determined_by_contents [OF mem_trie.trie_backend_axioms sample_collision_free fewer_collision_free])
qed

text \<open>
  History is kept: whatever is inserted later, a lookup at an earlier root still returns
  what it returned then.
\<close>

theorem old_roots_stay_readable:
  assumes "trie_backend env view" "collision_free env (written_nodes env None (kvs @ later))"
    and "\<forall>(k, v) \<in> set (kvs @ later). 2 * length k < fuel" "2 * length key < fuel"
  shows "\<exists>db1 root db2 root'. trie_run fuel env db None kvs = Inr (db1, root) \<and>
    trie_run fuel env db1 root later = Inr (db2, root') \<and>
    trie_get fuel env db2 root key = Inr (map_of (rev kvs) key)"
proof -
  obtain db1 db2 root' where "trie_run fuel env db None kvs = Inr (db1, root_ref env (fold grow kvs None))"
    "trie_run fuel env db1 (root_ref env (fold grow kvs None)) later = Inr (db2, root')"
    "trie_backend.root_held env view db2 (fold grow kvs None)"
    using trie_backend.run_twice [OF assms(1,3,2)] by blast
  then show ?thesis
    using trie_backend.get_root [OF assms(1) _ _ assms(4)] trie_backend.contents [OF assms(1)] by metis
qed

theorem old_roots_stay_readable_witness:
  "\<exists>db1 root db2 root'. trie_run 5 (mem_trie_env checksum) fmempty None (take 2 sample_writes) = Inr (db1, root) \<and>
    trie_run 5 (mem_trie_env checksum) db1 root (drop 2 sample_writes) = Inr (db2, root') \<and>
    trie_get 5 (mem_trie_env checksum) db2 root [0x12] = Inr (Some [1])"
proof -
  have "\<forall>(k, v) \<in> set (take 2 sample_writes @ drop 2 sample_writes). 2 * length k < 5"
    "map_of (rev (take 2 sample_writes)) [0x12] = Some [1]" by code_simp+
  then show ?thesis
    using old_roots_stay_readable [OF mem_trie.trie_backend_axioms, of checksum "take 2 sample_writes" "drop 2 sample_writes" 5 "[0x12]" fmempty]
      sample_collision_free by simp
qed

end
