(* ===== verification/Merkle_Proof.thy ===== *)
theory Merkle_Proof
  imports State_Trie
begin

section \<open>Merkle proofs\<close>

text \<open>
  \<^verbatim>\<open>lemma-storage/src/trie/proof.rs\<close> and the proof generation of \<^verbatim>\<open>trie/trie.rs\<close>. A proof lists the
  nodes from the root towards its key; verification re-hashes them and follows the references.
  Proofs of the code's own generator verify (\<open>generated_proof_verifies\<close>). An accepted proof is
  right when the extensions on its path agree with the key (\<open>verified_proof_sound\<close>), which the
  verifier does not check: \<open>forged_inclusion_verifies\<close> proves an absent key.
\<close>

datatype proof_node =
    PBranch "hash option list" "bytes option"
  | PExtension nibble_path hash
  | PLeaf nibble_path bytes

fun as_trie_node :: "proof_node \<Rightarrow> trie_node" where
  "as_trie_node (PBranch children val) = Branch children val"
| "as_trie_node (PExtension pre child) = Extension pre child"
| "as_trie_node (PLeaf path val) = Leaf path val"

definition proof_node_hash :: "'db trie_env \<Rightarrow> proof_node \<Rightarrow> storage_error + hash" where
  "proof_node_hash env node = node_hash env (as_trie_node node)"

record merkle_proof =
  mp_key :: bytes
  mp_value :: "bytes option"
  mp_nodes :: "proof_node list"

subsection \<open>Generation\<close>

primrec collect_proof ::
  "nat \<Rightarrow> 'db trie_env \<Rightarrow> 'db \<Rightarrow> hash \<Rightarrow> nibble_path \<Rightarrow> proof_node list \<Rightarrow> trie_abort + bytes option \<times> proof_node list" where
  "collect_proof 0 env db h path out = Inl OutOfFuel"
| "collect_proof (Suc fuel) env db h path out =
     rbind (load_node env db h) (\<lambda>node. case node of
       Leaf leaf_path leaf_val \<Rightarrow>
         Inr (if leaf_path = path then Some leaf_val else None, out @ [PLeaf leaf_path leaf_val])
     | Extension pre child \<Rightarrow>
         if starts_with path pre
         then collect_proof fuel env db child (skip path (length pre)) (out @ [PExtension pre child])
         else Inr (None, out @ [PExtension pre child])
     | Branch children branch_val \<Rightarrow>
         (case np_get path 0 of
           None \<Rightarrow> Inr (branch_val, out @ [PBranch children branch_val])
         | Some nibble \<Rightarrow>
             if unat nibble < length children then
               (case children ! unat nibble of
                 Some child_hash \<Rightarrow> collect_proof fuel env db child_hash (skip path 1) (out @ [PBranch children branch_val])
               | None \<Rightarrow> Inr (None, out @ [PBranch children branch_val]))
             else Inl Panicked))"

definition generate_proof ::
  "nat \<Rightarrow> 'db trie_env \<Rightarrow> 'db \<Rightarrow> hash option \<Rightarrow> bytes \<Rightarrow> trie_abort + merkle_proof" where
  "generate_proof fuel env db root key =
     rbind (ok_or root (Failed (InvalidProof key))) (\<lambda>root.
     rbind (collect_proof fuel env db root (from_bytes key) []) (\<lambda>(val, proof_nodes).
     Inr \<lparr>mp_key = key, mp_value = val, mp_nodes = proof_nodes\<rparr>))"

subsection \<open>Verification\<close>

fun consumed :: "proof_node \<Rightarrow> nat" where
  "consumed (PBranch _ _) = 1"
| "consumed (PExtension pre _) = length pre"
| "consumed (PLeaf _ _) = 0"

fun compute_depths_and_hashes ::
  "'db trie_env \<Rightarrow> nat \<Rightarrow> proof_node list \<Rightarrow> storage_error + (nat \<times> hash) list" where
  "compute_depths_and_hashes env d [] = Inr []"
| "compute_depths_and_hashes env d (node # nodes) =
     rbind (proof_node_hash env node) (\<lambda>h.
     rbind (compute_depths_and_hashes env (d + consumed node) nodes) (\<lambda>rest.
     Inr ((d, h) # rest)))"

definition verify_child_linkage ::
  "proof_node \<Rightarrow> hash \<Rightarrow> nibble_path \<Rightarrow> nat \<Rightarrow> bytes \<Rightarrow> trie_abort + unit" where
  "verify_child_linkage parent expected path depth key =
     (let bad = Failed (InvalidProof key) in
      case parent of
        PBranch children _ \<Rightarrow>
          rbind (ok_or (np_get path depth) bad) (\<lambda>nibble.
          if unat nibble < length children then
            rbind (ok_or (children ! unat nibble) bad) (\<lambda>actual.
            if actual \<noteq> expected then Inl bad else Inr ())
          else Inl Panicked)
      | PExtension _ child \<Rightarrow> if child \<noteq> expected then Inl bad else Inr ()
      | PLeaf _ _ \<Rightarrow> Inl bad)"

definition verify_terminal_node ::
  "proof_node \<Rightarrow> bytes option \<Rightarrow> nibble_path \<Rightarrow> nat \<Rightarrow> bytes \<Rightarrow> trie_abort + unit" where
  "verify_terminal_node final claim full_path terminal_depth key =
     (let bad = Inl (Failed (InvalidProof key)); remaining = skip full_path terminal_depth in
      case (final, claim) of
        (PLeaf leaf_path leaf_val, Some claimed) \<Rightarrow>
          if leaf_path \<noteq> remaining \<or> leaf_val \<noteq> claimed then bad else Inr ()
      | (PBranch _ (Some branch_val), Some claimed) \<Rightarrow>
          if remaining \<noteq> [] then bad else if branch_val \<noteq> claimed then bad else Inr ()
      | (PLeaf leaf_path _, None) \<Rightarrow> if leaf_path = remaining then bad else Inr ()
      | (PBranch children branch_val, None) \<Rightarrow>
          (case np_get remaining 0 of
            None \<Rightarrow> if branch_val \<noteq> None then bad else Inr ()
          | Some nibble \<Rightarrow>
              if unat nibble < length children then if children ! unat nibble \<noteq> None then bad else Inr ()
              else Inl Panicked)
      | (PExtension pre _, None) \<Rightarrow> if starts_with remaining pre then bad else Inr ()
      | _ \<Rightarrow> bad)"

text \<open>The loop over the parents: node \<open>i\<close> against the hash of node \<open>i + 1\<close>.\<close>

fun verify_links :: "nibble_path \<Rightarrow> bytes \<Rightarrow> proof_node list \<Rightarrow> (nat \<times> hash) list \<Rightarrow> trie_abort + unit" where
  "verify_links path key (node # nodes) ((d, h) # (d', h') # dhs) =
     rbind (verify_child_linkage node h' path d key) (\<lambda>_. verify_links path key nodes ((d', h') # dhs))"
| "verify_links path key nodes dhs = Inr ()"

definition verify :: "'db trie_env \<Rightarrow> merkle_proof \<Rightarrow> hash \<Rightarrow> trie_abort + unit" where
  "verify env prf expected_root =
     (if mp_nodes prf = [] then Inl (Failed (InvalidProof (mp_key prf)))
      else
        rbind (map_err Failed (compute_depths_and_hashes env 0 (mp_nodes prf))) (\<lambda>dhs.
        rbind (verify_links (from_bytes (mp_key prf)) (mp_key prf) (mp_nodes prf) dhs) (\<lambda>_.
        if snd (hd dhs) \<noteq> expected_root then Inl (Failed (TrieRootMismatch expected_root (snd (hd dhs))))
        else verify_terminal_node (last (mp_nodes prf)) (mp_value prf) (from_bytes (mp_key prf)) (fst (last dhs)) (mp_key prf))))"

subsection \<open>What verification checks\<close>

lemma node_hash_Inr: "node_hash env node = Inr h \<Longrightarrow> h = node_ref env node"
  by (auto simp: node_hash_def node_ref_def node_bytes_def map_err_Inr rbind_Inr)

text \<open>The extensions a proof passes through agree with the path of its key.\<close>

fun extensions_match :: "nibble_path \<Rightarrow> nat \<Rightarrow> proof_node list \<Rightarrow> bool" where
  "extensions_match path d [] \<longleftrightarrow> True"
| "extensions_match path d (node # nodes) \<longleftrightarrow>
     (case node of PExtension pre _ \<Rightarrow> nodes \<noteq> [] \<longrightarrow> starts_with (drop d path) pre | _ \<Rightarrow> True) \<and>
     extensions_match path (d + consumed node) nodes"

lemma as_trie_node_eq:
  "as_trie_node n = Branch cs v \<longleftrightarrow> n = PBranch cs v"
  "as_trie_node n = Extension p h \<longleftrightarrow> n = PExtension p h"
  "as_trie_node n = Leaf p w \<longleftrightarrow> n = PLeaf p w"
  by (cases n; auto)+

lemma drop_nth: "np_get path d = Some n \<Longrightarrow> drop d path = n # drop (Suc d) path"
  by (auto simp: np_get_def Cons_nth_drop_Suc split: if_splits)

lemma terminal_sound:
  assumes "verify_terminal_node node val path d key = Inr ()" "as_trie_node node = top_node env s" "tree_ok s"
  shows "val = tree_lookup s (drop d path)"
proof (cases s)
  case (TLeaf p v)
  with assms show ?thesis
    by (auto simp: as_trie_node_eq verify_terminal_node_def Let_def split: option.splits if_splits)
next
  case (TExt p t)
  with assms show ?thesis
    by (auto simp: as_trie_node_eq verify_terminal_node_def Let_def split: option.splits if_splits)
next
  case (TBranch ts bv)
  with assms show ?thesis
    by (cases "drop d path"; cases bv)
      (auto simp: as_trie_node_eq verify_terminal_node_def Let_def split: option.splits if_splits)
qed

lemma chain_sound:
  assumes "collision_free env N"
  shows "nodes \<noteq> [] \<Longrightarrow> compute_depths_and_hashes env d nodes = Inr dhs \<Longrightarrow> verify_links path key nodes dhs = Inr () \<Longrightarrow>
    verify_terminal_node (last nodes) val path (fst (last dhs)) key = Inr () \<Longrightarrow>
    snd (hd dhs) = tree_ref env s \<Longrightarrow> tree_ok s \<Longrightarrow> tree_nodes env s \<subseteq> N \<Longrightarrow> as_trie_node ` set nodes \<subseteq> N \<Longrightarrow>
    extensions_match path d nodes \<Longrightarrow> val = tree_lookup s (drop d path)"
proof (induction nodes arbitrary: d dhs s)
  case (Cons node nodes)
  from Cons.prems(2) obtain h rest where dhs: "dhs = (d, h) # rest" "node_hash env (as_trie_node node) = Inr h"
    "compute_depths_and_hashes env (d + consumed node) nodes = Inr rest"
    by (auto simp: rbind_Inr proof_node_hash_def)
  have "node_ref env (as_trie_node node) = node_ref env (top_node env s)"
    using node_hash_Inr [OF dhs(2)] dhs(1) Cons.prems(5) by (simp add: tree_ref_top)
  moreover have "as_trie_node node \<in> N" "top_node env s \<in> N"
    using Cons.prems(7,8) tree_nodes_top [of env s] by auto
  ultimately have top: "as_trie_node node = top_node env s"
    using assms by (auto simp: collision_free_def)
  show ?case
  proof (cases nodes)
    case Nil
    with Cons.prems dhs top terminal_sound show ?thesis by auto
  next
    case (Cons node2 nodes2)
    then obtain d2 h2 rest2 where rest: "rest = (d2, h2) # rest2" "d2 = d + consumed node"
      using dhs(3) by (auto simp: rbind_Inr)
    have link: "verify_child_linkage node h2 path d key = Inr ()" "verify_links path key nodes rest = Inr ()"
      using Cons.prems(3) Cons rest dhs(1) by (auto simp: rbind_Inr)
    have IH: "val = tree_lookup s' (drop (d + consumed node) path)"
      if "h2 = tree_ref env s'" "tree_ok s'" "tree_nodes env s' \<subseteq> N" for s'
      using Cons.IH [OF _ dhs(3) link(2)] Cons.prems(4,8,9) Cons that rest dhs(1) by auto
    show ?thesis
    proof (cases s)
      case (TLeaf p v)
      with top link(1) show ?thesis by (auto simp: as_trie_node_eq verify_child_linkage_def)
    next
      case (TExt p t)
      with top have node: "node = PExtension p (tree_ref env t)" by (simp add: as_trie_node_eq)
      with link(1) have "h2 = tree_ref env t" by (auto simp: verify_child_linkage_def split: if_splits)
      from IH [OF this] have "val = tree_lookup t (drop (d + length p) path)"
        using TExt node Cons.prems(6,7) by auto
      with TExt node Cons.prems(9) Cons show ?thesis by (simp add: add.commute)
    next
      case (TBranch ts bv)
      with top have node: "node = PBranch (map (map_option (tree_ref env)) ts) bv" by (simp add: as_trie_node_eq)
      with link(1) obtain n where n: "np_get path d = Some n" "unat n < length ts"
        "map_option (tree_ref env) (ts ! unat n) = Some h2"
        by (auto simp: verify_child_linkage_def Let_def rbind_Inr ok_or_Inr split: if_splits)
      then obtain t where t: "ts ! unat n = Some t" "h2 = tree_ref env t" by auto
      then have mem: "Some t \<in> set ts" using n(2) by (metis nth_mem)
      have sub: "tree_nodes env t \<subseteq> N"
        using Cons.prems(7) child_nodes [OF mem, of env bv]
        unfolding TBranch tree_nodes_top [of env "TBranch ts bv"] by blast
      have "val = tree_lookup t (drop (Suc d) path)"
        using IH [OF t(2) _ sub] TBranch node Cons.prems(6) mem by auto
      with TBranch drop_nth [OF n(1)] n t show ?thesis by simp
    qed
  qed
qed simp

lemma verify_sound:
  assumes "collision_free env (tree_nodes env t \<union> as_trie_node ` set (mp_nodes prf))" "tree_ok t"
    and "verify env prf (tree_ref env t) = Inr ()" "extensions_match (from_bytes (mp_key prf)) 0 (mp_nodes prf)"
  shows "mp_value prf = tree_lookup t (from_bytes (mp_key prf))"
proof -
  from assms(3) obtain dhs where "mp_nodes prf \<noteq> []" "compute_depths_and_hashes env 0 (mp_nodes prf) = Inr dhs"
    "verify_links (from_bytes (mp_key prf)) (mp_key prf) (mp_nodes prf) dhs = Inr ()" "snd (hd dhs) = tree_ref env t"
    "verify_terminal_node (last (mp_nodes prf)) (mp_value prf) (from_bytes (mp_key prf)) (fst (last dhs)) (mp_key prf) = Inr ()"
    by (auto simp: verify_def rbind_Inr map_err_Inr split: if_splits)
  with chain_sound [OF assms(1), of "mp_nodes prf" 0 dhs "from_bytes (mp_key prf)" "mp_key prf" "mp_value prf" t] assms(2,4)
  show ?thesis by simp
qed

subsection \<open>Generated proofs\<close>

definition proves ::
  "'db trie_env \<Rightarrow> nibble_path \<Rightarrow> bytes \<Rightarrow> nat \<Rightarrow> bytes option \<Rightarrow> tree \<Rightarrow> proof_node list \<Rightarrow> bool" where
  "proves env path key d val s nodes \<longleftrightarrow> nodes \<noteq> [] \<and>
     (\<exists>dhs. compute_depths_and_hashes env d nodes = Inr dhs \<and> dhs \<noteq> [] \<and> snd (hd dhs) = tree_ref env s \<and>
       verify_links path key nodes dhs = Inr () \<and>
       verify_terminal_node (last nodes) val path (fst (last dhs)) key = Inr ())"

lemma verify_links_Cons:
  "dhs \<noteq> [] \<Longrightarrow> verify_links path key (node # nodes) ((d, h) # dhs) =
    rbind (verify_child_linkage node (snd (hd dhs)) path d key) (\<lambda>_. verify_links path key nodes dhs)"
  by (cases dhs) auto

context trie_backend
begin

lemma proves_one:
  assumes "as_trie_node node = top_node env s" "tree_ok s" "verify_terminal_node node val path d key = Inr ()"
  shows "proves env path key d val s [node]"
  using assms hash_node [OF top_node_ok [OF assms(2), of env]]
  by (simp add: proves_def proof_node_hash_def tree_ref_top)

lemma proves_step:
  assumes "as_trie_node node = top_node env s" "tree_ok s" "proves env path key (d + consumed node) val s' nodes"
    and "verify_child_linkage node (tree_ref env s') path d key = Inr ()"
  shows "proves env path key d val s (node # nodes)"
  using assms hash_node [OF top_node_ok [OF assms(2), of env]]
  by (auto simp: proves_def proof_node_hash_def tree_ref_top [of env s] verify_links_Cons)

lemma np_get_drop: "np_get (drop d path) 0 = np_get path d"
  by (auto simp: np_get_def)

lemma collect_proves:
  "tree_ok s \<Longrightarrow> held db s \<Longrightarrow> nibbles_ok path \<Longrightarrow> length (drop d path) < fuel \<Longrightarrow>
    \<exists>nodes. collect_proof fuel env db (tree_ref env s) (drop d path) out =
        Inr (tree_lookup s (drop d path), out @ nodes) \<and>
      proves env path key d (tree_lookup s (drop d path)) s nodes"
proof (induction s arbitrary: d fuel out)
  case (TLeaf p v)
  then obtain fuel' where fuel: "fuel = Suc fuel'" by (cases fuel) auto
  have "proves env path key d (tree_lookup (TLeaf p v) (drop d path)) (TLeaf p v) [PLeaf p v]"
    by (rule proves_one) (use TLeaf.prems(1) in \<open>auto simp: verify_terminal_node_def Let_def\<close>)
  then show ?case by (auto simp: fuel load_top [OF TLeaf.prems(1,2)] simp del: tree_ref.simps)
next
  case (TExt p t)
  then obtain fuel' where fuel: "fuel = Suc fuel'" by (cases fuel) auto
  let ?node = "PExtension p (tree_ref env t)"
  show ?case
  proof (cases "starts_with (drop d path) p")
    case True
    then obtain q where q: "drop d path = p @ q" by (auto simp: starts_with_iff)
    then have rest: "drop (d + length p) path = q" by (metis append_eq_conv_conj drop_drop add.commute)
    obtain nodes where "collect_proof fuel' env db (tree_ref env t) q (out @ [?node]) =
        Inr (tree_lookup t q, (out @ [?node]) @ nodes)" "proves env path key (d + length p) (tree_lookup t q) t nodes"
      using TExt.IH [of "d + length p" fuel' "out @ [?node]"] TExt.prems held_ext [OF TExt.prems(2)] fuel q rest
      by (cases p) auto
    moreover from this(2) have "proves env path key d (tree_lookup t q) (TExt p t) (?node # nodes)"
      by (intro proves_step) (use TExt.prems(1) in \<open>auto simp: verify_child_linkage_def\<close>)
    ultimately show ?thesis
      using q by (auto simp: fuel load_top [OF TExt.prems(1,2)] simp del: tree_ref.simps)
  next
    case False
    have "proves env path key d None (TExt p t) [?node]"
      by (rule proves_one) (use TExt.prems(1) False in \<open>auto simp: verify_terminal_node_def Let_def\<close>)
    with False show ?thesis
      by (auto simp: fuel load_top [OF TExt.prems(1,2)] simp del: tree_ref.simps)
  qed
next
  case (TBranch ts bv)
  then obtain fuel' where fuel: "fuel = Suc fuel'" by (cases fuel) auto
  let ?node = "PBranch (map (map_option (tree_ref env)) ts) bv"
  note load = load_top [OF TBranch.prems(1,2)]
  show ?case
  proof (cases "np_get path d")
    case None
    then have drop: "drop d path = []" by (auto simp: np_get_def split: if_splits)
    have "proves env path key d bv (TBranch ts bv) [?node]"
      by (rule proves_one) (use TBranch.prems(1) drop in \<open>auto simp: verify_terminal_node_def Let_def split: option.splits\<close>)
    with drop show ?thesis by (auto simp: fuel load simp del: tree_ref.simps)
  next
    case (Some n)
    note drop = drop_nth [OF Some]
    have n: "unat n < length ts" "length ts = 16"
      using TBranch.prems(1,3) drop nibble_less by (auto dest: arg_cong [where f = nibbles_ok] in_set_dropD simp: nibbles_ok_def list_all_iff)
        (metis in_set_dropD list.set_intros(1))
    show ?thesis
    proof (cases "ts ! unat n")
      case None
      have "proves env path key d None (TBranch ts bv) [?node]"
        by (rule proves_one; use TBranch.prems(1) drop n None in \<open>cases bv; auto simp: verify_terminal_node_def Let_def\<close>)
      with None drop n show ?thesis by (auto simp: fuel load simp del: tree_ref.simps)
    next
      case (Some t)
      then have t: "Some t \<in> set ts" using nth_mem [OF n(1)] by simp
      obtain nodes where "collect_proof fuel' env db (tree_ref env t) (drop (Suc d) path) (out @ [?node]) =
          Inr (tree_lookup t (drop (Suc d) path), (out @ [?node]) @ nodes)"
          "proves env path key (Suc d) (tree_lookup t (drop (Suc d) path)) t nodes"
        using TBranch.IH [OF t, of t "Suc d" fuel' "out @ [?node]"] TBranch.prems held_child [OF TBranch.prems(2) t] t fuel drop
        by auto
      moreover from this(2) have "proves env path key d (tree_lookup t (drop (Suc d) path)) (TBranch ts bv) (?node # nodes)"
        by (intro proves_step [of _ _ _ _ _ _ t]) (use TBranch.prems(1) Some n \<open>np_get path d = Some n\<close> in \<open>auto simp: verify_child_linkage_def\<close>)
      ultimately show ?thesis using Some drop n by (auto simp: fuel load simp del: tree_ref.simps)
    qed
  qed
qed

lemma generate_verifies:
  assumes "root_ok (Some t)" "root_held db (Some t)" "2 * length key < fuel"
  shows "\<exists>prf. generate_proof fuel env db (Some (tree_ref env t)) key = Inr prf \<and> mp_key prf = key \<and>
    mp_value prf = tree_lookup t (from_bytes key) \<and> verify env prf (tree_ref env t) = Inr ()"
proof -
  have "tree_ok t" "held db t" using assms by (auto simp: root_ok_def root_held_def held_def root_nodes_def)
  from collect_proves [OF this, of "from_bytes key" 0 fuel "[]" key] assms(3)
  obtain nodes where "collect_proof fuel env db (tree_ref env t) (from_bytes key) [] = Inr (tree_lookup t (from_bytes key), nodes)"
    "proves env (from_bytes key) key 0 (tree_lookup t (from_bytes key)) t nodes" by auto
  then show ?thesis by (auto simp: generate_proof_def proves_def verify_def)
qed

end
lemma fold_grow_Some: "r \<noteq> None \<or> kvs \<noteq> [] \<Longrightarrow> \<exists>t. fold grow kvs r = Some t"
proof (induction kvs arbitrary: r)
  case (Cons kv kvs)
  have "grow kv r \<noteq> None" by (cases kv; cases r) auto
  with Cons.IH show ?case by simp
qed auto

subsection \<open>Properties\<close>

text \<open>
  C26. Generated proofs verify and tell the truth: for a trie filled by any non-empty sequence of
  insertions and any key, present or absent, proof generation succeeds, the proof is accepted
  against the root, and its value is the value last inserted at the key.
\<close>

theorem generated_proof_verifies:
  assumes "trie_backend env view" "collision_free env (written_nodes env None kvs)" "kvs \<noteq> []"
    and "\<forall>(k, v) \<in> set kvs. 2 * length k < fuel" "2 * length key < fuel"
  shows "\<exists>db' root prf. trie_run fuel env db None kvs = Inr (db', Some root) \<and>
    generate_proof fuel env db' (Some root) key = Inr prf \<and> verify env prf root = Inr () \<and>
    mp_key prf = key \<and> mp_value prf = map_of (rev kvs) key"
proof -
  obtain t where t: "fold grow kvs None = Some t" using fold_grow_Some assms(3) by blast
  obtain db' where run: "trie_run fuel env db None kvs = Inr (db', Some (tree_ref env t))"
    "trie_backend.root_held env view db' (Some t)"
    using trie_backend.run_from_empty [OF assms(1,4,2)] t by (metis root_ref_def option.simps(9))
  have "root_ok (Some t)" "tree_lookup t (from_bytes key) = map_of (rev kvs) key"
    using trie_backend.contents [OF assms(1), of kvs] t by (auto simp: root_lookup_def)
  with trie_backend.generate_verifies [OF assms(1) _ run(2) assms(5)] run(1) show ?thesis by metis
qed

theorem generated_proof_verifies_witness:
  "\<exists>db' root prf. trie_run 5 (mem_trie_env checksum) fmempty None sample_writes = Inr (db', Some root) \<and>
    generate_proof 5 (mem_trie_env checksum) db' (Some root) [0x99] = Inr prf \<and>
    verify (mem_trie_env checksum) prf root = Inr () \<and> mp_value prf = None"
proof -
  have "sample_writes \<noteq> []" "\<forall>(k, v) \<in> set sample_writes. 2 * length k < 5" "map_of (rev sample_writes) [0x99] = None"
    by code_simp+
  then show ?thesis
    using generated_proof_verifies [OF mem_trie.trie_backend_axioms sample_collision_free, of 5 "[0x99]" fmempty] by fastforce
qed

text \<open>
  C27. An accepted proof is right, as far as its extensions agree with the key: if a proof verifies
  against the root of a filled trie, no hashes collide, and each extension it passes through
  carries the nibbles of its key, then the claimed value or absence is that of the trie.
\<close>

theorem verified_proof_sound:
  assumes "trie_backend env view" "trie_run fuel env db None kvs = Inr (db', Some root)"
    and "collision_free env (written_nodes env None kvs \<union> as_trie_node ` set (mp_nodes prf))"
    and "\<forall>(k, v) \<in> set kvs. 2 * length k < fuel"
    and "verify env prf root = Inr ()" "extensions_match (from_bytes (mp_key prf)) 0 (mp_nodes prf)"
  shows "mp_value prf = map_of (rev kvs) (mp_key prf)"
proof -
  have free: "collision_free env (written_nodes env None kvs)"
    using assms(3) by (auto simp: collision_free_def)
  obtain db2 where "trie_run fuel env db None kvs = Inr (db2, root_ref env (fold grow kvs None))"
    using trie_backend.run_from_empty [OF assms(1,4) free] by blast
  then obtain t where t: "fold grow kvs None = Some t" "root = tree_ref env t"
    using assms(2) by (cases "fold grow kvs None") (auto simp: root_ref_def)
  have "tree_nodes env t \<subseteq> written_nodes env None kvs"
    using written_append [of env None kvs "[]"] t(1) by (auto simp: root_nodes_def)
  then have "collision_free env (tree_nodes env t \<union> as_trie_node ` set (mp_nodes prf))"
    using assms(3) by (auto simp: collision_free_def)
  moreover have "tree_ok t" "tree_lookup t (from_bytes k) = map_of (rev kvs) k" for k
    using trie_backend.contents [OF assms(1), of kvs] t(1) by (auto simp: root_lookup_def root_ok_def)
  ultimately show ?thesis using verify_sound assms(5,6) t(2) by metis
qed

text \<open>The sample trie as a tree, and the nodes on the path of key \<open>0x12\<close>.\<close>

definition sample_slots :: "tree option list" where
  "sample_slots = (replicate 16 None)[2 := Some (TLeaf [] [3, 3, 7]), 3 := Some (TLeaf [] [2, 2])]"

definition path_proof :: "bytes \<Rightarrow> merkle_proof" where
  "path_proof key = (let env = mem_trie_env checksum; slots = map (map_option (tree_ref env)) sample_slots in
     \<lparr>mp_key = key, mp_value = Some [3, 3, 7],
      mp_nodes = [PExtension [1] (node_ref env (Branch slots None)), PBranch slots None, PLeaf [] [3, 3, 7]]\<rparr>)"

lemma sample_tree: "fold grow sample_writes None = Some (TExt [1] (TBranch sample_slots None))"
  by code_simp

lemma sample_run:
  obtains db where "trie_run 5 (mem_trie_env checksum) fmempty None sample_writes =
      Inr (db, Some (tree_ref (mem_trie_env checksum) (TExt [1] (TBranch sample_slots None))))"
    and "mem_trie.root_held checksum db (Some (TExt [1] (TBranch sample_slots None)))"
proof -
  have "\<forall>(k, v) \<in> set sample_writes. 2 * length k < 5" by code_simp
  from mem_trie.run_from_empty [OF this sample_collision_free, of fmempty]
  obtain db where "trie_run 5 (mem_trie_env checksum) fmempty None sample_writes =
      Inr (db, root_ref (mem_trie_env checksum) (fold grow sample_writes None))"
    "mem_trie.root_held checksum db (fold grow sample_writes None)" by blast
  then show thesis using that [of db] by (simp add: sample_tree root_ref_def)
qed

theorem verified_proof_sound_witness:
  "mp_value (path_proof [0x12]) = map_of (rev sample_writes) [0x12]"
proof -
  let ?env = "mem_trie_env checksum"
  obtain db where run: "trie_run 5 ?env fmempty None sample_writes =
    Inr (db, Some (tree_ref ?env (TExt [1] (TBranch sample_slots None))))" by (rule sample_run)
  have "collision_free ?env (written_nodes ?env None sample_writes \<union> as_trie_node ` set (mp_nodes (path_proof [0x12])))"
    by code_simp
  moreover have "\<forall>(k, v) \<in> set sample_writes. 2 * length k < 5" "mp_key (path_proof [0x12]) = [0x12]"
    "extensions_match (from_bytes (mp_key (path_proof [0x12]))) 0 (mp_nodes (path_proof [0x12]))" by code_simp+
  moreover have "verify ?env (path_proof [0x12]) (tree_ref ?env (TExt [1] (TBranch sample_slots None))) = Inr ()"
    by code_simp
  ultimately show ?thesis
    using verified_proof_sound [OF mem_trie.trie_backend_axioms run] by metis
qed

text \<open>
  C28. A forged proof of inclusion is accepted: the nodes on the path of key \<open>0x12\<close>, claimed for the
  absent key \<open>0x22\<close>, verify against the root, because an extension is followed without comparing
  its prefix with the key.
\<close>

theorem forged_inclusion_verifies:
  "\<exists>db root. trie_run 5 (mem_trie_env checksum) fmempty None sample_writes = Inr (db, Some root) \<and>
    trie_get 5 (mem_trie_env checksum) db (Some root) [0x22] = Inr None \<and>
    verify (mem_trie_env checksum) (path_proof [0x22]) root = Inr () \<and>
    mp_key (path_proof [0x22]) = [0x22] \<and> mp_value (path_proof [0x22]) = Some [3, 3, 7]"
proof -
  let ?env = "mem_trie_env checksum" and ?t = "TExt [1] (TBranch sample_slots None)"
  obtain db where run: "trie_run 5 ?env fmempty None sample_writes = Inr (db, Some (tree_ref ?env ?t))"
    "mem_trie.root_held checksum db (Some ?t)" by (rule sample_run)
  have "root_ok (Some ?t)" using mem_trie.contents(1) [of sample_writes] sample_tree by simp
  from mem_trie.get_root [OF this run(2), of "[0x22]" 5]
  have "trie_get 5 ?env db (Some (tree_ref ?env ?t)) [0x22] = Inr (tree_lookup ?t (from_bytes [0x22]))"
    by (simp add: root_ref_def root_lookup_def)
  moreover have "tree_lookup ?t (from_bytes [0x22]) = None" "verify ?env (path_proof [0x22]) (tree_ref ?env ?t) = Inr ()"
    "mp_key (path_proof [0x22]) = [0x22]" "mp_value (path_proof [0x22]) = Some [3, 3, 7]"
    by code_simp+
  ultimately show ?thesis using run(1) by metis
qed

end
