(* ===== verification/World_State.thy ===== *)
theory World_State
  imports Merkle_Proof "HOL-Library.Monad_Syntax"
begin

section \<open>Accounts and the world state\<close>

text \<open>
  \<^verbatim>\<open>lemma-storage/src/account.rs\<close> and \<^verbatim>\<open>state.rs\<close>: accounts live in the state trie under the bytes of
  their address, contract storage and code in column families of their own. A \<open>WorldState\<close> is the
  database beside the current root; the bincode functions for accounts are parameters like
  those for trie nodes. \<open>fuel\<close> bounds the trie recursion: an address has 40 nibbles, so 41 is enough.
\<close>

record account =
  acc_nonce :: u64
  acc_balance :: amount
  acc_code_hash :: hash
  acc_storage_root :: hash
  acc_staked :: amount

definition new_eoa :: "amount \<Rightarrow> account" where
  "new_eoa balance = \<lparr>acc_nonce = 0, acc_balance = balance, acc_code_hash = hash_zero,
     acc_storage_root = hash_zero, acc_staked = amount_zero\<rparr>"

definition new_contract :: "hash \<Rightarrow> account" where
  "new_contract code_hash = \<lparr>acc_nonce = 0, acc_balance = amount_zero, acc_code_hash = code_hash,
     acc_storage_root = hash_zero, acc_staked = amount_zero\<rparr>"

definition default_account :: account where
  "default_account = \<lparr>acc_nonce = 0, acc_balance = amount_zero, acc_code_hash = hash_zero,
     acc_storage_root = hash_zero, acc_staked = amount_zero\<rparr>"

definition is_contract :: "account \<Rightarrow> bool" where
  "is_contract a \<longleftrightarrow> acc_code_hash a \<noteq> hash_zero"

definition is_eoa :: "account \<Rightarrow> bool" where
  "is_eoa a \<longleftrightarrow> acc_code_hash a = hash_zero"

record 'db state_env =
  se_trie :: "'db trie_env"
  se_ser :: "account \<Rightarrow> string + bytes"
  se_de :: "bytes \<Rightarrow> string + account"

record 'db world_state =
  ws_db :: 'db
  ws_root :: "hash option"

definition ws_new :: "'db \<Rightarrow> 'db world_state" where
  "ws_new db = \<lparr>ws_db = db, ws_root = None\<rparr>"

definition with_state_root :: "'db \<Rightarrow> hash \<Rightarrow> 'db world_state" where
  "with_state_root db root = \<lparr>ws_db = db, ws_root = Some root\<rparr>"

definition ws_commit :: "'db world_state \<Rightarrow> storage_error + hash" where
  "ws_commit ws = ok_or (ws_root ws) (KeyNotFound ''(state trie is empty -- no accounts written)'')"

definition address_bytes :: "address \<Rightarrow> bytes" where
  "address_bytes a = to_be_bytes a"

definition get_account :: "nat \<Rightarrow> 'db state_env \<Rightarrow> 'db world_state \<Rightarrow> address \<Rightarrow> trie_abort + account option" where
  "get_account fuel env ws a =
     (case ws_root ws of None \<Rightarrow> Inr None
      | Some root \<Rightarrow>
          rbind (trie_get fuel (se_trie env) (ws_db ws) (Some root) (address_bytes a)) (\<lambda>found.
          case found of None \<Rightarrow> Inr None
          | Some bs \<Rightarrow> rbind (map_err (\<lambda>r. Failed (SerializationFailed r)) (se_de env bs)) (\<lambda>acc. Inr (Some acc))))"

definition put_account ::
  "nat \<Rightarrow> 'db state_env \<Rightarrow> 'db world_state \<Rightarrow> address \<Rightarrow> account \<Rightarrow> trie_abort + 'db world_state" where
  "put_account fuel env ws a acc =
     rbind (map_err (\<lambda>r. Failed (SerializationFailed r)) (se_ser env acc)) (\<lambda>bs.
     rbind (trie_insert fuel (se_trie env) (ws_db ws) (ws_root ws) (address_bytes a) bs) (\<lambda>(db, root).
     Inr \<lparr>ws_db = db, ws_root = root\<rparr>))"

definition get_balance :: "nat \<Rightarrow> 'db state_env \<Rightarrow> 'db world_state \<Rightarrow> address \<Rightarrow> trie_abort + amount" where
  "get_balance fuel env ws a = rbind (get_account fuel env ws a) (\<lambda>acc.
     Inr (case acc of None \<Rightarrow> amount_zero | Some acc \<Rightarrow> acc_balance acc))"

definition get_nonce :: "nat \<Rightarrow> 'db state_env \<Rightarrow> 'db world_state \<Rightarrow> address \<Rightarrow> trie_abort + u64" where
  "get_nonce fuel env ws a = rbind (get_account fuel env ws a) (\<lambda>acc.
     Inr (case acc of None \<Rightarrow> 0 | Some acc \<Rightarrow> acc_nonce acc))"

definition increment_nonce :: "nat \<Rightarrow> 'db state_env \<Rightarrow> 'db world_state \<Rightarrow> address \<Rightarrow> trie_abort + 'db world_state" where
  "increment_nonce fuel env ws a =
     rbind (get_account fuel env ws a) (\<lambda>found.
     let acc = (case found of None \<Rightarrow> default_account | Some acc \<Rightarrow> acc) in
     rbind (ok_or (checked_add (acc_nonce acc) 1) (Failed (Corrupted ''nonce overflow''))) (\<lambda>nonce.
     put_account fuel env ws a (acc\<lparr>acc_nonce := nonce\<rparr>)))"

subsection \<open>Contract storage and code\<close>

definition storage_key :: "address \<Rightarrow> hash \<Rightarrow> bytes" where
  "storage_key a slot = address_bytes a @ to_be_bytes slot"

definition get_storage :: "'db state_env \<Rightarrow> 'db world_state \<Rightarrow> address \<Rightarrow> hash \<Rightarrow> storage_error + bytes option" where
  "get_storage env ws a slot = db_get (te_rdb (se_trie env)) (ws_db ws) CF_STORAGE (storage_key a slot)"

definition put_storage ::
  "'db state_env \<Rightarrow> 'db world_state \<Rightarrow> address \<Rightarrow> hash \<Rightarrow> bytes \<Rightarrow> storage_error + 'db world_state" where
  "put_storage env ws a slot val =
     rbind (db_put (te_rdb (se_trie env)) (ws_db ws) CF_STORAGE (storage_key a slot) val) (\<lambda>db. Inr (ws\<lparr>ws_db := db\<rparr>))"

definition delete_storage ::
  "'db state_env \<Rightarrow> 'db world_state \<Rightarrow> address \<Rightarrow> hash \<Rightarrow> storage_error + 'db world_state" where
  "delete_storage env ws a slot =
     rbind (db_delete (te_rdb (se_trie env)) (ws_db ws) CF_STORAGE (storage_key a slot)) (\<lambda>db. Inr (ws\<lparr>ws_db := db\<rparr>))"

definition put_code :: "'db state_env \<Rightarrow> 'db world_state \<Rightarrow> hash \<Rightarrow> bytes \<Rightarrow> storage_error + 'db world_state" where
  "put_code env ws code_hash bytecode =
     rbind (db_get (te_rdb (se_trie env)) (ws_db ws) CF_CODE (to_be_bytes code_hash)) (\<lambda>found.
     if found \<noteq> None then Inr ws
     else rbind (db_put (te_rdb (se_trie env)) (ws_db ws) CF_CODE (to_be_bytes code_hash) bytecode) (\<lambda>db.
       Inr (ws\<lparr>ws_db := db\<rparr>)))"

definition get_code :: "'db state_env \<Rightarrow> 'db world_state \<Rightarrow> hash \<Rightarrow> storage_error + bytes option" where
  "get_code env ws code_hash = db_get (te_rdb (se_trie env)) (ws_db ws) CF_CODE (to_be_bytes code_hash)"

definition generate_account_proof ::
  "nat \<Rightarrow> 'db state_env \<Rightarrow> 'db world_state \<Rightarrow> address \<Rightarrow> trie_abort + merkle_proof" where
  "generate_account_proof fuel env ws a =
     rbind (ok_or (ws_root ws) (Failed (InvalidProof (address_bytes a)))) (\<lambda>root.
     generate_proof fuel (se_trie env) (ws_db ws) (Some root) (address_bytes a))"

subsection \<open>Specification: three maps\<close>

record state_maps =
  sm_accounts :: "address \<Rightarrow> account option"
  sm_storage :: "address \<times> hash \<Rightarrow> bytes option"
  sm_code :: "hash \<Rightarrow> bytes option"

datatype state_op =
    PutAccount address account
  | IncrementNonce address
  | PutStorage address hash bytes
  | DeleteStorage address hash
  | PutCode hash bytes

definition maps_empty :: state_maps where
  "maps_empty = \<lparr>sm_accounts = (\<lambda>_. None), sm_storage = (\<lambda>_. None), sm_code = (\<lambda>_. None)\<rparr>"

text \<open>The account an operation writes, unless its nonce is exhausted.\<close>

fun account_write :: "state_maps \<Rightarrow> state_op \<Rightarrow> (address \<times> account) option" where
  "account_write s (PutAccount a acc) = Some (a, acc)"
| "account_write s (IncrementNonce a) =
     (let acc = (case sm_accounts s a of None \<Rightarrow> default_account | Some acc \<Rightarrow> acc) in
      map_option (\<lambda>n. (a, acc\<lparr>acc_nonce := n\<rparr>)) (checked_add (acc_nonce acc) 1))"
| "account_write s _ = None"

fun maps_step :: "state_maps \<Rightarrow> state_op \<Rightarrow> state_maps option" where
  "maps_step s (PutStorage a slot v) = Some (s\<lparr>sm_storage := (sm_storage s)((a, slot) \<mapsto> v)\<rparr>)"
| "maps_step s (DeleteStorage a slot) = Some (s\<lparr>sm_storage := (sm_storage s)((a, slot) := None)\<rparr>)"
| "maps_step s (PutCode h code) =
     Some (if sm_code s h = None then s\<lparr>sm_code := (sm_code s)(h \<mapsto> code)\<rparr> else s)"
| "maps_step s op = map_option (\<lambda>(a, acc). s\<lparr>sm_accounts := (sm_accounts s)(a \<mapsto> acc)\<rparr>) (account_write s op)"

fun maps_run :: "state_maps \<Rightarrow> state_op list \<Rightarrow> state_maps option" where
  "maps_run s [] = Some s"
| "maps_run s (op # ops) = (case maps_step s op of None \<Rightarrow> None | Some s' \<Rightarrow> maps_run s' ops)"

fun state_step :: "nat \<Rightarrow> 'db state_env \<Rightarrow> 'db world_state \<Rightarrow> state_op \<Rightarrow> trie_abort + 'db world_state" where
  "state_step fuel env ws (PutAccount a acc) = put_account fuel env ws a acc"
| "state_step fuel env ws (IncrementNonce a) = increment_nonce fuel env ws a"
| "state_step fuel env ws (PutStorage a slot v) = map_err Failed (put_storage env ws a slot v)"
| "state_step fuel env ws (DeleteStorage a slot) = map_err Failed (delete_storage env ws a slot)"
| "state_step fuel env ws (PutCode h code) = map_err Failed (put_code env ws h code)"

fun state_run :: "nat \<Rightarrow> 'db state_env \<Rightarrow> 'db world_state \<Rightarrow> state_op list \<Rightarrow> trie_abort + 'db world_state" where
  "state_run fuel env ws [] = Inr ws"
| "state_run fuel env ws (op # ops) = rbind (state_step fuel env ws op) (\<lambda>ws'. state_run fuel env ws' ops)"

definition account_bytes :: "'db state_env \<Rightarrow> account \<Rightarrow> bytes" where
  "account_bytes env acc = (case se_ser env acc of Inr bs \<Rightarrow> bs | Inl _ \<Rightarrow> [])"

text \<open>The trie writes of a sequence of operations, up to a failure.\<close>

fun trie_writes :: "'db state_env \<Rightarrow> state_maps \<Rightarrow> state_op list \<Rightarrow> (bytes \<times> bytes) list" where
  "trie_writes env s [] = []"
| "trie_writes env s (op # ops) =
     (case account_write s op of None \<Rightarrow> [] | Some (a, acc) \<Rightarrow> [(address_bytes a, account_bytes env acc)]) @
     (case maps_step s op of None \<Rightarrow> [] | Some s' \<Rightarrow> trie_writes env s' ops)"

lemma address_bytes_inj [simp]: "address_bytes a = address_bytes b \<longleftrightarrow> a = b"
  by (simp add: address_bytes_def)

lemma length_address_bytes [simp]: "length (address_bytes a) = 20"
  by (simp add: address_bytes_def)

lemma storage_key_inj [simp]: "storage_key a s = storage_key b t \<longleftrightarrow> a = b \<and> s = t"
  by (simp add: storage_key_def append_eq_append_conv)

lemma families:
  "CF_TRIE_NODES \<noteq> CF_STORAGE" "CF_TRIE_NODES \<noteq> CF_CODE" "CF_STORAGE \<noteq> CF_CODE"
  "CF_STORAGE \<in> set ALL_CFS" "CF_CODE \<in> set ALL_CFS"
  by (simp_all add: CF_TRIE_NODES_def CF_STORAGE_def CF_CODE_def ALL_CFS_def)

subsection \<open>Refinement\<close>

locale state_backend = trie_backend "se_trie env" view
  for env :: "'db state_env" and view :: "'db \<Rightarrow> string \<Rightarrow> bytes \<Rightarrow> bytes option" +
  assumes account_lossless: "\<exists>bs. se_ser env acc = Inr bs \<and> se_de env bs = Inr acc"
begin

lemma ser_account [simp]: "se_ser env acc = Inr (account_bytes env acc)" "se_de env (account_bytes env acc) = Inr acc"
  using account_lossless [of acc] by (auto simp: account_bytes_def)

definition accounts_rep :: "'db world_state \<Rightarrow> tree option \<Rightarrow> (address \<Rightarrow> account option) \<Rightarrow> bool" where
  "accounts_rep ws r m \<longleftrightarrow> root_ok r \<and> root_held (ws_db ws) r \<and> ws_root ws = root_ref (se_trie env) r \<and>
     (\<forall>a. root_lookup r (from_bytes (address_bytes a)) = map_option (account_bytes env) (m a))"

definition represents :: "'db world_state \<Rightarrow> tree option \<Rightarrow> state_maps \<Rightarrow> bool" where
  "represents ws r s \<longleftrightarrow> accounts_rep ws r (sm_accounts s) \<and>
     (\<forall>a slot. view (ws_db ws) CF_STORAGE (storage_key a slot) = sm_storage s (a, slot)) \<and>
     (\<forall>h. view (ws_db ws) CF_CODE (to_be_bytes h) = sm_code s h)"

lemma rep_get:
  assumes "accounts_rep ws r m" "40 < fuel"
  shows "get_account fuel env ws a = Inr (m a)"
proof -
  have "trie_get fuel (se_trie env) (ws_db ws) (ws_root ws) (address_bytes a) = Inr (map_option (account_bytes env) (m a))"
    using get_root [of r "ws_db ws" "address_bytes a" fuel] assms by (auto simp: accounts_rep_def)
  moreover have "m a = None" if "ws_root ws = None"
    using assms that by (cases r) (auto simp: accounts_rep_def root_ref_def root_lookup_def)
  ultimately show ?thesis by (cases "m a") (auto simp: get_account_def split: option.splits)
qed

lemma rep_put:
  assumes rep: "represents ws r s" and fuel: "40 < fuel"
    and free: "collision_free (se_trie env) N" "root_nodes (se_trie env) r \<subseteq> N"
      "root_nodes (se_trie env) (grow (address_bytes a, account_bytes env acc) r) \<subseteq> N"
  obtains ws' where "put_account fuel env ws a acc = Inr ws'"
    and "represents ws' (grow (address_bytes a, account_bytes env acc) r) (s\<lparr>sm_accounts := (sm_accounts s)(a \<mapsto> acc)\<rparr>)"
    and "\<forall>n \<in> N. holds_node (se_trie env) view (ws_db ws) n \<longrightarrow> holds_node (se_trie env) view (ws_db ws') n"
proof -
  have r: "root_ok r" "root_held (ws_db ws) r" "ws_root ws = root_ref (se_trie env) r"
    using rep by (auto simp: represents_def accounts_rep_def)
  have key: "2 * length (address_bytes a) < fuel" using fuel by simp
  obtain db where db: "trie_insert fuel (se_trie env) (ws_db ws) (ws_root ws) (address_bytes a) (account_bytes env acc) =
      Inr (db, root_ref (se_trie env) (grow (address_bytes a, account_bytes env acc) r))"
    "root_held db (grow (address_bytes a, account_bytes env acc) r)"
    "\<forall>n \<in> N. holds_node (se_trie env) view (ws_db ws) n \<longrightarrow> holds_node (se_trie env) view db n"
    "\<forall>cf k. cf \<noteq> CF_TRIE_NODES \<longrightarrow> view db cf k = view (ws_db ws) cf k"
    using insert_step [OF r(1,2) key free] r(3) by auto
  then show thesis
    using that rep families by (auto simp: put_account_def represents_def accounts_rep_def grow_ok grow_lookup)
qed

lemma rep_nodes:
  assumes "accounts_rep ws r m" "\<And>k. view db CF_TRIE_NODES k = view (ws_db ws) CF_TRIE_NODES k"
  shows "accounts_rep (ws\<lparr>ws_db := db\<rparr>) r m"
  using assms by (auto simp: accounts_rep_def root_held_def holds_node_def)

definition same_nodes :: "'db world_state \<Rightarrow> 'db world_state \<Rightarrow> bool" where
  "same_nodes ws ws' \<longleftrightarrow> (\<forall>k. view (ws_db ws') CF_TRIE_NODES k = view (ws_db ws) CF_TRIE_NODES k)"

lemma rep_flat:
  assumes rep: "represents ws r s"
  shows "\<exists>ws'. put_storage env ws a slot v = Inr ws' \<and> represents ws' r (s\<lparr>sm_storage := (sm_storage s)((a, slot) \<mapsto> v)\<rparr>) \<and> same_nodes ws ws'"
    and "\<exists>ws'. delete_storage env ws a slot = Inr ws' \<and> represents ws' r (s\<lparr>sm_storage := (sm_storage s)((a, slot) := None)\<rparr>) \<and> same_nodes ws ws'"
    and "\<exists>ws'. put_code env ws h code = Inr ws' \<and>
      represents ws' r (if sm_code s h = None then s\<lparr>sm_code := (sm_code s)(h \<mapsto> code)\<rparr> else s) \<and> same_nodes ws ws'"
proof -
  obtain db where "db_put (te_rdb (se_trie env)) (ws_db ws) CF_STORAGE (storage_key a slot) v = Inr db"
    "\<And>cf k. view db cf k = (if cf = CF_STORAGE \<and> k = storage_key a slot then Some v else view (ws_db ws) cf k)"
    using put_view [OF families(4), of "ws_db ws" "storage_key a slot" v] by blast
  with rep families show "\<exists>ws'. put_storage env ws a slot v = Inr ws' \<and> represents ws' r (s\<lparr>sm_storage := (sm_storage s)((a, slot) \<mapsto> v)\<rparr>) \<and> same_nodes ws ws'"
    by (auto simp: put_storage_def represents_def rep_nodes same_nodes_def)
  obtain db where "db_delete (te_rdb (se_trie env)) (ws_db ws) CF_STORAGE (storage_key a slot) = Inr db"
    "\<And>cf k. view db cf k = (if cf = CF_STORAGE \<and> k = storage_key a slot then None else view (ws_db ws) cf k)"
    using delete_view [OF families(4), of "ws_db ws" "storage_key a slot"] by blast
  with rep families show "\<exists>ws'. delete_storage env ws a slot = Inr ws' \<and> represents ws' r (s\<lparr>sm_storage := (sm_storage s)((a, slot) := None)\<rparr>) \<and> same_nodes ws ws'"
    by (auto simp: delete_storage_def represents_def rep_nodes same_nodes_def)
  obtain db where db: "db_put (te_rdb (se_trie env)) (ws_db ws) CF_CODE (to_be_bytes h) code = Inr db"
    "\<And>cf k. view db cf k = (if cf = CF_CODE \<and> k = to_be_bytes h then Some code else view (ws_db ws) cf k)"
    using put_view [OF families(5), of "ws_db ws" "to_be_bytes h" code] by blast
  show "\<exists>ws'. put_code env ws h code = Inr ws' \<and>
      represents ws' r (if sm_code s h = None then s\<lparr>sm_code := (sm_code s)(h \<mapsto> code)\<rparr> else s) \<and> same_nodes ws ws'"
    using db rep families by (auto simp: put_code_def get_view represents_def rep_nodes same_nodes_def)
qed

lemma increment_put:
  assumes "represents ws r s" "40 < fuel"
  shows "increment_nonce fuel env ws a = (case account_write s (IncrementNonce a) of
    None \<Rightarrow> Inl (Failed (Corrupted ''nonce overflow'')) | Some (a, acc) \<Rightarrow> put_account fuel env ws a acc)"
  using rep_get [of ws r "sm_accounts s" fuel a] assms
  by (auto simp: increment_nonce_def represents_def Let_def ok_or_def split: option.splits)

lemma step_refines:
  assumes rep: "represents ws r s" and fuel: "40 < fuel" and free: "collision_free (se_trie env) N"
    and nodes: "written_nodes (se_trie env) r (trie_writes env s (op # ops)) \<subseteq> N"
  shows "case maps_step s op of
      None \<Rightarrow> state_step fuel env ws op = Inl (Failed (Corrupted ''nonce overflow''))
    | Some s' \<Rightarrow> \<exists>ws' r'. state_step fuel env ws op = Inr ws' \<and> represents ws' r' s' \<and>
        written_nodes (se_trie env) r' (trie_writes env s' ops) \<subseteq> N"
proof (cases "account_write s op")
  case None
  have N: "written_nodes (se_trie env) r (trie_writes env s' ops) \<subseteq> N" if "maps_step s op = Some s'" for s'
    using nodes None that by simp
  show ?thesis
  proof (cases op)
    case (IncrementNonce a)
    with None increment_put [OF rep fuel, of a] show ?thesis by (simp del: account_write.simps)
  next
    case (PutStorage a slot v)
    with N rep_flat(1) [OF rep, of a slot v] show ?thesis by auto
  next
    case (DeleteStorage a slot)
    with N rep_flat(2) [OF rep, of a slot] show ?thesis by auto
  next
    case (PutCode h code)
    from rep_flat(3) [OF rep, of h code] obtain ws' where "put_code env ws h code = Inr ws'"
      "represents ws' r (if sm_code s h = None then s\<lparr>sm_code := (sm_code s)(h \<mapsto> code)\<rparr> else s)" by blast
    with N PutCode show ?thesis by auto
  qed (use None in simp)
next
  case (Some w)
  obtain a acc where w: "account_write s op = Some (a, acc)" using Some by (cases w) auto
  let ?kv = "(address_bytes a, account_bytes env acc)"
  have step: "maps_step s op = Some (s\<lparr>sm_accounts := (sm_accounts s)(a \<mapsto> acc)\<rparr>)" "state_step fuel env ws op = put_account fuel env ws a acc"
    using w increment_put [OF rep fuel] by (cases op; force)+
  have N: "written_nodes (se_trie env) (grow ?kv r) (trie_writes env (s\<lparr>sm_accounts := (sm_accounts s)(a \<mapsto> acc)\<rparr>) ops) \<subseteq> N"
    "root_nodes (se_trie env) r \<subseteq> N"
    using nodes w step(1) by auto
  have "root_nodes (se_trie env) (grow ?kv r) \<subseteq> N" using N(1) root_nodes_written by blast
  from rep_put [OF rep fuel free N(2) this]
  obtain ws' where "put_account fuel env ws a acc = Inr ws'"
    "represents ws' (grow ?kv r) (s\<lparr>sm_accounts := (sm_accounts s)(a \<mapsto> acc)\<rparr>)" by blast
  with N(1) step show ?thesis by auto
qed

lemma run_refines_maps:
  "represents ws r s \<Longrightarrow> 40 < fuel \<Longrightarrow> collision_free (se_trie env) N \<Longrightarrow>
    written_nodes (se_trie env) r (trie_writes env s ops) \<subseteq> N \<Longrightarrow>
    (case maps_run s ops of
      None \<Rightarrow> state_run fuel env ws ops = Inl (Failed (Corrupted ''nonce overflow''))
    | Some s' \<Rightarrow> \<exists>ws' r'. state_run fuel env ws ops = Inr ws' \<and> represents ws' r' s')"
proof (induction ops arbitrary: ws r s)
  case (Cons op ops)
  show ?case
  proof (cases "maps_step s op")
    case None
    with step_refines [OF Cons.prems] show ?thesis by auto
  next
    case (Some s')
    with step_refines [OF Cons.prems] obtain ws' r' where step: "state_step fuel env ws op = Inr ws'" "represents ws' r' s'"
      "written_nodes (se_trie env) r' (trie_writes env s' ops) \<subseteq> N" by auto
    from Cons.IH [OF step(2) Cons.prems(2,3) step(3)] Some step(1) show ?thesis by (cases "maps_run s' ops") auto
  qed
qed auto

lemma represents_new:
  assumes "\<And>k. view db CF_STORAGE k = None" "\<And>k. view db CF_CODE k = None"
  shows "represents (ws_new db) None maps_empty"
  using assms by (auto simp: represents_def accounts_rep_def ws_new_def maps_empty_def root_lookup_def)

lemma represents_reads:
  assumes "represents ws r s" "40 < fuel"
  shows "get_account fuel env ws a = Inr (sm_accounts s a)" "get_storage env ws a slot = Inr (sm_storage s (a, slot))"
    "get_code env ws h = Inr (sm_code s h)"
  using assms rep_get families by (auto simp: represents_def get_storage_def get_code_def get_view)

end


subsection \<open>An in-memory backend\<close>

definition code_account :: "account \<Rightarrow> bytes" where
  "code_account a = code_nat (unat (acc_nonce a)) @ code_nat (unat (acc_balance a)) @ code_nat (unat (acc_code_hash a)) @
     code_nat (unat (acc_storage_root a)) @ code_nat (unat (acc_staked a))"

definition cut_account :: "bytes \<Rightarrow> account option" where
  "cut_account bs = do {
     (nonce, bs) \<leftarrow> cut_nat bs;
     (balance, bs) \<leftarrow> cut_nat bs;
     (code, bs) \<leftarrow> cut_nat bs;
     (storage, bs) \<leftarrow> cut_nat bs;
     (staked, bs) \<leftarrow> cut_nat bs;
     Some \<lparr>acc_nonce = of_nat nonce, acc_balance = of_nat balance, acc_code_hash = of_nat code,
       acc_storage_root = of_nat storage, acc_staked = of_nat staked\<rparr>}"

lemma cut_code_account: "cut_account (code_account a) = Some a"
  by (simp add: cut_account_def code_account_def)

definition mem_state_env :: "hasher \<Rightarrow> (string \<times> bytes, bytes) fmap state_env" where
  "mem_state_env blake3 = \<lparr>se_trie = mem_trie_env blake3, se_ser = (\<lambda>a. Inr (code_account a)),
     se_de = (\<lambda>bs. ok_or (cut_account bs) ''io error: unexpected end of file'')\<rparr>"

interpretation mem_state: state_backend "mem_state_env blake3" "\<lambda>m cf k. fmlookup m (cf, k)"
  by (intro state_backend.intro state_backend_axioms.intro)
    (simp_all add: mem_state_env_def cut_code_account mem_trie.trie_backend_axioms)

subsection \<open>Properties\<close>

text \<open>
  C24. The world state is three maps: every sequence of account, nonce, storage and code operations on
  a fresh world state either runs into the exhausted nonce of an increment, exactly when the
  specification does, or succeeds; then every account, storage slot and code entry reads as in the
  maps the specification computes. In particular operations on one kind of data, one address
  or one slot leave all others alone, and code once stored is never replaced.
\<close>

theorem world_state_refines_maps:
  assumes "state_backend env view" "40 < fuel"
    and "\<forall>k. view db CF_STORAGE k = None" "\<forall>k. view db CF_CODE k = None"
    and "collision_free (se_trie env) (written_nodes (se_trie env) None (trie_writes env maps_empty ops))"
  shows "case maps_run maps_empty ops of
      None \<Rightarrow> state_run fuel env (ws_new db) ops = Inl (Failed (Corrupted ''nonce overflow''))
    | Some s \<Rightarrow> \<exists>ws. state_run fuel env (ws_new db) ops = Inr ws \<and>
        (\<forall>a. get_account fuel env ws a = Inr (sm_accounts s a)) \<and>
        (\<forall>a slot. get_storage env ws a slot = Inr (sm_storage s (a, slot))) \<and>
        (\<forall>h. get_code env ws h = Inr (sm_code s h))"
proof -
  have "state_backend.represents env view (ws_new db) None maps_empty"
    using state_backend.represents_new [OF assms(1)] assms(3,4) by blast
  from state_backend.run_refines_maps [OF assms(1) this assms(2,5) order_refl] show ?thesis
    using state_backend.represents_reads [OF assms(1) _ assms(2)] by (auto split: option.splits)
qed

definition sample_ops :: "state_op list" where
  "sample_ops = [PutAccount 7 (new_eoa 5), IncrementNonce 7, PutCode 9 [1], PutCode 9 [2], PutStorage 7 3 [8]]"

theorem world_state_refines_maps_witness:
  "\<exists>ws. state_run 41 (mem_state_env checksum) (ws_new fmempty) sample_ops = Inr ws \<and>
    get_account 41 (mem_state_env checksum) ws 7 = Inr (Some ((new_eoa 5)\<lparr>acc_nonce := 1\<rparr>)) \<and>
    get_code (mem_state_env checksum) ws 9 = Inr (Some [1])"
proof -
  let ?env = "mem_state_env checksum"
  have "collision_free (se_trie ?env) (written_nodes (se_trie ?env) None (trie_writes ?env maps_empty sample_ops))"
    by code_simp
  moreover have "map_option (\<lambda>s. (sm_accounts s 7, sm_code s 9)) (maps_run maps_empty sample_ops) =
      Some (Some ((new_eoa 5)\<lparr>acc_nonce := 1\<rparr>), Some [1])" by code_simp
  ultimately show ?thesis
    using world_state_refines_maps [OF mem_state.state_backend_axioms, of 41 fmempty checksum sample_ops] by auto
qed

end
