(* ===== verification/Transactions.thy ===== *)
theory Transactions
  imports World_State
begin

section \<open>Transactions and their signatures\<close>

text \<open>
  \<^verbatim>\<open>lemma-core/src/transaction.rs\<close> and \<^verbatim>\<open>lemma-crypto/src/signing.rs\<close>, with the hybrid verification
  of \<^verbatim>\<open>keypair.rs\<close> and the errors of \<^verbatim>\<open>lemma-crypto/src/error.rs\<close>. The two signature schemes and
  bincode are third-party code, gathered in the record \<open>crypto_lib\<close>; \<open>keypair_works\<close> is the
  correctness of the schemes for one key pair.
\<close>

subsection \<open>Transactions\<close>

datatype tx_type = Transfer | ContractCall | ContractDeploy | StakeTx | Unstake | GovernanceVote

fun is_contract_deploy :: "tx_type \<Rightarrow> bool" where
  "is_contract_deploy ContractDeploy = True"
| "is_contract_deploy _ = False"

fun requires_recipient :: "tx_type \<Rightarrow> bool" where
  "requires_recipient ContractDeploy = False"
| "requires_recipient _ = True"

fun requires_calldata :: "tx_type \<Rightarrow> bool" where
  "requires_calldata ContractCall = True"
| "requires_calldata ContractDeploy = True"
| "requires_calldata GovernanceVote = True"
| "requires_calldata _ = False"

record log =
  log_address :: address
  log_topics :: "hash list"
  log_data :: bytes

record transaction =
  tx_hash :: hash
  tx_sender :: address
  tx_to :: "address option"
  tx_nonce :: u64
  tx_chain_id :: u64
  tx_value :: amount
  tx_gas_limit :: u64
  tx_gas_price :: amount
  tx_type :: tx_type
  tx_data :: bytes
  tx_signature :: signature
  tx_session_key :: "bytes option"
  tx_owner_cosignature :: "bytes option"

datatype transaction_error =
    MissingRecipient tx_type
  | UnexpectedRecipient
  | MissingCalldata tx_type
  | ZeroGasLimitTx

definition tx_validate :: "transaction \<Rightarrow> transaction_error + unit" where
  "tx_validate tx =
     (if tx_gas_limit tx = 0 then Inl ZeroGasLimitTx
      else if requires_recipient (tx_type tx) \<and> tx_to tx = None then Inl (MissingRecipient (tx_type tx))
      else if is_contract_deploy (tx_type tx) \<and> tx_to tx \<noteq> None then Inl UnexpectedRecipient
      else if requires_calldata (tx_type tx) \<and> tx_data tx = [] then Inl (MissingCalldata (tx_type tx))
      else Inr ())"

definition tx_new ::
  "hash \<Rightarrow> address \<Rightarrow> address option \<Rightarrow> u64 \<Rightarrow> u64 \<Rightarrow> amount \<Rightarrow> u64 \<Rightarrow> amount \<Rightarrow> tx_type \<Rightarrow> bytes \<Rightarrow> signature \<Rightarrow>
    transaction_error + transaction" where
  "tx_new h sender recipient nonce chain_id val gas_limit gas_price ty dat sig =
     (let tx = \<lparr>tx_hash = h, tx_sender = sender, tx_to = recipient, tx_nonce = nonce, tx_chain_id = chain_id,
        tx_value = val, tx_gas_limit = gas_limit, tx_gas_price = gas_price, tx_type = ty, tx_data = dat,
        tx_signature = sig, tx_session_key = None, tx_owner_cosignature = None\<rparr> in
      rbind (tx_validate tx) (\<lambda>_. Inr tx))"

fun is_signed :: "signature \<Rightarrow> bool" where
  "is_signed Unsigned = False"
| "is_signed _ = True"

record transaction_receipt =
  rc_tx_hash :: hash
  rc_success :: bool
  rc_gas_used :: u64
  rc_logs :: "log list"

subsection \<open>Keys and errors\<close>

datatype crypto_error =
    ClassicalVerificationFailed
  | QuantumVerificationFailed
  | HybridSignatureRequired string
  | UnsignedTransaction
  | InvalidClassicalSignatureLength nat
  | InvalidQuantumSignatureLength nat nat
  | InvalidPublicKeyBytes string
  | InvalidQuantumPublicKeyBytes string
  | KeyGenerationFailed string
  | CryptoSerializationFailed string
  | InvalidKeystoreLength nat nat
  | InvalidKeystoreKeyMaterial string

record public_key =
  pk_classical :: bytes
  pk_quantum :: bytes

record hybrid_signature =
  hs_classical :: bytes
  hs_quantum :: bytes

record keypair =
  kp_classical_sk :: bytes
  kp_classical_pk :: bytes
  kp_quantum_sk :: bytes
  kp_quantum_pk :: bytes
  kp_address :: address

record tx_signing_body =
  sb_sender :: address
  sb_to :: "address option"
  sb_nonce :: u64
  sb_chain_id :: u64
  sb_value :: amount
  sb_gas_limit :: u64
  sb_gas_price :: amount
  sb_tx_type :: tx_type
  sb_data :: bytes
  sb_session_key :: "bytes option"

text \<open>
  Third-party functions: parsing an Ed25519 key and an ML-DSA key (the text of the error), the
  length of an ML-DSA signature and the acceptance of its bytes, the two verifiers (key, message, signature), the two
  signers (secret key, message), Blake3, and bincode on the signing body.
\<close>

record crypto_lib =
  ed_key :: "bytes \<Rightarrow> string + unit"
  ed_verify :: "bytes \<Rightarrow> bytes \<Rightarrow> bytes \<Rightarrow> bool"
  ed_sign :: "bytes \<Rightarrow> bytes \<Rightarrow> bytes"
  pq_key :: "bytes \<Rightarrow> string + unit"
  pq_signature_bytes :: nat
  pq_signature :: "bytes \<Rightarrow> bool"
  pq_verify :: "bytes \<Rightarrow> bytes \<Rightarrow> bytes \<Rightarrow> bool"
  pq_sign :: "bytes \<Rightarrow> bytes \<Rightarrow> bytes"
  cl_blake3 :: hasher
  body_ser :: "tx_signing_body \<Rightarrow> string + bytes"

definition classical_verifying_key :: "crypto_lib \<Rightarrow> public_key \<Rightarrow> crypto_error + bytes" where
  "classical_verifying_key lib pk =
     (if length (pk_classical pk) \<noteq> 32 then Inl (InvalidPublicKeyBytes ''expected 32 bytes'')
      else rbind (map_err InvalidPublicKeyBytes (ed_key lib (pk_classical pk))) (\<lambda>_. Inr (pk_classical pk)))"

definition quantum_public_key :: "crypto_lib \<Rightarrow> public_key \<Rightarrow> crypto_error + bytes" where
  "quantum_public_key lib pk =
     rbind (map_err InvalidQuantumPublicKeyBytes (pq_key lib (pk_quantum pk))) (\<lambda>_. Inr (pk_quantum pk))"

definition to_address :: "crypto_lib \<Rightarrow> public_key \<Rightarrow> address option" where
  "to_address lib pk = (if length (pk_classical pk) = 32
     then Some (address_from_public_key (cl_blake3 lib) (pk_classical pk)) else None)"

definition kp_public_key :: "keypair \<Rightarrow> public_key" where
  "kp_public_key kp = \<lparr>pk_classical = kp_classical_pk kp, pk_quantum = kp_quantum_pk kp\<rparr>"

definition kp_sign :: "crypto_lib \<Rightarrow> keypair \<Rightarrow> bytes \<Rightarrow> hybrid_signature" where
  "kp_sign lib kp msg =
     \<lparr>hs_classical = ed_sign lib (kp_classical_sk kp) msg, hs_quantum = pq_sign lib (kp_quantum_sk kp) msg\<rparr>"

definition to_lemma_signature :: "hybrid_signature \<Rightarrow> signature" where
  "to_lemma_signature s = Hybrid (hs_classical s) (hs_quantum s)"

definition verify_hybrid :: "crypto_lib \<Rightarrow> public_key \<Rightarrow> bytes \<Rightarrow> hybrid_signature \<Rightarrow> crypto_error + unit" where
  "verify_hybrid lib pk msg sig =
     rbind (classical_verifying_key lib pk) (\<lambda>vk.
     if length (hs_classical sig) \<noteq> 64 then Inl (InvalidClassicalSignatureLength (length (hs_classical sig)))
     else if \<not> ed_verify lib vk msg (hs_classical sig) then Inl ClassicalVerificationFailed
     else rbind (quantum_public_key lib pk) (\<lambda>qk.
     if \<not> pq_signature lib (hs_quantum sig)
     then Inl (InvalidQuantumSignatureLength (pq_signature_bytes lib) (length (hs_quantum sig)))
     else if \<not> pq_verify lib qk msg (hs_quantum sig) then Inl QuantumVerificationFailed
     else Inr ()))"

subsection \<open>Signing and verifying transactions\<close>

definition from_tx :: "transaction \<Rightarrow> tx_signing_body" where
  "from_tx tx = \<lparr>sb_sender = tx_sender tx, sb_to = tx_to tx, sb_nonce = tx_nonce tx, sb_chain_id = tx_chain_id tx,
     sb_value = tx_value tx, sb_gas_limit = tx_gas_limit tx, sb_gas_price = tx_gas_price tx,
     sb_tx_type = tx_type tx, sb_data = tx_data tx, sb_session_key = tx_session_key tx\<rparr>"

definition compute_tx_hash :: "crypto_lib \<Rightarrow> transaction \<Rightarrow> crypto_error + hash" where
  "compute_tx_hash lib tx = rbind (map_err CryptoSerializationFailed (body_ser lib (from_tx tx))) (\<lambda>bs. Inr (cl_blake3 lib bs))"

definition sign_transaction :: "crypto_lib \<Rightarrow> transaction \<Rightarrow> keypair \<Rightarrow> crypto_error + transaction" where
  "sign_transaction lib tx kp =
     rbind (compute_tx_hash lib tx) (\<lambda>h.
     Inr (tx\<lparr>tx_hash := h, tx_signature := to_lemma_signature (kp_sign lib kp (to_be_bytes h))\<rparr>))"

definition verify_transaction :: "crypto_lib \<Rightarrow> transaction \<Rightarrow> public_key \<Rightarrow> crypto_error + unit" where
  "verify_transaction lib tx pk =
     rbind (case tx_signature tx of
         Unsigned \<Rightarrow> Inl UnsignedTransaction
       | Classical _ \<Rightarrow> Inl (HybridSignatureRequired ''Classical'')
       | PostQuantum _ \<Rightarrow> Inl (HybridSignatureRequired ''PostQuantum'')
       | Hybrid classical quantum \<Rightarrow> Inr \<lparr>hs_classical = classical, hs_quantum = quantum\<rparr>) (\<lambda>sig.
     rbind (compute_tx_hash lib tx) (\<lambda>h.
     verify_hybrid lib pk (to_be_bytes h) sig))"

definition PERSONAL_SIGN_DOMAIN :: bytes where
  "PERSONAL_SIGN_DOMAIN = [0x19, 0x4C, 0x65, 0x6D, 0x6D, 0x61, 0x20, 0x53, 0x69, 0x67, 0x6E, 0x65, 0x64, 0x20,
     0x4D, 0x65, 0x73, 0x73, 0x61, 0x67, 0x65, 0x3A, 0x0A]"

definition to_le_bytes :: "'a::len word \<Rightarrow> bytes" where
  "to_le_bytes w = rev (to_be_bytes w)"

definition compute_message_hash :: "crypto_lib \<Rightarrow> bytes \<Rightarrow> hash" where
  "compute_message_hash lib msg =
     cl_blake3 lib (PERSONAL_SIGN_DOMAIN @ to_le_bytes (of_nat (length msg) :: u64) @ msg)"

definition sign_message :: "crypto_lib \<Rightarrow> bytes \<Rightarrow> keypair \<Rightarrow> hybrid_signature" where
  "sign_message lib msg kp = kp_sign lib kp (to_be_bytes (compute_message_hash lib msg))"

definition verify_message :: "crypto_lib \<Rightarrow> bytes \<Rightarrow> hybrid_signature \<Rightarrow> public_key \<Rightarrow> crypto_error + unit" where
  "verify_message lib msg sig pk = verify_hybrid lib pk (to_be_bytes (compute_message_hash lib msg)) sig"


subsection \<open>Signed transactions verify\<close>

definition keypair_works :: "crypto_lib \<Rightarrow> keypair \<Rightarrow> bool" where
  "keypair_works lib kp \<longleftrightarrow> length (kp_classical_pk kp) = 32 \<and>
     ed_key lib (kp_classical_pk kp) = Inr () \<and> pq_key lib (kp_quantum_pk kp) = Inr () \<and>
     (\<forall>msg. length (ed_sign lib (kp_classical_sk kp) msg) = 64 \<and>
       ed_verify lib (kp_classical_pk kp) msg (ed_sign lib (kp_classical_sk kp) msg) \<and>
       pq_signature lib (pq_sign lib (kp_quantum_sk kp) msg) \<and>
       pq_verify lib (kp_quantum_pk kp) msg (pq_sign lib (kp_quantum_sk kp) msg))"

lemma verify_signed: "keypair_works lib kp \<Longrightarrow> verify_hybrid lib (kp_public_key kp) msg (kp_sign lib kp msg) = Inr ()"
  by (simp add: keypair_works_def verify_hybrid_def classical_verifying_key_def quantum_public_key_def
      kp_public_key_def kp_sign_def)

lemma compute_tx_hash_cong: "from_tx tx = from_tx tx' \<Longrightarrow> compute_tx_hash lib tx = compute_tx_hash lib tx'"
  by (simp add: compute_tx_hash_def)

text \<open>A scheme for samples: the signature is a constant, every key and signature is accepted.\<close>

definition sample_lib :: crypto_lib where
  "sample_lib = \<lparr>ed_key = (\<lambda>_. Inr ()), ed_verify = (\<lambda>_ _ _. True), ed_sign = (\<lambda>_ _. replicate 64 0),
     pq_key = (\<lambda>_. Inr ()), pq_signature_bytes = 1, pq_signature = (\<lambda>_. True), pq_verify = (\<lambda>_ _ _. True),
     pq_sign = (\<lambda>_ _. [0]), cl_blake3 = checksum,
     body_ser = (\<lambda>b. Inr (code_nat (unat (sb_sender b)) @ code_nat (unat (sb_nonce b))))\<rparr>"

definition sample_keypair :: keypair where
  "sample_keypair = \<lparr>kp_classical_sk = [], kp_classical_pk = replicate 32 1, kp_quantum_sk = [], kp_quantum_pk = [], kp_address = 0\<rparr>"

definition sample_tx :: transaction where
  "sample_tx = \<lparr>tx_hash = 0, tx_sender = 0, tx_to = Some 7, tx_nonce = 0, tx_chain_id = 1, tx_value = 0,
     tx_gas_limit = 1, tx_gas_price = 20, tx_type = Transfer, tx_data = [],
     tx_signature = Hybrid (replicate 64 0) [0], tx_session_key = None, tx_owner_cosignature = None\<rparr>"

text \<open>
  Signing makes transactions that verify: where the two schemes accept their own signatures, a
  signed transaction carries the hash of its body, a hybrid signature, the other fields
  unchanged, and passes verification under the signer's public key.
\<close>

theorem signed_transaction_verifies:
  assumes "keypair_works lib kp" "sign_transaction lib tx kp = Inr tx'"
  shows "verify_transaction lib tx' (kp_public_key kp) = Inr () \<and> compute_tx_hash lib tx' = Inr (tx_hash tx') \<and>
    from_tx tx' = from_tx tx \<and> is_signed (tx_signature tx')"
proof -
  obtain h where h: "compute_tx_hash lib tx = Inr h"
    "tx' = tx\<lparr>tx_hash := h, tx_signature := to_lemma_signature (kp_sign lib kp (to_be_bytes h))\<rparr>"
    using assms(2) by (auto simp: sign_transaction_def rbind_Inr)
  have body: "from_tx tx' = from_tx tx" by (simp add: h(2) from_tx_def)
  then have "compute_tx_hash lib tx' = Inr h" using compute_tx_hash_cong h(1) by metis
  then show ?thesis
    using body h(2) verify_signed [OF assms(1), of "to_be_bytes h"]
    by (simp add: verify_transaction_def to_lemma_signature_def kp_sign_def)
qed

theorem signed_transaction_verifies_witness:
  "\<exists>tx'. sign_transaction sample_lib sample_tx sample_keypair = Inr tx' \<and>
    verify_transaction sample_lib tx' (kp_public_key sample_keypair) = Inr ()"
proof -
  have "keypair_works sample_lib sample_keypair"
    by (simp add: keypair_works_def sample_lib_def sample_keypair_def)
  moreover obtain tx' where "sign_transaction sample_lib sample_tx sample_keypair = Inr tx'"
    by (auto simp: sign_transaction_def compute_tx_hash_def sample_lib_def)
  ultimately show ?thesis using signed_transaction_verifies by blast
qed

text \<open>
  Verification does not look at the hash field: a verified transaction stays verified with any
  other value in \<open>hash\<close>, under the same key and signature. Whoever relays a transaction chooses
  the hash it is known by.
\<close>

theorem verification_ignores_hash:
  "verify_transaction lib (tx\<lparr>tx_hash := h\<rparr>) pk = verify_transaction lib tx pk"
  by (simp add: verify_transaction_def compute_tx_hash_def from_tx_def)

end
