(* ===== verification/Mempool_Policy.thy ===== *)
theory Mempool_Policy
  imports Transactions Complex_Main
begin

section \<open>Mempool policies\<close>

text \<open>
  The parts of \<^verbatim>\<open>lemma-mempool\<close> the pool is composed of: \<^verbatim>\<open>error.rs\<close>, \<^verbatim>\<open>qos.rs\<close> (priority),
  \<^verbatim>\<open>circuit_breaker.rs\<close> (load shedding), \<^verbatim>\<open>express.rs\<close> (fast-path classification),
  \<^verbatim>\<open>local_fees.rs\<close> (per-contract surcharge) and \<^verbatim>\<open>rate_limit.rs\<close> (token buckets).

  The token buckets compute in \<open>f64\<close>. Floating point is left open: the operations are the record
  \<open>float_ops\<close>, an argument of the rate limiter; its properties are stated for exact rational
  arithmetic (\<open>rat_ops\<close>). An \<open>Instant\<close> is a number of nanoseconds.
\<close>

subsection \<open>Errors\<close>

datatype mempool_error =
    InvalidSignature hash
  | NonceTooLow address u64 u64
  | NonceGapTooLarge address u64 u64 u64
  | InsufficientBalance address u128 u128
  | ZeroGasLimit hash
  | GasPriceTooLow hash u128 u128
  | ChainIdMismatch hash u64 u64
  | TransactionTooLarge hash u64 u64
  | PoolFull hash nat
  | ReplacementUnderpriced address u64 u128 u128 u32
  | RateLimited address u64
  | CircuitBreakerRejected hash string
  | TransactionNotFound hash
  | StateLookupFailed address trie_abort
  | MempoolCryptoError hash crypto_error

fun is_invalid_tx :: "mempool_error \<Rightarrow> bool" where
  "is_invalid_tx (InvalidSignature _) = True"
| "is_invalid_tx (NonceTooLow _ _ _) = True"
| "is_invalid_tx (NonceGapTooLarge _ _ _ _) = True"
| "is_invalid_tx (InsufficientBalance _ _ _) = True"
| "is_invalid_tx (ZeroGasLimit _) = True"
| "is_invalid_tx (GasPriceTooLow _ _ _) = True"
| "is_invalid_tx (ChainIdMismatch _ _ _) = True"
| "is_invalid_tx (TransactionTooLarge _ _ _) = True"
| "is_invalid_tx (ReplacementUnderpriced _ _ _ _ _) = True"
| "is_invalid_tx _ = False"

fun is_retriable :: "mempool_error \<Rightarrow> bool" where
  "is_retriable (PoolFull _ _) = True"
| "is_retriable (RateLimited _ _) = True"
| "is_retriable (CircuitBreakerRejected _ _) = True"
| "is_retriable _ = False"

fun is_internal :: "mempool_error \<Rightarrow> bool" where
  "is_internal (StateLookupFailed _ _) = True"
| "is_internal (MempoolCryptoError _ _) = True"
| "is_internal _ = False"

subsection \<open>Priority\<close>

type_synonym priority = u64

definition STAKE_UNIT :: u128 where
  "STAKE_UNIT = DROPS_PER_LEM"

definition MAX_STAKE_BONUS :: u64 where
  "MAX_STAKE_BONUS = 1000000"

definition saturating_u128_to_u64 :: "u128 \<Rightarrow> u64" where
  "saturating_u128_to_u64 v = ucast (min v (ucast (- 1 :: u64)))"

definition stake_bonus :: "amount \<Rightarrow> u64" where
  "stake_bonus sender_stake = min (saturating_u128_to_u64 (sender_stake div STAKE_UNIT)) MAX_STAKE_BONUS"

definition priority_score :: "amount \<Rightarrow> amount \<Rightarrow> priority" where
  "priority_score gas_price sender_stake =
     saturating_add (saturating_u128_to_u64 gas_price) (stake_bonus sender_stake)"

subsection \<open>Circuit breaker\<close>

definition BUSY_THRESHOLD_PCT :: u64 where "BUSY_THRESHOLD_PCT = 70"
definition CRITICAL_THRESHOLD_PCT :: u64 where "CRITICAL_THRESHOLD_PCT = 90"
definition EMERGENCY_THRESHOLD_PCT :: u64 where "EMERGENCY_THRESHOLD_PCT = 100"

datatype network_tier = Normal | Busy | Critical | Emergency

text \<open>\<open>usize\<close> is 64 bits wide; a count of entries in memory is below \<open>2 ^ 64\<close>.\<close>

definition from_load :: "nat \<Rightarrow> nat \<Rightarrow> network_tier" where
  "from_load pending_count capacity =
     (if capacity = 0 then Emergency
      else
        let load_pct = saturating_mul (of_nat pending_count) 100 div (of_nat capacity :: u64) in
        if load_pct < BUSY_THRESHOLD_PCT then Normal
        else if load_pct < CRITICAL_THRESHOLD_PCT then Busy
        else if load_pct < EMERGENCY_THRESHOLD_PCT then Critical
        else Emergency)"

fun admits :: "network_tier \<Rightarrow> tx_type \<Rightarrow> bool" where
  "admits Normal ty \<longleftrightarrow> True"
| "admits Busy ty \<longleftrightarrow> ty = Transfer \<or> ty = ContractCall \<or> ty = StakeTx \<or> ty = Unstake \<or> ty = GovernanceVote"
| "admits Critical ty \<longleftrightarrow> ty = Transfer \<or> ty = StakeTx \<or> ty = Unstake \<or> ty = GovernanceVote"
| "admits Emergency ty \<longleftrightarrow> ty = StakeTx \<or> ty = Unstake"

fun rejection_reason :: "network_tier \<Rightarrow> string" where
  "rejection_reason Normal = ''Normal: all transaction types accepted''"
| "rejection_reason Busy = ''Busy: ContractDeploy deferred; resubmit when load normalises''"
| "rejection_reason Critical = ''Critical: only Transfer, Stake, Unstake, GovernanceVote accepted''"
| "rejection_reason Emergency = ''Emergency: only Stake and Unstake accepted''"

definition is_admitted :: "tx_type \<Rightarrow> nat \<Rightarrow> nat \<Rightarrow> bool" where
  "is_admitted ty pending_count capacity = admits (from_load pending_count capacity) ty"

subsection \<open>Express classification\<close>

record express_hint =
  is_express_eligible :: bool
  reads_shared_state :: bool
  is_private :: bool

definition hint_eligible :: express_hint where
  "hint_eligible = \<lparr>is_express_eligible = True, reads_shared_state = False, is_private = False\<rparr>"

datatype fallback_reason = MissingHint | NotCompilerEligible | SharedStateRead | PrivateTx | IneligibleTxType

datatype express_eligibility = Eligible | Fallback fallback_reason

definition is_allowed_tx_type :: "tx_type \<Rightarrow> bool" where
  "is_allowed_tx_type ty \<longleftrightarrow> ty = Transfer"

definition classify :: "tx_type \<Rightarrow> express_hint option \<Rightarrow> express_eligibility" where
  "classify ty hint =
     (if \<not> is_allowed_tx_type ty then Fallback IneligibleTxType
      else case hint of None \<Rightarrow> Fallback MissingHint
      | Some h \<Rightarrow>
          if \<not> is_express_eligible h then Fallback NotCompilerEligible
          else if reads_shared_state h then Fallback SharedStateRead
          else if is_private h then Fallback PrivateTx
          else Eligible)"

subsection \<open>Local fee market\<close>

definition DECAY_NUM :: u64 where "DECAY_NUM = 7"
definition DECAY_DEN :: u64 where "DECAY_DEN = 8"
definition HIGH_DEMAND_THRESHOLD :: u64 where "HIGH_DEMAND_THRESHOLD = 800"
definition SCALE_FACTOR :: u64 where "SCALE_FACTOR = 400"
definition MAX_SURCHARGE_MULTIPLIER :: u64 where "MAX_SURCHARGE_MULTIPLIER = 10"

record contract_load =
  ema_load :: u64
  current_block_count :: u64

type_synonym local_fee_market = "(address, contract_load) fmap"

definition load_or_default :: "local_fee_market \<Rightarrow> address \<Rightarrow> contract_load" where
  "load_or_default loads contract = (case fmlookup loads contract of
     Some l \<Rightarrow> l | None \<Rightarrow> \<lparr>ema_load = 0, current_block_count = 0\<rparr>)"

definition fees_record :: "local_fee_market \<Rightarrow> address \<Rightarrow> local_fee_market" where
  "fees_record loads contract =
     (let l = load_or_default loads contract in
      fmupd contract (l\<lparr>current_block_count := saturating_add (current_block_count l) 1\<rparr>) loads)"

definition tick_load :: "contract_load \<Rightarrow> contract_load" where
  "tick_load l =
     (let numerator = saturating_add (saturating_mul (ucast (ema_load l)) (ucast DECAY_NUM)) (ucast (current_block_count l) :: u128);
          new_ema = numerator div ucast DECAY_DEN in
      l\<lparr>ema_load := saturating_u128_to_u64 new_ema, current_block_count := 0\<rparr>)"

definition fees_tick :: "local_fee_market \<Rightarrow> local_fee_market" where
  "fees_tick loads = fmmap tick_load loads"

definition prune_idle :: "local_fee_market \<Rightarrow> local_fee_market" where
  "prune_idle loads = fmfilter (\<lambda>a. case fmlookup loads a of
     Some l \<Rightarrow> ema_load l > 0 \<or> current_block_count l > 0 | None \<Rightarrow> False) loads"

definition contract_load_of :: "local_fee_market \<Rightarrow> address \<Rightarrow> u64" where
  "contract_load_of loads contract = (case fmlookup loads contract of Some l \<Rightarrow> ema_load l | None \<Rightarrow> 0)"

definition local_base_fee :: "local_fee_market \<Rightarrow> address \<Rightarrow> u64 \<Rightarrow> u64" where
  "local_base_fee loads contract global_base =
     (let ema = contract_load_of loads contract;
          excess = saturating_sub ema HIGH_DEMAND_THRESHOLD;
          numerator = saturating_add (ucast SCALE_FACTOR) (ucast excess :: u128);
          cap = saturating_mul (ucast SCALE_FACTOR) (ucast MAX_SURCHARGE_MULTIPLIER);
          capped = min numerator cap;
          fee = saturating_mul (ucast global_base) capped div ucast SCALE_FACTOR in
      saturating_u128_to_u64 fee)"

definition tracked_contracts :: "local_fee_market \<Rightarrow> nat" where
  "tracked_contracts loads = btree_len loads"

subsection \<open>Rate limiter\<close>

type_synonym instant = nat

text \<open>
  The \<open>f64\<close> operations the rate limiter uses: literals, arithmetic, \<open>min\<close>, \<open>max\<close>, \<open>>=\<close>, \<open>ceil\<close>, the cast
  to \<open>u64\<close>, and \<open>Duration::as_secs_f64\<close> of a number of nanoseconds.
\<close>

record 'f float_ops =
  f_lit :: "nat \<Rightarrow> 'f"
  f_add :: "'f \<Rightarrow> 'f \<Rightarrow> 'f"
  f_sub :: "'f \<Rightarrow> 'f \<Rightarrow> 'f"
  f_mul :: "'f \<Rightarrow> 'f \<Rightarrow> 'f"
  f_div :: "'f \<Rightarrow> 'f \<Rightarrow> 'f"
  f_min :: "'f \<Rightarrow> 'f \<Rightarrow> 'f"
  f_max :: "'f \<Rightarrow> 'f \<Rightarrow> 'f"
  f_ge :: "'f \<Rightarrow> 'f \<Rightarrow> bool"
  f_ceil :: "'f \<Rightarrow> 'f"
  f_to_u64 :: "'f \<Rightarrow> u64"
  f_secs :: "nat \<Rightarrow> 'f"

record 'f token_bucket =
  tokens :: 'f
  last_refill :: instant

definition bucket_new :: "'f \<Rightarrow> instant \<Rightarrow> 'f token_bucket" where
  "bucket_new capacity now = \<lparr>tokens = capacity, last_refill = now\<rparr>"

definition refill :: "'f float_ops \<Rightarrow> 'f \<Rightarrow> 'f \<Rightarrow> instant \<Rightarrow> 'f token_bucket \<Rightarrow> 'f token_bucket" where
  "refill fl capacity rate now b =
     \<lparr>tokens = f_min fl (f_add fl (tokens b) (f_mul fl (f_secs fl (now - last_refill b)) rate)) capacity,
      last_refill = now\<rparr>"

definition try_consume ::
  "'f float_ops \<Rightarrow> 'f token_bucket \<Rightarrow> 'f \<Rightarrow> 'f \<Rightarrow> instant \<Rightarrow> (u64 + unit) \<times> 'f token_bucket" where
  "try_consume fl b capacity rate now =
     (let b = refill fl capacity rate now b in
      if f_ge fl (tokens b) (f_lit fl 1) then (Inr (), b\<lparr>tokens := f_sub fl (tokens b) (f_lit fl 1)\<rparr>)
      else
        let needed = f_sub fl (f_lit fl 1) (tokens b); wait_secs = f_div fl needed rate in
        (Inl (f_to_u64 fl (f_min fl (f_ceil fl (f_mul fl wait_secs (f_lit fl 1000))) (f_lit fl 18446744073709551616))), b))"

definition bucket_is_full :: "'f float_ops \<Rightarrow> 'f token_bucket \<Rightarrow> 'f \<Rightarrow> bool" where
  "bucket_is_full fl b capacity = f_ge fl (tokens b) capacity"

record 'f rate_limiter =
  rl_buckets :: "(address, 'f token_bucket) fmap"
  rl_capacity :: 'f
  rl_refill_per_sec :: 'f

definition limiter_new :: "'f float_ops \<Rightarrow> 'f \<Rightarrow> 'f \<Rightarrow> 'f rate_limiter" where
  "limiter_new fl capacity rate = \<lparr>rl_buckets = fmempty, rl_capacity = f_max fl capacity (f_lit fl 1),
     rl_refill_per_sec = f_max fl rate (f_lit fl 1)\<rparr>"

definition limiter_with_defaults :: "'f float_ops \<Rightarrow> 'f rate_limiter" where
  "limiter_with_defaults fl = limiter_new fl (f_lit fl 20) (f_lit fl 5)"

definition try_acquire ::
  "'f float_ops \<Rightarrow> 'f rate_limiter \<Rightarrow> address \<Rightarrow> instant \<Rightarrow> (mempool_error + unit) \<times> 'f rate_limiter" where
  "try_acquire fl rl account now =
     (let b = (case fmlookup (rl_buckets rl) account of Some b \<Rightarrow> b | None \<Rightarrow> bucket_new (rl_capacity rl) now);
          (res, b') = try_consume fl b (rl_capacity rl) (rl_refill_per_sec rl) now in
      (map_err (RateLimited account) res, rl\<lparr>rl_buckets := fmupd account b' (rl_buckets rl)\<rparr>))"

definition prune_full :: "'f float_ops \<Rightarrow> 'f rate_limiter \<Rightarrow> instant \<Rightarrow> 'f rate_limiter" where
  "prune_full fl rl now =
     (let refilled = fmmap (refill fl (rl_capacity rl) (rl_refill_per_sec rl) now) (rl_buckets rl) in
      rl\<lparr>rl_buckets := fmfilter (\<lambda>a. case fmlookup refilled a of
        Some b \<Rightarrow> \<not> bucket_is_full fl b (rl_capacity rl) | None \<Rightarrow> False) refilled\<rparr>)"

definition tracked_accounts :: "'f rate_limiter \<Rightarrow> nat" where
  "tracked_accounts rl = btree_len (rl_buckets rl)"

subsection \<open>Arithmetic of the policies\<close>

lemma unat_saturating_u128_to_u64: "unat (saturating_u128_to_u64 v) = min (unat v) (2 ^ 64 - 1)"
proof -
  have max: "unat (ucast (- 1 :: u64) :: u128) = 2 ^ 64 - 1"
    by (simp add: unat_ucast_widen unat_max_word)
  have "unat (min v (ucast (- 1 :: u64))) = min (unat v) (2 ^ 64 - 1)"
    by (simp only: unat_min max)
  moreover have "unat (ucast (min v (ucast (- 1 :: u64))) :: u64) = unat (min v (ucast (- 1 :: u64)))"
    using calculation by (simp only: unsigned_ucast_eq take_bit_nat_eq_self_iff) simp
  ultimately show ?thesis by (simp add: saturating_u128_to_u64_def)
qed

lemma unat_ucast_u64: "unat (ucast (x :: u64) :: u128) = unat x"
  by (simp add: unat_ucast_widen)

text \<open>
  The surcharge is exact: the fee of a contract is the global base fee times
  \<open>(400 + excess) / 400\<close>, where the excess is the load above 800 transactions per block and the
  factor is at most ten, rounded down and clamped to 64 bits. It is the base fee itself up to the
  threshold, and no intermediate result saturates.
\<close>

theorem local_base_fee_exact:
  "unat (local_base_fee loads a base) =
    min (2 ^ 64 - 1) (unat base * min (400 + (unat (contract_load_of loads a) - 800)) 4000 div 400)"
proof -
  let ?e = "saturating_sub (contract_load_of loads a) HIGH_DEMAND_THRESHOLD"
  have e: "unat ?e = unat (contract_load_of loads a) - 800"
    by (simp add: unat_saturating_sub HIGH_DEMAND_THRESHOLD_def)
  have num: "unat (saturating_add (ucast SCALE_FACTOR) (ucast ?e :: u128)) = 400 + unat ?e"
    using unat_lt_size [of ?e] by (simp add: unat_saturating_add unat_ucast_u64 SCALE_FACTOR_def)
  have cap: "unat (saturating_mul (ucast SCALE_FACTOR) (ucast MAX_SURCHARGE_MULTIPLIER) :: u128) = 4000"
    by (simp add: unat_saturating_mul SCALE_FACTOR_def MAX_SURCHARGE_MULTIPLIER_def)
  define c :: u128 where "c = min (saturating_add (ucast SCALE_FACTOR) (ucast ?e)) (saturating_mul (ucast SCALE_FACTOR) (ucast MAX_SURCHARGE_MULTIPLIER))"
  have c: "unat c = min (400 + (unat (contract_load_of loads a) - 800)) 4000"
    by (simp add: c_def unat_min num cap e)
  have "unat base * unat c < 2 ^ 64 * 4096"
    using unat_lt_size [of base] by (intro mult_strict_mono) (auto simp: c)
  then have "unat (saturating_mul (ucast base) c) = unat base * unat c"
    by (simp add: unat_saturating_mul unat_ucast_u64)
  moreover have "local_base_fee loads a base = saturating_u128_to_u64 (saturating_mul (ucast base) c div ucast SCALE_FACTOR)"
    by (simp only: local_base_fee_def Let_def c_def)
  ultimately show ?thesis
    by (simp add: unat_saturating_u128_to_u64 unat_div unat_ucast_u64 SCALE_FACTOR_def c min.commute)
qed

lemma tick_load_exact:
  "unat (ema_load (tick_load l)) = (7 * unat (ema_load l) + unat (current_block_count l)) div 8"
proof -
  let ?n = "saturating_add (saturating_mul (ucast (ema_load l)) (ucast DECAY_NUM)) (ucast (current_block_count l) :: u128)"
  have "unat (saturating_mul (ucast (ema_load l)) (ucast DECAY_NUM) :: u128) = 7 * unat (ema_load l)"
    using unat_lt_size [of "ema_load l"] by (simp add: unat_saturating_mul unat_ucast_u64 DECAY_NUM_def)
  then have "unat ?n = 7 * unat (ema_load l) + unat (current_block_count l)"
    using unat_lt_size [of "ema_load l"] unat_lt_size [of "current_block_count l"]
    by (simp add: unat_saturating_add unat_ucast_u64)
  then show ?thesis
    using unat_lt_size [of "ema_load l"] unat_lt_size [of "current_block_count l"]
    by (simp add: tick_load_def Let_def unat_saturating_u128_to_u64 unat_div unat_ucast_u64 DECAY_DEN_def)
qed

text \<open>A contract that receives the same number of transactions in every block.\<close>

primrec steady :: "nat \<Rightarrow> u64 \<Rightarrow> contract_load" where
  "steady 0 x = \<lparr>ema_load = 0, current_block_count = 0\<rparr>"
| "steady (Suc n) x = tick_load ((steady n x)\<lparr>current_block_count := x\<rparr>)"

text \<open>
  The load average stays below the load: a contract that gets \<open>x\<close> transactions in every block,
  from its first block on, has a load average of at most \<open>x - 7\<close> after any number of blocks,
  because each step rounds down. A contract with up to 807 transactions in every block never
  pays a surcharge, and one with fewer than eight is pruned as idle.
\<close>

theorem steady_load_underestimated: "unat (ema_load (steady n x)) \<le> unat x - 7"
proof (induction n)
  case (Suc n)
  have "unat (ema_load (steady (Suc n) x)) = (7 * unat (ema_load (steady n x)) + unat x) div 8"
    by (simp add: tick_load_exact)
  with Suc show ?case by linarith
qed simp
subsection \<open>The rate limiter in exact arithmetic\<close>

definition rat_ops :: "rat float_ops" where
  "rat_ops = \<lparr>f_lit = of_nat, f_add = (+), f_sub = (-), f_mul = (*), f_div = (/), f_min = min, f_max = max,
     f_ge = (\<lambda>a b. b \<le> a), f_ceil = (\<lambda>x. of_int \<lceil>x\<rceil>),
     f_to_u64 = (\<lambda>x. if 18446744073709551616 \<le> x then - 1 else of_int \<lfloor>max x 0\<rfloor>),
     f_secs = (\<lambda>n. of_nat n / 1000000000)\<rparr>"

datatype limiter_event = Acquire address instant | Prune instant

fun event_time :: "limiter_event \<Rightarrow> instant" where
  "event_time (Acquire _ t) = t"
| "event_time (Prune t) = t"

text \<open>The requests of account \<open>a\<close> that pass in a sequence of requests and prunings.\<close>

fun passed :: "'f float_ops \<Rightarrow> address \<Rightarrow> 'f rate_limiter \<Rightarrow> limiter_event list \<Rightarrow> nat" where
  "passed fl a rl [] = 0"
| "passed fl a rl (Acquire b t # evs) =
     (let (res, rl') = try_acquire fl rl b t in (if b = a \<and> res = Inr () then 1 else 0) + passed fl a rl' evs)"
| "passed fl a rl (Prune t # evs) = passed fl a (prune_full fl rl t) evs"

definition secs :: "nat \<Rightarrow> rat" where
  "secs n = of_nat n / 1000000000"

text \<open>The tokens an account can spend at a time.\<close>

definition credit :: "rat rate_limiter \<Rightarrow> address \<Rightarrow> instant \<Rightarrow> rat" where
  "credit rl a t = (case fmlookup (rl_buckets rl) a of None \<Rightarrow> rl_capacity rl
     | Some b \<Rightarrow> min (tokens b + secs (t - last_refill b) * rl_refill_per_sec rl) (rl_capacity rl))"

definition refilled_by :: "rat rate_limiter \<Rightarrow> instant \<Rightarrow> bool" where
  "refilled_by rl t \<longleftrightarrow> (\<forall>a b. fmlookup (rl_buckets rl) a = Some b \<longrightarrow> last_refill b \<le> t)"

lemma secs_split: "s \<le> t0 \<Longrightarrow> t0 \<le> t \<Longrightarrow> secs (t - s) = secs (t0 - s) + secs (t - t0)"
proof -
  assume "s \<le> t0" "t0 \<le> t"
  then have "t - s = (t0 - s) + (t - t0)" by simp
  then have "of_nat (t - s) = (of_nat (t0 - s) + of_nat (t - t0) :: rat)" by (metis of_nat_add)
  then show ?thesis by (simp add: secs_def add_divide_distrib)
qed

lemma secs_nonneg [simp]: "0 \<le> secs n" "secs 0 = 0"
  by (simp_all add: secs_def)

lemma credit_grows:
  assumes "refilled_by rl t0" "t0 \<le> t" "0 < rl_refill_per_sec rl"
  shows "credit rl a t \<le> credit rl a t0 + secs (t - t0) * rl_refill_per_sec rl \<and> credit rl a t0 \<le> credit rl a t"
proof (cases "fmlookup (rl_buckets rl) a")
  case None
  then show ?thesis using assms(3) by (simp add: credit_def)
next
  case (Some b)
  with assms(1,2) have "secs (t - last_refill b) = secs (t0 - last_refill b) + secs (t - t0)"
    by (intro secs_split) (auto simp: refilled_by_def)
  moreover have "0 \<le> secs (t - t0) * rl_refill_per_sec rl" using assms(3) by simp
  ultimately show ?thesis using Some by (auto simp: credit_def min_def algebra_simps)
qed

lemma refill_rat:
  "tokens (refill rat_ops cap rate t b) = min (tokens b + secs (t - last_refill b) * rate) cap"
  "last_refill (refill rat_ops cap rate t b) = t"
  by (simp_all add: refill_def rat_ops_def secs_def)

lemma acquire_credit:
  assumes "try_acquire rat_ops rl b t = (res, rl')"
  shows "rl_capacity rl' = rl_capacity rl" "rl_refill_per_sec rl' = rl_refill_per_sec rl"
    and "refilled_by rl t \<Longrightarrow> refilled_by rl' t"
    and "a \<noteq> b \<Longrightarrow> credit rl' a s = credit rl a s"
    and "1 \<le> rl_capacity rl \<Longrightarrow> credit rl' b t = (if res = Inr () then credit rl b t - 1 else credit rl b t)"
    and "(res = Inr ()) = (1 \<le> credit rl b t)"
proof -
  let ?b = "case fmlookup (rl_buckets rl) b of Some b \<Rightarrow> b | None \<Rightarrow> bucket_new (rl_capacity rl) t"
  let ?r = "refill rat_ops (rl_capacity rl) (rl_refill_per_sec rl) t ?b"
  have tok: "tokens ?r = credit rl b t" "last_refill ?r = t"
    by (auto simp: refill_rat credit_def bucket_new_def split: option.split)
  have "try_consume rat_ops ?b (rl_capacity rl) (rl_refill_per_sec rl) t =
      (if 1 \<le> credit rl b t then (Inr (), ?r\<lparr>tokens := credit rl b t - 1\<rparr>)
       else (Inl (f_to_u64 rat_ops (f_min rat_ops (f_ceil rat_ops (f_mul rat_ops
         (f_div rat_ops (1 - credit rl b t) (rl_refill_per_sec rl)) 1000)) 18446744073709551616)), ?r))"
    by (simp add: try_consume_def Let_def tok) (simp add: rat_ops_def)
  with assms have cases: "if 1 \<le> credit rl b t
    then res = Inr () \<and> rl' = rl\<lparr>rl_buckets := fmupd b (?r\<lparr>tokens := credit rl b t - 1\<rparr>) (rl_buckets rl)\<rparr>
    else (\<exists>e. res = Inl e) \<and> rl' = rl\<lparr>rl_buckets := fmupd b ?r (rl_buckets rl)\<rparr>"
    by (auto simp: try_acquire_def Let_def split: if_splits)
  have le: "credit rl b t \<le> rl_capacity rl" by (auto simp: credit_def split: option.split)
  show "rl_capacity rl' = rl_capacity rl" "rl_refill_per_sec rl' = rl_refill_per_sec rl"
    using cases by (auto split: if_splits)
  show "refilled_by rl t \<Longrightarrow> refilled_by rl' t"
    using cases tok(2) by (auto simp: refilled_by_def split: if_splits)
  show "a \<noteq> b \<Longrightarrow> credit rl' a s = credit rl a s"
    using cases by (cases "fmlookup (rl_buckets rl) a") (auto simp: credit_def split: if_splits)
  show "1 \<le> rl_capacity rl \<Longrightarrow> credit rl' b t = (if res = Inr () then credit rl b t - 1 else credit rl b t)"
    using cases tok le by (auto simp: credit_def [of rl'] min_def split: if_splits)
  show "(res = Inr ()) = (1 \<le> credit rl b t)" using cases by (auto split: if_splits)
qed

lemma prune_credit:
  assumes "refilled_by rl t"
  shows "rl_capacity (prune_full rat_ops rl t) = rl_capacity rl" "rl_refill_per_sec (prune_full rat_ops rl t) = rl_refill_per_sec rl"
    "refilled_by (prune_full rat_ops rl t) t" "credit (prune_full rat_ops rl t) a t = credit rl a t"
proof -
  let ?m = "fmmap (refill rat_ops (rl_capacity rl) (rl_refill_per_sec rl) t) (rl_buckets rl)"
  have look: "fmlookup (rl_buckets (prune_full rat_ops rl t)) x = (case fmlookup ?m x of None \<Rightarrow> None
      | Some b \<Rightarrow> if rl_capacity rl \<le> tokens b then None else Some b)" for x
    by (auto simp: prune_full_def Let_def bucket_is_full_def rat_ops_def split: option.split)
  show caps: "rl_capacity (prune_full rat_ops rl t) = rl_capacity rl" "rl_refill_per_sec (prune_full rat_ops rl t) = rl_refill_per_sec rl"
    by (simp_all add: prune_full_def Let_def)
  show "refilled_by (prune_full rat_ops rl t) t"
    by (auto simp: refilled_by_def look refill_rat split: option.splits if_splits)
  show "credit (prune_full rat_ops rl t) a t = credit rl a t"
    by (auto simp: credit_def look caps refill_rat min_def split: option.split)
qed

lemma refilled_by_mono: "refilled_by rl s \<Longrightarrow> s \<le> t \<Longrightarrow> refilled_by rl t"
  by (auto simp: refilled_by_def intro: order_trans)

lemma passed_le_credit:
  "0 < rl_refill_per_sec rl \<Longrightarrow> 1 \<le> rl_capacity rl \<Longrightarrow> refilled_by rl t0 \<Longrightarrow> 0 \<le> credit rl a t0 \<Longrightarrow>
    sorted (map event_time evs) \<Longrightarrow> \<forall>e \<in> set evs. t0 \<le> event_time e \<and> event_time e \<le> T \<Longrightarrow> t0 \<le> T \<Longrightarrow>
    of_nat (passed rat_ops a rl evs) \<le> credit rl a t0 + secs (T - t0) * rl_refill_per_sec rl"
proof (induction evs arbitrary: rl t0)
  case (Cons e evs)
  let ?t = "event_time e"
  have t: "t0 \<le> ?t" "?t \<le> T" "\<forall>e' \<in> set evs. ?t \<le> event_time e' \<and> event_time e' \<le> T" "sorted (map event_time evs)"
    using Cons.prems(5,6) by auto
  note ref = refilled_by_mono [OF Cons.prems(3) t(1)]
  note grow = credit_grows [OF Cons.prems(3) t(1) Cons.prems(1), of a]
  have split: "secs (T - t0) = secs (?t - t0) + secs (T - ?t)" using secs_split t(1,2) by blast
  show ?case
  proof (cases e)
    case (Acquire b s)
    obtain res rl' where acq: "try_acquire rat_ops rl b ?t = (res, rl')" by (cases "try_acquire rat_ops rl b ?t")
    note acq_facts = acquire_credit [OF acq]
    let ?n = "if b = a \<and> res = Inr () then 1 else 0"
    have after: "credit rl' a ?t = credit rl a ?t - of_nat ?n" "0 \<le> credit rl' a ?t"
      using acq_facts(4) [of a ?t] acq_facts(5,6) Cons.prems(2,4) grow by (cases "a = b"; auto split: if_splits)+
    have "of_nat (passed rat_ops a rl' evs) \<le> credit rl' a ?t + secs (T - ?t) * rl_refill_per_sec rl"
      using Cons.IH [of rl' ?t] acq_facts(1-3) Cons.prems(1,2) ref after(2) t by simp
    moreover have "passed rat_ops a rl (e # evs) = ?n + passed rat_ops a rl' evs"
      using Acquire acq by simp
    ultimately show ?thesis using after(1) grow split by (simp add: algebra_simps)
  next
    case (Prune s)
    note pr = prune_credit [OF ref]
    have "of_nat (passed rat_ops a (prune_full rat_ops rl ?t) evs) \<le> credit rl a ?t + secs (T - ?t) * rl_refill_per_sec rl"
      using Cons.IH [of "prune_full rat_ops rl ?t" ?t] pr Cons.prems(1,2,4) grow t by simp
    then show ?thesis using Prune grow split by (simp add: algebra_simps)
  qed
qed simp

text \<open>
  The rate limiter bounds what passes: in exact arithmetic, of any sequence of requests and
  prunings in the order of time, between \<open>t0\<close> and \<open>T\<close>, no account passes more than the capacity of
  its bucket plus the refill of the time span. Pruning full buckets does not weaken the limit.
\<close>

theorem rate_limit_bounds_requests:
  assumes "0 < rate" "1 \<le> cap" "sorted (map event_time evs)"
    and "\<forall>e \<in> set evs. t0 \<le> event_time e \<and> event_time e \<le> T" "t0 \<le> T"
  shows "of_nat (passed rat_ops a (limiter_new rat_ops cap rate) evs) \<le> cap + of_nat (T - t0) / 1000000000 * max rate 1"
proof -
  let ?rl = "limiter_new rat_ops cap rate"
  have "rl_capacity ?rl = cap" "rl_refill_per_sec ?rl = max rate 1" "credit ?rl a t0 = cap" "refilled_by ?rl t0"
    using assms(2) by (auto simp: limiter_new_def rat_ops_def credit_def refilled_by_def)
  with passed_le_credit [of ?rl t0 a evs T] assms show ?thesis by (simp add: secs_def)
qed

theorem rate_limit_bounds_requests_witness:
  "passed rat_ops 7 (limiter_new rat_ops 2 1) [Acquire 7 0, Acquire 7 0, Acquire 8 0, Acquire 7 0, Prune 5, Acquire 7 1000000000] \<le> 3"
proof -
  let ?evs = "[Acquire 7 0, Acquire 7 0, Acquire 8 0, Acquire 7 0, Prune 5, Acquire 7 1000000000]"
  have "of_nat (passed rat_ops 7 (limiter_new rat_ops 2 1) ?evs) \<le> (2 :: rat) + of_nat (1000000000 - 0) / 1000000000 * max 1 1"
    by (rule rate_limit_bounds_requests) auto
  then have "of_nat (passed rat_ops 7 (limiter_new rat_ops 2 1) ?evs) \<le> (of_nat 3 :: rat)" by simp
  then show ?thesis unfolding of_nat_le_iff .
qed
end
