(* ===== verification/Mempool.thy ===== *)
theory Mempool
  imports Mempool_Policy "HOL-Library.Product_Lexorder"
begin

section \<open>Mempool\<close>

text \<open>
  \<^verbatim>\<open>lemma-mempool/src/validation.rs\<close> and \<^verbatim>\<open>pool.rs\<close>: ingress validation and the pool with its three
  indexes (by hash, by priority, by sender and nonce).

  The signature library, the serialized size of a transaction, the world state and the floating
  point operations are arguments (record \<open>pool_env\<close>). \<open>pool_inv\<close> says that the three indexes describe
  the same transactions; admission keeps it as long as no transaction claims the hash of another
  one, which nothing on the way checks (\<open>forged_hash_corrupts_pool\<close>).
\<close>

subsection \<open>Validation\<close>

definition MAX_TX_SIZE :: u64 where "MAX_TX_SIZE = 128 * 1024"
definition MAX_NONCE_GAP :: u64 where "MAX_NONCE_GAP = 64"

record ('db, 'f) pool_env =
  pe_lib :: crypto_lib
  pe_size :: "transaction \<Rightarrow> u64 option"
  pe_state :: "'db state_env"
  pe_fuel :: nat
  pe_float :: "'f float_ops"

record validation_context =
  vc_chain_id :: u64
  vc_base_fee :: amount

definition validate_size :: "('db, 'f) pool_env \<Rightarrow> transaction \<Rightarrow> mempool_error + unit" where
  "validate_size env tx =
     (let size_u64 = (case pe_size env tx of Some n \<Rightarrow> n | None \<Rightarrow> - 1) in
      if size_u64 > MAX_TX_SIZE then Inl (TransactionTooLarge (tx_hash tx) size_u64 MAX_TX_SIZE) else Inr ())"

definition validate_pubkey_matches_sender ::
  "('db, 'f) pool_env \<Rightarrow> transaction \<Rightarrow> public_key \<Rightarrow> mempool_error + unit" where
  "validate_pubkey_matches_sender env tx pk =
     rbind (ok_or (to_address (pe_lib env) pk) (InvalidSignature (tx_hash tx))) (\<lambda>derived.
     if derived \<noteq> tx_sender tx then Inl (InvalidSignature (tx_hash tx)) else Inr ())"

definition signature_error :: "hash \<Rightarrow> crypto_error \<Rightarrow> mempool_error" where
  "signature_error h e = (case e of
       ClassicalVerificationFailed \<Rightarrow> InvalidSignature h
     | QuantumVerificationFailed \<Rightarrow> InvalidSignature h
     | UnsignedTransaction \<Rightarrow> InvalidSignature h
     | HybridSignatureRequired _ \<Rightarrow> InvalidSignature h
     | InvalidClassicalSignatureLength _ \<Rightarrow> InvalidSignature h
     | InvalidQuantumSignatureLength _ _ \<Rightarrow> InvalidSignature h
     | InvalidPublicKeyBytes _ \<Rightarrow> InvalidSignature h
     | InvalidQuantumPublicKeyBytes _ \<Rightarrow> InvalidSignature h
     | _ \<Rightarrow> MempoolCryptoError h e)"

definition validate_signature :: "('db, 'f) pool_env \<Rightarrow> transaction \<Rightarrow> public_key \<Rightarrow> mempool_error + unit" where
  "validate_signature env tx pk = map_err (signature_error (tx_hash tx)) (verify_transaction (pe_lib env) tx pk)"

definition validate_nonce :: "transaction \<Rightarrow> u64 \<Rightarrow> mempool_error + unit" where
  "validate_nonce tx account_nonce =
     (if tx_nonce tx < account_nonce then Inl (NonceTooLow (tx_sender tx) (tx_nonce tx) account_nonce)
      else if tx_nonce tx - account_nonce > MAX_NONCE_GAP
        then Inl (NonceGapTooLarge (tx_sender tx) (tx_nonce tx) account_nonce MAX_NONCE_GAP)
      else Inr ())"

definition validate_balance :: "transaction \<Rightarrow> amount \<Rightarrow> mempool_error + unit" where
  "validate_balance tx account_balance =
     (let short = (\<lambda>_. InsufficientBalance (tx_sender tx) (- 1) account_balance) in
      rbind (map_err short (amount_mul (tx_gas_price tx) (ucast (tx_gas_limit tx)))) (\<lambda>gas_cost.
      rbind (map_err short (amount_add gas_cost (tx_value tx))) (\<lambda>total_cost.
      if account_balance < total_cost then Inl (InsufficientBalance (tx_sender tx) total_cost account_balance)
      else Inr ())))"

definition validate_gas_price :: "transaction \<Rightarrow> amount \<Rightarrow> mempool_error + unit" where
  "validate_gas_price tx base_fee =
     (if tx_gas_price tx < base_fee then Inl (GasPriceTooLow (tx_hash tx) (tx_gas_price tx) base_fee) else Inr ())"

definition validate_transaction ::
  "('db, 'f) pool_env \<Rightarrow> transaction \<Rightarrow> public_key \<Rightarrow> 'db world_state \<Rightarrow> validation_context \<Rightarrow> mempool_error + unit" where
  "validate_transaction env tx pk ws ctx =
     (if tx_gas_limit tx = 0 then Inl (ZeroGasLimit (tx_hash tx))
      else if tx_chain_id tx \<noteq> vc_chain_id ctx
        then Inl (ChainIdMismatch (tx_hash tx) (tx_chain_id tx) (vc_chain_id ctx))
      else
        rbind (validate_size env tx) (\<lambda>_.
        rbind (validate_pubkey_matches_sender env tx pk) (\<lambda>_.
        rbind (validate_signature env tx pk) (\<lambda>_.
        rbind (map_err (StateLookupFailed (tx_sender tx)) (get_account (pe_fuel env) (pe_state env) ws (tx_sender tx))) (\<lambda>acc.
        let (account_nonce, account_balance) =
          (case acc of Some a \<Rightarrow> (acc_nonce a, acc_balance a) | None \<Rightarrow> (0, amount_zero)) in
        rbind (validate_nonce tx account_nonce) (\<lambda>_.
        rbind (validate_balance tx account_balance) (\<lambda>_.
        validate_gas_price tx (vc_base_fee ctx))))))))"

subsection \<open>The pool\<close>

definition MIN_REPLACE_BUMP_BPS :: u32 where "MIN_REPLACE_BUMP_BPS = 1000"
definition DEFAULT_CAPACITY :: nat where "DEFAULT_CAPACITY = 5000"

record admit_context =
  ac_chain_id :: u64
  ac_base_fee :: amount
  ac_now :: instant

record pool_entry =
  pe_tx :: transaction
  pe_priority :: priority
  pe_seq :: u64
  pe_express :: express_eligibility

datatype admit_outcome = Inserted | Replaced hash

record 'f mempool =
  mp_entries :: "(hash, pool_entry) fmap"
  mp_priority_index :: "(priority \<times> u64, hash) fmap"
  mp_by_sender :: "(address, (u64, hash) fmap) fmap"
  mp_next_seq :: u64
  mp_capacity :: nat
  mp_rate_limiter :: "'f rate_limiter"
  mp_local_fees :: local_fee_market

definition with_rate_limiter :: "nat \<Rightarrow> 'f rate_limiter \<Rightarrow> 'f mempool" where
  "with_rate_limiter capacity rl = \<lparr>mp_entries = fmempty, mp_priority_index = fmempty, mp_by_sender = fmempty,
     mp_next_seq = 0, mp_capacity = capacity, mp_rate_limiter = rl, mp_local_fees = fmempty\<rparr>"

definition mempool_new :: "'f float_ops \<Rightarrow> nat \<Rightarrow> 'f mempool" where
  "mempool_new fl capacity = with_rate_limiter capacity (limiter_with_defaults fl)"

text \<open>Dropping a nonce of a sender, and the sender with its last nonce.\<close>

definition drop_nonce :: "(address, (u64, hash) fmap) fmap \<Rightarrow> address \<Rightarrow> u64 \<Rightarrow> (address, (u64, hash) fmap) fmap" where
  "drop_nonce m sender nonce =
     (case fmlookup m sender of
       None \<Rightarrow> m
     | Some nonces \<Rightarrow>
         let nonces' = fmdrop nonce nonces in
         if nonces' = fmempty then fmdrop sender m else fmupd sender nonces' m)"

definition remove_internal :: "'f mempool \<Rightarrow> hash \<Rightarrow> priority \<Rightarrow> u64 \<Rightarrow> pool_entry option \<times> 'f mempool" where
  "remove_internal p h prio sq =
     (let entry = fmlookup (mp_entries p) h;
          p' = p\<lparr>mp_entries := fmdrop h (mp_entries p), mp_priority_index := fmdrop (prio, sq) (mp_priority_index p)\<rparr> in
      (entry, case entry of None \<Rightarrow> p'
        | Some e \<Rightarrow> p'\<lparr>mp_by_sender := drop_nonce (mp_by_sender p) (tx_sender (pe_tx e)) (tx_nonce (pe_tx e))\<rparr>))"

definition mp_remove :: "'f mempool \<Rightarrow> hash \<Rightarrow> pool_entry option \<times> 'f mempool" where
  "mp_remove p h = (case fmlookup (mp_entries p) h of
     None \<Rightarrow> (None, p) | Some e \<Rightarrow> remove_internal p h (pe_priority e) (pe_seq e))"

definition rbf_min_price :: "amount \<Rightarrow> u32 \<Rightarrow> amount" where
  "rbf_min_price old_price bump_bps =
     (case checked_mul old_price (10000 + ucast bump_bps) of Some v \<Rightarrow> v div 10000 | None \<Rightarrow> - 1)"

text \<open>Step 5b: room for a new entry, by evicting the lowest priority of a full pool.\<close>

definition make_room :: "'f mempool \<Rightarrow> transaction \<Rightarrow> priority \<Rightarrow> mempool_error + 'f mempool" where
  "make_room p tx prio =
     (if btree_len (mp_entries p) \<ge> mp_capacity p then
        (case sorted_list_of_fmap (mp_priority_index p) of
          ((min_p, min_seq), evict_hash) # _ \<Rightarrow>
            if prio > min_p then Inr (snd (remove_internal p evict_hash min_p min_seq))
            else Inl (PoolFull (tx_hash tx) (mp_capacity p))
        | [] \<Rightarrow> Inl (PoolFull (tx_hash tx) (mp_capacity p)))
      else Inr p)"

text \<open>Steps 6 to 8: record the load of a called contract, classify, insert into the indexes.\<close>

definition insert_entry :: "'f mempool \<Rightarrow> transaction \<Rightarrow> priority \<Rightarrow> express_hint option \<Rightarrow> 'f mempool" where
  "insert_entry p tx prio hint =
     (let fees = (case tx_to tx of
            Some contract \<Rightarrow> if tx_type tx = ContractCall \<or> tx_type tx = ContractDeploy
              then fees_record (mp_local_fees p) contract else mp_local_fees p
          | None \<Rightarrow> mp_local_fees p);
          sq = mp_next_seq p;
          nonces = (case fmlookup (mp_by_sender p) (tx_sender tx) of Some m \<Rightarrow> m | None \<Rightarrow> fmempty) in
      p\<lparr>mp_local_fees := fees, mp_next_seq := saturating_add sq 1,
        mp_entries := fmupd (tx_hash tx) \<lparr>pe_tx = tx, pe_priority = prio, pe_seq = sq, pe_express = classify (tx_type tx) hint\<rparr> (mp_entries p),
        mp_priority_index := fmupd (prio, sq) (tx_hash tx) (mp_priority_index p),
        mp_by_sender := fmupd (tx_sender tx) (fmupd (tx_nonce tx) (tx_hash tx) nonces) (mp_by_sender p)\<rparr>)"

definition admit_as_new ::
  "'f mempool \<Rightarrow> transaction \<Rightarrow> priority \<Rightarrow> express_hint option \<Rightarrow> (mempool_error + admit_outcome) \<times> 'f mempool" where
  "admit_as_new p tx prio hint =
     (case make_room p tx prio of
       Inl e \<Rightarrow> (Inl e, p)
     | Inr p' \<Rightarrow> (Inr Inserted, insert_entry p' tx prio hint))"

text \<open>Steps 4 and 5: replacement of a pending transaction of the same sender and nonce, or a new entry.\<close>

definition admit_priced ::
  "'f mempool \<Rightarrow> transaction \<Rightarrow> priority \<Rightarrow> express_hint option \<Rightarrow> (mempool_error + admit_outcome) \<times> 'f mempool" where
  "admit_priced p tx prio hint =
     (case Option.bind (fmlookup (mp_by_sender p) (tx_sender tx)) (\<lambda>m. fmlookup m (tx_nonce tx)) of
       Some old_hash \<Rightarrow>
         (case fmlookup (mp_entries p) old_hash of
           None \<Rightarrow> admit_as_new (p\<lparr>mp_by_sender := drop_nonce (mp_by_sender p) (tx_sender tx) (tx_nonce tx)\<rparr>) tx prio hint
         | Some e \<Rightarrow>
             let old_price = tx_gas_price (pe_tx e) in
             if tx_gas_price tx < rbf_min_price old_price MIN_REPLACE_BUMP_BPS
             then (Inl (ReplacementUnderpriced (tx_sender tx) (tx_nonce tx) old_price (tx_gas_price tx) MIN_REPLACE_BUMP_BPS), p)
             else (Inr (Replaced old_hash),
               insert_entry (snd (remove_internal p old_hash (pe_priority e) (pe_seq e))) tx prio hint))
     | None \<Rightarrow> admit_as_new p tx prio hint)"

definition admit ::
  "('db, 'f) pool_env \<Rightarrow> 'f mempool \<Rightarrow> transaction \<Rightarrow> public_key \<Rightarrow> amount \<Rightarrow> express_hint option \<Rightarrow>
    'db world_state \<Rightarrow> admit_context \<Rightarrow> (mempool_error + admit_outcome) \<times> 'f mempool" where
  "admit env p tx pk sender_stake hint ws ctx =
     (case validate_transaction env tx pk ws \<lparr>vc_chain_id = ac_chain_id ctx, vc_base_fee = ac_base_fee ctx\<rparr> of
       Inl e \<Rightarrow> (Inl e, p)
     | Inr _ \<Rightarrow>
         let tier = from_load (btree_len (mp_entries p)) (mp_capacity p) in
         if \<not> admits tier (tx_type tx)
         then (Inl (CircuitBreakerRejected (tx_hash tx) (rejection_reason tier)), p)
         else
           (case try_acquire (pe_float env) (mp_rate_limiter p) (tx_sender tx) (ac_now ctx) of
             (Inl e, rl) \<Rightarrow> (Inl e, p\<lparr>mp_rate_limiter := rl\<rparr>)
           | (Inr _, rl) \<Rightarrow>
               admit_priced (p\<lparr>mp_rate_limiter := rl\<rparr>) tx (priority_score (tx_gas_price tx) sender_stake) hint))"

subsection \<open>Queries and maintenance\<close>

definition mp_get :: "'f mempool \<Rightarrow> hash \<Rightarrow> pool_entry option" where
  "mp_get p h = fmlookup (mp_entries p) h"

definition mp_len :: "'f mempool \<Rightarrow> nat" where
  "mp_len p = btree_len (mp_entries p)"

definition mp_is_full :: "'f mempool \<Rightarrow> bool" where
  "mp_is_full p \<longleftrightarrow> btree_len (mp_entries p) \<ge> mp_capacity p"

definition pending_by_priority :: "'f mempool \<Rightarrow> nat \<Rightarrow> transaction list" where
  "pending_by_priority p limit =
     List.map_filter (\<lambda>(_, h). map_option pe_tx (fmlookup (mp_entries p) h))
       (take limit (rev (sorted_list_of_fmap (mp_priority_index p))))"

definition on_new_block :: "'f float_ops \<Rightarrow> 'f mempool \<Rightarrow> instant \<Rightarrow> 'f mempool" where
  "on_new_block fl p now = p\<lparr>mp_rate_limiter := prune_full fl (mp_rate_limiter p) now,
     mp_local_fees := prune_idle (fees_tick (mp_local_fees p))\<rparr>"

end
