(* ===== verification/Mempool_Index.thy ===== *)
theory Mempool_Index
  imports Mempool
begin

section \<open>The mempool refines a map from sender and nonce\<close>

text \<open>
  What the three indexes of \<^verbatim>\<open>lemma-mempool/src/pool.rs\<close> promise together. \<open>pool_inv\<close> says that they
  describe the same entries; \<open>pool_abs\<close> reads the pool as a map from a sender and a nonce to the
  pending entry. Each operation is a point update of that map, as long as no transaction claims the
  hash of another one, which nothing on the way checks (\<open>forged_hash_corrupts_pool\<close>).
\<close>

subsection \<open>Invariant and abstraction\<close>

definition slot :: "(address, (u64, hash) fmap) fmap \<Rightarrow> address \<times> u64 \<Rightarrow> hash option" where
  "slot m k = Option.bind (fmlookup m (fst k)) (\<lambda>nonces. fmlookup nonces (snd k))"

definition account_slot :: "transaction \<Rightarrow> address \<times> u64" where
  "account_slot tx = (tx_sender tx, tx_nonce tx)"

definition rank :: "pool_entry \<Rightarrow> priority \<times> u64" where
  "rank e = (pe_priority e, pe_seq e)"

definition pool_abs :: "'f mempool \<Rightarrow> address \<times> u64 \<Rightarrow> pool_entry option" where
  "pool_abs p k = Option.bind (slot (mp_by_sender p) k) (fmlookup (mp_entries p))"

text \<open>A table of entries and two indexes that map each entry's rank and slot back to its hash.\<close>

definition indexed ::
  "(hash \<Rightarrow> pool_entry option) \<Rightarrow> (priority \<times> u64 \<Rightarrow> hash option) \<Rightarrow> (address \<times> u64 \<Rightarrow> hash option) \<Rightarrow> bool" where
  "indexed E R S \<longleftrightarrow>
     (\<forall>h e. E h = Some e \<longrightarrow> tx_hash (pe_tx e) = h \<and> R (rank e) = Some h \<and> S (account_slot (pe_tx e)) = Some h) \<and>
     (\<forall>k h. R k = Some h \<longrightarrow> (\<exists>e. E h = Some e \<and> rank e = k)) \<and>
     (\<forall>k h. S k = Some h \<longrightarrow> (\<exists>e. E h = Some e \<and> account_slot (pe_tx e) = k))"

definition pool_inv :: "'f mempool \<Rightarrow> bool" where
  "pool_inv p \<longleftrightarrow>
     indexed (fmlookup (mp_entries p)) (fmlookup (mp_priority_index p)) (slot (mp_by_sender p)) \<and>
     (\<forall>h e. fmlookup (mp_entries p) h = Some e \<longrightarrow> pe_seq e < mp_next_seq p) \<and>
     (\<forall>s. fmlookup (mp_by_sender p) s \<noteq> Some fmempty) \<and> btree_len (mp_entries p) \<le> mp_capacity p"

text \<open>No other pending transaction claims the hash of this one.\<close>

definition hash_unclaimed :: "'f mempool \<Rightarrow> transaction \<Rightarrow> bool" where
  "hash_unclaimed p tx \<longleftrightarrow>
     (case fmlookup (mp_entries p) (tx_hash tx) of None \<Rightarrow> True | Some e \<Rightarrow> account_slot (pe_tx e) = account_slot tx)"

lemma indexedD:
  assumes "indexed E R S" "E h = Some e"
  shows "tx_hash (pe_tx e) = h" "R (rank e) = Some h" "S (account_slot (pe_tx e)) = Some h"
  using assms by (simp_all add: indexed_def)

lemma indexed_remove:
  assumes "indexed E R S" "E h = Some e"
  shows "indexed (E(h := None)) (R(rank e := None)) (S(account_slot (pe_tx e) := None))"
  unfolding indexed_def
proof (intro conjI allI impI)
  fix h' e' assume *: "(E(h := None)) h' = Some e'"
  then have e': "E h' = Some e'" "h' \<noteq> h" by (auto split: if_splits)
  show "tx_hash (pe_tx e') = h'" using assms(1) e' by (simp add: indexed_def)
  have "rank e' \<noteq> rank e" "account_slot (pe_tx e') \<noteq> account_slot (pe_tx e)"
    using assms e' unfolding indexed_def by (metis option.inject)+
  then show "(R(rank e := None)) (rank e') = Some h'"
    "(S(account_slot (pe_tx e) := None)) (account_slot (pe_tx e')) = Some h'"
    using assms(1) e' by (simp_all add: indexed_def)
next
  fix k h' assume "(R(rank e := None)) k = Some h'"
  then have k: "R k = Some h'" "k \<noteq> rank e" by (auto split: if_splits)
  then obtain e' where "E h' = Some e'" "rank e' = k" using assms(1) unfolding indexed_def by blast
  then show "\<exists>e'. (E(h := None)) h' = Some e' \<and> rank e' = k" using k assms(2) by auto
next
  fix k h' assume "(S(account_slot (pe_tx e) := None)) k = Some h'"
  then have k: "S k = Some h'" "k \<noteq> account_slot (pe_tx e)" by (auto split: if_splits)
  then obtain e' where "E h' = Some e'" "account_slot (pe_tx e') = k" using assms(1) unfolding indexed_def by blast
  then show "\<exists>e'. (E(h := None)) h' = Some e' \<and> account_slot (pe_tx e') = k" using k assms(2) by auto
qed

lemma indexed_insert:
  assumes "indexed E R S" "E h = None" "R (rank e) = None" "S (account_slot (pe_tx e)) = None" "tx_hash (pe_tx e) = h"
  shows "indexed (E(h \<mapsto> e)) (R(rank e \<mapsto> h)) (S(account_slot (pe_tx e) \<mapsto> h))"
  using assms unfolding indexed_def by (auto split: if_splits) (metis option.distinct(1))+

subsection \<open>The indexes after each operation\<close>

lemma fmlookup_point: "fmlookup (fmupd k v m) = (fmlookup m)(k \<mapsto> v)" "fmlookup (fmdrop k m) = (fmlookup m)(k := None)"
  by auto

lemma slot_drop_nonce [simp]: "slot (drop_nonce m s n) = (slot m)((s, n) := None)"
proof (rule ext)
  fix k
  show "slot (drop_nonce m s n) k = ((slot m)((s, n) := None)) k"
  proof (cases "fmlookup m s")
    case None
    then show ?thesis by (auto simp: slot_def drop_nonce_def)
  next
    case (Some nonces)
    have "fmlookup nonces n' = None" if "fmdrop n nonces = fmempty" "n' \<noteq> n" for n'
      using that by (metis fmempty_lookup fmlookup_drop)
    then show ?thesis using Some by (cases k) (auto simp: slot_def drop_nonce_def Let_def)
  qed
qed

lemma slot_upd:
  "slot (fmupd s (fmupd n h (case fmlookup m s of Some x \<Rightarrow> x | None \<Rightarrow> fmempty)) m) = (slot m)((s, n) \<mapsto> h)"
  by (rule ext) (auto simp: slot_def split: option.splits)

lemma drop_nonce_nonempty: "\<forall>s. fmlookup m s \<noteq> Some fmempty \<Longrightarrow> fmlookup (drop_nonce m s n) s' \<noteq> Some fmempty"
  by (auto simp: drop_nonce_def Let_def split: option.splits)

lemma pool_abs_iff:
  assumes "pool_inv p"
  shows "pool_abs p k = Some e \<longleftrightarrow> fmlookup (mp_entries p) (tx_hash (pe_tx e)) = Some e \<and> account_slot (pe_tx e) = k"
proof -
  have ix: "indexed (fmlookup (mp_entries p)) (fmlookup (mp_priority_index p)) (slot (mp_by_sender p))"
    using assms by (simp add: pool_inv_def)
  then have *: "tx_hash (pe_tx e) = h" "slot (mp_by_sender p) (account_slot (pe_tx e)) = Some h"
    if "fmlookup (mp_entries p) h = Some e" for h e
    using that by (simp_all add: indexed_def)
  have **: "\<exists>e. fmlookup (mp_entries p) h = Some e \<and> account_slot (pe_tx e) = k"
    if "slot (mp_by_sender p) k = Some h" for h k
    using that ix by (cases k) (simp add: indexed_def)
  show ?thesis
  proof
    assume "pool_abs p k = Some e"
    then obtain h where h: "slot (mp_by_sender p) k = Some h" "fmlookup (mp_entries p) h = Some e"
      by (auto simp: pool_abs_def bind_eq_Some_conv)
    then show "fmlookup (mp_entries p) (tx_hash (pe_tx e)) = Some e \<and> account_slot (pe_tx e) = k"
      using *(1) [OF h(2)] ** [OF h(1)] by auto
  next
    assume "fmlookup (mp_entries p) (tx_hash (pe_tx e)) = Some e \<and> account_slot (pe_tx e) = k"
    then show "pool_abs p k = Some e" using *(2) by (auto simp: pool_abs_def)
  qed
qed

lemma pool_abs_eqI:
  assumes "pool_inv p" "\<And>e. (fmlookup (mp_entries p) (tx_hash (pe_tx e)) = Some e \<and> account_slot (pe_tx e) = k) \<longleftrightarrow> f = Some e"
  shows "pool_abs p k = f"
  using pool_abs_iff [OF assms(1)] assms(2) by (metis option.exhaust)

lemma remove_internal_ok:
  assumes inv: "pool_inv p" and e: "fmlookup (mp_entries p) h = Some e"
  defines "q \<equiv> snd (remove_internal p h (pe_priority e) (pe_seq e))"
  shows "pool_inv q" "pool_abs q = (pool_abs p)(account_slot (pe_tx e) := None)"
    "mp_next_seq q = mp_next_seq p" "mp_capacity q = mp_capacity p" "mp_entries q = fmdrop h (mp_entries p)"
    "slot (mp_by_sender q) = (slot (mp_by_sender p))(account_slot (pe_tx e) := None)"
    "btree_len (mp_entries q) < mp_capacity p"
proof -
  have ix: "indexed (fmlookup (mp_entries p)) (fmlookup (mp_priority_index p)) (slot (mp_by_sender p))"
    using inv by (simp add: pool_inv_def)
  have q: "mp_entries q = fmdrop h (mp_entries p)" "mp_priority_index q = fmdrop (rank e) (mp_priority_index p)"
    "mp_by_sender q = drop_nonce (mp_by_sender p) (tx_sender (pe_tx e)) (tx_nonce (pe_tx e))"
    "mp_next_seq q = mp_next_seq p" "mp_capacity q = mp_capacity p"
    by (simp_all add: q_def remove_internal_def e rank_def)
  then show "mp_next_seq q = mp_next_seq p" "mp_capacity q = mp_capacity p" "mp_entries q = fmdrop h (mp_entries p)"
    by simp_all
  show sl: "slot (mp_by_sender q) = (slot (mp_by_sender p))(account_slot (pe_tx e) := None)"
    by (simp add: q account_slot_def)
  have "indexed (fmlookup (mp_entries q)) (fmlookup (mp_priority_index q)) (slot (mp_by_sender q))"
    using indexed_remove [OF ix e] by (simp only: sl q(1,2) fmlookup_point)
  moreover have len: "btree_len (mp_entries q) < mp_capacity p"
  proof -
    have "h |\<in>| fmdom (mp_entries p)" using e by (simp add: fmdomI)
    then have "btree_len (mp_entries q) < btree_len (mp_entries p)" by (simp only: q fmdom_drop fcard_fminus1_less)
    then show ?thesis using inv by (simp add: pool_inv_def)
  qed
  moreover have "\<forall>s. fmlookup (mp_by_sender q) s \<noteq> Some fmempty"
    using inv by (simp add: q pool_inv_def drop_nonce_nonempty)
  ultimately show q_inv: "pool_inv q" using inv by (auto simp: pool_inv_def q split: if_splits)
  show "btree_len (mp_entries q) < mp_capacity p" by (rule len)
  have h: "tx_hash (pe_tx e) = h" using ix e by (simp add: indexed_def)
  show "pool_abs q = (pool_abs p)(account_slot (pe_tx e) := None)"
  proof (intro ext pool_abs_eqI [OF q_inv])
    fix k e'
    have "e' = e" if "fmlookup (mp_entries p) (tx_hash (pe_tx e')) = Some e'" "account_slot (pe_tx e') = account_slot (pe_tx e)"
      using pool_abs_iff [OF inv] that h e by (metis option.inject)
    then show "(fmlookup (mp_entries q) (tx_hash (pe_tx e')) = Some e' \<and> account_slot (pe_tx e') = k) \<longleftrightarrow>
      ((pool_abs p)(account_slot (pe_tx e) := None)) k = Some e'"
      using pool_abs_iff [OF inv, of k e'] h e by (auto simp: q)
  qed
qed

definition new_entry :: "'f mempool \<Rightarrow> transaction \<Rightarrow> priority \<Rightarrow> express_hint option \<Rightarrow> pool_entry" where
  "new_entry p tx prio hint = \<lparr>pe_tx = tx, pe_priority = prio, pe_seq = mp_next_seq p, pe_express = classify (tx_type tx) hint\<rparr>"

lemma less_saturating_Suc: "x \<noteq> - 1 \<Longrightarrow> y \<le> x \<Longrightarrow> y < saturating_add x (1 :: u64)"
proof -
  assume *: "x \<noteq> - 1" "y \<le> x"
  then have "x < - 1" by (simp add: word_order.not_eq_extremum)
  then show ?thesis using *(2) by (simp add: word_less_nat_alt word_le_nat_alt unat_saturating_add unat_max_word)
qed

lemma insert_entry_ok:
  fixes prio :: priority and hint :: "express_hint option"
  assumes inv: "pool_inv p" and free: "fmlookup (mp_entries p) (tx_hash tx) = None" "pool_abs p (account_slot tx) = None"
    and sq: "mp_next_seq p \<noteq> - 1" and room: "btree_len (mp_entries p) < mp_capacity p"
  defines "q \<equiv> insert_entry p tx prio hint" and "e \<equiv> new_entry p tx prio hint"
  shows "pool_inv q" "pool_abs q = (pool_abs p)(account_slot tx \<mapsto> e)"
proof -
  have ix: "indexed (fmlookup (mp_entries p)) (fmlookup (mp_priority_index p)) (slot (mp_by_sender p))"
    using inv by (simp add: pool_inv_def)
  have q: "mp_entries q = fmupd (tx_hash tx) e (mp_entries p)" "mp_priority_index q = fmupd (rank e) (tx_hash tx) (mp_priority_index p)"
    "slot (mp_by_sender q) = (slot (mp_by_sender p))(account_slot tx \<mapsto> tx_hash tx)"
    "mp_next_seq q = saturating_add (mp_next_seq p) 1" "mp_capacity q = mp_capacity p"
    by (simp_all add: q_def e_def insert_entry_def new_entry_def Let_def rank_def account_slot_def slot_upd)
  have e: "pe_tx e = tx" "pe_seq e = mp_next_seq p" by (simp_all add: e_def new_entry_def)
  have "slot (mp_by_sender p) (account_slot tx) = None"
  proof (rule ccontr)
    assume "slot (mp_by_sender p) (account_slot tx) \<noteq> None"
    then obtain h where h: "slot (mp_by_sender p) (account_slot tx) = Some h" by blast
    then obtain e' where "fmlookup (mp_entries p) h = Some e'" using ix unfolding indexed_def by blast
    then show False using free(2) h by (simp add: pool_abs_def)
  qed
  moreover have "fmlookup (mp_priority_index p) (rank e) = None"
  proof (rule ccontr)
    assume "fmlookup (mp_priority_index p) (rank e) \<noteq> None"
    then obtain h e' where "fmlookup (mp_entries p) h = Some e'" "rank e' = rank e" using ix unfolding indexed_def by blast
    moreover from this have "pe_seq e' < mp_next_seq p" using inv by (simp add: pool_inv_def)
    ultimately show False by (simp add: rank_def e)
  qed
  ultimately have "indexed (fmlookup (mp_entries q)) (fmlookup (mp_priority_index q)) (slot (mp_by_sender q))"
    using indexed_insert [OF ix free(1), of e] by (simp only: q e fmlookup_point)
  moreover have "fmlookup (mp_by_sender q) s \<noteq> Some fmempty" for s
    using inv fmupd_lookup [of "tx_nonce tx" "tx_hash tx"] by (auto simp: q_def insert_entry_def Let_def pool_inv_def dest: arg_cong [of _ fmempty fmdom])
  moreover have "pe_seq e' < mp_next_seq q" if "fmlookup (mp_entries q) h = Some e'" for h e'
  proof -
    have "pe_seq e' \<le> mp_next_seq p" using that inv e by (auto simp: q pool_inv_def less_imp_le split: if_splits)
    then show ?thesis using less_saturating_Suc [OF sq] by (simp add: q)
  qed
  moreover have "btree_len (mp_entries q) \<le> mp_capacity q"
    using room fcard_finsert_le by (simp add: q fcard_finsert_if)
  ultimately show q_inv: "pool_inv q" by (simp add: pool_inv_def)
  show "pool_abs q = (pool_abs p)(account_slot tx \<mapsto> e)"
  proof (intro ext pool_abs_eqI [OF q_inv])
    fix k e'
    show "(fmlookup (mp_entries q) (tx_hash (pe_tx e')) = Some e' \<and> account_slot (pe_tx e') = k) \<longleftrightarrow>
      ((pool_abs p)(account_slot tx \<mapsto> e)) k = Some e'"
      using pool_abs_iff [OF inv, of k e'] free e by (auto simp: q)
  qed
qed

lemma sorted_list_hd_min:
  assumes "sorted_list_of_fmap m = (k, v) # xs"
  shows "fmlookup m k = Some v" "fmlookup m k' = Some v' \<Longrightarrow> k \<le> k'"
proof -
  show "fmlookup m k = Some v" using in_sorted_list_of_fmap [of k v m] assms by simp
  have "btree_keys m = k # map fst xs" using map_fst_sorted_list_of_fmap [of m] assms by simp
  moreover have "k' |\<in>| fmdom m" if "fmlookup m k' = Some v'" using that by (rule fmdomI)
  ultimately show "fmlookup m k' = Some v' \<Longrightarrow> k \<le> k'"
    by (metis set_ConsD set_sorted_list_of_fset sorted_simps(2) sorted_sorted_list_of_fset order_refl)
qed

text \<open>The entry of the lowest priority, and among those the oldest.\<close>

definition lowest :: "'f mempool \<Rightarrow> pool_entry \<Rightarrow> bool" where
  "lowest p v \<longleftrightarrow> pool_abs p (account_slot (pe_tx v)) = Some v \<and> (\<forall>k w. pool_abs p k = Some w \<longrightarrow> rank v \<le> rank w)"

lemma make_room_ok:
  assumes inv: "pool_inv p" and room: "make_room p tx prio = Inr q"
  shows "pool_inv q \<and> btree_len (mp_entries q) < mp_capacity q \<and> mp_next_seq q = mp_next_seq p \<and>
    (\<forall>h e. fmlookup (mp_entries q) h = Some e \<longrightarrow> fmlookup (mp_entries p) h = Some e) \<and>
    (if mp_is_full p then \<exists>v. lowest p v \<and> pe_priority v < prio \<and> pool_abs q = (pool_abs p)(account_slot (pe_tx v) := None)
     else q = p)"
proof (cases "mp_is_full p")
  case False
  then show ?thesis using inv room by (simp add: make_room_def mp_is_full_def)
next
  case True
  then obtain mp ms h xs where s: "sorted_list_of_fmap (mp_priority_index p) = ((mp, ms), h) # xs" "mp < prio"
    and q: "q = snd (remove_internal p h mp ms)"
    using room by (auto simp: make_room_def mp_is_full_def split: list.splits if_splits)
  have ix: "indexed (fmlookup (mp_entries p)) (fmlookup (mp_priority_index p)) (slot (mp_by_sender p))"
    using inv by (simp add: pool_inv_def)
  obtain v where v: "fmlookup (mp_entries p) h = Some v" "rank v = (mp, ms)"
    using ix sorted_list_hd_min(1) [OF s(1)] unfolding indexed_def by blast
  have "rank v \<le> rank w" if "pool_abs p k = Some w" for k w
    using that pool_abs_iff [OF inv] ix sorted_list_hd_min(2) [OF s(1)] unfolding indexed_def v(2) by blast
  moreover have "pool_abs p (account_slot (pe_tx v)) = Some v"
    using pool_abs_iff [OF inv] v(1) ix by (simp add: indexed_def)
  moreover have "pe_priority v = mp" "pe_seq v = ms" using v(2) by (simp_all add: rank_def)
  ultimately show ?thesis
    using True s(2) remove_internal_ok [OF inv v(1)] by (auto simp: q lowest_def split: if_splits)
qed

subsection \<open>Admission\<close>

text \<open>The map after an accepted transaction.\<close>

definition admitted :: "'f mempool \<Rightarrow> transaction \<Rightarrow> pool_entry \<Rightarrow> admit_outcome \<Rightarrow> (address \<times> u64 \<Rightarrow> pool_entry option) \<Rightarrow> bool" where
  "admitted p tx e out m \<longleftrightarrow> (case out of
     Replaced h \<Rightarrow> \<exists>old. pool_abs p (account_slot tx) = Some old \<and> tx_hash (pe_tx old) = h \<and>
       rbf_min_price (tx_gas_price (pe_tx old)) MIN_REPLACE_BUMP_BPS \<le> tx_gas_price tx \<and>
       m = (pool_abs p)(account_slot tx \<mapsto> e)
   | Inserted \<Rightarrow> pool_abs p (account_slot tx) = None \<and>
       (if mp_is_full p then \<exists>v. lowest p v \<and> pe_priority v < pe_priority e \<and>
          m = (pool_abs p)(account_slot (pe_tx v) := None, account_slot tx \<mapsto> e)
        else m = (pool_abs p)(account_slot tx \<mapsto> e)))"

lemma admit_as_new_ok:
  assumes inv: "pool_inv p" and free: "hash_unclaimed p tx" "pool_abs p (account_slot tx) = None"
    and sq: "mp_next_seq p \<noteq> - 1" and run: "admit_as_new p tx prio hint = (r, p')"
  shows "case r of Inl _ \<Rightarrow> p' = p | Inr out \<Rightarrow> pool_inv p' \<and> admitted p tx (new_entry p tx prio hint) out (pool_abs p')"
proof (cases "make_room p tx prio")
  case (Inl e)
  then show ?thesis using run by (auto simp: admit_as_new_def)
next
  case (Inr q)
  have run': "r = Inr Inserted" "p' = insert_entry q tx prio hint" using run Inr by (auto simp: admit_as_new_def)
  note q = make_room_ok [OF inv Inr]
  have "fmlookup (mp_entries p) (tx_hash tx) = None"
  proof (cases "fmlookup (mp_entries p) (tx_hash tx)")
    case (Some e)
    then have "tx_hash (pe_tx e) = tx_hash tx" using inv by (simp add: pool_inv_def indexed_def)
    then show ?thesis using free pool_abs_iff [OF inv, of "account_slot tx" e] Some by (simp add: hash_unclaimed_def)
  qed
  then have unclaimed: "fmlookup (mp_entries q) (tx_hash tx) = None" using q by (metis option.exhaust option.distinct(1))
  have "pool_abs q (account_slot tx) = None" using q free(2) by (auto split: if_splits)
  then have "pool_inv p'" "pool_abs p' = (pool_abs q)(account_slot tx \<mapsto> new_entry q tx prio hint)"
    using insert_entry_ok [of q tx] unclaimed q sq run'(2) by simp_all
  moreover have "new_entry q tx prio hint = new_entry p tx prio hint" using q by (simp add: new_entry_def)
  ultimately show ?thesis
    using q free(2) by (auto simp: run'(1) admitted_def new_entry_def split: if_splits)
qed

lemma admit_priced_ok:
  assumes inv: "pool_inv p" and free: "hash_unclaimed p tx" and sq: "mp_next_seq p \<noteq> - 1"
    and run: "admit_priced p tx prio hint = (r, p')"
  shows "case r of Inl _ \<Rightarrow> p' = p | Inr out \<Rightarrow> pool_inv p' \<and> admitted p tx (new_entry p tx prio hint) out (pool_abs p')"
proof (cases "slot (mp_by_sender p) (account_slot tx)")
  case None
  then have "admit_priced p tx prio hint = admit_as_new p tx prio hint" "pool_abs p (account_slot tx) = None"
    by (simp_all add: admit_priced_def slot_def account_slot_def pool_abs_def)
  then show ?thesis using admit_as_new_ok [OF inv free _ sq] run by simp
next
  case (Some old_hash)
  have ix: "indexed (fmlookup (mp_entries p)) (fmlookup (mp_priority_index p)) (slot (mp_by_sender p))"
    using inv by (simp add: pool_inv_def)
  obtain e where e: "fmlookup (mp_entries p) old_hash = Some e" "account_slot (pe_tx e) = account_slot tx" "tx_hash (pe_tx e) = old_hash"
    using Some ix unfolding indexed_def by blast
  have abs: "pool_abs p (account_slot tx) = Some e" using pool_abs_iff [OF inv] e by simp
  let ?q = "snd (remove_internal p old_hash (pe_priority e) (pe_seq e))"
  note q = remove_internal_ok [OF inv e(1)]
  have old: "Option.bind (fmlookup (mp_by_sender p) (tx_sender tx)) (\<lambda>m. fmlookup m (tx_nonce tx)) = Some old_hash"
    using Some by (simp add: slot_def account_slot_def)
  show ?thesis
  proof (cases "tx_gas_price tx < rbf_min_price (tx_gas_price (pe_tx e)) MIN_REPLACE_BUMP_BPS")
    case True
    then show ?thesis using run old e(1) by (auto simp: admit_priced_def)
  next
    case False
    then have run': "r = Inr (Replaced old_hash)" "p' = insert_entry ?q tx prio hint"
      using run old e(1) by (auto simp: admit_priced_def)
    have "fmlookup (mp_entries ?q) (tx_hash tx) = None"
    proof (cases "tx_hash tx = old_hash")
      case other: False
      have "fmlookup (mp_entries p) (tx_hash tx) = None"
      proof (cases "fmlookup (mp_entries p) (tx_hash tx)")
        case taken: (Some e')
        then have "slot (mp_by_sender p) (account_slot tx) = Some (tx_hash tx)"
          using indexedD(3) [OF ix taken] free by (simp add: hash_unclaimed_def taken)
        then show ?thesis using Some other by simp
      qed
      then show ?thesis using q(5) by simp
    qed (simp add: q(5))
    then have "pool_inv p'" "pool_abs p' = (pool_abs ?q)(account_slot tx \<mapsto> new_entry ?q tx prio hint)"
      using insert_entry_ok [OF q(1), of tx] q sq run'(2) e(2) by simp_all
    moreover have "new_entry ?q tx prio hint = new_entry p tx prio hint" using q by (simp add: new_entry_def)
    ultimately show ?thesis
      using q(2) e(2,3) abs False by (simp add: run'(1) admitted_def)
  qed
qed

lemma pool_inv_limiter [simp]:
  "pool_inv (p\<lparr>mp_rate_limiter := rl\<rparr>) = pool_inv p" "pool_abs (p\<lparr>mp_rate_limiter := rl\<rparr>) = pool_abs p"
  "mp_is_full (p\<lparr>mp_rate_limiter := rl\<rparr>) = mp_is_full p" "hash_unclaimed (p\<lparr>mp_rate_limiter := rl\<rparr>) tx = hash_unclaimed p tx"
  "new_entry (p\<lparr>mp_rate_limiter := rl\<rparr>) tx prio hint = new_entry p tx prio hint"
  by (simp_all add: pool_inv_def pool_abs_def [abs_def] mp_is_full_def hash_unclaimed_def new_entry_def)

lemma admitted_limiter [simp]: "admitted (p\<lparr>mp_rate_limiter := rl\<rparr>) tx e out m = admitted p tx e out m"
  by (cases out) (simp_all add: admitted_def lowest_def)

lemma admit_cases:
  assumes "admit env p tx pk stake hint ws ctx = (r, p')"
  obtains e where "r = Inl e" "p' = p"
  | e rl where "r = Inl e" "p' = p\<lparr>mp_rate_limiter := rl\<rparr>"
  | rl where "validate_transaction env tx pk ws \<lparr>vc_chain_id = ac_chain_id ctx, vc_base_fee = ac_base_fee ctx\<rparr> = Inr ()"
      "admits (from_load (btree_len (mp_entries p)) (mp_capacity p)) (tx_type tx)"
      "try_acquire (pe_float env) (mp_rate_limiter p) (tx_sender tx) (ac_now ctx) = (Inr (), rl)"
      "admit_priced (p\<lparr>mp_rate_limiter := rl\<rparr>) tx (priority_score (tx_gas_price tx) stake) hint = (r, p')"
  using assms by (auto simp: admit_def Let_def split: sum.splits if_splits prod.splits)

lemma admit_ok:
  assumes "pool_inv p" "hash_unclaimed p tx" "mp_next_seq p \<noteq> - 1"
    "admit env p tx pk stake hint ws ctx = (r, p')"
  shows "pool_inv p' \<and> (case r of Inl _ \<Rightarrow> pool_abs p' = pool_abs p
    | Inr out \<Rightarrow> admitted p tx (new_entry p tx (priority_score (tx_gas_price tx) stake) hint) out (pool_abs p'))"
  using assms(4)
proof (cases rule: admit_cases)
  case (3 rl)
  show ?thesis
    using admit_priced_ok [OF _ _ _ 3(4)] assms(1-3) by (cases r) simp_all
qed (simp_all add: assms)

subsection \<open>What validation accepts\<close>

lemma validate_nonce_Inr:
  "validate_nonce tx n = Inr u \<longleftrightarrow> unat n \<le> unat (tx_nonce tx) \<and> unat (tx_nonce tx) \<le> unat n + 64"
  by (auto simp: validate_nonce_def MAX_NONCE_GAP_def word_less_nat_alt word_le_nat_alt unat_sub not_less)

lemma validate_balance_Inr:
  "validate_balance tx bal = Inr u \<longleftrightarrow> unat (tx_gas_price tx) * unat (tx_gas_limit tx) + unat (tx_value tx) \<le> unat bal"
proof -
  let ?gas = "ucast (tx_gas_limit tx) :: u128"
  have gas: "unat ?gas = unat (tx_gas_limit tx)" by (rule unat_ucast_u64)
  have lim: "unat bal < 2 ^ LENGTH(128)" by (rule unsigned_less)
  have "\<exists>c t. unat (c :: u128) = unat (tx_gas_price tx) * unat ?gas \<and> unat t = unat c + unat (tx_value tx) \<and> unat (t :: u128) \<le> unat bal"
    if *: "unat (tx_gas_price tx) * unat ?gas + unat (tx_value tx) \<le> unat bal"
    using * lim unat_mult_exact [of "tx_gas_price tx" ?gas] unat_add_exact [of "tx_gas_price tx * ?gas" "tx_value tx"]
    by (intro exI [of _ "tx_gas_price tx * ?gas"] exI [of _ "tx_gas_price tx * ?gas + tx_value tx"]) simp
  moreover have "validate_balance tx bal = Inr u \<longleftrightarrow>
    (\<exists>c t. unat (c :: u128) = unat (tx_gas_price tx) * unat ?gas \<and> unat t = unat c + unat (tx_value tx) \<and> unat (t :: u128) \<le> unat bal)"
    by (auto simp: validate_balance_def Let_def rbind_Inr amount_mul_Inr amount_add_Inr not_less word_le_nat_alt split: if_splits)
  moreover have "\<exists>c t. unat (c :: u128) = m \<and> unat t = unat c + v \<and> unat (t :: u128) \<le> b \<Longrightarrow> m + v \<le> b" for m v b
    by auto
  ultimately show ?thesis unfolding gas by blast
qed

lemma validate_transaction_Inr:
  "validate_transaction env tx pk ws ctx = Inr u \<longleftrightarrow>
    tx_gas_limit tx \<noteq> 0 \<and> tx_chain_id tx = vc_chain_id ctx \<and> validate_size env tx = Inr () \<and>
    to_address (pe_lib env) pk = Some (tx_sender tx) \<and> verify_transaction (pe_lib env) tx pk = Inr () \<and>
    (\<exists>acc. get_account (pe_fuel env) (pe_state env) ws (tx_sender tx) = Inr acc \<and>
      validate_nonce tx (case acc of Some a \<Rightarrow> acc_nonce a | None \<Rightarrow> 0) = Inr () \<and>
      validate_balance tx (case acc of Some a \<Rightarrow> acc_balance a | None \<Rightarrow> amount_zero) = Inr ()) \<and>
    vc_base_fee ctx \<le> tx_gas_price tx"
  by (auto simp: validate_transaction_def validate_pubkey_matches_sender_def validate_signature_def validate_gas_price_def
      rbind_Inr not_less ok_or_def split: if_splits option.splits)

subsection \<open>Reachable pools\<close>

text \<open>
  One call of a pool operation that changes the pool. The code checks neither side condition of an
  admission: that the hash of the transaction is not that of another pending one (senders choose the
  field) and that the 64-bit sequence counter has not reached its maximum.
\<close>

inductive pool_step :: "('db, 'f) pool_env \<Rightarrow> 'f mempool \<Rightarrow> 'f mempool \<Rightarrow> bool" for env where
  step_admit: "admit env p tx pk stake hint ws ctx = (r, p') \<Longrightarrow> hash_unclaimed p tx \<Longrightarrow> mp_next_seq p \<noteq> - 1 \<Longrightarrow> pool_step env p p'"
| step_remove: "mp_remove p h = (e, p') \<Longrightarrow> pool_step env p p'"
| step_block: "pool_step env p (on_new_block (pe_float env) p now)"

lemma pool_inv_new: "pool_inv (with_rate_limiter capacity rl)"
  by (simp add: pool_inv_def with_rate_limiter_def indexed_def slot_def fcard_fempty)

lemma mp_remove_inv:
  assumes "pool_inv p" "mp_remove p h = (e, p')"
  shows "pool_inv p'"
proof (cases "fmlookup (mp_entries p) h")
  case (Some e)
  then show ?thesis using remove_internal_ok(1) [OF assms(1) Some] assms(2) by (simp add: mp_remove_def)
qed (use assms in \<open>simp add: mp_remove_def\<close>)

lemma on_new_block_inv: "pool_inv (on_new_block fl p now) = pool_inv p"
  by (simp add: pool_inv_def on_new_block_def)

lemma pool_step_inv: "pool_inv p \<Longrightarrow> pool_step env p p' \<Longrightarrow> pool_inv p'"
  by (erule pool_step.cases) (blast dest: admit_ok mp_remove_inv, blast dest: mp_remove_inv, simp add: on_new_block_inv)

interpretation pool: invariant_system "pool_step env" pool_inv for env
  by unfold_locales (rule pool_step_inv)

subsection \<open>The order of the pending transactions\<close>

definition pending :: "'f mempool \<Rightarrow> pool_entry \<Rightarrow> bool" where
  "pending p e \<longleftrightarrow> pool_abs p (account_slot (pe_tx e)) = Some e"

lemma pending_iff: "pool_inv p \<Longrightarrow> pending p e \<longleftrightarrow> fmlookup (mp_entries p) (tx_hash (pe_tx e)) = Some e"
  by (simp add: pending_def pool_abs_iff)

lemma pending_lookup:
  assumes "pool_inv p"
  shows "fmlookup (mp_entries p) h = Some e \<longleftrightarrow> pending p e \<and> tx_hash (pe_tx e) = h"
  using assms pending_iff [OF assms] by (auto simp: pool_inv_def indexed_def)

lemma index_entries:
  assumes inv: "pool_inv p"
  shows "fmlookup (mp_priority_index p) k = Some h \<longleftrightarrow> (\<exists>e. pending p e \<and> tx_hash (pe_tx e) = h \<and> rank e = k)"
proof -
  have ix: "indexed (fmlookup (mp_entries p)) (fmlookup (mp_priority_index p)) (slot (mp_by_sender p))"
    using inv by (simp add: pool_inv_def)
  show ?thesis using ix unfolding indexed_def pending_lookup [OF inv] by blast
qed

lemma rank_inj: "pool_inv p \<Longrightarrow> pending p e \<Longrightarrow> pending p e' \<Longrightarrow> rank e = rank e' \<Longrightarrow> e = e'"
  using index_entries [of p] pending_iff [of p] by (metis option.inject)

definition ordered :: "'f mempool \<Rightarrow> pool_entry list" where
  "ordered p = map (\<lambda>(k, h). the (fmlookup (mp_entries p) h)) (rev (sorted_list_of_fmap (mp_priority_index p)))"

lemma ordered_entries:
  assumes inv: "pool_inv p"
  shows "set (ordered p) = {e. pending p e}" "map rank (ordered p) = rev (btree_keys (mp_priority_index p))"
proof -
  have e: "pending p (the (fmlookup (mp_entries p) h))" "rank (the (fmlookup (mp_entries p) h)) = k"
    if k: "fmlookup (mp_priority_index p) k = Some h" for k h
  proof -
    obtain e where "pending p e" "tx_hash (pe_tx e) = h" "rank e = k" using k index_entries [OF inv, of k h] by blast
    then show "pending p (the (fmlookup (mp_entries p) h))" "rank (the (fmlookup (mp_entries p) h)) = k"
      using pending_lookup [OF inv, of h e] by simp_all
  qed
  then have "map rank (ordered p) = map fst (rev (sorted_list_of_fmap (mp_priority_index p)))"
    by (auto simp: ordered_def)
  then show "map rank (ordered p) = rev (btree_keys (mp_priority_index p))" by (simp add: rev_map [symmetric])
  show "set (ordered p) = {e. pending p e}"
  proof (intro equalityI subsetI CollectI)
    fix x assume "x \<in> {e. pending p e}"
    then have "fmlookup (mp_priority_index p) (rank x) = Some (tx_hash (pe_tx x))" "fmlookup (mp_entries p) (tx_hash (pe_tx x)) = Some x"
      using index_entries [OF inv, of "rank x"] pending_lookup [OF inv] by blast+
    then show "x \<in> set (ordered p)"
      unfolding ordered_def set_map set_rev by (intro image_eqI [of _ _ "(rank x, tx_hash (pe_tx x))"]) simp_all
  qed (auto simp: ordered_def intro: e)
qed

lemma ordered_sorted:
  assumes "pool_inv p"
  shows "sorted_wrt (\<lambda>a b. rank b < rank a) (ordered p)" "distinct (ordered p)" "length (ordered p) = mp_len p"
proof -
  have "sorted_wrt (>) (map rank (ordered p))"
    using ordered_entries(2) [OF assms] by (simp add: sorted_wrt_rev strict_sorted_iff)
  then show "sorted_wrt (\<lambda>a b. rank b < rank a) (ordered p)" by (simp add: sorted_wrt_map)
  have "distinct (map rank (ordered p))" using ordered_entries(2) [OF assms] by simp
  then show d: "distinct (ordered p)" by (simp add: distinct_map)
  have "inj_on (\<lambda>e. tx_hash (pe_tx e)) {e. pending p e}"
    by (rule inj_onI) (metis CollectD option.inject pending_iff [OF assms])
  moreover have "(\<lambda>e. tx_hash (pe_tx e)) ` {e. pending p e} = fset (fmdom (mp_entries p))"
    using pending_lookup [OF assms] by (auto simp: fmlookup_dom_iff image_iff)
  ultimately show "length (ordered p) = mp_len p"
    using distinct_card [OF d] ordered_entries(1) [OF assms] card_image by (metis fcard.rep_eq mp_len_def)
qed

lemma map_filter_total:
  "(\<And>x. x \<in> set xs \<Longrightarrow> \<exists>y. f x = Some y) \<Longrightarrow> List.map_filter (\<lambda>x. map_option g (f x)) xs = map (\<lambda>x. g (the (f x))) xs"
proof (induction xs)
  case (Cons a xs)
  obtain y where "f a = Some y" using Cons.prems [of a] by auto
  then show ?case using Cons by (simp add: List.map_filter_simps)
qed (simp add: List.map_filter_simps)

lemma pending_by_priority_ordered:
  assumes inv: "pool_inv p"
  shows "pending_by_priority p limit = map pe_tx (take limit (ordered p))"
proof -
  have "\<exists>e. fmlookup (mp_entries p) h = Some e" if "(k, h) \<in> set (take limit (rev (sorted_list_of_fmap (mp_priority_index p))))" for k h
    using set_take_subset that index_entries [OF inv, of k h] pending_lookup [OF inv] by fastforce
  then have "\<exists>e. fmlookup (mp_entries p) (snd x) = Some e" if "x \<in> set (take limit (rev (sorted_list_of_fmap (mp_priority_index p))))" for x
    using that by (metis prod.collapse)
  then show ?thesis
    using map_filter_total [of "take limit (rev (sorted_list_of_fmap (mp_priority_index p)))" "\<lambda>x. fmlookup (mp_entries p) (snd x)" pe_tx]
    by (simp add: pending_by_priority_def ordered_def take_map split_def comp_def)
qed

subsection \<open>Samples\<close>

text \<open>Two senders on an empty chain with base fee zero, and a pool with one pending transaction.\<close>

definition pool_sample_env :: "((string \<times> bytes, bytes) fmap, rat) pool_env" where
  "pool_sample_env = \<lparr>pe_lib = sample_lib\<lparr>cl_blake3 := (\<lambda>bs. push_bit 96 (checksum bs))\<rparr>, pe_size = (\<lambda>_. Some 100),
     pe_state = mem_state_env checksum, pe_fuel = 41, pe_float = rat_ops\<rparr>"

definition sample_pk :: "u8 \<Rightarrow> public_key" where
  "sample_pk b = kp_public_key (sample_keypair\<lparr>kp_classical_pk := replicate 32 b\<rparr>)"

definition sample_ctx :: admit_context where
  "sample_ctx = \<lparr>ac_chain_id = 1, ac_base_fee = 0, ac_now = 0\<rparr>"

definition pool_tx :: "address \<Rightarrow> hash \<Rightarrow> transaction" where
  "pool_tx sender h = sample_tx\<lparr>tx_sender := sender, tx_hash := h, tx_gas_price := 0\<rparr>"

definition sample_admit :: "rat mempool \<Rightarrow> transaction \<Rightarrow> u8 \<Rightarrow> (mempool_error + admit_outcome) \<times> rat mempool" where
  "sample_admit p tx b = admit pool_sample_env p tx (sample_pk b) 0 None (ws_new fmempty) sample_ctx"

definition one_pending :: "rat mempool" where
  "one_pending = snd (sample_admit (mempool_new rat_ops 2) (pool_tx 32 5) 1)"

lemma first_admission: "sample_admit (mempool_new rat_ops 2) (pool_tx 32 5) 1 = (Inr Inserted, one_pending)"
proof -
  have "fst (sample_admit (mempool_new rat_ops 2) (pool_tx 32 5) 1) = Inr Inserted" by code_simp
  then show ?thesis by (simp add: one_pending_def prod_eq_iff)
qed

lemma one_pending_reached: "(pool_step pool_sample_env)\<^sup>*\<^sup>* (with_rate_limiter 2 (limiter_with_defaults rat_ops)) one_pending"
proof -
  have "pool_step pool_sample_env (mempool_new rat_ops 2) one_pending"
    by (rule step_admit [OF first_admission [unfolded sample_admit_def]])
      (simp_all add: mempool_new_def with_rate_limiter_def hash_unclaimed_def)
  then show ?thesis by (simp add: mempool_new_def)
qed

subsection \<open>A transaction under another one's hash\<close>

lemma verify_ignores_hash: "verify_transaction lib (tx\<lparr>tx_hash := h\<rparr>) pk = verify_transaction lib tx pk"
  by (simp add: verify_transaction_def compute_tx_hash_def from_tx_def)

lemma validate_ignores_hash:
  assumes "pe_size env (tx\<lparr>tx_hash := h\<rparr>) = pe_size env tx"
  shows "validate_transaction env (tx\<lparr>tx_hash := h\<rparr>) pk ws ctx = Inr () \<longleftrightarrow> validate_transaction env tx pk ws ctx = Inr ()"
proof -
  have "validate_size env (tx\<lparr>tx_hash := h\<rparr>) = Inr () \<longleftrightarrow> validate_size env tx = Inr ()"
    by (simp add: validate_size_def assms Let_def)
  then show ?thesis
    by (simp add: validate_transaction_Inr verify_ignores_hash validate_nonce_Inr validate_balance_Inr)
qed

lemma set_map_filter_Some: "set (List.map_filter f xs) = {y. \<exists>x \<in> set xs. f x = Some y}"
  by (induction xs) (auto simp: List.map_filter_simps split: option.split)

lemma map_filter_twice:
  assumes "x \<in> set xs" "y \<in> set xs" "x \<noteq> y" "f x = Some z" "f y = Some z"
  shows "\<not> distinct (List.map_filter f xs)"
proof -
  show ?thesis using assms(1-3)
  proof (induction xs)
    case (Cons a xs)
    then show ?case using assms(4,5)
      by (auto simp: List.map_filter_simps set_map_filter_Some split: option.split)
  qed simp
qed

lemma forged_entry:
  fixes prio hint
  assumes inv: "pool_inv p" and e: "fmlookup (mp_entries p) h = Some e" and sq: "mp_next_seq p \<noteq> - 1"
    and tx: "tx_hash tx = h" "account_slot tx \<noteq> account_slot (pe_tx e)"
  defines "q \<equiv> insert_entry p tx prio hint"
  shows "slot (mp_by_sender q) (account_slot (pe_tx e)) = Some h"
    "pe_tx e \<notin> set (pending_by_priority q limit)"
    "\<exists>n. \<not> distinct (pending_by_priority q n)"
proof -
  have ix: "indexed (fmlookup (mp_entries p)) (fmlookup (mp_priority_index p)) (slot (mp_by_sender p))"
    using inv by (simp add: pool_inv_def)
  have he: "tx_hash (pe_tx e) = h" using ix e by (simp add: indexed_def)
  let ?n = "new_entry p tx prio hint"
  have q: "mp_entries q = fmupd h ?n (mp_entries p)" "mp_priority_index q = fmupd (rank ?n) h (mp_priority_index p)"
    "slot (mp_by_sender q) = (slot (mp_by_sender p))(account_slot tx \<mapsto> h)"
    by (simp_all add: q_def insert_entry_def new_entry_def Let_def rank_def account_slot_def slot_upd tx(1))
  show "slot (mp_by_sender q) (account_slot (pe_tx e)) = Some h"
    using indexedD(3) [OF ix e] tx(2) by (simp add: q)
  have "pe_tx e' \<noteq> pe_tx e" if "fmlookup (mp_entries q) h' = Some e'" for h' e'
  proof (cases "h' = h")
    case False
    with that have "tx_hash (pe_tx e') = h'" using indexedD(1) [OF ix, of h' e'] by (simp add: q)
    with False he show ?thesis by auto
  qed (use that tx(2) in \<open>auto simp: q new_entry_def\<close>)
  then show "pe_tx e \<notin> set (pending_by_priority q limit)"
    by (fastforce simp: pending_by_priority_def set_map_filter_Some)
  have "pe_seq e < mp_next_seq p" using inv e by (simp add: pool_inv_def)
  then have ranks: "rank e \<noteq> rank ?n" by (auto simp: rank_def new_entry_def)
  have "fmlookup (mp_priority_index p) (rank e) = Some h" using ix e unfolding indexed_def by blast
  then have "(rank e, h) \<in> set (rev (sorted_list_of_fmap (mp_priority_index q)))"
    "(rank ?n, h) \<in> set (rev (sorted_list_of_fmap (mp_priority_index q)))"
    using ranks by (simp_all add: q)
  from map_filter_twice [OF this, of "\<lambda>(_, h). map_option pe_tx (fmlookup (mp_entries q) h)" tx] ranks
  have "\<not> distinct (pending_by_priority q (length (sorted_list_of_fmap (mp_priority_index q))))"
    by (simp add: pending_by_priority_def q new_entry_def)
  then show "\<exists>n. \<not> distinct (pending_by_priority q n)" by blast
qed

subsection \<open>Properties\<close>

text \<open>
  C31. The pool is a map from sender and nonce to the pending transaction. With consistent indexes, a
  sequence counter below its maximum and no other entry under the transaction's hash, admission
  keeps the three indexes consistent and the pool within its capacity. A refused transaction
  leaves the map as it was. An accepted one is stored in its slot: replacing the pending
  transaction there, whose price it meets with the bump, or into a free slot, where a full pool
  first drops its lowest entry, of strictly lower priority. No other slot changes.
\<close>

theorem admit_refines_map:
  assumes "pool_inv p" "hash_unclaimed p tx" "mp_next_seq p \<noteq> - 1"
    "admit env p tx pk stake hint ws ctx = (r, p')"
  shows "pool_inv p' \<and> (case r of Inl _ \<Rightarrow> pool_abs p' = pool_abs p
    | Inr out \<Rightarrow> admitted p tx (new_entry p tx (priority_score (tx_gas_price tx) stake) hint) out (pool_abs p'))"
  by (rule admit_ok [OF assms])

theorem admit_refines_map_witness:
  "\<exists>p'. sample_admit one_pending (pool_tx 32 6) 1 = (Inr (Replaced 5), p') \<and> pool_inv p' \<and>
    map_option pe_tx (pool_abs p' (32, 0)) = Some (pool_tx 32 6)"
proof -
  let ?run = "sample_admit one_pending (pool_tx 32 6) 1"
  have "fst ?run = Inr (Replaced 5)" by code_simp
  then have run: "?run = (Inr (Replaced 5), snd ?run)" by (simp add: prod_eq_iff)
  have inv: "pool_inv one_pending" using pool.run_inv [OF one_pending_reached] pool_inv_new by blast
  have "map_option (account_slot \<circ> pe_tx) (fmlookup (mp_entries one_pending) 6) = None" "mp_next_seq one_pending = 1" by code_simp+
  then have "hash_unclaimed one_pending (pool_tx 32 6)" "mp_next_seq one_pending \<noteq> - 1"
    by (simp_all add: hash_unclaimed_def pool_tx_def)
  from admit_refines_map [OF inv this run [unfolded sample_admit_def]]
  have "pool_inv (snd ?run)" "pool_abs (snd ?run) (account_slot (pool_tx 32 6)) =
    Some (new_entry one_pending (pool_tx 32 6) (priority_score (tx_gas_price (pool_tx 32 6)) 0) None)"
    by (auto simp: admitted_def sample_admit_def)
  moreover have "account_slot (pool_tx 32 6) = (32, 0)" by code_simp
  ultimately show ?thesis using run by (auto simp: new_entry_def)
qed

text \<open>
  C32. The pending transactions come out best first. Take a pool that removals, new blocks and admissions
  reach from an empty one, where no admitted transaction claims the hash of another pending one and
  the sequence counter stays below its maximum (\<open>pool_step\<close>; the code checks neither, and
  \<open>forged_hash_corrupts_pool\<close> shows that the first is needed). Then \<open>pending_by_priority\<close> returns up to \<open>limit\<close> transactions, each
  pending, no one twice, in strictly decreasing order of priority and then arrival number, and
  what it leaves out ranks below all it returns.
\<close>

theorem pending_in_priority_order:
  assumes "(pool_step env)\<^sup>*\<^sup>* (with_rate_limiter capacity rl) p"
  shows "\<exists>es. pending_by_priority p limit = map pe_tx es \<and> length es = min limit (mp_len p) \<and>
    sorted_wrt (\<lambda>a b. rank b < rank a) es \<and> set es \<subseteq> {e. pending p e} \<and>
    (\<forall>e \<in> set es. \<forall>e'. pending p e' \<and> e' \<notin> set es \<longrightarrow> rank e' < rank e)"
proof -
  have inv: "pool_inv p" using pool.run_inv [OF assms] pool_inv_new by blast
  let ?es = "take limit (ordered p)"
  have cut: "ordered p = ?es @ drop limit (ordered p)" by simp
  have sorted: "sorted_wrt (\<lambda>a b. rank b < rank a) (?es @ drop limit (ordered p))"
    using ordered_sorted(1) [OF inv] by simp
  have "rank e' < rank e" if "e \<in> set ?es" "pending p e'" "e' \<notin> set ?es" for e e'
  proof -
    have "e' \<in> set (drop limit (ordered p))" using that ordered_entries(1) [OF inv] cut by (metis UnE mem_Collect_eq set_append)
    then show ?thesis using sorted that(1) unfolding sorted_wrt_append by blast
  qed
  moreover have "sorted_wrt (\<lambda>a b. rank b < rank a) ?es" using sorted unfolding sorted_wrt_append by blast
  moreover have "set ?es \<subseteq> {e. pending p e}" using ordered_entries(1) [OF inv] set_take_subset [of limit "ordered p"] by blast
  moreover have "length ?es = min limit (mp_len p)" using ordered_sorted(3) [OF inv] by simp
  ultimately show ?thesis using pending_by_priority_ordered [OF inv] by blast
qed

theorem pending_in_priority_order_witness:
  "pending_by_priority one_pending 7 = [pool_tx 32 5] \<and> (\<exists>e. pending one_pending e \<and> pe_tx e = pool_tx 32 5)"
proof -
  have *: "pending_by_priority one_pending 7 = [pool_tx 32 5]" by code_simp
  obtain es where "pending_by_priority one_pending 7 = map pe_tx es" "set es \<subseteq> {e. pending one_pending e}"
    using pending_in_priority_order [OF one_pending_reached, of 7] by blast
  then show ?thesis using * by auto
qed

text \<open>
  C34. Nothing compares a transaction's \<open>hash\<close> field with its content, and the pool trusts it. Take any
  consistent pool with room, any pending transaction, and any transaction of another account slot that
  would be admitted as new. Its copy under the hash of the pending one is admitted as new as well: the
  pending transaction is never handed out again although its sender's slot still holds the hash, and
  the block builder can be handed the copy twice. (The hash field has a fixed size, so the copy is as long as the original.)
\<close>

theorem forged_hash_corrupts_pool:
  assumes "pool_inv p" "pending p e" "\<not> mp_is_full p" "mp_next_seq p \<noteq> - 1"
    and "admit env p tx pk stake hint ws ctx = (Inr Inserted, q)" "account_slot tx \<noteq> account_slot (pe_tx e)"
    and "pe_size env (tx\<lparr>tx_hash := tx_hash (pe_tx e)\<rparr>) = pe_size env tx"
  shows "\<exists>p'. admit env p (tx\<lparr>tx_hash := tx_hash (pe_tx e)\<rparr>) pk stake hint ws ctx = (Inr Inserted, p') \<and>
    slot (mp_by_sender p') (account_slot (pe_tx e)) = Some (tx_hash (pe_tx e)) \<and>
    (\<forall>limit. pe_tx e \<notin> set (pending_by_priority p' limit)) \<and> (\<exists>n. \<not> distinct (pending_by_priority p' n))"
  using assms(5)
proof (cases rule: admit_cases)
  case (3 rl)
  let ?tx = "tx\<lparr>tx_hash := tx_hash (pe_tx e)\<rparr>" and ?p = "p\<lparr>mp_rate_limiter := rl\<rparr>"
  let ?prio = "priority_score (tx_gas_price tx) stake"
  have room: "make_room ?p t prio = Inr ?p" for t prio using assms(3) by (simp add: make_room_def mp_is_full_def)
  have "Option.bind (fmlookup (mp_by_sender p) (tx_sender tx)) (\<lambda>m. fmlookup m (tx_nonce tx)) = None \<or>
      (\<exists>h. Option.bind (fmlookup (mp_by_sender p) (tx_sender tx)) (\<lambda>m. fmlookup m (tx_nonce tx)) = Some h \<and> fmlookup (mp_entries p) h = None)"
    using 3(4) by (auto simp: admit_priced_def Let_def split: option.splits if_splits)
  moreover have "fmlookup (mp_entries p) h \<noteq> None" if "slot (mp_by_sender p) k = Some h" for k h
    using assms(1) that unfolding pool_inv_def indexed_def by blast
  ultimately have free: "Option.bind (fmlookup (mp_by_sender p) (tx_sender tx)) (\<lambda>m. fmlookup m (tx_nonce tx)) = None"
    by (fastforce simp: slot_def)
  have valid: "validate_transaction env ?tx pk ws \<lparr>vc_chain_id = ac_chain_id ctx, vc_base_fee = ac_base_fee ctx\<rparr> = Inr ()"
    using 3(1) validate_ignores_hash [OF assms(7)] by blast
  have run: "admit env p ?tx pk stake hint ws ctx = (Inr Inserted, insert_entry ?p ?tx ?prio hint)"
    using 3(2,3) free valid by (simp add: admit_def admit_priced_def admit_as_new_def room Let_def)
  have "fmlookup (mp_entries ?p) (tx_hash (pe_tx e)) = Some e" using assms(1,2) by (simp add: pending_iff)
  note bad = forged_entry [of ?p _ e ?tx, OF _ this _ _ _]
  show ?thesis
    by (rule exI [of _ "insert_entry ?p ?tx ?prio hint"])
      (use run bad assms(1,4,6) in \<open>auto simp: account_slot_def\<close>)
qed auto

theorem forged_hash_corrupts_pool_witness:
  "\<exists>p'. sample_admit one_pending (pool_tx 64 5) 2 = (Inr Inserted, p') \<and> slot (mp_by_sender p') (32, 0) = Some 5 \<and>
    (\<forall>limit. pool_tx 32 5 \<notin> set (pending_by_priority p' limit)) \<and> (\<exists>n. \<not> distinct (pending_by_priority p' n))"
proof -
  have inv: "pool_inv one_pending" using pool.run_inv [OF one_pending_reached] pool_inv_new by blast
  have facts: "\<not> mp_is_full one_pending" "mp_next_seq one_pending = 1" "fst (sample_admit one_pending (pool_tx 64 6) 2) = Inr Inserted"
    "map_option pe_tx (fmlookup (mp_entries one_pending) 5) = Some (pool_tx 32 5)" by code_simp+
  then obtain e q where e: "fmlookup (mp_entries one_pending) 5 = Some e" "pe_tx e = pool_tx 32 5"
    and q: "sample_admit one_pending (pool_tx 64 6) 2 = (Inr Inserted, q)" by (auto simp: prod_eq_iff)
  have "pending one_pending e" using e by (simp add: pending_iff [OF inv] pool_tx_def)
  moreover have "(pool_tx 64 6)\<lparr>tx_hash := tx_hash (pe_tx e)\<rparr> = pool_tx 64 5" "account_slot (pe_tx e) = (32, 0)"
    "account_slot (pool_tx 64 6) \<noteq> account_slot (pe_tx e)" "tx_hash (pe_tx e) = 5"
    by (simp_all add: e(2) pool_tx_def account_slot_def sample_tx_def)
  ultimately show ?thesis
    using forged_hash_corrupts_pool [OF inv _ facts(1) _ q [unfolded sample_admit_def], of e] facts(2)
    by (simp add: sample_admit_def e(2) pool_sample_env_def)
qed
text \<open>
  C33. What is admitted is executable as far as the current state tells: the gas limit is positive,
  the chain is the right one, the key belongs to the sender and signed the body, the nonce is
  at least the account's and at most 64 above, the balance covers gas at the full limit plus the
  value, as natural numbers and so without wrap-around, the price reaches the base fee, and the
  circuit breaker lets the kind of transaction pass at the current load.
\<close>

theorem admitted_is_valid:
  assumes "admit env p tx pk stake hint ws ctx = (Inr out, p')"
  shows "0 < tx_gas_limit tx \<and> tx_chain_id tx = ac_chain_id ctx \<and>
    to_address (pe_lib env) pk = Some (tx_sender tx) \<and> verify_transaction (pe_lib env) tx pk = Inr () \<and>
    ac_base_fee ctx \<le> tx_gas_price tx \<and> admits (from_load (mp_len p) (mp_capacity p)) (tx_type tx) \<and>
    (\<exists>acc. get_account (pe_fuel env) (pe_state env) ws (tx_sender tx) = Inr acc \<and>
      (let n = (case acc of Some a \<Rightarrow> unat (acc_nonce a) | None \<Rightarrow> 0);
           bal = (case acc of Some a \<Rightarrow> unat (acc_balance a) | None \<Rightarrow> 0) in
       n \<le> unat (tx_nonce tx) \<and> unat (tx_nonce tx) \<le> n + 64 \<and>
       unat (tx_gas_price tx) * unat (tx_gas_limit tx) + unat (tx_value tx) \<le> bal))"
  using assms
proof (cases rule: admit_cases)
  case (3 rl)
  then show ?thesis
    by (auto simp: validate_transaction_Inr validate_nonce_Inr validate_balance_Inr word_neq_0_conv mp_len_def split: option.splits)
qed auto

theorem admitted_is_valid_witness:
  "to_address (pe_lib pool_sample_env) (sample_pk 1) = Some 32 \<and>
    verify_transaction (pe_lib pool_sample_env) (pool_tx 32 5) (sample_pk 1) = Inr ()"
  using admitted_is_valid [OF first_admission [unfolded sample_admit_def]] by (simp add: pool_tx_def)

text \<open>
  The price a replacement has to reach is the old price raised by ten per cent and rounded
  down, the largest amount where that does not fit. Rounding leaves nothing of the bump for
  prices below ten drops: there a pending transaction is replaced at its own price.
\<close>

theorem replacement_price_exact:
  "unat (rbf_min_price old MIN_REPLACE_BUMP_BPS) =
    (if unat old * 11000 < 2 ^ 128 then unat old * 11 div 10 else 2 ^ 128 - 1)"
proof -
  have "unat old * 11000 div 10000 = unat old * 11 div 10" by linarith
  then show ?thesis
    by (auto simp: rbf_min_price_def MIN_REPLACE_BUMP_BPS_def checked_mul_def unat_div unat_mult_exact unat_max_word)
qed

end
