(* ===== verification/Vm_State.thy ===== *)
theory Vm_State
  imports Transactions "HOL-Library.Product_Lexorder" "HOL-Library.List_Lexorder"
begin

section \<open>State views of the virtual machine\<close>

text \<open>
  \<^verbatim>\<open>lemma-core/src/gas.rs\<close>, \<^verbatim>\<open>lemma-vm/src/gas.rs\<close>, \<^verbatim>\<open>error.rs\<close> and \<^verbatim>\<open>state.rs\<close>: gas, errors, and the
  interface through which contract execution sees state.

  The source writes the executor once, generic in \<open>S: ContractStateView\<close>, and runs it over several
  views. Here the executor is a program over that interface, a value of type \<open>'r prog\<close>: a tree of
  method calls that ends with a result, so that each view gives the calls their meaning and other
  threads can act between two calls. Besides the trait methods a program may read through a clone of
  the view (\<open>Query False\<close>, what \<open>ScratchSnapshot\<close> does) and use the caches all executions of a block share
  in the executor (\<open>Exec\<close>).
\<close>

subsection \<open>Gas\<close>

type_synonym gas = u64

record gas_schedule =
  tx_base :: gas
  tx_calldata_per_byte :: gas
  storage_read_cold :: gas
  storage_read_warm :: gas
  storage_write_create :: gas
  storage_write_update :: gas
  gs_storage_delete :: gas
  storage_delete_refund :: gas
  call_base :: gas
  call_value_transfer :: gas
  hash_blake3_base :: gas
  hash_blake3_per_byte :: gas
  hash_keccak256_base :: gas
  hash_keccak256_per_byte :: gas
  verify_ed25519 :: gas
  verify_mldsa65 :: gas
  emit_event_base :: gas
  emit_event_per_byte :: gas
  deploy_base :: gas
  deploy_per_byte :: gas
  deploy_storage_per_byte :: gas
  code_cold_surcharge :: gas
  memory_grow_per_page :: gas
  context_query :: gas
  memory_copy_per_byte :: gas
  invariant_check :: gas
  gs_warden_check :: gas

definition devnet :: gas_schedule where
  "devnet = \<lparr>tx_base = 21000, tx_calldata_per_byte = 16,
     storage_read_cold = 2100, storage_read_warm = 100, storage_write_create = 22100,
     storage_write_update = 5000, gs_storage_delete = 5000, storage_delete_refund = 4800,
     call_base = 2100, call_value_transfer = 9000,
     hash_blake3_base = 30, hash_blake3_per_byte = 6, hash_keccak256_base = 30, hash_keccak256_per_byte = 6,
     verify_ed25519 = 3000, verify_mldsa65 = 30000,
     emit_event_base = 375, emit_event_per_byte = 8,
     deploy_base = 32000, deploy_per_byte = 200, deploy_storage_per_byte = 200, code_cold_surcharge = 100000,
     memory_grow_per_page = 3, context_query = 3, memory_copy_per_byte = 3, invariant_check = 5000,
     gs_warden_check = 7500\<rparr>"

definition gas_forwardable :: "gas \<Rightarrow> gas" where
  "gas_forwardable g = g - g div 64"

datatype vm_error =
    CompilationFailed string
  | InstantiationFailed string
  | OutOfGas
  | StackOverflow
  | CallDepthExceeded
  | Reentrancy address
  | InvalidModule string
  | ContractTooLarge nat nat
  | UnsupportedHostAbi u32 u32
  | HoneypotInvariantViolation string
  | TrapUnknown string
  | InsufficientFunds amount amount
  | VmPolicyViolation string
  | InvalidParameter string
  | EngineSetupFailed string

record fuel_meter =
  fm_remaining :: gas
  refund_accumulator :: gas

definition meter_new :: "gas \<Rightarrow> fuel_meter" where
  "meter_new budget = \<lparr>fm_remaining = budget, refund_accumulator = 0\<rparr>"

definition charge :: "fuel_meter \<Rightarrow> gas \<Rightarrow> vm_error + fuel_meter" where
  "charge m cost = rbind (ok_or (checked_sub (fm_remaining m) cost) OutOfGas) (\<lambda>r. Inr (m\<lparr>fm_remaining := r\<rparr>))"

definition charge_per_byte :: "fuel_meter \<Rightarrow> gas \<Rightarrow> gas \<Rightarrow> nat \<Rightarrow> vm_error + fuel_meter" where
  "charge_per_byte m base per_byte len =
     rbind (ok_or (checked_mul per_byte (of_nat len)) OutOfGas) (\<lambda>byte_cost.
     rbind (ok_or (checked_add base byte_cost) OutOfGas) (\<lambda>total. charge m total))"

definition gas_refund :: "fuel_meter \<Rightarrow> gas \<Rightarrow> fuel_meter" where
  "gas_refund m amt = m\<lparr>refund_accumulator := saturating_add (refund_accumulator m) amt\<rparr>"

definition capped_refund :: "fuel_meter \<Rightarrow> gas" where
  "capped_refund m = min (refund_accumulator m) (fm_remaining m div 2)"

definition gas_used :: "gas \<Rightarrow> gas \<Rightarrow> gas option" where
  "gas_used initial remaining = checked_sub initial remaining"

subsection \<open>Keys and values\<close>

datatype state_key = Storage address bytes | Balance address | Nonce address | Code address

datatype state_value = VStorage "bytes option" | VBalance amount | VNonce u64 | VCode "bytes option"

text \<open>The derived order of \<open>StateKey\<close>: by variant, then by fields.\<close>

fun key_rank :: "state_key \<Rightarrow> nat \<times> address \<times> bytes" where
  "key_rank (Storage c k) = (0, c, k)"
| "key_rank (Balance a) = (1, a, [])"
| "key_rank (Nonce a) = (2, a, [])"
| "key_rank (Code a) = (3, a, [])"

lemma key_rank_inj: "key_rank x = key_rank y \<Longrightarrow> x = y"
  by (cases x; cases y) auto

instantiation state_key :: linorder
begin

definition less_eq_state_key :: "state_key \<Rightarrow> state_key \<Rightarrow> bool" where
  "less_eq_state_key x y \<longleftrightarrow> key_rank x \<le> key_rank y"

definition less_state_key :: "state_key \<Rightarrow> state_key \<Rightarrow> bool" where
  "less_state_key x y \<longleftrightarrow> key_rank x < key_rank y"

instance
  by standard (auto simp: less_eq_state_key_def less_state_key_def key_rank_inj)

end

subsection \<open>The interface\<close>

datatype query = QRead address bytes | QExists address bytes | QBalance address | QNonce address | QCode address

datatype answer = ABytes "bytes option" | ABool bool | AAmount amount | ANonce u64

text \<open>
  The state all executions of a block share in the executor: the code hashes already called, and the
  safety manifest of each contract, here by the bytecode it was parsed from.
\<close>

record exec_shared =
  warm_code :: "hash fset"
  safety_manifests :: "(address, bytes) fmap"

datatype exec_op = WarmCode hash | CachedManifest address bytes | StoreManifest address bytes

datatype exec_answer = EBool bool | EBytes bytes | EUnit

fun exec_shared_step :: "exec_op \<Rightarrow> exec_shared \<Rightarrow> exec_answer \<times> exec_shared" where
  "exec_shared_step (WarmCode h) x = (EBool (h |\<notin>| warm_code x), x\<lparr>warm_code := finsert h (warm_code x)\<rparr>)"
| "exec_shared_step (CachedManifest a code) x =
     (case fmlookup (safety_manifests x) a of
       Some c \<Rightarrow> (EBytes c, x)
     | None \<Rightarrow> (EBytes code, x\<lparr>safety_manifests := fmupd a code (safety_manifests x)\<rparr>))"
| "exec_shared_step (StoreManifest a code) x = (EUnit, x\<lparr>safety_manifests := fmupd a code (safety_manifests x)\<rparr>)"

definition exec_new :: exec_shared where
  "exec_new = \<lparr>warm_code = {||}, safety_manifests = fmempty\<rparr>"

datatype 'r prog =
    Ret 'r
  | Query bool query "answer \<Rightarrow> 'r prog"
  | HasCodeHash hash "bool \<Rightarrow> 'r prog"
  | Exec exec_op "exec_answer \<Rightarrow> 'r prog"
  | Update state_key state_value "'r prog"

primrec prog_bind :: "'a prog \<Rightarrow> ('a \<Rightarrow> 'b prog) \<Rightarrow> 'b prog" where
  "prog_bind (Ret x) f = f x"
| "prog_bind (Query t q k) f = Query t q (\<lambda>a. prog_bind (k a) f)"
| "prog_bind (HasCodeHash h k) f = HasCodeHash h (\<lambda>b. prog_bind (k b) f)"
| "prog_bind (Exec op k) f = Exec op (\<lambda>a. prog_bind (k a) f)"
| "prog_bind (Update key v p) f = Update key v (prog_bind p f)"

text \<open>The trait methods as programs; the flag tells a read of the view from a read of a clone.\<close>

definition sv_read :: "bool \<Rightarrow> address \<Rightarrow> bytes \<Rightarrow> bytes option prog" where
  "sv_read t c k = Query t (QRead c k) (\<lambda>a. Ret (case a of ABytes b \<Rightarrow> b | _ \<Rightarrow> None))"

definition sv_exists :: "bool \<Rightarrow> address \<Rightarrow> bytes \<Rightarrow> bool prog" where
  "sv_exists t c k = Query t (QExists c k) (\<lambda>a. Ret (a = ABool True))"

definition sv_balance :: "bool \<Rightarrow> address \<Rightarrow> amount prog" where
  "sv_balance t a = Query t (QBalance a) (\<lambda>r. Ret (case r of AAmount x \<Rightarrow> x | _ \<Rightarrow> amount_zero))"

definition sv_nonce :: "bool \<Rightarrow> address \<Rightarrow> u64 prog" where
  "sv_nonce t a = Query t (QNonce a) (\<lambda>r. Ret (case r of ANonce n \<Rightarrow> n | _ \<Rightarrow> 0))"

definition sv_code :: "bool \<Rightarrow> address \<Rightarrow> bytes option prog" where
  "sv_code t a = Query t (QCode a) (\<lambda>r. Ret (case r of ABytes b \<Rightarrow> b | _ \<Rightarrow> None))"

definition sv_write :: "address \<Rightarrow> bytes \<Rightarrow> bytes \<Rightarrow> unit prog" where
  "sv_write c k v = Update (Storage c k) (VStorage (Some v)) (Ret ())"

definition sv_delete :: "address \<Rightarrow> bytes \<Rightarrow> unit prog" where
  "sv_delete c k = Update (Storage c k) (VStorage None) (Ret ())"

definition sv_set_balance :: "address \<Rightarrow> amount \<Rightarrow> unit prog" where
  "sv_set_balance a x = Update (Balance a) (VBalance x) (Ret ())"

definition sv_set_nonce :: "address \<Rightarrow> u64 \<Rightarrow> unit prog" where
  "sv_set_nonce a n = Update (Nonce a) (VNonce n) (Ret ())"

definition sv_set_code :: "address \<Rightarrow> bytes \<Rightarrow> unit prog" where
  "sv_set_code a c = Update (Code a) (VCode (Some c)) (Ret ())"

text \<open>A committed state: what it answers to each query, and the hashes of the code it holds.\<close>

record base_view =
  bv_answer :: "query \<Rightarrow> answer"
  bv_has_code_hash :: "hash \<Rightarrow> bool"

subsection \<open>The in-memory view\<close>

record in_memory_state_view =
  im_storage :: "(address \<times> bytes, bytes) fmap"
  im_balances :: "(address, amount) fmap"
  im_nonces :: "(address, u64) fmap"
  im_code :: "(address, bytes) fmap"
  im_code_by_hash :: "(hash, bytes) fmap"

definition im_new :: in_memory_state_view where
  "im_new = \<lparr>im_storage = fmempty, im_balances = fmempty, im_nonces = fmempty, im_code = fmempty, im_code_by_hash = fmempty\<rparr>"

definition im_with_balances :: "(address, amount) fmap \<Rightarrow> in_memory_state_view" where
  "im_with_balances b = im_new\<lparr>im_balances := b\<rparr>"

fun im_answer :: "in_memory_state_view \<Rightarrow> query \<Rightarrow> answer" where
  "im_answer s (QRead c k) = ABytes (fmlookup (im_storage s) (c, k))"
| "im_answer s (QExists c k) = ABool (fmlookup (im_storage s) (c, k) \<noteq> None)"
| "im_answer s (QBalance a) = AAmount (case fmlookup (im_balances s) a of Some x \<Rightarrow> x | None \<Rightarrow> amount_zero)"
| "im_answer s (QNonce a) = ANonce (case fmlookup (im_nonces s) a of Some n \<Rightarrow> n | None \<Rightarrow> 0)"
| "im_answer s (QCode a) = ABytes (fmlookup (im_code s) a)"

text \<open>\<open>write\<close>, \<open>delete\<close>, \<open>set_balance\<close>, \<open>set_nonce\<close> and \<open>set_code\<close>; the other shapes have no method.\<close>

fun im_update :: "hasher \<Rightarrow> in_memory_state_view \<Rightarrow> state_key \<Rightarrow> state_value \<Rightarrow> in_memory_state_view" where
  "im_update blake3 s (Storage c k) (VStorage (Some v)) = s\<lparr>im_storage := fmupd (c, k) v (im_storage s)\<rparr>"
| "im_update blake3 s (Storage c k) (VStorage None) = s\<lparr>im_storage := fmdrop (c, k) (im_storage s)\<rparr>"
| "im_update blake3 s (Balance a) (VBalance x) = s\<lparr>im_balances := fmupd a x (im_balances s)\<rparr>"
| "im_update blake3 s (Nonce a) (VNonce n) = s\<lparr>im_nonces := fmupd a n (im_nonces s)\<rparr>"
| "im_update blake3 s (Code a) (VCode (Some c)) =
     s\<lparr>im_code_by_hash := fmupd (blake3 c) c (im_code_by_hash s), im_code := fmupd a c (im_code s)\<rparr>"
| "im_update blake3 s _ _ = s"

definition im_base :: "in_memory_state_view \<Rightarrow> base_view" where
  "im_base s = \<lparr>bv_answer = im_answer s, bv_has_code_hash = (\<lambda>h. fmlookup (im_code_by_hash s) h \<noteq> None)\<rparr>"

text \<open>A program run on an in-memory view, with the shared state of the executor.\<close>

primrec im_run :: "hasher \<Rightarrow> 'r prog \<Rightarrow> in_memory_state_view \<Rightarrow> exec_shared \<Rightarrow> 'r \<times> in_memory_state_view \<times> exec_shared" where
  "im_run blake3 (Ret r) s x = (r, s, x)"
| "im_run blake3 (Query t q k) s x = im_run blake3 (k (im_answer s q)) s x"
| "im_run blake3 (HasCodeHash h k) s x = im_run blake3 (k (fmlookup (im_code_by_hash s) h \<noteq> None)) s x"
| "im_run blake3 (Exec op k) s x = (let (a, x') = exec_shared_step op x in im_run blake3 (k a) s x')"
| "im_run blake3 (Update key v p) s x = im_run blake3 p (im_update blake3 s key v) x"

subsection \<open>Gas arithmetic\<close>

lemma charge_Inr: "charge m c = Inr m' \<longleftrightarrow> unat c \<le> unat (fm_remaining m) \<and> m' = m\<lparr>fm_remaining := fm_remaining m - c\<rparr>"
  by (auto simp: charge_def checked_sub_def ok_or_def word_le_nat_alt split: if_splits)

lemma charge_Inl: "charge m c = Inl e \<longleftrightarrow> unat (fm_remaining m) < unat c \<and> e = OutOfGas"
  by (auto simp: charge_def checked_sub_def ok_or_def word_le_nat_alt split: if_splits)

end
