(* ===== verification/Mv_State.thy ===== *)
theory Mv_State
  imports Vm_State
begin

section \<open>Multi-version state\<close>

text \<open>
  \<^verbatim>\<open>lemma-vm/src/parallel/mvstate.rs\<close>, \<^verbatim>\<open>conflict.rs\<close> and \<^verbatim>\<open>mvview.rs\<close>: the store of speculative writes, the
  captured reads with their validation, and the view through which one transaction of a block
  executes.

  Transaction indexes, slots and incarnations are natural numbers; the source has them as \<open>u32\<close>, so
  the model is exact for blocks of fewer than \<open>2 ^ 32\<close> transactions (slot \<open>i + 1\<close> saturates only at
  \<open>u32::MAX\<close>, and an incarnation counts the aborts of one transaction, of which there is at most one).
  The concurrent map is a finite map: each of its operations is atomic per key, and its iteration
  order does not show.
\<close>

subsection \<open>Versions, entries, reads\<close>

record version =
  ver_txn_idx :: nat
  ver_incarnation :: nat

record entry =
  en_incarnation :: nat
  en_value :: state_value
  en_is_estimate :: bool

datatype mv_read_result = Value version state_value | Estimate nat | NotFound

type_synonym mv_state = "(state_key, (nat, entry) fmap) fmap"

definition shifted :: "nat \<Rightarrow> nat" where
  "shifted txn_idx = txn_idx + 1"

text \<open>\<open>versions.range(0..=hi).next_back()\<close>: the entry of the highest slot up to \<open>hi\<close>.\<close>

definition range_next_back :: "(nat, 'e) fmap \<Rightarrow> nat \<Rightarrow> (nat \<times> 'e) option" where
  "range_next_back m hi =
     (let es = filter (\<lambda>(s, _). s \<le> hi) (sorted_list_of_fmap m) in if es = [] then None else Some (last es))"

definition mv_read :: "mv_state \<Rightarrow> state_key \<Rightarrow> nat \<Rightarrow> mv_read_result" where
  "mv_read mv key txn_idx =
     (case fmlookup mv key of
       None \<Rightarrow> NotFound
     | Some versions \<Rightarrow>
         (case range_next_back versions txn_idx of
           None \<Rightarrow> NotFound
         | Some (slot, e) \<Rightarrow>
             if en_is_estimate e then Estimate (slot - 1)
             else Value \<lparr>ver_txn_idx = slot - 1, ver_incarnation = en_incarnation e\<rparr> (en_value e)))"

definition mv_write :: "mv_state \<Rightarrow> state_key \<Rightarrow> version \<Rightarrow> state_value \<Rightarrow> mv_state" where
  "mv_write mv key ver v =
     (let versions = (case fmlookup mv key of Some m \<Rightarrow> m | None \<Rightarrow> fmempty) in
      fmupd key (fmupd (shifted (ver_txn_idx ver))
        \<lparr>en_incarnation = ver_incarnation ver, en_value = v, en_is_estimate = False\<rparr> versions) mv)"

text \<open>\<open>mark_estimate\<close> and \<open>remove_writes\<close> for one key; the source loops over the keys.\<close>

definition mark_estimate :: "mv_state \<Rightarrow> nat \<Rightarrow> state_key \<Rightarrow> mv_state" where
  "mark_estimate mv txn_idx key =
     (case fmlookup mv key of
       None \<Rightarrow> mv
     | Some versions \<Rightarrow>
         (case fmlookup versions (shifted txn_idx) of
           None \<Rightarrow> mv
         | Some e \<Rightarrow> fmupd key (fmupd (shifted txn_idx) (e\<lparr>en_is_estimate := True\<rparr>) versions) mv))"

definition remove_write :: "mv_state \<Rightarrow> nat \<Rightarrow> state_key \<Rightarrow> mv_state" where
  "remove_write mv txn_idx key =
     (case fmlookup mv key of
       None \<Rightarrow> mv
     | Some versions \<Rightarrow> fmupd key (fmdrop (shifted txn_idx) versions) mv)"

definition last_value :: "(nat, entry) fmap \<Rightarrow> state_value option" where
  "last_value versions = (let es = sorted_list_of_fmap versions in if es = [] then None else Some (en_value (snd (last es))))"

definition snapshot_committed_into_btreemap :: "mv_state \<Rightarrow> (state_key, state_value) fmap" where
  "snapshot_committed_into_btreemap mv = fmmap_keys (\<lambda>k m. the (last_value m)) (fmfilter (\<lambda>k. Option.bind (fmlookup mv k) last_value \<noteq> None) mv)"

subsection \<open>Captured reads\<close>

datatype observed_read = Versioned version state_value | BaseFallthrough

type_synonym captured_reads = "(state_key \<times> observed_read) list"

fun read_matches :: "mv_read_result \<Rightarrow> observed_read \<Rightarrow> bool" where
  "read_matches (Value ver v) (Versioned over oval) = (ver = over \<and> v = oval)"
| "read_matches NotFound BaseFallthrough = True"
| "read_matches _ _ = False"

definition read_still_matches :: "mv_state \<Rightarrow> nat \<Rightarrow> state_key \<times> observed_read \<Rightarrow> bool" where
  "read_still_matches mv txn_idx r = read_matches (mv_read mv (fst r) txn_idx) (snd r)"

definition validate :: "captured_reads \<Rightarrow> mv_state \<Rightarrow> nat \<Rightarrow> bool" where
  "validate reads mv txn_idx = list_all (read_still_matches mv txn_idx) reads"

subsection \<open>The view of one transaction\<close>

record mv_view =
  vw_txn_idx :: nat
  vw_captured :: captured_reads
  vw_writes :: "(state_key, state_value) fmap"
  vw_min_blocking :: "nat option"

definition view_new :: "nat \<Rightarrow> mv_view" where
  "view_new txn_idx = \<lparr>vw_txn_idx = txn_idx, vw_captured = [], vw_writes = fmempty, vw_min_blocking = None\<rparr>"

definition note_blocking :: "mv_view \<Rightarrow> nat \<Rightarrow> mv_view" where
  "note_blocking v i = v\<lparr>vw_min_blocking := Some (case vw_min_blocking v of Some cur \<Rightarrow> min cur i | None \<Rightarrow> i)\<rparr>"

definition view_record :: "mv_view \<Rightarrow> state_key \<Rightarrow> observed_read \<Rightarrow> mv_view" where
  "view_record v key obs = v\<lparr>vw_captured := vw_captured v @ [(key, obs)]\<rparr>"

definition resolve :: "mv_state \<Rightarrow> mv_view \<Rightarrow> state_key \<Rightarrow> state_value option \<times> mv_view" where
  "resolve mv v key =
     (case fmlookup (vw_writes v) key of
       Some x \<Rightarrow> (Some x, v)
     | None \<Rightarrow>
         (case mv_read mv key (vw_txn_idx v) of
           Value ver x \<Rightarrow> (Some x, view_record v key (Versioned ver x))
         | Estimate b \<Rightarrow> (None, view_record (note_blocking v b) key BaseFallthrough)
         | NotFound \<Rightarrow> (None, view_record v key BaseFallthrough)))"

fun query_key :: "query \<Rightarrow> state_key" where
  "query_key (QRead c k) = Storage c k"
| "query_key (QExists c k) = Storage c k"
| "query_key (QBalance a) = Balance a"
| "query_key (QNonce a) = Nonce a"
| "query_key (QCode a) = Code a"

text \<open>The answer a resolved value gives; a value of another kind gives the default.\<close>

fun value_answer :: "query \<Rightarrow> state_value \<Rightarrow> answer" where
  "value_answer (QRead c k) (VStorage v) = ABytes v"
| "value_answer (QRead c k) _ = ABytes None"
| "value_answer (QExists c k) (VStorage v) = ABool (v \<noteq> None)"
| "value_answer (QExists c k) _ = ABool False"
| "value_answer (QBalance a) (VBalance x) = AAmount x"
| "value_answer (QBalance a) _ = AAmount amount_zero"
| "value_answer (QNonce a) (VNonce n) = ANonce n"
| "value_answer (QNonce a) _ = ANonce 0"
| "value_answer (QCode a) (VCode c) = ABytes c"
| "value_answer (QCode a) _ = ABytes None"

definition view_answer :: "base_view \<Rightarrow> query \<Rightarrow> state_value option \<Rightarrow> answer" where
  "view_answer base q r = (case r of Some x \<Rightarrow> value_answer q x | None \<Rightarrow> bv_answer base q)"

text \<open>
  A read of the view records what it observed. A read of a clone (\<open>MvStateView::clone\<close>) resolves the
  same way, but records into the clone, which is dropped.
\<close>

definition view_query :: "base_view \<Rightarrow> mv_state \<Rightarrow> mv_view \<Rightarrow> bool \<Rightarrow> query \<Rightarrow> answer \<times> mv_view" where
  "view_query base mv v tracked q =
     (let (r, v') = resolve mv v (query_key q) in (view_answer base q r, if tracked then v' else v))"

definition view_buffer :: "mv_view \<Rightarrow> state_key \<Rightarrow> state_value \<Rightarrow> mv_view" where
  "view_buffer v key x = v\<lparr>vw_writes := fmupd key x (vw_writes v)\<rparr>"

text \<open>A whole program on a view, without interference of other transactions.\<close>

primrec view_run ::
  "base_view \<Rightarrow> mv_state \<Rightarrow> 'r prog \<Rightarrow> mv_view \<Rightarrow> exec_shared \<Rightarrow> 'r \<times> mv_view \<times> exec_shared" where
  "view_run base mv (Ret r) v x = (r, v, x)"
| "view_run base mv (Query t q k) v x =
     (let (a, v') = view_query base mv v t q in view_run base mv (k a) v' x)"
| "view_run base mv (HasCodeHash h k) v x = view_run base mv (k (bv_has_code_hash base h)) v x"
| "view_run base mv (Exec op k) v x = (let (a, x') = exec_shared_step op x in view_run base mv (k a) v x')"
| "view_run base mv (Update key val p) v x = view_run base mv p (view_buffer v key val) x"

subsection \<open>Slots\<close>

text \<open>The entry of one slot of one key.\<close>

definition entry_at :: "mv_state \<Rightarrow> nat \<Rightarrow> state_key \<Rightarrow> entry option" where
  "entry_at mv slot key = Option.bind (fmlookup mv key) (\<lambda>m. fmlookup m slot)"

lemma entry_at_write [simp]:
  "entry_at (mv_write mv key ver v) slot key' =
    (if key' = key \<and> slot = Suc (ver_txn_idx ver)
     then Some \<lparr>en_incarnation = ver_incarnation ver, en_value = v, en_is_estimate = False\<rparr>
     else entry_at mv slot key')"
  by (auto simp: entry_at_def mv_write_def shifted_def Let_def split: option.splits)

lemma entry_at_mark: "slot \<noteq> Suc i \<Longrightarrow> entry_at (mark_estimate mv i key) slot key' = entry_at mv slot key'"
  by (auto simp: entry_at_def mark_estimate_def shifted_def split: option.splits)

lemma entry_at_mark_None [simp]: "entry_at (mark_estimate mv i key) slot key' = None \<longleftrightarrow> entry_at mv slot key' = None"
  by (auto simp: entry_at_def mark_estimate_def shifted_def split: option.splits)

lemma entry_at_remove [simp]:
  "entry_at (remove_write mv i key) slot key' = (if key' = key \<and> slot = Suc i then None else entry_at mv slot key')"
  by (auto simp: entry_at_def remove_write_def shifted_def split: option.splits)

lemma entry_at_empty [simp]: "entry_at fmempty slot key = None"
  by (simp add: entry_at_def)

lemma filter_le_Suc_sorted:
  assumes "sorted xs" "distinct xs"
  shows "filter (\<lambda>s. s \<le> Suc t) xs = filter (\<lambda>s. s \<le> t) xs @ (if Suc t \<in> set xs then [Suc t] else [])"
  using assms
proof (induction xs)
  case (Cons a xs)
  then have a: "\<forall>x \<in> set xs. a < x" by (auto simp: order.strict_iff_order)
  then have "filter (\<lambda>s. s \<le> t) xs = []" "filter (\<lambda>s. s \<le> Suc t) xs = []" if "a = Suc t"
    using that by (auto simp: filter_empty_conv)
  moreover have "filter (\<lambda>s. s \<le> Suc t) xs = []" "filter (\<lambda>s. s \<le> t) xs = []" "Suc t \<notin> set xs" if "a > Suc t"
    using that a by (auto simp: filter_empty_conv)
  ultimately show ?case using Cons a by (cases "a = Suc t"; cases "a > Suc t") auto
qed simp

lemma filter_entries:
  "filter (\<lambda>(s, _). s \<le> hi) (sorted_list_of_fmap m) =
    map (\<lambda>s. (s, the (fmlookup m s))) (filter (\<lambda>s. s \<le> hi) (btree_keys m))"
  by (simp add: sorted_list_of_fmap_def filter_map comp_def)

lemma filter_le_0_sorted:
  "sorted xs \<Longrightarrow> distinct xs \<Longrightarrow> filter (\<lambda>s. s \<le> (0 :: nat)) xs = (if 0 \<in> set xs then [0] else [])"
proof (induction xs)
  case (Cons a xs)
  from Cons.prems have "\<forall>x \<in> set xs. a < x" by (auto simp: order.strict_iff_order)
  then have "filter (\<lambda>s. s \<le> 0) xs = []" by (auto simp: filter_empty_conv)
  then show ?case using \<open>\<forall>x \<in> set xs. a < x\<close> by (cases "a = 0") auto
qed simp

lemma range_next_back_0: "range_next_back m 0 = map_option (Pair 0) (fmlookup m 0)"
proof -
  have "filter (\<lambda>s. s \<le> 0) (btree_keys m) = (if 0 |\<in>| fmdom m then [0] else [])"
    using filter_le_0_sorted [of "btree_keys m"] by simp
  then show ?thesis unfolding range_next_back_def filter_entries
    by (cases "fmlookup m 0") (auto simp: fmlookup_dom_iff fmdom_notI fmdomI)
qed

lemma range_next_back_Suc:
  "range_next_back m (Suc t) = (case fmlookup m (Suc t) of Some e \<Rightarrow> Some (Suc t, e) | None \<Rightarrow> range_next_back m t)"
proof -
  have keys: "filter (\<lambda>s. s \<le> Suc t) (btree_keys m) =
    filter (\<lambda>s. s \<le> t) (btree_keys m) @ (if Suc t |\<in>| fmdom m then [Suc t] else [])"
    using filter_le_Suc_sorted [of "btree_keys m" t] by simp
  show ?thesis
  proof (cases "fmlookup m (Suc t)")
    case None
    then have "Suc t |\<notin>| fmdom m" by (simp add: fmdom_notI)
    then show ?thesis using None keys by (simp add: range_next_back_def filter_entries)
  next
    case (Some e)
    then have "Suc t |\<in>| fmdom m" by (rule fmdomI)
    then show ?thesis using Some keys by (simp add: range_next_back_def filter_entries)
  qed
qed

lemma last_value_range:
  assumes "\<And>s e. fmlookup m s = Some e \<Longrightarrow> s \<le> hi"
  shows "last_value m = map_option (en_value \<circ> snd) (range_next_back m hi)"
proof -
  have "filter (\<lambda>(s, _). s \<le> hi) (sorted_list_of_fmap m) = sorted_list_of_fmap m"
    using assms by (auto intro!: filter_True)
  then show ?thesis by (simp add: last_value_def range_next_back_def Let_def)
qed

subsection \<open>Reads of a settled prefix\<close>

text \<open>
  \<open>W j\<close> are the writes of transaction \<open>j\<close>. When the slots below \<open>i\<close> hold exactly these writes and no
  estimate, a read by transaction \<open>i\<close> finds the latest write before it.
\<close>

primrec latest :: "(nat \<Rightarrow> (state_key, state_value) fmap) \<Rightarrow> nat \<Rightarrow> state_key \<Rightarrow> state_value option" where
  "latest W 0 key = None"
| "latest W (Suc i) key = (case fmlookup (W i) key of Some v \<Rightarrow> Some v | None \<Rightarrow> latest W i key)"

definition slot_holds :: "mv_state \<Rightarrow> nat \<Rightarrow> (state_key \<Rightarrow> state_value option) \<Rightarrow> bool" where
  "slot_holds mv i w \<longleftrightarrow> (\<forall>key. map_option (\<lambda>e. (en_value e, en_is_estimate e)) (entry_at mv (Suc i) key) =
     map_option (\<lambda>v. (v, False)) (w key))"

lemma slot_holdsD:
  assumes "slot_holds mv i w"
  shows "w key = None \<Longrightarrow> entry_at mv (Suc i) key = None"
    "w key = Some v \<Longrightarrow> \<exists>e. entry_at mv (Suc i) key = Some e \<and> en_value e = v \<and> \<not> en_is_estimate e"
  using assms [unfolded slot_holds_def, rule_format, of key] by (auto simp: map_option_eq_Some)

definition prefix_holds :: "mv_state \<Rightarrow> nat \<Rightarrow> (nat \<Rightarrow> (state_key, state_value) fmap) \<Rightarrow> bool" where
  "prefix_holds mv i W \<longleftrightarrow> (\<forall>j < i. slot_holds mv j (fmlookup (W j))) \<and> (\<forall>key. entry_at mv 0 key = None)"

definition settled :: "mv_read_result \<Rightarrow> state_value option \<Rightarrow> bool" where
  "settled r v \<longleftrightarrow> (case v of None \<Rightarrow> r = NotFound | Some x \<Rightarrow> (\<exists>ver. r = Value ver x))"

lemma range_prefix:
  assumes "prefix_holds mv i W"
  shows "case latest W i key of
      None \<Rightarrow> Option.bind (fmlookup mv key) (\<lambda>m. range_next_back m i) = None
    | Some v \<Rightarrow> \<exists>s e. Option.bind (fmlookup mv key) (\<lambda>m. range_next_back m i) = Some (s, e) \<and> en_value e = v \<and> \<not> en_is_estimate e"
  using assms
proof (induction i)
  case 0
  then have "entry_at mv 0 key = None" by (simp add: prefix_holds_def)
  then show ?case by (cases "fmlookup mv key") (auto simp: entry_at_def range_next_back_0)
next
  case (Suc i)
  have IH: "prefix_holds mv i W" and slot: "slot_holds mv i (fmlookup (W i))"
    using Suc.prems by (auto simp: prefix_holds_def)
  show ?case
  proof (cases "fmlookup (W i) key")
    case None
    then have "entry_at mv (Suc i) key = None" using slot_holdsD(1) [OF slot] by blast
    then show ?thesis using Suc.IH [OF IH] None
      by (cases "fmlookup mv key"; cases "latest W i key") (simp_all add: entry_at_def range_next_back_Suc)
  next
    case (Some v)
    then obtain e where "entry_at mv (Suc i) key = Some e" "en_value e = v" "\<not> en_is_estimate e"
      using slot_holdsD(2) [OF slot] by blast
    then show ?thesis using Some
      by (cases "fmlookup mv key") (simp_all add: entry_at_def range_next_back_Suc)
  qed
qed

lemma mv_read_prefix:
  assumes "prefix_holds mv i W"
  shows "settled (mv_read mv key i) (latest W i key)"
  using range_prefix [OF assms, of key]
  by (cases "fmlookup mv key") (auto simp: settled_def mv_read_def split: option.splits)

lemma snapshot_prefix:
  assumes "prefix_holds mv n W" "\<And>s key. n < s \<Longrightarrow> entry_at mv s key = None"
  shows "fmlookup (snapshot_committed_into_btreemap mv) key = latest W n key"
proof (cases "fmlookup mv key")
  case None
  then show ?thesis using range_prefix [OF assms(1), of key]
    by (auto simp: snapshot_committed_into_btreemap_def split: option.splits)
next
  case (Some m)
  have "last_value m = map_option (en_value \<circ> snd) (range_next_back m n)"
    using assms(2) [of _ key] Some by (intro last_value_range) (force simp: entry_at_def not_less [symmetric])
  then show ?thesis using range_prefix [OF assms(1), of key] Some
    by (auto simp: snapshot_committed_into_btreemap_def split: option.splits)
qed

end
