(* ===== verification/Flux.thy ===== *)
theory Flux
  imports Mv_State
begin

section \<open>Parallel block execution\<close>

text \<open>
  \<^verbatim>\<open>lemma-vm/src/parallel/scheduler.rs\<close>, \<^verbatim>\<open>scheduler/state.rs\<close> and \<^verbatim>\<open>scheduler/worker.rs\<close>: the sequential
  scheduler and the parallel one.

  The worker threads of the parallel scheduler run the loop \<open>WorkerCtx::run\<close> concurrently. A phase says
  where in that loop a worker stands; \<open>phase_step\<close> is its next atomic action on the shared state: one
  critical section of the scheduler mutex, or one operation of the multi-version store. A critical
  section that also walks over the store (validation, and the clean-up of an abort) is one action per
  key with the lock held in between, since other workers reach the store without the lock. A worker
  that needs the lock while it is held has no step. \<open>flux_step\<close> lets any worker act next.
\<close>

subsection \<open>Scheduler state\<close>

record txn_state =
  ts_incarnation :: nat
  ts_executed :: bool
  ts_write_keys :: "state_key list"
  ts_reads :: captured_reads
  ts_receipt :: "transaction_receipt option"

definition txn_default :: txn_state where
  "txn_default = \<lparr>ts_incarnation = 0, ts_executed = False, ts_write_keys = [], ts_reads = [], ts_receipt = None\<rparr>"

datatype task = TExecute nat nat | TIdle | TDone

record scheduler_state =
  num_txns :: nat
  next_to_execute :: nat
  commit_idx :: nat
  commit_in_flight :: bool
  sc_txns :: "txn_state list"

definition sched_new :: "nat \<Rightarrow> scheduler_state" where
  "sched_new n = \<lparr>num_txns = n, next_to_execute = 0, commit_idx = 0, commit_in_flight = False, sc_txns = replicate n txn_default\<rparr>"

definition sched_is_done :: "scheduler_state \<Rightarrow> bool" where
  "sched_is_done sc \<longleftrightarrow> commit_idx sc \<ge> num_txns sc"

definition claim_commit :: "scheduler_state \<Rightarrow> nat option \<times> scheduler_state" where
  "claim_commit sc =
     (if sched_is_done sc \<or> commit_in_flight sc then (None, sc)
      else if \<not> ts_executed (sc_txns sc ! commit_idx sc) then (None, sc)
      else (Some (commit_idx sc), sc\<lparr>commit_in_flight := True\<rparr>))"

definition next_task :: "scheduler_state \<Rightarrow> task \<times> scheduler_state" where
  "next_task sc =
     (if sched_is_done sc then (TDone, sc)
      else if next_to_execute sc < num_txns sc then
        let i = next_to_execute sc in
        (TExecute i (ts_incarnation (sc_txns sc ! i)), sc\<lparr>next_to_execute := i + 1\<rparr>)
      else (TIdle, sc))"

definition record_execution ::
  "scheduler_state \<Rightarrow> nat \<Rightarrow> state_key list \<Rightarrow> captured_reads \<Rightarrow> transaction_receipt \<Rightarrow> scheduler_state" where
  "record_execution sc i keys reads receipt = sc\<lparr>sc_txns := (sc_txns sc)[i := (sc_txns sc ! i)
     \<lparr>ts_executed := True, ts_write_keys := keys, ts_reads := reads, ts_receipt := Some receipt\<rparr>]\<rparr>"

definition sched_commit :: "scheduler_state \<Rightarrow> scheduler_state" where
  "sched_commit sc = sc\<lparr>commit_idx := commit_idx sc + 1, commit_in_flight := False\<rparr>"

definition sched_abort :: "scheduler_state \<Rightarrow> nat \<Rightarrow> state_key list \<times> scheduler_state" where
  "sched_abort sc i =
     (let st = sc_txns sc ! i in
      (ts_write_keys st, sc\<lparr>sc_txns := (sc_txns sc)[i := st
        \<lparr>ts_incarnation := ts_incarnation st + 1, ts_executed := False, ts_write_keys := []\<rparr>]\<rparr>))"

subsection \<open>Blocks\<close>

text \<open>
  A block: the executor with its block context (a program per transaction), the committed state and
  the transactions.
\<close>

record flux_env =
  fe_exec :: "transaction \<Rightarrow> transaction_receipt prog"
  fe_base :: base_view
  fe_txs :: "transaction list"

definition tx_prog :: "flux_env \<Rightarrow> nat \<Rightarrow> transaction_receipt prog" where
  "tx_prog env i = fe_exec env (fe_txs env ! i)"

record block_output =
  bo_receipts :: "transaction_receipt list"
  bo_writes :: "(state_key, state_value) fmap"

subsection \<open>Sequential execution\<close>

definition publish :: "nat \<Rightarrow> nat \<Rightarrow> (state_key \<times> state_value) list \<Rightarrow> mv_state \<Rightarrow> mv_state" where
  "publish i inc ws mv = foldl (\<lambda>mv (key, v). mv_write mv key \<lparr>ver_txn_idx = i, ver_incarnation = inc\<rparr> v) mv ws"

definition run_incarnation ::
  "flux_env \<Rightarrow> mv_state \<Rightarrow> exec_shared \<Rightarrow> nat \<Rightarrow> nat \<Rightarrow>
    (state_key list \<times> captured_reads \<times> transaction_receipt) \<times> mv_state \<times> exec_shared" where
  "run_incarnation env mv x0 i inc =
     (let (receipt, v, x1) = view_run (fe_base env) mv (tx_prog env i) (view_new i) x0 in
      ((btree_keys (vw_writes v), vw_captured v, receipt), publish i inc (sorted_list_of_fmap (vw_writes v)) mv, x1))"

fun sequential_loop ::
  "flux_env \<Rightarrow> nat list \<Rightarrow> mv_state \<Rightarrow> exec_shared \<Rightarrow> transaction_receipt list \<times> mv_state \<times> exec_shared" where
  "sequential_loop env [] mv x0 = ([], mv, x0)"
| "sequential_loop env (i # is) mv x0 =
     (let ((_, _, receipt), mv', x1) = run_incarnation env mv x0 i 0;
          (receipts, mv'', x2) = sequential_loop env is mv' x1 in
      (receipt # receipts, mv'', x2))"

definition execute_block_sequential :: "flux_env \<Rightarrow> exec_shared \<Rightarrow> block_output" where
  "execute_block_sequential env x0 =
     (let (receipts, mv, _) = sequential_loop env [0..<length (fe_txs env)] fmempty x0 in
      \<lparr>bo_receipts = receipts, bo_writes = snapshot_committed_into_btreemap mv\<rparr>)"

subsection \<open>Workers\<close>

text \<open>
  The flag of \<open>Executing\<close> and \<open>Publishing\<close> tells a re-execution on the commit path from a speculative
  execution. The phases from \<open>Validating\<close> on that carry a list hold the scheduler lock.
\<close>

datatype phase =
    Polling
  | Executing nat nat "transaction_receipt prog" mv_view bool
  | Publishing nat nat "(state_key \<times> state_value) list" "state_key list" captured_reads transaction_receipt bool
  | Claiming
  | Claimed nat
  | Validating nat captured_reads
  | Aborting nat
  | Marking nat "state_key list" "state_key list"
  | Removing nat "state_key list"
  | Committing nat
  | Finished

record shared =
  sh_mv :: mv_state
  sh_sched :: scheduler_state
  sh_locked :: bool
  sh_exec :: exec_shared

definition start_execute :: "flux_env \<Rightarrow> nat \<Rightarrow> nat \<Rightarrow> bool \<Rightarrow> phase" where
  "start_execute env i inc final = Executing i inc (tx_prog env i) (view_new i) final"

text \<open>One call of the executor on the view (\<open>run_incarnation\<close>), or the end of the execution.\<close>

fun exec_step :: "flux_env \<Rightarrow> nat \<Rightarrow> nat \<Rightarrow> transaction_receipt prog \<Rightarrow> mv_view \<Rightarrow> bool \<Rightarrow> shared \<Rightarrow> phase \<times> shared" where
  "exec_step env i inc (Ret r) v final sh =
     (Publishing i inc (sorted_list_of_fmap (vw_writes v)) (btree_keys (vw_writes v)) (vw_captured v) r final, sh)"
| "exec_step env i inc (Query t q k) v final sh =
     (let (a, v') = view_query (fe_base env) (sh_mv sh) v t q in (Executing i inc (k a) v' final, sh))"
| "exec_step env i inc (HasCodeHash h k) v final sh =
     (Executing i inc (k (bv_has_code_hash (fe_base env) h)) v final, sh)"
| "exec_step env i inc (Exec op k) v final sh =
     (let (a, x) = exec_shared_step op (sh_exec sh) in (Executing i inc (k a) v final, sh\<lparr>sh_exec := x\<rparr>))"
| "exec_step env i inc (Update key x p) v final sh = (Executing i inc p (view_buffer v key x) final, sh)"

text \<open>Critical sections of the scheduler mutex.\<close>

definition when_free :: "shared \<Rightarrow> phase \<times> shared \<Rightarrow> (phase \<times> shared) option" where
  "when_free sh r = (if sh_locked sh then None else Some r)"

definition poll :: "flux_env \<Rightarrow> shared \<Rightarrow> phase \<times> shared" where
  "poll env sh =
     (case next_task (sh_sched sh) of
       (TExecute i inc, sc) \<Rightarrow> (start_execute env i inc False, sh\<lparr>sh_sched := sc\<rparr>)
     | (TIdle, sc) \<Rightarrow> (Claiming, sh\<lparr>sh_sched := sc\<rparr>)
     | (TDone, sc) \<Rightarrow> (Finished, sh\<lparr>sh_sched := sc\<rparr>))"

definition try_claim :: "shared \<Rightarrow> phase \<times> shared" where
  "try_claim sh =
     (case claim_commit (sh_sched sh) of
       (None, sc) \<Rightarrow> (Polling, sh\<lparr>sh_sched := sc\<rparr>)
     | (Some i, sc) \<Rightarrow> (Claimed i, sh\<lparr>sh_sched := sc\<rparr>))"

definition begin_abort :: "nat \<Rightarrow> shared \<Rightarrow> phase \<times> shared" where
  "begin_abort i sh =
     (let (keys, sc) = sched_abort (sh_sched sh) i in (Marking i keys keys, sh\<lparr>sh_sched := sc, sh_locked := True\<rparr>))"

fun phase_step :: "flux_env \<Rightarrow> phase \<Rightarrow> shared \<Rightarrow> (phase \<times> shared) option" where
  "phase_step env Polling sh = when_free sh (poll env sh)"
| "phase_step env (Executing i inc p v final) sh = Some (exec_step env i inc p v final sh)"
| "phase_step env (Publishing i inc ((key, x) # rest) keys reads r final) sh =
     Some (Publishing i inc rest keys reads r final,
       sh\<lparr>sh_mv := mv_write (sh_mv sh) key \<lparr>ver_txn_idx = i, ver_incarnation = inc\<rparr> x\<rparr>)"
| "phase_step env (Publishing i inc [] keys reads r final) sh =
     when_free sh (if final then Committing i else Polling,
       sh\<lparr>sh_sched := record_execution (sh_sched sh) i keys reads r\<rparr>)"
| "phase_step env Claiming sh = when_free sh (try_claim sh)"
| "phase_step env (Claimed i) sh =
     when_free sh (Validating i (ts_reads (sc_txns (sh_sched sh) ! i)), sh\<lparr>sh_locked := True\<rparr>)"
| "phase_step env (Validating i (r # rs)) sh =
     Some (if read_still_matches (sh_mv sh) i r then (Validating i rs, sh) else (Aborting i, sh\<lparr>sh_locked := False\<rparr>))"
| "phase_step env (Validating i []) sh = Some (Committing i, sh\<lparr>sh_locked := False\<rparr>)"
| "phase_step env (Aborting i) sh = when_free sh (begin_abort i sh)"
| "phase_step env (Marking i (key # keys) old) sh =
     Some (Marking i keys old, sh\<lparr>sh_mv := mark_estimate (sh_mv sh) i key\<rparr>)"
| "phase_step env (Marking i [] old) sh = Some (Removing i old, sh)"
| "phase_step env (Removing i (key # keys)) sh =
     Some (Removing i keys, sh\<lparr>sh_mv := remove_write (sh_mv sh) i key\<rparr>)"
| "phase_step env (Removing i []) sh =
     Some (start_execute env i (ts_incarnation (sc_txns (sh_sched sh) ! i)) True, sh\<lparr>sh_locked := False\<rparr>)"
| "phase_step env (Committing i) sh = when_free sh (Polling, sh\<lparr>sh_sched := sched_commit (sh_sched sh)\<rparr>)"
| "phase_step env Finished sh = None"

record flux =
  fx_shared :: shared
  fx_workers :: "phase list"

definition flux_init :: "flux_env \<Rightarrow> nat \<Rightarrow> exec_shared \<Rightarrow> flux" where
  "flux_init env num_workers x0 =
     \<lparr>fx_shared = \<lparr>sh_mv = fmempty, sh_sched = sched_new (length (fe_txs env)), sh_locked = False, sh_exec = x0\<rparr>,
      fx_workers = replicate num_workers Polling\<rparr>"

definition worker_step :: "flux_env \<Rightarrow> nat \<Rightarrow> flux \<Rightarrow> flux option" where
  "worker_step env w s =
     map_option (\<lambda>(ph, sh). \<lparr>fx_shared = sh, fx_workers = (fx_workers s)[w := ph]\<rparr>)
       (phase_step env (fx_workers s ! w) (fx_shared s))"

inductive flux_step :: "flux_env \<Rightarrow> flux \<Rightarrow> flux \<Rightarrow> bool" for env where
  "w < length (fx_workers s) \<Longrightarrow> worker_step env w s = Some t \<Longrightarrow> flux_step env s t"

definition all_finished :: "flux \<Rightarrow> bool" where
  "all_finished s \<longleftrightarrow> list_all (\<lambda>ph. ph = Finished) (fx_workers s)"

subsection \<open>Parallel execution\<close>

definition receipt_failed :: "transaction \<Rightarrow> transaction_receipt" where
  "receipt_failed tx = \<lparr>rc_tx_hash = tx_hash tx, rc_success = False, rc_gas_used = 0, rc_logs = []\<rparr>"

definition collect_receipts :: "scheduler_state \<Rightarrow> transaction list \<Rightarrow> transaction_receipt list" where
  "collect_receipts sc txs = map (\<lambda>i. case ts_receipt (sc_txns sc ! i) of
     Some r \<Rightarrow> r | None \<Rightarrow> receipt_failed (txs ! i)) [0..<length txs]"

definition flux_output :: "flux_env \<Rightarrow> flux \<Rightarrow> block_output" where
  "flux_output env s = \<lparr>bo_receipts = collect_receipts (sh_sched (fx_shared s)) (fe_txs env),
     bo_writes = snapshot_committed_into_btreemap (sh_mv (fx_shared s))\<rparr>"

text \<open>
  What \<open>ParallelScheduler::execute_block\<close> may return: small blocks and a single worker run sequentially,
  as does a block whose thread pool cannot be built.
\<close>

inductive execute_block_parallel :: "flux_env \<Rightarrow> nat \<Rightarrow> exec_shared \<Rightarrow> block_output \<Rightarrow> bool" for env num_workers x0 where
  sequential: "execute_block_parallel env num_workers x0 (execute_block_sequential env x0)"
| parallel: "1 < length (fe_txs env) \<Longrightarrow> 1 < num_workers \<Longrightarrow>
    (flux_step env)\<^sup>*\<^sup>* (flux_init env num_workers x0) s \<Longrightarrow> all_finished s \<Longrightarrow>
    execute_block_parallel env num_workers x0 (flux_output env s)"

end
