(* ===== verification/Flux_Serial.thy ===== *)
theory Flux_Serial
  imports Flux
begin

section \<open>Parallel execution equals sequential execution\<close>

text \<open>
  The serialization guarantee of \<^verbatim>\<open>lemma-vm/src/parallel\<close>. \<open>committed env i\<close> is the state after the first \<open>i\<close>
  transactions, given by running the programs one after the other on plain maps; it is the
  specification both schedulers meet. \<open>replays\<close> relates a program, the reads an execution captured and
  the writes it buffered; captured reads that agree with \<open>committed env i\<close> make the execution the serial
  one. \<open>flux_inv\<close> carries this through every interleaving of the workers.

  The guarantee is for programs that read the state through the view they were given (\<open>tracked\<close>).
\<close>

subsection \<open>Serial specification\<close>

primrec pure_run ::
  "base_view \<Rightarrow> (state_key \<Rightarrow> state_value option) \<Rightarrow> 'r prog \<Rightarrow> (state_key, state_value) fmap \<Rightarrow>
    'r \<times> (state_key, state_value) fmap" where
  "pure_run base L (Ret r) w = (r, w)"
| "pure_run base L (Query t q k) w =
     pure_run base L (k (view_answer base q (case fmlookup w (query_key q) of Some x \<Rightarrow> Some x | None \<Rightarrow> L (query_key q)))) w"
| "pure_run base L (HasCodeHash h k) w = pure_run base L (k (bv_has_code_hash base h)) w"
| "pure_run base L (Exec op k) w = pure_run base L (k EUnit) w"
| "pure_run base L (Update key x p) w = pure_run base L p (fmupd key x w)"

primrec committed :: "flux_env \<Rightarrow> nat \<Rightarrow> state_key \<Rightarrow> state_value option" where
  "committed env 0 = (\<lambda>_. None)"
| "committed env (Suc i) = (\<lambda>key.
     case fmlookup (snd (pure_run (fe_base env) (committed env i) (tx_prog env i) fmempty)) key of
       Some v \<Rightarrow> Some v | None \<Rightarrow> committed env i key)"

definition serial :: "flux_env \<Rightarrow> nat \<Rightarrow> transaction_receipt \<times> (state_key, state_value) fmap" where
  "serial env i = pure_run (fe_base env) (committed env i) (tx_prog env i) fmempty"

abbreviation serial_writes :: "flux_env \<Rightarrow> nat \<Rightarrow> (state_key, state_value) fmap" where
  "serial_writes env i \<equiv> snd (serial env i)"

lemma latest_serial: "latest (serial_writes env) i = committed env i"
  by (induction i) (auto simp: serial_def fun_eq_iff split: option.splits)

text \<open>Programs that read state only through their own view, and share nothing else.\<close>

primrec tracked :: "'r prog \<Rightarrow> bool" where
  "tracked (Ret r) \<longleftrightarrow> True"
| "tracked (Query t q k) \<longleftrightarrow> t \<and> (\<forall>a. tracked (k a))"
| "tracked (HasCodeHash h k) \<longleftrightarrow> (\<forall>b. tracked (k b))"
| "tracked (Exec op k) \<longleftrightarrow> False"
| "tracked (Update key x p) \<longleftrightarrow> tracked p"

subsection \<open>Captured reads determine an execution\<close>

inductive replays ::
  "base_view \<Rightarrow> 'r prog \<Rightarrow> captured_reads \<Rightarrow> (state_key, state_value) fmap \<Rightarrow> 'r prog \<Rightarrow> bool" for base p0 where
  start: "replays base p0 [] fmempty p0"
| own: "replays base p0 cap w (Query True q k) \<Longrightarrow> fmlookup w (query_key q) = Some x \<Longrightarrow>
    replays base p0 cap w (k (value_answer q x))"
| versioned: "replays base p0 cap w (Query True q k) \<Longrightarrow> fmlookup w (query_key q) = None \<Longrightarrow>
    replays base p0 (cap @ [(query_key q, Versioned ver x)]) w (k (value_answer q x))"
| fallthrough: "replays base p0 cap w (Query True q k) \<Longrightarrow> fmlookup w (query_key q) = None \<Longrightarrow>
    replays base p0 (cap @ [(query_key q, BaseFallthrough)]) w (k (bv_answer base q))"
| code_hash: "replays base p0 cap w (HasCodeHash h k) \<Longrightarrow> replays base p0 cap w (k (bv_has_code_hash base h))"
| upd: "replays base p0 cap w (Update key x p) \<Longrightarrow> replays base p0 cap (fmupd key x w) p"

fun observed_in :: "(state_key \<Rightarrow> state_value option) \<Rightarrow> state_key \<times> observed_read \<Rightarrow> bool" where
  "observed_in L (key, Versioned ver x) \<longleftrightarrow> L key = Some x"
| "observed_in L (key, BaseFallthrough) \<longleftrightarrow> L key = None"

abbreviation agrees :: "(state_key \<Rightarrow> state_value option) \<Rightarrow> captured_reads \<Rightarrow> bool" where
  "agrees L \<equiv> list_all (observed_in L)"

lemma replays_pure:
  assumes "replays base p0 cap w p" "agrees L cap"
  shows "pure_run base L p0 fmempty = pure_run base L p w"
  using assms by (induction rule: replays.induct) (auto simp: view_answer_def)

lemma replays_tracked: "replays base p0 cap w p \<Longrightarrow> tracked p0 \<Longrightarrow> tracked p"
  by (induction rule: replays.induct) auto

text \<open>One action of the executor, seen by the captured reads.\<close>

lemma replays_query:
  assumes "replays base p0 (vw_captured v) (vw_writes v) (Query True q k)" "view_query base mv v True q = (a, v')"
  shows "replays base p0 (vw_captured v') (vw_writes v') (k a) \<and> vw_txn_idx v' = vw_txn_idx v"
  using assms
  by (auto simp: view_query_def resolve_def view_answer_def view_record_def note_blocking_def
      split: option.splits mv_read_result.splits intro: replays.intros)

lemma query_agrees:
  assumes "agrees L (vw_captured v)" "view_query base mv v True q = (a, v')"
    "\<And>key. settled (mv_read mv key (vw_txn_idx v)) (L key)"
  shows "agrees L (vw_captured v')"
  using assms(1,2) assms(3) [of "query_key q"]
  by (auto simp: view_query_def resolve_def view_record_def note_blocking_def settled_def
      split: option.splits mv_read_result.splits)

lemma settled_matches:
  assumes "settled r (L key)" "read_matches r obs"
  shows "observed_in L (key, obs)"
  using assms by (cases r; cases obs) (auto simp: settled_def split: option.splits)

subsection \<open>The sequential scheduler meets the specification\<close>

lemma view_run_replays:
  assumes "replays base p0 (vw_captured v) (vw_writes v) p" "tracked p" "view_run base mv p v warm = (r, v', warm')"
    "agrees L (vw_captured v)" "\<And>key. settled (mv_read mv key (vw_txn_idx v)) (L key)"
  shows "replays base p0 (vw_captured v') (vw_writes v') (Ret r) \<and> agrees L (vw_captured v') \<and> warm' = warm"
  using assms
proof (induction p arbitrary: v rule: prog.induct)
  case (Query t q k)
  then have t: "t" by simp
  obtain a v1 where q: "view_query base mv v True q = (a, v1)" by fastforce
  have run: "view_run base mv (k a) v1 warm = (r, v', warm')" using Query.prems(3) q t by simp
  have v1: "replays base p0 (vw_captured v1) (vw_writes v1) (k a)" "vw_txn_idx v1 = vw_txn_idx v"
    using replays_query [OF _ q] Query.prems(1) t by auto
  have "agrees L (vw_captured v1)" using query_agrees [OF Query.prems(4) q Query.prems(5)] .
  moreover have "tracked (k a)" using Query.prems(2) by simp
  ultimately show ?case using Query.IH [OF _ v1(1) _ run] Query.prems(5) v1(2) by simp
next
  case (Update key x p)
  have "replays base p0 (vw_captured v) (fmupd key x (vw_writes v)) p" using replays.upd [OF Update.prems(1)] .
  then show ?case using Update.IH [of "view_buffer v key x"] Update.prems(2-5) by (simp add: view_buffer_def)
qed (auto dest: replays.code_hash)

lemma map_of_sorted_list_of_fmap [simp]: "map_of (sorted_list_of_fmap m) = fmlookup m"
proof (rule ext)
  fix k
  have "distinct (map fst (sorted_list_of_fmap m))" by simp
  then show "map_of (sorted_list_of_fmap m) k = fmlookup m k"
    by (cases "fmlookup m k") (auto simp: map_of_eq_None_iff fmdom_notI)
qed

lemma publish_entry:
  assumes "distinct (map fst ws)"
  shows "entry_at (publish i inc ws mv) slot key = (if slot = Suc i then
      (case map_of ws key of Some x \<Rightarrow> Some \<lparr>en_incarnation = inc, en_value = x, en_is_estimate = False\<rparr>
       | None \<Rightarrow> entry_at mv slot key) else entry_at mv slot key)"
  using assms
proof (induction ws arbitrary: mv)
  case (Cons kv ws)
  obtain k x where kv: "kv = (k, x)" by (cases kv)
  have "publish i inc (kv # ws) mv = publish i inc ws (mv_write mv k \<lparr>ver_txn_idx = i, ver_incarnation = inc\<rparr> x)"
    by (simp add: publish_def kv)
  moreover have "map_of ws k = None" using Cons.prems by (simp add: kv map_of_eq_None_iff)
  ultimately show ?case using Cons by (auto simp: kv split: option.splits)
qed (simp add: publish_def)

lemma prefix_settled: "prefix_holds mv i (serial_writes env) \<Longrightarrow> settled (mv_read mv key i) (committed env i key)"
  using mv_read_prefix [of mv i "serial_writes env" key] by (simp add: latest_serial)

lemma run_incarnation_serial:
  assumes "prefix_holds mv i (serial_writes env)" "\<And>key. entry_at mv (Suc i) key = None" "tracked (tx_prog env i)"
    and run: "run_incarnation env mv warm i inc = ((keys, reads, receipt), mv', warm')"
  shows "receipt = fst (serial env i)" "prefix_holds mv' (Suc i) (serial_writes env)"
    "\<And>slot key. slot \<noteq> Suc i \<Longrightarrow> entry_at mv' slot key = entry_at mv slot key"
proof -
  obtain v where v: "view_run (fe_base env) mv (tx_prog env i) (view_new i) warm = (receipt, v, warm')"
    "mv' = publish i inc (sorted_list_of_fmap (vw_writes v)) mv"
    using run by (auto simp: run_incarnation_def split: prod.splits)
  have "replays (fe_base env) (tx_prog env i) (vw_captured v) (vw_writes v) (Ret receipt) \<and>
      agrees (committed env i) (vw_captured v)"
    using view_run_replays [OF _ assms(3) v(1), of "tx_prog env i" "committed env i"] prefix_settled [OF assms(1)]
    by (simp add: view_new_def replays.start)
  then have "pure_run (fe_base env) (committed env i) (tx_prog env i) fmempty = (receipt, vw_writes v)"
    using replays_pure by fastforce
  then have serial: "serial env i = (receipt, vw_writes v)" by (simp add: serial_def)
  have entries: "entry_at mv' slot key = (if slot = Suc i
      then map_option (\<lambda>x. \<lparr>en_incarnation = inc, en_value = x, en_is_estimate = False\<rparr>) (fmlookup (vw_writes v) key)
      else entry_at mv slot key)" for slot key
    using assms(2) by (simp add: v(2) publish_entry split: option.split)
  show "receipt = fst (serial env i)" by (simp add: serial)
  show "prefix_holds mv' (Suc i) (serial_writes env)"
    using assms(1) serial by (auto simp: prefix_holds_def slot_holds_def entries less_Suc_eq option.map_comp comp_def)
  show "slot \<noteq> Suc i \<Longrightarrow> entry_at mv' slot key = entry_at mv slot key" for slot key by (simp add: entries)
qed

lemma sequential_loop_serial:
  assumes "prefix_holds mv i (serial_writes env)" "\<And>slot key. i < slot \<Longrightarrow> entry_at mv slot key = None"
    "\<And>j. j < i + n \<Longrightarrow> tracked (tx_prog env j)" "sequential_loop env [i..<i + n] mv warm = (receipts, mv', warm')"
  shows "receipts = map (fst \<circ> serial env) [i..<i + n] \<and> prefix_holds mv' (i + n) (serial_writes env) \<and>
    (\<forall>slot key. i + n < slot \<longrightarrow> entry_at mv' slot key = None)"
  using assms
proof (induction n arbitrary: i mv warm receipts mv' warm')
  case (Suc n)
  obtain keys reads r mv1 warm1 where run: "run_incarnation env mv warm i 0 = ((keys, reads, r), mv1, warm1)"
    by (metis prod_cases3 surj_pair)
  obtain rs mv2 warm2 where rest: "sequential_loop env [Suc i..<Suc i + n] mv1 warm1 = (rs, mv2, warm2)"
    by (metis prod_cases3)
  have L: "[i..<i + Suc n] = i # [Suc i..<Suc i + n]" by (simp add: upt_conv_Cons del: upt_Suc)
  have out: "receipts = r # rs" "mv' = mv2" "warm' = warm2"
    using Suc.prems(4) run rest unfolding L by (simp_all del: upt_Suc)
  note step = run_incarnation_serial [OF Suc.prems(1) _ _ run]
  have "receipts = map (fst \<circ> serial env) (i # [Suc i..<Suc i + n]) \<and> prefix_holds mv2 (Suc i + n) (serial_writes env) \<and>
    (\<forall>slot key. Suc i + n < slot \<longrightarrow> entry_at mv2 slot key = None)"
    using Suc.IH [OF _ _ _ rest] step Suc.prems(2,3) out by (simp del: upt_Suc)
  then show ?case unfolding L by (simp add: out del: upt_Suc)
qed simp

lemma output_serial:
  assumes "prefix_holds mv n (serial_writes env)" "\<And>slot key. n < slot \<Longrightarrow> entry_at mv slot key = None"
  shows "fmlookup (snapshot_committed_into_btreemap mv) = committed env n"
  using snapshot_prefix [OF assms] by (simp add: latest_serial fun_eq_iff)

end
