(* ===== verification/Flux_Inv.thy ===== *)
theory Flux_Inv
  imports Flux_Serial
begin

section \<open>The invariant of parallel execution\<close>

text \<open>
  \<open>flux_inv\<close> relates every interleaving of the workers to the serial execution: committed transactions
  hold their serial writes and receipts, and what a worker is doing agrees with what it has read. It
  holds initially and is kept by every step, so a finished block has the serial output.
\<close>

subsection \<open>Shared state\<close>

definition slot_empty :: "mv_state \<Rightarrow> nat \<Rightarrow> bool" where
  "slot_empty mv i \<longleftrightarrow> (\<forall>key. entry_at mv (Suc i) key = None)"

text \<open>The recorded execution of a transaction, and what its slot of the store holds.\<close>

definition recorded :: "flux_env \<Rightarrow> mv_state \<Rightarrow> nat \<Rightarrow> txn_state \<Rightarrow> bool" where
  "recorded env mv j t \<longleftrightarrow> (\<exists>w r. replays (fe_base env) (tx_prog env j) (ts_reads t) w (Ret r) \<and> ts_receipt t = Some r \<and>
     set (ts_write_keys t) = fset (fmdom w) \<and> slot_holds mv j (fmlookup w))"

definition txn_inv :: "flux_env \<Rightarrow> shared \<Rightarrow> nat \<Rightarrow> bool" where
  "txn_inv env sh j \<longleftrightarrow> (let sc = sh_sched sh; t = sc_txns sc ! j in
     (j < commit_idx sc \<longrightarrow> slot_holds (sh_mv sh) j (fmlookup (serial_writes env j)) \<and> ts_receipt t = Some (fst (serial env j))) \<and>
     (ts_executed t \<longrightarrow> recorded env (sh_mv sh) j t) \<and>
     (next_to_execute sc \<le> j \<longrightarrow> \<not> ts_executed t \<and> slot_empty (sh_mv sh) j))"

definition shared_inv :: "flux_env \<Rightarrow> shared \<Rightarrow> bool" where
  "shared_inv env sh \<longleftrightarrow> (let sc = sh_sched sh; n = length (fe_txs env) in
     num_txns sc = n \<and> length (sc_txns sc) = n \<and> commit_idx sc \<le> next_to_execute sc \<and> next_to_execute sc \<le> n \<and>
     (\<forall>key. entry_at (sh_mv sh) 0 key = None) \<and> (\<forall>slot key. n < slot \<longrightarrow> entry_at (sh_mv sh) slot key = None) \<and>
     (\<forall>j < n. txn_inv env sh j))"

lemma shared_prefix: "shared_inv env sh \<Longrightarrow> prefix_holds (sh_mv sh) (commit_idx (sh_sched sh)) (serial_writes env)"
  by (simp add: shared_inv_def prefix_holds_def txn_inv_def Let_def)

lemma slot_holds_cong:
  "(\<And>key. entry_at mv' (Suc j) key = entry_at mv (Suc j) key) \<Longrightarrow> slot_holds mv' j = slot_holds mv j"
  "(\<And>key. entry_at mv' (Suc j) key = entry_at mv (Suc j) key) \<Longrightarrow> slot_empty mv' j = slot_empty mv j"
  by (simp_all add: slot_holds_def [abs_def] slot_empty_def)

subsection \<open>Workers\<close>

fun works_on :: "phase \<Rightarrow> nat option" where
  "works_on (Executing i _ _ _ _) = Some i"
| "works_on (Publishing i _ _ _ _ _ _) = Some i"
| "works_on (Claimed i) = Some i"
| "works_on (Validating i _) = Some i"
| "works_on (Aborting i) = Some i"
| "works_on (Marking i _ _) = Some i"
| "works_on (Removing i _) = Some i"
| "works_on (Committing i) = Some i"
| "works_on _ = None"

fun commit_phase :: "phase \<Rightarrow> bool" where
  "commit_phase (Executing _ _ _ _ final) = final"
| "commit_phase (Publishing _ _ _ _ _ _ final) = final"
| "commit_phase Polling = False"
| "commit_phase Claiming = False"
| "commit_phase Finished = False"
| "commit_phase _ = True"

text \<open>An execution under way: the writes it has published are in the slot, and a final one agrees with the prefix.\<close>

definition running :: "flux_env \<Rightarrow> shared \<Rightarrow> nat \<Rightarrow> captured_reads \<Rightarrow> (state_key, state_value) fmap \<Rightarrow>
    transaction_receipt prog \<Rightarrow> bool \<Rightarrow> bool" where
  "running env sh i cap w p final \<longleftrightarrow> (let sc = sh_sched sh in
     \<not> ts_executed (sc_txns sc ! i) \<and> commit_idx sc \<le> i \<and> i < next_to_execute sc \<and>
     replays (fe_base env) (tx_prog env i) cap w p \<and>
     (final \<longrightarrow> i = commit_idx sc \<and> agrees (committed env i) cap))"

definition at_commit :: "shared \<Rightarrow> nat \<Rightarrow> bool \<Rightarrow> bool" where
  "at_commit sh i executed \<longleftrightarrow> (let sc = sh_sched sh in
     i = commit_idx sc \<and> i < next_to_execute sc \<and> ts_executed (sc_txns sc ! i) = executed)"

fun phase_inv :: "flux_env \<Rightarrow> shared \<Rightarrow> phase \<Rightarrow> bool" where
  "phase_inv env sh (Executing i inc p v final) \<longleftrightarrow>
     vw_txn_idx v = i \<and> slot_empty (sh_mv sh) i \<and> running env sh i (vw_captured v) (vw_writes v) p final"
| "phase_inv env sh (Publishing i inc rest keys cap r final) \<longleftrightarrow>
     (\<exists>w pub. sorted_list_of_fmap w = pub @ rest \<and> keys = btree_keys w \<and> slot_holds (sh_mv sh) i (map_of pub) \<and>
       running env sh i cap w (Ret r) final)"
| "phase_inv env sh (Claimed i) \<longleftrightarrow> at_commit sh i True"
| "phase_inv env sh (Validating i rs) \<longleftrightarrow>
     at_commit sh i True \<and> (\<exists>ok. ts_reads (sc_txns (sh_sched sh) ! i) = ok @ rs \<and> agrees (committed env i) ok)"
| "phase_inv env sh (Aborting i) \<longleftrightarrow> at_commit sh i True"
| "phase_inv env sh (Marking i keys old) \<longleftrightarrow>
     at_commit sh i False \<and> (\<forall>key. key \<notin> set old \<longrightarrow> entry_at (sh_mv sh) (Suc i) key = None)"
| "phase_inv env sh (Removing i keys) \<longleftrightarrow>
     at_commit sh i False \<and> (\<forall>key. key \<notin> set keys \<longrightarrow> entry_at (sh_mv sh) (Suc i) key = None)"
| "phase_inv env sh (Committing i) \<longleftrightarrow>
     at_commit sh i True \<and> agrees (committed env i) (ts_reads (sc_txns (sh_sched sh) ! i))"
| "phase_inv env sh Finished \<longleftrightarrow> length (fe_txs env) \<le> commit_idx (sh_sched sh)"
| "phase_inv env sh _ \<longleftrightarrow> True"

definition workers_inv :: "flux_env \<Rightarrow> shared \<Rightarrow> phase list \<Rightarrow> bool" where
  "workers_inv env sh phs \<longleftrightarrow>
     (\<forall>w < length phs. phase_inv env sh (phs ! w) \<and> (commit_phase (phs ! w) \<longrightarrow> commit_in_flight (sh_sched sh))) \<and>
     (\<forall>w < length phs. \<forall>w' < length phs. w \<noteq> w' \<longrightarrow> works_on (phs ! w) \<noteq> None \<longrightarrow> works_on (phs ! w) \<noteq> works_on (phs ! w'))"

definition flux_inv :: "flux_env \<Rightarrow> flux \<Rightarrow> bool" where
  "flux_inv env s \<longleftrightarrow> shared_inv env (fx_shared s) \<and> workers_inv env (fx_shared s) (fx_workers s) \<and> fx_workers s \<noteq> []"

definition tracked_block :: "flux_env \<Rightarrow> bool" where
  "tracked_block env \<longleftrightarrow> (\<forall>tx \<in> set (fe_txs env). tracked (fe_exec env tx))"

lemma tracked_tx_prog: "tracked_block env \<Longrightarrow> j < length (fe_txs env) \<Longrightarrow> tracked (tx_prog env j)"
  by (simp add: tracked_block_def tx_prog_def)

subsection \<open>Work on one transaction leaves the others alone\<close>

definition frame :: "nat \<Rightarrow> shared \<Rightarrow> shared \<Rightarrow> bool" where
  "frame j sh sh' \<longleftrightarrow> (let sc = sh_sched sh; sc' = sh_sched sh' in
     num_txns sc' = num_txns sc \<and> next_to_execute sc' = next_to_execute sc \<and> commit_idx sc' = commit_idx sc \<and>
     commit_in_flight sc' = commit_in_flight sc \<and> length (sc_txns sc') = length (sc_txns sc) \<and>
     (\<forall>i. i \<noteq> j \<longrightarrow> sc_txns sc' ! i = sc_txns sc ! i) \<and>
     (\<forall>slot key. slot \<noteq> Suc j \<longrightarrow> entry_at (sh_mv sh') slot key = entry_at (sh_mv sh) slot key))"

lemma frame_refl [simp]: "frame j sh sh" "frame j sh (sh\<lparr>sh_locked := l\<rparr>)"
  by (simp_all add: frame_def Let_def)

lemma frame_at:
  assumes "frame j sh sh'" "i \<noteq> j"
  shows "entry_at (sh_mv sh') (Suc i) = entry_at (sh_mv sh) (Suc i)" "sc_txns (sh_sched sh') ! i = sc_txns (sh_sched sh) ! i"
    "slot_holds (sh_mv sh') i = slot_holds (sh_mv sh) i" "slot_empty (sh_mv sh') i = slot_empty (sh_mv sh) i"
    "running env sh' i = running env sh i" "at_commit sh' i = at_commit sh i"
proof -
  show e: "entry_at (sh_mv sh') (Suc i) = entry_at (sh_mv sh) (Suc i)"
    and t: "sc_txns (sh_sched sh') ! i = sc_txns (sh_sched sh) ! i"
    using assms by (simp_all add: frame_def Let_def fun_eq_iff)
  show "slot_holds (sh_mv sh') i = slot_holds (sh_mv sh) i" "slot_empty (sh_mv sh') i = slot_empty (sh_mv sh) i"
    by (intro slot_holds_cong, simp add: e)+
  show "running env sh' i = running env sh i" "at_commit sh' i = at_commit sh i"
    using assms t by (simp_all add: running_def [abs_def] at_commit_def [abs_def] frame_def Let_def)
qed

lemma frame_txn:
  assumes "frame j sh sh'" "i \<noteq> j"
  shows "txn_inv env sh' i = txn_inv env sh i"
  using assms frame_at [OF assms] by (simp add: frame_def txn_inv_def recorded_def Let_def)

lemma frame_phase:
  assumes "frame j sh sh'" "works_on ph \<noteq> Some j"
  shows "phase_inv env sh' ph = phase_inv env sh ph"
proof -
  have "commit_idx (sh_sched sh') = commit_idx (sh_sched sh)" using assms(1) by (simp add: frame_def Let_def)
  then show ?thesis using assms(2) frame_at [OF assms(1)] by (cases ph) simp_all
qed

lemma frame_shared:
  assumes "shared_inv env sh" "frame j sh sh'" "j < length (fe_txs env)" "txn_inv env sh' j"
  shows "shared_inv env sh'"
proof -
  have "txn_inv env sh' i" if "i < length (fe_txs env)" for i
    using assms frame_txn [OF assms(2)] that by (cases "i = j") (auto simp: shared_inv_def Let_def)
  then show ?thesis using assms(1-3) by (simp add: shared_inv_def frame_def Let_def)
qed

subsection \<open>Each action keeps the invariant of its transaction\<close>

definition work_ok :: "flux_env \<Rightarrow> nat \<Rightarrow> phase \<Rightarrow> shared \<Rightarrow> phase \<times> shared \<Rightarrow> bool" where
  "work_ok env j ph sh r \<longleftrightarrow> frame j sh (snd r) \<and> phase_inv env (snd r) (fst r) \<and> txn_inv env (snd r) j \<and>
     (works_on (fst r) = Some j \<or> works_on (fst r) = None) \<and> commit_phase (fst r) = commit_phase ph"

lemma txn_inv_lock [simp]: "txn_inv env (sh\<lparr>sh_locked := l\<rparr>) = txn_inv env sh"
  by (simp add: txn_inv_def [abs_def])

lemma lock_irrelevant [simp]:
  "running env (sh\<lparr>sh_locked := l\<rparr>) = running env sh" "at_commit (sh\<lparr>sh_locked := l\<rparr>) = at_commit sh"
  by (simp_all add: running_def [abs_def] at_commit_def [abs_def])

lemma phase_inv_lock [simp]: "phase_inv env (sh\<lparr>sh_locked := l\<rparr>) ph = phase_inv env sh ph"
  by (cases ph) simp_all

lemma running_step:
  assumes "running env sh i cap w p final" "replays (fe_base env) (tx_prog env i) cap' w' p'"
    "final \<Longrightarrow> agrees (committed env i) cap \<Longrightarrow> agrees (committed env i) cap'"
  shows "running env sh i cap' w' p' final"
  using assms by (auto simp: running_def Let_def)

lemma exec_step_ok:
  assumes inv: "shared_inv env sh" and ph: "phase_inv env sh (Executing i inc p v final)"
    and tr: "tracked (tx_prog env i)" and t: "txn_inv env sh i"
  shows "work_ok env i (Executing i inc p v final) sh (exec_step env i inc p v final sh)"
proof -
  have run: "running env sh i (vw_captured v) (vw_writes v) p final" and v: "vw_txn_idx v = i" "slot_empty (sh_mv sh) i"
    using ph by auto
  then have rep: "replays (fe_base env) (tx_prog env i) (vw_captured v) (vw_writes v) p" by (simp add: running_def Let_def)
  have trp: "tracked p" using replays_tracked [OF rep tr] .
  show ?thesis
  proof (cases p)
    case (Ret r)
    have "slot_holds (sh_mv sh) i (map_of [])" using v(2) by (simp add: slot_holds_def slot_empty_def)
    then have "phase_inv env sh (Publishing i inc (sorted_list_of_fmap (vw_writes v)) (btree_keys (vw_writes v)) (vw_captured v) r final)"
      using run Ret by (simp only: phase_inv.simps) (metis append_Nil)
    then show ?thesis using Ret t by (simp add: work_ok_def)
  next
    case (Query tk q k)
    then have tk: "tk" using trp by simp
    obtain a v' where q: "view_query (fe_base env) (sh_mv sh) v True q = (a, v')" by fastforce
    have v': "replays (fe_base env) (tx_prog env i) (vw_captured v') (vw_writes v') (k a)" "vw_txn_idx v' = i"
      using replays_query [OF _ q] rep Query tk v(1) by auto
    have "agrees (committed env i) (vw_captured v')" if "final" "agrees (committed env i) (vw_captured v)"
    proof -
      have "i = commit_idx (sh_sched sh)" using run that(1) by (simp add: running_def Let_def)
      then have "settled (mv_read (sh_mv sh) key (vw_txn_idx v)) (committed env i key)" for key
        using prefix_settled [OF shared_prefix [OF inv]] v(1) by simp
      then show ?thesis using query_agrees [OF that(2) q] by blast
    qed
    then have "running env sh i (vw_captured v') (vw_writes v') (k a) final" using running_step [OF run v'(1)] by blast
    then show ?thesis using Query tk q v' v(2) t by (simp add: work_ok_def)
  next
    case (HasCodeHash h k)
    then show ?thesis using running_step [OF run replays.code_hash] rep v t by (simp add: work_ok_def)
  next
    case (Update key x p')
    then show ?thesis using running_step [OF run replays.upd] rep v t by (simp add: work_ok_def view_buffer_def)
  qed (use trp in simp)
qed

lemma publish_step_ok:
  assumes ph: "phase_inv env sh (Publishing i inc ((key, x) # rest) keys cap r final)" and t: "txn_inv env sh i"
  defines "sh' \<equiv> sh\<lparr>sh_mv := mv_write (sh_mv sh) key \<lparr>ver_txn_idx = i, ver_incarnation = inc\<rparr> x\<rparr>"
  shows "work_ok env i (Publishing i inc ((key, x) # rest) keys cap r final) sh (Publishing i inc rest keys cap r final, sh')"
proof -
  obtain w pub where w: "sorted_list_of_fmap w = pub @ (key, x) # rest" "keys = btree_keys w"
    "slot_holds (sh_mv sh) i (map_of pub)" "running env sh i cap w (Ret r) final"
    using ph by auto
  have "distinct (map fst (pub @ (key, x) # rest))" using map_fst_sorted_list_of_fmap [of w] unfolding w(1) by simp
  then have "map_of pub key = None" by (auto simp: map_of_eq_None_iff)
  then have "map_of (pub @ [(key, x)]) = (map_of pub)(key \<mapsto> x)" by (auto simp: map_add_def fun_eq_iff split: option.splits)
  then have "slot_holds (sh_mv sh') i (map_of (pub @ [(key, x)]))"
    using w(3) by (simp add: slot_holds_def sh'_def)
  moreover have run: "running env sh' i cap w (Ret r) final" using w(4) by (simp add: running_def sh'_def)
  ultimately have "phase_inv env sh' (Publishing i inc rest keys cap r final)"
    using w(1,2) by (simp only: phase_inv.simps) (metis append_Cons append_Nil append_assoc)
  moreover have "txn_inv env sh' i"
    using t w(4) by (simp add: txn_inv_def running_def sh'_def Let_def)
  ultimately show ?thesis by (simp add: work_ok_def frame_def sh'_def Let_def)
qed

lemma record_step_ok:
  assumes inv: "shared_inv env sh" and ph: "phase_inv env sh (Publishing i inc [] keys cap r final)" and t: "txn_inv env sh i"
  defines "sh' \<equiv> sh\<lparr>sh_sched := record_execution (sh_sched sh) i keys cap r\<rparr>"
  shows "work_ok env i (Publishing i inc [] keys cap r final) sh (if final then Committing i else Polling, sh')"
proof -
  obtain w where w: "keys = btree_keys w" "slot_holds (sh_mv sh) i (fmlookup w)" "running env sh i cap w (Ret r) final"
    using ph by (metis append_Nil2 map_of_sorted_list_of_fmap phase_inv.simps(2))
  have i: "i < length (sc_txns (sh_sched sh))" using inv w(3) by (simp add: shared_inv_def running_def Let_def)
  have "recorded env (sh_mv sh) i (sc_txns (sh_sched sh') ! i)"
    using w i by (auto simp: recorded_def sh'_def record_execution_def running_def Let_def)
  then have "txn_inv env sh' i" using w(3) by (simp add: txn_inv_def running_def sh'_def record_execution_def Let_def)
  moreover have "phase_inv env sh' (Committing i)" if "final"
    using that w(3) i by (auto simp: at_commit_def running_def sh'_def record_execution_def Let_def)
  moreover have "frame i sh sh'" by (simp add: frame_def sh'_def record_execution_def Let_def)
  ultimately show ?thesis by (simp add: work_ok_def)
qed

lemma validate_step_ok:
  assumes inv: "shared_inv env sh" and ph: "phase_inv env sh (Validating i (r # rs))" and t: "txn_inv env sh i"
  shows "work_ok env i (Validating i (r # rs)) sh
    (if read_still_matches (sh_mv sh) i r then (Validating i rs, sh) else (Aborting i, sh\<lparr>sh_locked := False\<rparr>))"
proof (cases "read_still_matches (sh_mv sh) i r")
  case True
  obtain ok where ok: "ts_reads (sc_txns (sh_sched sh) ! i) = ok @ r # rs" "agrees (committed env i) ok" "at_commit sh i True"
    using ph by auto
  have "i = commit_idx (sh_sched sh)" using ok(3) by (simp add: at_commit_def Let_def)
  then have "settled (mv_read (sh_mv sh) (fst r) i) (committed env i (fst r))"
    using prefix_settled [OF shared_prefix [OF inv]] by simp
  then have "observed_in (committed env i) r"
    using settled_matches [of _ "committed env i" "fst r" "snd r"] True by (simp add: read_still_matches_def)
  then have "phase_inv env sh (Validating i rs)" using ok by (auto intro!: exI [of _ "ok @ [r]"])
  then show ?thesis using True t by (simp add: work_ok_def)
next
  case False
  then show ?thesis using ph t by (auto simp: work_ok_def)
qed

lemma abort_step_ok:
  assumes inv: "shared_inv env sh" and ph: "phase_inv env sh (Aborting i)" and t: "txn_inv env sh i"
  shows "work_ok env i (Aborting i) sh (begin_abort i sh)"
proof -
  have i: "i < length (sc_txns (sh_sched sh))" "ts_executed (sc_txns (sh_sched sh) ! i)" "i = commit_idx (sh_sched sh)"
      "i < next_to_execute (sh_sched sh)"
    using inv ph by (auto simp: shared_inv_def at_commit_def Let_def)
  then obtain w where w: "set (ts_write_keys (sc_txns (sh_sched sh) ! i)) = fset (fmdom w)" "slot_holds (sh_mv sh) i (fmlookup w)"
    using t by (auto simp: txn_inv_def recorded_def Let_def)
  have "entry_at (sh_mv sh) (Suc i) key = None" if "key \<notin> set (ts_write_keys (sc_txns (sh_sched sh) ! i))" for key
    using slot_holdsD(1) [OF w(2)] that w(1) by (simp add: fmdom_notD)
  then show ?thesis using i
    by (auto simp: work_ok_def begin_abort_def sched_abort_def at_commit_def frame_def txn_inv_def Let_def)
qed

lemma mark_step_ok:
  assumes "phase_inv env sh (Marking i (key # keys) old)" "txn_inv env sh i"
  shows "work_ok env i (Marking i (key # keys) old) sh (Marking i keys old, sh\<lparr>sh_mv := mark_estimate (sh_mv sh) i key\<rparr>)"
  using assms by (auto simp: work_ok_def at_commit_def frame_def txn_inv_def entry_at_mark Let_def)

lemma remove_step_ok:
  assumes "phase_inv env sh (Removing i (key # keys))" "txn_inv env sh i"
  shows "work_ok env i (Removing i (key # keys)) sh (Removing i keys, sh\<lparr>sh_mv := remove_write (sh_mv sh) i key\<rparr>)"
  using assms by (auto simp: work_ok_def at_commit_def frame_def txn_inv_def Let_def)

lemma restart_step_ok:
  assumes "phase_inv env sh (Removing i [])" "txn_inv env sh i"
  shows "work_ok env i (Removing i []) sh (start_execute env i inc True, sh\<lparr>sh_locked := False\<rparr>)"
  using assms
  by (auto simp: work_ok_def start_execute_def view_new_def slot_empty_def running_def at_commit_def replays.start Let_def)

lemma work_step:
  assumes inv: "shared_inv env sh" and ph: "phase_inv env sh ph" and on: "works_on ph = Some i" "ph \<noteq> Committing i"
    and tr: "\<And>j. j < length (fe_txs env) \<Longrightarrow> tracked (tx_prog env j)"
    and step: "phase_step env ph sh = Some r"
  shows "work_ok env i ph sh r \<and> i < length (fe_txs env)"
proof -
  have i: "i < length (fe_txs env)"
    using inv ph on by (cases ph) (auto simp: shared_inv_def running_def at_commit_def Let_def)
  then have t: "txn_inv env sh i" using inv by (simp add: shared_inv_def Let_def)
  have "work_ok env i ph sh r"
    using on step
  proof (cases ph)
    case (Executing j inc p v final)
    then show ?thesis using exec_step_ok [OF inv _ tr [OF i] t] ph step on by auto
  next
    case (Publishing j inc rest keys cap r' final)
    show ?thesis
    proof (cases rest)
      case Nil
      then have p: "ph = Publishing i inc [] keys cap r' final" using Publishing on by simp
      then have "r = (if final then Committing i else Polling, sh\<lparr>sh_sched := record_execution (sh_sched sh) i keys cap r'\<rparr>)"
        using step by (simp add: when_free_def split: if_split_asm)
      then show ?thesis using record_step_ok [OF inv ph [unfolded p] t] p by simp
    next
      case (Cons kv rest')
      obtain key x where "kv = (key, x)" by (cases kv)
      then have p: "ph = Publishing i inc ((key, x) # rest') keys cap r' final" using Publishing Cons on by simp
      then show ?thesis using publish_step_ok [OF ph [unfolded p] t] step by simp
    qed
  next
    case (Claimed j)
    then show ?thesis using ph step on t by (auto simp: work_ok_def when_free_def split: if_splits)
  next
    case (Validating j rs)
    then have p: "ph = Validating i rs" using on by simp
    show ?thesis
    proof (cases rs)
      case Nil
      then show ?thesis using p ph step t by (auto simp: work_ok_def)
    next
      case (Cons a rs')
      then show ?thesis using validate_step_ok [OF inv ph [unfolded p Cons] t] p step by simp
    qed
  next
    case (Aborting j)
    then show ?thesis using abort_step_ok [OF inv _ t] ph step on by (auto simp: when_free_def split: if_splits)
  next
    case (Marking j keys old)
    then show ?thesis using mark_step_ok ph step on t by (cases keys) (auto simp: work_ok_def)
  next
    case (Removing j keys)
    then show ?thesis using remove_step_ok restart_step_ok ph step on t by (cases keys) auto
  qed auto
  then show ?thesis using i by blast
qed

subsection \<open>The invariant holds in every reachable state\<close>

lemma worker_facts:
  assumes "phase_inv env sh ph"
  shows "works_on ph = Some i \<Longrightarrow> commit_idx (sh_sched sh) \<le> i \<and> i < next_to_execute (sh_sched sh)"
    "works_on ph = Some i \<Longrightarrow> \<not> commit_phase ph \<Longrightarrow> \<not> ts_executed (sc_txns (sh_sched sh) ! i)"
    "commit_phase ph \<Longrightarrow> works_on ph = Some (commit_idx (sh_sched sh))"
  using assms by (cases ph; auto simp: running_def at_commit_def Let_def)+

lemma workers_update:
  assumes "workers_inv env sh phs" "w < length phs" "phase_inv env sh' ph'"
    "commit_phase ph' \<Longrightarrow> commit_in_flight (sh_sched sh')"
    "\<And>w'. w' < length phs \<Longrightarrow> w' \<noteq> w \<Longrightarrow> phase_inv env sh' (phs ! w') \<and>
      (commit_phase (phs ! w') \<longrightarrow> commit_in_flight (sh_sched sh')) \<and>
      (works_on ph' \<noteq> None \<longrightarrow> works_on (phs ! w') \<noteq> works_on ph')"
  shows "workers_inv env sh' (phs[w := ph'])"
  using assms unfolding workers_inv_def by (auto simp: nth_list_update)

lemma others_elsewhere:
  "workers_inv env sh phs \<Longrightarrow> w < length phs \<Longrightarrow> w' < length phs \<Longrightarrow> w' \<noteq> w \<Longrightarrow> works_on (phs ! w) = Some i \<Longrightarrow>
    works_on (phs ! w') \<noteq> Some i"
  unfolding workers_inv_def by (metis option.distinct(1))

lemma step_work_inv:
  assumes inv: "shared_inv env sh" "workers_inv env sh phs" "w < length phs" and on: "works_on (phs ! w) = Some i"
    and ok: "work_ok env i (phs ! w) sh (ph', sh')" and i: "i < length (fe_txs env)"
  shows "shared_inv env sh' \<and> workers_inv env sh' (phs[w := ph'])"
proof
  have f: "frame i sh sh'" using ok by (simp add: work_ok_def)
  then show "shared_inv env sh'" using frame_shared [OF inv(1) _ i] ok by (simp add: work_ok_def)
  have fl: "commit_in_flight (sh_sched sh') = commit_in_flight (sh_sched sh)" using f by (simp add: frame_def Let_def)
  have w: "phase_inv env sh (phs ! w')" "commit_phase (phs ! w') \<Longrightarrow> commit_in_flight (sh_sched sh)" if "w' < length phs" for w'
    using inv(2) that by (auto simp: workers_inv_def)
  show "workers_inv env sh' (phs[w := ph'])"
  proof (rule workers_update [OF inv(2,3)])
    show "phase_inv env sh' ph'" "commit_phase ph' \<Longrightarrow> commit_in_flight (sh_sched sh')"
      using ok w(2) [OF inv(3)] fl by (simp_all add: work_ok_def)
  next
    fix w' assume w': "w' < length phs" "w' \<noteq> w"
    have "works_on (phs ! w') \<noteq> Some i" using others_elsewhere [OF inv(2,3) w' on] .
    then show "phase_inv env sh' (phs ! w') \<and> (commit_phase (phs ! w') \<longrightarrow> commit_in_flight (sh_sched sh')) \<and>
        (works_on ph' \<noteq> None \<longrightarrow> works_on (phs ! w') \<noteq> works_on ph')"
      using w [OF w'(1)] frame_phase [OF f] ok fl by (auto simp: work_ok_def)
  qed
qed

lemma dispatch_inv:
  assumes inv: "shared_inv env sh" "workers_inv env sh phs" "w < length phs"
    and i: "i = next_to_execute (sh_sched sh)" "i < length (fe_txs env)"
  defines "sh' \<equiv> sh\<lparr>sh_sched := (sh_sched sh)\<lparr>next_to_execute := i + 1\<rparr>\<rparr>"
  shows "shared_inv env sh' \<and> workers_inv env sh' (phs[w := start_execute env i inc False])"
proof
  show "shared_inv env sh'" using inv(1) i by (simp add: shared_inv_def txn_inv_def sh'_def Let_def)
  have fresh: "txn_inv env sh i" "commit_idx (sh_sched sh) \<le> i" using inv(1) i by (simp_all add: shared_inv_def Let_def)
  have r: "running env sh j cap v p f \<Longrightarrow> running env sh' j cap v p f" and a: "at_commit sh j b \<Longrightarrow> at_commit sh' j b" for j cap v p f b
    using i by (auto simp: running_def at_commit_def sh'_def Let_def)
  have [simp]: "sh_mv sh' = sh_mv sh" "sc_txns (sh_sched sh') = sc_txns (sh_sched sh)" "commit_idx (sh_sched sh') = commit_idx (sh_sched sh)"
    by (simp_all add: sh'_def)
  have mono: "phase_inv env sh' ph" if "phase_inv env sh ph" for ph
    using that by (cases ph) (simp_all add: r a, (blast intro: r)+)
  show "workers_inv env sh' (phs[w := start_execute env i inc False])"
  proof (rule workers_update [OF inv(2,3)])
    show "phase_inv env sh' (start_execute env i inc False)"
      using fresh i by (simp add: start_execute_def view_new_def running_def txn_inv_def sh'_def replays.start Let_def)
    show "commit_phase (start_execute env i inc False) \<Longrightarrow> commit_in_flight (sh_sched sh')" by (simp add: start_execute_def)
  next
    fix w' assume w': "w' < length phs" "w' \<noteq> w"
    then have "phase_inv env sh (phs ! w')" "commit_phase (phs ! w') \<longrightarrow> commit_in_flight (sh_sched sh)"
      using inv(2) by (auto simp: workers_inv_def)
    then show "phase_inv env sh' (phs ! w') \<and> (commit_phase (phs ! w') \<longrightarrow> commit_in_flight (sh_sched sh')) \<and>
        (works_on (start_execute env i inc False) \<noteq> None \<longrightarrow> works_on (phs ! w') \<noteq> works_on (start_execute env i inc False))"
      using mono worker_facts(1) [of env sh "phs ! w'" i] i by (auto simp: start_execute_def sh'_def)
  qed
qed

lemma claim_inv:
  assumes inv: "shared_inv env sh" "workers_inv env sh phs" "w < length phs"
    and i: "i = commit_idx (sh_sched sh)" "i < length (fe_txs env)" "ts_executed (sc_txns (sh_sched sh) ! i)"
    and free: "\<not> commit_in_flight (sh_sched sh)"
  defines "sh' \<equiv> sh\<lparr>sh_sched := (sh_sched sh)\<lparr>commit_in_flight := True\<rparr>\<rparr>"
  shows "shared_inv env sh' \<and> workers_inv env sh' (phs[w := Claimed i])"
proof
  show "shared_inv env sh'" using inv(1) by (simp add: shared_inv_def txn_inv_def sh'_def Let_def)
  have "txn_inv env sh i" using inv(1) i by (simp add: shared_inv_def Let_def)
  then have ne: "i < next_to_execute (sh_sched sh)" using i(3) by (auto simp: txn_inv_def Let_def not_less [symmetric])
  have same: "phase_inv env sh' ph = phase_inv env sh ph" for ph
    by (cases ph) (simp_all add: running_def at_commit_def sh'_def Let_def)
  show "workers_inv env sh' (phs[w := Claimed i])"
  proof (rule workers_update [OF inv(2,3)])
    show "phase_inv env sh' (Claimed i)" using i ne by (simp add: at_commit_def sh'_def Let_def)
    show "commit_phase (Claimed i) \<Longrightarrow> commit_in_flight (sh_sched sh')" by (simp add: sh'_def)
  next
    fix w' assume w': "w' < length phs" "w' \<noteq> w"
    then have ph: "phase_inv env sh (phs ! w')" "\<not> commit_phase (phs ! w')"
      using inv(2) free by (auto simp: workers_inv_def)
    then have "works_on (phs ! w') \<noteq> Some i" using worker_facts(2) [OF ph(1)] i(3) by blast
    then show "phase_inv env sh' (phs ! w') \<and> (commit_phase (phs ! w') \<longrightarrow> commit_in_flight (sh_sched sh')) \<and>
        (works_on (Claimed i) \<noteq> None \<longrightarrow> works_on (phs ! w') \<noteq> works_on (Claimed i))"
      using ph same by simp
  qed
qed

lemma commit_inv:
  assumes inv: "shared_inv env sh" "workers_inv env sh phs" "w < length phs" and ph: "phs ! w = Committing i"
  defines "sh' \<equiv> sh\<lparr>sh_sched := sched_commit (sh_sched sh)\<rparr>"
  shows "shared_inv env sh' \<and> workers_inv env sh' (phs[w := Polling])"
proof
  have "phase_inv env sh (Committing i)" using inv(2,3) ph by (metis workers_inv_def)
  then have i: "i = commit_idx (sh_sched sh)" "i < next_to_execute (sh_sched sh)" "ts_executed (sc_txns (sh_sched sh) ! i)"
    "agrees (committed env i) (ts_reads (sc_txns (sh_sched sh) ! i))"
    by (auto simp: at_commit_def Let_def)
  then have n: "i < length (fe_txs env)" using inv(1) by (simp add: shared_inv_def Let_def)
  then have "txn_inv env sh i" using inv(1) by (simp add: shared_inv_def Let_def)
  then obtain v r where v: "replays (fe_base env) (tx_prog env i) (ts_reads (sc_txns (sh_sched sh) ! i)) v (Ret r)"
    "ts_receipt (sc_txns (sh_sched sh) ! i) = Some r" "slot_holds (sh_mv sh) i (fmlookup v)"
    using i(3) by (auto simp: txn_inv_def recorded_def Let_def)
  have "serial env i = (r, v)" using replays_pure [OF v(1) i(4)] by (simp add: serial_def)
  then have "txn_inv env sh' j" if "j < length (fe_txs env)" for j
    using inv(1) that v i(1,2) by (auto simp: shared_inv_def txn_inv_def sh'_def sched_commit_def less_Suc_eq Let_def)
  then show "shared_inv env sh'" using inv(1) i(1,2) by (simp add: shared_inv_def sh'_def sched_commit_def Let_def)
  show "workers_inv env sh' (phs[w := Polling])"
  proof (rule workers_update [OF inv(2,3)])
    fix w' assume w': "w' < length phs" "w' \<noteq> w"
    then have phw: "phase_inv env sh (phs ! w')" using inv(2) by (simp add: workers_inv_def)
    have o: "works_on (phs ! w') \<noteq> Some i" using others_elsewhere [OF inv(2,3) w'] ph by simp
    then have c: "\<not> commit_phase (phs ! w')" using worker_facts(3) [OF phw] i(1) by auto
    have r: "running env sh' j cap v p f" if "running env sh j cap v p f" "j \<noteq> i" "\<not> f" for j cap v p f
      using that i(1) by (auto simp: running_def sh'_def sched_commit_def Let_def)
    have "phase_inv env sh' (phs ! w')"
      using phw o c i(1)
    proof (cases "phs ! w'")
      case (Executing j inc p v f)
      have "sh_mv sh' = sh_mv sh" by (simp add: sh'_def)
      then show ?thesis using Executing phw o c r [of j "vw_captured v" "vw_writes v" p f] by simp
    next
      case (Publishing j inc rest keys cap rc f)
      then show ?thesis using phw o c r [of j cap _ "Ret rc" f] by (auto simp: sh'_def)
    qed (auto simp: sh'_def at_commit_def sched_commit_def Let_def)
    then show "phase_inv env sh' (phs ! w') \<and> (commit_phase (phs ! w') \<longrightarrow> commit_in_flight (sh_sched sh')) \<and>
        (works_on Polling \<noteq> None \<longrightarrow> works_on (phs ! w') \<noteq> works_on Polling)"
      using c by simp
  qed simp_all
qed

lemma flux_step_inv:
  assumes tr: "tracked_block env" and inv: "flux_inv env s" and step: "flux_step env s t"
  shows "flux_inv env t"
proof -
  let ?sh = "fx_shared s" and ?phs = "fx_workers s"
  obtain w ph' sh' where w: "w < length ?phs" "phase_step env (?phs ! w) ?sh = Some (ph', sh')"
    and t: "t = \<lparr>fx_shared = sh', fx_workers = ?phs[w := ph']\<rparr>"
    using step by (auto simp: worker_step_def elim!: flux_step.cases)
  have i: "shared_inv env ?sh" "workers_inv env ?sh ?phs" using inv by (simp_all add: flux_inv_def)
  then have ph: "phase_inv env ?sh (?phs ! w)" using w(1) by (simp add: workers_inv_def)
  have n: "num_txns (sh_sched ?sh) = length (fe_txs env)" using i(1) by (simp add: shared_inv_def Let_def)
  have idle: "shared_inv env sh' \<and> workers_inv env sh' (?phs[w := ph'])"
    if "sh' = ?sh" "phase_inv env ?sh ph'" "works_on ph' = None" "\<not> commit_phase ph'"
    using workers_update [OF i(2) w(1), of ?sh ph'] i that by (simp add: workers_inv_def)
  have "shared_inv env sh' \<and> workers_inv env sh' (?phs[w := ph'])"
  proof (cases "works_on (?phs ! w)")
    case (Some j)
    show ?thesis
    proof (cases "?phs ! w = Committing j")
      case True
      then show ?thesis using commit_inv [OF i w(1) True] w(2) by (auto simp: when_free_def split: if_splits)
    next
      case False
      then show ?thesis using work_step [OF i(1) ph Some False tracked_tx_prog [OF tr] w(2)] step_work_inv [OF i w(1) Some] by blast
    qed
  next
    case None
    then consider "?phs ! w = Polling" | "?phs ! w = Claiming" | "?phs ! w = Finished" by (cases "?phs ! w") auto
    then show ?thesis
    proof cases
      case 1
      then show ?thesis using w(2) idle dispatch_inv [OF i w(1) refl] n
        by (auto simp: when_free_def poll_def next_task_def sched_is_done_def Let_def split: if_splits)
    next
      case 2
      then show ?thesis using w(2) idle claim_inv [OF i w(1) refl] n
        by (auto simp: when_free_def try_claim_def claim_commit_def sched_is_done_def split: if_splits)
    qed (use w(2) in simp)
  qed
  then show ?thesis using inv by (simp add: flux_inv_def t)
qed

interpretation flux: invariant_system "flux_step env" "\<lambda>s. tracked_block env \<longrightarrow> flux_inv env s" for env
  by unfold_locales (use flux_step_inv in blast)

lemma flux_init_inv: "0 < n \<Longrightarrow> flux_inv env (flux_init env n warm)"
  by (simp add: flux_inv_def flux_init_def shared_inv_def sched_new_def txn_inv_def txn_default_def slot_empty_def
      workers_inv_def Let_def)

lemma flux_output_serial:
  assumes inv: "flux_inv env s" and fin: "all_finished s"
  shows "bo_receipts (flux_output env s) = map (fst \<circ> serial env) [0..<length (fe_txs env)]"
    "fmlookup (bo_writes (flux_output env s)) = committed env (length (fe_txs env))"
proof -
  let ?sh = "fx_shared s"
  have sh: "shared_inv env ?sh" using inv by (simp add: flux_inv_def)
  have ne: "fx_workers s \<noteq> []" using inv by (simp add: flux_inv_def)
  then have "fx_workers s ! 0 = Finished" using fin by (cases "fx_workers s") (auto simp: all_finished_def)
  then have "phase_inv env ?sh Finished" using inv ne by (metis flux_inv_def length_greater_0_conv workers_inv_def)
  then have c: "commit_idx (sh_sched ?sh) = length (fe_txs env)" using sh by (simp add: shared_inv_def Let_def)
  then have "ts_receipt (sc_txns (sh_sched ?sh) ! j) = Some (fst (serial env j))" if "j < length (fe_txs env)" for j
    using sh that by (simp add: shared_inv_def txn_inv_def Let_def)
  then show "bo_receipts (flux_output env s) = map (fst \<circ> serial env) [0..<length (fe_txs env)]"
    by (simp add: flux_output_def collect_receipts_def)
  show "fmlookup (bo_writes (flux_output env s)) = committed env (length (fe_txs env))"
    using output_serial [of "sh_mv ?sh"] shared_prefix [OF sh] sh c by (simp add: flux_output_def shared_inv_def Let_def)
qed

lemma sequential_output_serial:
  assumes "tracked_block env"
  shows "bo_receipts (execute_block_sequential env warm) = map (fst \<circ> serial env) [0..<length (fe_txs env)]"
    "fmlookup (bo_writes (execute_block_sequential env warm)) = committed env (length (fe_txs env))"
proof -
  obtain rs mv warm' where run: "sequential_loop env [0..<0 + length (fe_txs env)] fmempty warm = (rs, mv, warm')"
    by (metis prod_cases3)
  have "prefix_holds fmempty 0 (serial_writes env)" by (simp add: prefix_holds_def)
  from sequential_loop_serial [OF this _ _ run] tracked_tx_prog [OF assms]
  have *: "rs = map (fst \<circ> serial env) [0..<length (fe_txs env)]" "prefix_holds mv (length (fe_txs env)) (serial_writes env)"
    "\<And>slot key. length (fe_txs env) < slot \<Longrightarrow> entry_at mv slot key = None"
    by auto
  then show "bo_receipts (execute_block_sequential env warm) = map (fst \<circ> serial env) [0..<length (fe_txs env)]"
    "fmlookup (bo_writes (execute_block_sequential env warm)) = committed env (length (fe_txs env))"
    using run output_serial [OF *(2,3)] by (simp_all add: execute_block_sequential_def)
qed

lemma parallel_is_sequential:
  assumes "tracked_block env" "execute_block_parallel env n warm out"
  shows "out = execute_block_sequential env warm"
  using assms(2)
proof cases
  case (parallel s)
  have "flux_inv env s" using flux.run_inv [OF parallel(4)] flux_init_inv parallel(3) assms(1) by simp
  then show ?thesis
    using flux_output_serial [of env s] sequential_output_serial [OF assms(1), of warm] parallel
    by (auto intro!: block_output.equality fmap_ext simp: fun_eq_iff)
qed

end
