(* ===== verification/Flux_Progress.thy ===== *)
theory Flux_Progress
  imports Flux_Inv
begin

section \<open>Parallel execution completes\<close>

text \<open>
  A worker that finds nothing to do spins: it polls, fails to claim a commit, and polls again. Every
  other action is progress. A progress step dispatches or commits a transaction, or moves one worker
  forward in the well-founded order \<open>phase_less\<close>; spinning leaves the measure alone. And from every
  reachable state some progress step can be reached by spinning.
\<close>

subsection \<open>Progress steps decrease a measure\<close>

definition spins :: "phase \<Rightarrow> phase \<Rightarrow> bool" where
  "spins ph ph' \<longleftrightarrow> ph' = Claiming \<or> (ph = Claiming \<and> ph' = Polling)"

definition busy_step :: "flux_env \<Rightarrow> flux \<Rightarrow> flux \<Rightarrow> bool" where
  "busy_step env s t \<longleftrightarrow> (\<exists>w < length (fx_workers s). worker_step env w s = Some t \<and>
     \<not> spins (fx_workers s ! w) (fx_workers t ! w))"

inductive subprog :: "'r prog \<Rightarrow> 'r prog \<Rightarrow> bool" where
  "subprog (k a) (Query t q k)"
| "subprog (k b) (HasCodeHash h k)"
| "subprog (k a) (Exec op k)"
| "subprog p (Update key x p)"

inductive_cases subprog_Ret [elim!]: "subprog p (Ret r)"
inductive_cases subprog_Query [elim!]: "subprog p (Query t q k)"
inductive_cases subprog_HasCodeHash [elim!]: "subprog p (HasCodeHash h k)"
inductive_cases subprog_Exec [elim!]: "subprog p (Exec op k)"
inductive_cases subprog_Update [elim!]: "subprog p (Update key x p')"

lemma wf_subprog: "wf {(p, p'). subprog p p'}"
proof (rule wfUNIVI)
  fix P :: "'r prog \<Rightarrow> bool" and p
  assume step: "\<forall>p. (\<forall>p'. (p', p) \<in> {(p, p'). subprog p p'} \<longrightarrow> P p') \<longrightarrow> P p"
  show "P p" by (induction p) (rule step [rule_format], auto)+
qed

fun stage :: "phase \<Rightarrow> nat" where
  "stage (Executing _ _ _ _ final) = (if final then 4 else 12)"
| "stage (Publishing _ _ _ _ _ _ final) = (if final then 3 else 11)"
| "stage Polling = 10"
| "stage Claiming = 10"
| "stage (Claimed _) = 9"
| "stage (Validating _ _) = 8"
| "stage (Aborting _) = 7"
| "stage (Marking _ _ _) = 6"
| "stage (Removing _ _) = 5"
| "stage (Committing _) = 2"
| "stage Finished = 0"

fun todo :: "phase \<Rightarrow> nat" where
  "todo (Validating _ rs) = length rs"
| "todo (Marking _ keys _) = length keys"
| "todo (Removing _ keys) = length keys"
| "todo (Publishing _ _ rest _ _ _ _) = length rest"
| "todo _ = 0"

fun program :: "phase \<Rightarrow> transaction_receipt prog option" where
  "program (Executing _ _ p _ _) = Some p"
| "program _ = None"

definition effort :: "phase \<Rightarrow> nat \<times> nat \<times> transaction_receipt prog option" where
  "effort ph = (stage ph, todo ph, program ph)"

definition effort_less :: "((nat \<times> nat \<times> transaction_receipt prog option) \<times> nat \<times> nat \<times> transaction_receipt prog option) set" where
  "effort_less = less_than <*lex*> (less_than <*lex*> {(Some p, Some p') | p p'. subprog p p'})"

lemma wf_effort_less: "wf effort_less"
proof -
  have "{(Some p, Some p') | p p' :: transaction_receipt prog. subprog p p'} = map_prod Some Some ` {(p, p'). subprog p p'}" by auto
  then have "wf {(Some p, Some p') | p p' :: transaction_receipt prog. subprog p p'}"
    using wf_map_prod_image [OF wf_subprog, of Some] by simp
  then show ?thesis unfolding effort_less_def by (intro wf_lex_prod wf_less_than)
qed

lemma exec_step_less: "exec_step env i inc p v final sh = (ph', sh') \<Longrightarrow>
    (effort ph', effort (Executing i inc p v final)) \<in> effort_less \<and> sh_sched sh' = sh_sched sh"
  by (cases p) (auto simp: effort_less_def effort_def split: prod.splits intro: subprog.intros)

definition remaining :: "scheduler_state \<Rightarrow> nat" where
  "remaining sc = (num_txns sc - commit_idx sc) + (num_txns sc - next_to_execute sc)"

lemma busy_decreases:
  assumes "shared_inv env sh" "phase_inv env sh ph" "phase_step env ph sh = Some (ph', sh')" "\<not> spins ph ph'"
  shows "remaining (sh_sched sh') < remaining (sh_sched sh) \<or>
    remaining (sh_sched sh') = remaining (sh_sched sh) \<and> (effort ph', effort ph) \<in> effort_less"
  using assms(3)
proof (cases "(env, ph, sh)" rule: phase_step.cases)
  case (2 env' i inc p v final sh0)
  then show ?thesis using assms exec_step_less by fastforce
qed (use assms in \<open>auto simp: effort_less_def effort_def remaining_def spins_def when_free_def poll_def next_task_def try_claim_def
    claim_commit_def begin_abort_def sched_abort_def record_execution_def sched_commit_def start_execute_def sched_is_done_def
    shared_inv_def at_commit_def Let_def split: if_splits\<close>)

lemma spin_neutral:
  assumes "phase_step env ph sh = Some (ph', sh')" "spins ph ph'"
  shows "sh_sched sh' = sh_sched sh" "effort ph' = effort ph"
proof -
  have "sh_sched sh' = sh_sched sh \<and> effort ph' = effort ph"
    using assms
  proof (cases "(env, ph, sh)" rule: phase_step.cases)
    case (2 env' i inc p v final sh0)
    then show ?thesis using assms by (cases p) (auto simp: spins_def split: prod.splits)
  qed (auto simp: effort_def spins_def when_free_def poll_def next_task_def try_claim_def claim_commit_def begin_abort_def
      start_execute_def Let_def split: if_splits prod.splits)
  then show "sh_sched sh' = sh_sched sh" "effort ph' = effort ph" by simp_all
qed

lemma mult_update:
  assumes "w < length xs" "(x, xs ! w) \<in> r"
  shows "(mset (xs[w := x]), mset xs) \<in> mult r"
proof -
  have "mset (xs[w := x]) = mset xs - {#xs ! w#} + {#x#}" using assms(1) by (simp add: mset_update)
  moreover have "mset xs = mset xs - {#xs ! w#} + {#xs ! w#}" using assms(1) by simp
  moreover have "(mset xs - {#xs ! w#} + {#x#}, mset xs - {#xs ! w#} + {#xs ! w#}) \<in> mult r"
    using assms(2) by (intro one_step_implies_mult) auto
  ultimately show ?thesis by argo
qed

definition work_left :: "flux \<Rightarrow> nat \<times> (nat \<times> nat \<times> transaction_receipt prog option) multiset" where
  "work_left s = (remaining (sh_sched (fx_shared s)), mset (map effort (fx_workers s)))"

definition work_less :: "((nat \<times> (nat \<times> nat \<times> transaction_receipt prog option) multiset) \<times>
    nat \<times> (nat \<times> nat \<times> transaction_receipt prog option) multiset) set" where
  "work_less = less_than <*lex*> mult effort_less"

lemma wf_work_less: "wf work_less"
  unfolding work_less_def by (intro wf_lex_prod wf_less_than wf_mult wf_effort_less)

lemma step_work_left:
  assumes inv: "flux_inv env s" and step: "flux_step env s t"
  shows "busy_step env s t \<Longrightarrow> (work_left t, work_left s) \<in> work_less"
    "work_left t = work_left s \<or> (work_left t, work_left s) \<in> work_less"
proof -
  have less: "(work_left t, work_left s) \<in> work_less"
    if w: "w < length (fx_workers s)" "phase_step env (fx_workers s ! w) (fx_shared s) = Some (ph', sh')"
      "t = \<lparr>fx_shared = sh', fx_workers = (fx_workers s)[w := ph']\<rparr>" "\<not> spins (fx_workers s ! w) ph'" for w ph' sh'
  proof -
    have "shared_inv env (fx_shared s)" "phase_inv env (fx_shared s) (fx_workers s ! w)"
      using inv w(1) by (simp_all add: flux_inv_def workers_inv_def)
    from busy_decreases [OF this w(2,4)] show ?thesis
      using mult_update [of w "map effort (fx_workers s)" "effort ph'" effort_less] w(1,3)
      by (auto simp: work_left_def work_less_def map_update)
  qed
  show "busy_step env s t \<Longrightarrow> (work_left t, work_left s) \<in> work_less"
    using less by (auto simp: busy_step_def worker_step_def)
  obtain w ph' sh' where w: "w < length (fx_workers s)" "phase_step env (fx_workers s ! w) (fx_shared s) = Some (ph', sh')"
      "t = \<lparr>fx_shared = sh', fx_workers = (fx_workers s)[w := ph']\<rparr>"
    using step by (auto simp: worker_step_def elim!: flux_step.cases)
  show "work_left t = work_left s \<or> (work_left t, work_left s) \<in> work_less"
  proof (cases "spins (fx_workers s ! w) ph'")
    case True
    have "map effort ((fx_workers s)[w := ph']) = map effort (fx_workers s)"
      using spin_neutral(2) [OF w(2) True] w(1) by (simp add: map_update list_update_same_conv)
    then show ?thesis using spin_neutral(1) [OF w(2) True] w(3) by (simp add: work_left_def)
  qed (use less w in blast)
qed

subsection \<open>Somebody can always make progress\<close>

fun holds_lock :: "phase \<Rightarrow> bool" where
  "holds_lock (Validating _ _) = True"
| "holds_lock (Marking _ _ _) = True"
| "holds_lock (Removing _ _) = True"
| "holds_lock _ = False"

text \<open>A held lock has a holder, a claimed commit a committer, and a transaction without a result a worker.\<close>

definition live_inv :: "flux \<Rightarrow> bool" where
  "live_inv s \<longleftrightarrow> (let sh = fx_shared s; sc = sh_sched sh in
     (sh_locked sh \<longrightarrow> (\<exists>ph \<in> set (fx_workers s). holds_lock ph)) \<and>
     (commit_in_flight sc \<longrightarrow> (\<exists>ph \<in> set (fx_workers s). commit_phase ph)) \<and>
     (\<forall>j. commit_idx sc \<le> j \<and> j < next_to_execute sc \<and> \<not> ts_executed (sc_txns sc ! j) \<longrightarrow>
       (\<exists>ph \<in> set (fx_workers s). works_on ph = Some j)))"

lemma lock_step: "phase_step env ph sh = Some (ph', sh') \<Longrightarrow> sh_locked sh' \<Longrightarrow> holds_lock ph' \<or> sh_locked sh \<and> \<not> holds_lock ph"
proof (cases "(env, ph, sh)" rule: phase_step.cases)
  case (2 env' i inc p v final sh0)
  then show "phase_step env ph sh = Some (ph', sh') \<Longrightarrow> sh_locked sh' \<Longrightarrow> ?thesis"
    by (cases p) (auto split: prod.splits)
qed (auto simp: when_free_def poll_def try_claim_def begin_abort_def start_execute_def split: if_splits task.splits option.splits prod.splits)

lemma flight_step: "phase_step env ph sh = Some (ph', sh') \<Longrightarrow> commit_in_flight (sh_sched sh') \<Longrightarrow>
    commit_phase ph' \<or> commit_in_flight (sh_sched sh) \<and> \<not> commit_phase ph"
proof (cases "(env, ph, sh)" rule: phase_step.cases)
  case (2 env' i inc p v final sh0)
  then show "phase_step env ph sh = Some (ph', sh') \<Longrightarrow> commit_in_flight (sh_sched sh') \<Longrightarrow> ?thesis"
    by (cases p) (auto split: prod.splits)
qed (auto simp: when_free_def poll_def next_task_def try_claim_def claim_commit_def begin_abort_def sched_abort_def
    record_execution_def sched_commit_def start_execute_def Let_def split: if_splits)

lemma owner_step:
  assumes inv: "shared_inv env sh" "phase_inv env sh ph" and step: "phase_step env ph sh = Some (ph', sh')"
    and j: "commit_idx (sh_sched sh') \<le> j" "j < next_to_execute (sh_sched sh')" "\<not> ts_executed (sc_txns (sh_sched sh') ! j)"
  shows "works_on ph' = Some j \<or> works_on ph \<noteq> Some j \<and> commit_idx (sh_sched sh) \<le> j \<and> j < next_to_execute (sh_sched sh) \<and>
    \<not> ts_executed (sc_txns (sh_sched sh) ! j)"
proof -
  have len: "i < next_to_execute (sh_sched sh) \<Longrightarrow> i < length (sc_txns (sh_sched sh))" for i
    using inv(1) by (simp add: shared_inv_def Let_def)
  show ?thesis
    using step
  proof (cases "(env, ph, sh)" rule: phase_step.cases)
    case (2 env' i inc p v final sh0)
    then show ?thesis using step j by (cases p) (auto split: prod.splits)
  qed (use inv(2) j len in \<open>auto simp: when_free_def poll_def next_task_def try_claim_def claim_commit_def begin_abort_def
      sched_abort_def record_execution_def sched_commit_def start_execute_def running_def at_commit_def nth_list_update Let_def
      split: if_splits\<close>)
qed

lemma bex_update:
  "\<exists>x \<in> set xs. P x \<Longrightarrow> \<not> P (xs ! w) \<Longrightarrow> \<exists>x \<in> set (xs[w := y]). P x"
  by (metis in_set_conv_nth length_list_update nth_list_update_neq)

lemma bex_updated: "w < length xs \<Longrightarrow> P y \<Longrightarrow> \<exists>x \<in> set (xs[w := y]). P x"
  by (metis set_update_memI)

lemma live_step:
  assumes inv: "flux_inv env s" "live_inv s" and step: "flux_step env s t"
  shows "live_inv t"
proof -
  obtain w ph' sh' where w: "w < length (fx_workers s)" "phase_step env (fx_workers s ! w) (fx_shared s) = Some (ph', sh')"
    and t: "t = \<lparr>fx_shared = sh', fx_workers = (fx_workers s)[w := ph']\<rparr>"
    using step by (auto simp: worker_step_def elim!: flux_step.cases)
  have ph: "shared_inv env (fx_shared s)" "phase_inv env (fx_shared s) (fx_workers s ! w)"
    using inv(1) w(1) by (simp_all add: flux_inv_def workers_inv_def)
  have carry: "\<exists>ph \<in> set (fx_workers t). P ph"
    if "P ph' \<or> (\<exists>ph \<in> set (fx_workers s). P ph) \<and> \<not> P (fx_workers s ! w)" for P
    using that bex_updated [OF w(1), of P ph'] bex_update [of "fx_workers s" P w ph'] by (auto simp: t)
  have live: "sh_locked (fx_shared s) \<Longrightarrow> \<exists>ph \<in> set (fx_workers s). holds_lock ph"
    "commit_in_flight (sh_sched (fx_shared s)) \<Longrightarrow> \<exists>ph \<in> set (fx_workers s). commit_phase ph"
    "commit_idx (sh_sched (fx_shared s)) \<le> j \<Longrightarrow> j < next_to_execute (sh_sched (fx_shared s)) \<Longrightarrow>
      \<not> ts_executed (sc_txns (sh_sched (fx_shared s)) ! j) \<Longrightarrow> \<exists>ph \<in> set (fx_workers s). works_on ph = Some j" for j
    using inv(2) by (simp_all add: live_inv_def Let_def)
  have "\<exists>ph \<in> set (fx_workers t). holds_lock ph" if "sh_locked sh'"
    by (rule carry) (use lock_step [OF w(2) that] live(1) in blast)
  moreover have "\<exists>ph \<in> set (fx_workers t). commit_phase ph" if "commit_in_flight (sh_sched sh')"
    by (rule carry) (use flight_step [OF w(2) that] live(2) in blast)
  moreover have "\<exists>ph \<in> set (fx_workers t). works_on ph = Some j"
    if "commit_idx (sh_sched sh') \<le> j" "j < next_to_execute (sh_sched sh')" "\<not> ts_executed (sc_txns (sh_sched sh') ! j)" for j
    by (rule carry) (use owner_step [OF ph w(2) that] live(3) [of j] in blast)
  ultimately show ?thesis by (simp add: live_inv_def t Let_def)
qed

lemma busyI:
  assumes "w < length (fx_workers s)" "phase_step env (fx_workers s ! w) (fx_shared s) = Some (ph', sh')"
    "\<not> spins (fx_workers s ! w) ph'"
  shows "\<exists>t. busy_step env s t"
  unfolding busy_step_def
  using assms by (intro exI [of _ "\<lparr>fx_shared = sh', fx_workers = (fx_workers s)[w := ph']\<rparr>"] exI [of _ w]) (simp add: worker_step_def)

lemma worker_can_act:
  assumes "works_on ph \<noteq> None" "\<not> sh_locked sh \<or> holds_lock ph"
  shows "\<exists>ph' sh'. phase_step env ph sh = Some (ph', sh') \<and> \<not> spins ph ph'"
proof (cases "(env, ph, sh)" rule: phase_step.cases)
  case (2 env' i inc p v final sh0)
  then show ?thesis by (cases p) (auto simp: spins_def split: prod.splits)
qed (use assms in \<open>auto simp: when_free_def spins_def begin_abort_def start_execute_def sched_abort_def Let_def split: if_splits\<close>)

lemma spin_step:
  assumes "w < length (fx_workers s)" "phase_step env (fx_workers s ! w) (fx_shared s) = Some (ph', fx_shared s)"
  shows "flux_step env s (s\<lparr>fx_workers := (fx_workers s)[w := ph']\<rparr>)"
  using assms by (intro flux_step.intros [of w]) (simp_all add: worker_step_def)

lemma polling_progress:
  assumes w: "w < length (fx_workers s)" "fx_workers s ! w = Polling" and free: "\<not> sh_locked (fx_shared s)"
    and ready: "\<not> sched_is_done (sh_sched (fx_shared s)) \<Longrightarrow>
      num_txns (sh_sched (fx_shared s)) \<le> next_to_execute (sh_sched (fx_shared s)) \<Longrightarrow>
      \<not> commit_in_flight (sh_sched (fx_shared s)) \<and> ts_executed (sc_txns (sh_sched (fx_shared s)) ! commit_idx (sh_sched (fx_shared s)))"
  shows "\<exists>t u. (flux_step env)\<^sup>*\<^sup>* s t \<and> busy_step env t u"
proof (cases "\<not> sched_is_done (sh_sched (fx_shared s)) \<and> num_txns (sh_sched (fx_shared s)) \<le> next_to_execute (sh_sched (fx_shared s))")
  case True
  let ?t = "s\<lparr>fx_workers := (fx_workers s)[w := Claiming]\<rparr>"
  have "flux_step env s ?t"
    by (rule spin_step [OF w(1)]) (use w True free in \<open>simp add: when_free_def poll_def next_task_def\<close>)
  moreover have "\<exists>u. busy_step env ?t u"
    by (rule busyI [where w = w and ph' = "Claimed (commit_idx (sh_sched (fx_shared s)))"]) (use w True free ready in \<open>simp_all add: when_free_def try_claim_def claim_commit_def spins_def\<close>)
  ultimately show ?thesis by blast
next
  case False
  have "\<exists>u. busy_step env s u"
    by (rule busyI [OF w(1), of env "fst (poll env (fx_shared s))" "snd (poll env (fx_shared s))"])
      (use w False free in \<open>auto simp: when_free_def poll_def next_task_def spins_def start_execute_def Let_def\<close>)
  then show ?thesis by blast
qed

lemma progress:
  assumes inv: "flux_inv env s" "live_inv s" and more: "\<not> all_finished s"
  shows "\<exists>t u. (flux_step env)\<^sup>*\<^sup>* s t \<and> busy_step env t u"
proof -
  let ?sh = "fx_shared s" and ?sc = "sh_sched (fx_shared s)" and ?phs = "fx_workers s"
  have act: ?thesis if "ph \<in> set ?phs" "works_on ph \<noteq> None" "\<not> sh_locked ?sh \<or> holds_lock ph" for ph
    using worker_can_act [OF that(2,3), of env] busyI [of _ s env] that(1) by (metis in_set_conv_nth rtranclp.rtrancl_refl)
  have on: "holds_lock ph \<Longrightarrow> works_on ph \<noteq> None" "commit_phase ph \<Longrightarrow> works_on ph \<noteq> None" for ph by (cases ph; simp)+
  show ?thesis
  proof (cases "\<exists>ph \<in> set ?phs. works_on ph \<noteq> None")
    case True
    then show ?thesis using act on inv(2) by (auto simp: live_inv_def Let_def)
  next
    case False
    then have free: "\<not> sh_locked ?sh" "\<not> commit_in_flight ?sc"
      and exe: "commit_idx ?sc < next_to_execute ?sc \<Longrightarrow> ts_executed (sc_txns ?sc ! commit_idx ?sc)"
      using inv(2) on unfolding live_inv_def Let_def by (metis, metis, metis order_refl option.distinct(1))
    have ready: "\<not> sched_is_done ?sc \<Longrightarrow> num_txns ?sc \<le> next_to_execute ?sc \<Longrightarrow>
      \<not> commit_in_flight ?sc \<and> ts_executed (sc_txns ?sc ! commit_idx ?sc)"
      using free exe by (auto simp: sched_is_done_def)
    obtain w where w: "w < length ?phs" "?phs ! w \<noteq> Finished"
      using more by (auto simp: all_finished_def list_all_length)
    then consider "?phs ! w = Polling" | "?phs ! w = Claiming"
      using False nth_mem [OF w(1)] by (cases "?phs ! w") force+
    then show ?thesis
    proof cases
      case 1
      then show ?thesis using polling_progress [OF w(1) 1 free(1) ready] by blast
    next
      case 2
      show ?thesis
      proof (cases "claim_commit ?sc")
        case (Pair i sc)
        then show ?thesis
        proof (cases i)
          case None
          let ?t = "s\<lparr>fx_workers := ?phs[w := Polling]\<rparr>"
          have "flux_step env s ?t"
            by (rule spin_step [OF w(1)])
              (use 2 Pair None free in \<open>simp add: when_free_def try_claim_def claim_commit_def split: if_splits\<close>)
          moreover have "\<exists>t u. (flux_step env)\<^sup>*\<^sup>* ?t t \<and> busy_step env t u"
            by (rule polling_progress [of w]) (use w free ready in simp_all)
          ultimately show ?thesis by (meson converse_rtranclp_into_rtranclp)
        next
          case (Some j)
          have "\<exists>u. busy_step env s u"
            by (rule busyI [where w = w and ph' = "Claimed j"]) (use w 2 Pair Some free in \<open>simp_all add: when_free_def try_claim_def spins_def\<close>)
          then show ?thesis by blast
        qed
      qed
    qed
  qed
qed

subsection \<open>Completion\<close>

interpretation live: invariant_system "flux_step env" "\<lambda>s. tracked_block env \<longrightarrow> flux_inv env s \<and> live_inv s" for env
  by unfold_locales (use flux_step_inv live_step in blast)

lemma live_init: "live_inv (flux_init env n warm)"
  by (simp add: live_inv_def flux_init_def sched_new_def Let_def)

lemma reachable_invs:
  assumes "tracked_block env" "0 < n" "(flux_step env)\<^sup>*\<^sup>* (flux_init env n warm) s"
  shows "flux_inv env s \<and> live_inv s"
  using live.run_inv [OF assms(3)] assms(1,2) flux_init_inv live_init by blast

lemma busy_is_step: "busy_step env s t \<Longrightarrow> flux_step env s t"
  by (auto simp: busy_step_def intro: flux_step.intros)

lemma run_work_left:
  assumes "tracked_block env" "(flux_step env)\<^sup>*\<^sup>* s t" "flux_inv env s"
  shows "flux_inv env t \<and> (work_left t = work_left s \<or> (work_left t, work_left s) \<in> work_less\<^sup>+)"
  using assms(2,3)
proof (induction rule: rtranclp_induct)
  case (step t u)
  then have IH: "flux_inv env t" "work_left t = work_left s \<or> (work_left t, work_left s) \<in> work_less\<^sup>+" by blast+
  have "work_left u = work_left t \<or> (work_left u, work_left t) \<in> work_less" using step_work_left(2) [OF IH(1) step(2)] .
  then show ?case using IH(2) flux_step_inv [OF assms(1) IH(1) step(2)] by (auto intro: trancl_into_trancl2)
qed simp

lemma completes:
  assumes tr: "tracked_block env"
  shows "flux_inv env s \<Longrightarrow> live_inv s \<Longrightarrow> \<exists>t. (flux_step env)\<^sup>*\<^sup>* s t \<and> all_finished t"
proof (induction "work_left s" arbitrary: s rule: wf_induct_rule [OF wf_trancl [OF wf_work_less]])
  case (1 s)
  show ?case
  proof (cases "all_finished s")
    case False
    then obtain t u where t: "(flux_step env)\<^sup>*\<^sup>* s t" "busy_step env t u" using progress [OF 1(2,3)] by blast
    have run: "(flux_step env)\<^sup>*\<^sup>* s u" using t busy_is_step by (meson rtranclp.rtrancl_into_rtrancl)
    have "(work_left u, work_left s) \<in> work_less\<^sup>+"
      using run_work_left [OF tr t(1) 1(2)] step_work_left(1) [OF _ busy_is_step [OF t(2)] t(2)]
      by (metis trancl.r_into_trancl trancl_trans)
    moreover have "flux_inv env u" "live_inv u" using live.run_inv [OF run] tr 1(2,3) by blast+
    ultimately obtain v where "(flux_step env)\<^sup>*\<^sup>* u v" "all_finished v" using 1(1) by blast
    then show ?thesis using run by (meson rtranclp_trans)
  qed blast
qed

lemma eventually_constant:
  assumes "wf r" "\<And>i. f (Suc i) = f i \<or> (f (Suc i), f i) \<in> r"
  shows "\<exists>n. \<forall>i \<ge> n. f i = f n"
proof -
  obtain n where n: "\<And>y. (y, f n) \<in> r \<Longrightarrow> y \<notin> range f"
    using wfE_min [OF assms(1), of "f 0" "range f"] by auto
  have "f i = f n" if "n \<le> i" for i
    using that
  proof (induction i rule: dec_induct)
    case (step i)
    then show ?case using assms(2) [of i] n by (metis rangeI)
  qed simp
  then show ?thesis by blast
qed

lemma execution_completes:
  assumes "tracked_block env" "0 < n" "(flux_step env)\<^sup>*\<^sup>* (flux_init env n warm) s"
  shows "(\<exists>t. (flux_step env)\<^sup>*\<^sup>* s t \<and> all_finished t) \<and>
    (\<forall>f. f 0 = s \<and> (\<forall>i. flux_step env (f i) (f (Suc i))) \<longrightarrow> (\<exists>k. \<forall>i \<ge> k. \<not> busy_step env (f i) (f (Suc i))))"
proof (intro conjI allI impI)
  have inv: "flux_inv env s" "live_inv s" using reachable_invs [OF assms] by auto
  show "\<exists>t. (flux_step env)\<^sup>*\<^sup>* s t \<and> all_finished t" using completes [OF assms(1) inv] .
  fix f assume f: "f 0 = s \<and> (\<forall>i. flux_step env (f i) (f (Suc i)))"
  have fi: "flux_inv env (f i)" for i
    by (induction i) (use f inv flux_step_inv [OF assms(1)] in auto)
  obtain k where k: "\<forall>i \<ge> k. work_left (f i) = work_left (f k)"
    using eventually_constant [OF wf_work_less, of "\<lambda>i. work_left (f i)"] step_work_left(2) [OF fi] f by blast
  have "\<not> busy_step env (f i) (f (Suc i))" if "k \<le> i" for i
  proof
    assume "busy_step env (f i) (f (Suc i))"
    then have "(work_left (f (Suc i)), work_left (f i)) \<in> work_less" using step_work_left(1) [OF fi] f by blast
    then show False using k that wf_work_less by (metis le_SucI wf_not_refl)
  qed
  then show "\<exists>k. \<forall>i \<ge> k. \<not> busy_step env (f i) (f (Suc i))" by blast
qed

end
