(* ===== verification/Safety_Manifest.thy ===== *)
theory Safety_Manifest
  imports Vm_State
begin

section \<open>Safety manifests\<close>

text \<open>
  \<^verbatim>\<open>lemma-vm/src/safety_manifest.rs\<close>: the constraints a token contract declares on its own storage, and
  their check against the storage writes of a transaction. Parsing the manifest out of the bytecode
  (wasmparser, serde) is a parameter of the executor. The texts in the errors are shortened.
\<close>

datatype safety_constraint =
    RatchetBool bytes bytes
  | RatchetOff bytes
  | FeeCap "bytes list" u16
  | RatchetUp bytes

type_synonym storage_writes = "(address \<times> bytes, bytes option) fmap"

text \<open>\<open>from_le_bytes\<close> on a buffer padded with zeros.\<close>

fun le_value :: "bytes \<Rightarrow> nat" where
  "le_value [] = 0"
| "le_value (b # bs) = unat b + 256 * le_value bs"

definition bytes_to_u64 :: "bytes \<Rightarrow> vm_error + u64" where
  "bytes_to_u64 bs = (if length bs > 8 then Inl (HoneypotInvariantViolation ''value too long for u64'')
     else Inr (of_nat (le_value bs)))"

definition bytes_to_u128 :: "bytes \<Rightarrow> vm_error + u128" where
  "bytes_to_u128 bs = (if length bs > 16 then Inl (HoneypotInvariantViolation ''value too long for u128'')
     else Inr (of_nat (le_value bs)))"

definition is_truthy :: "bytes \<Rightarrow> bool" where
  "is_truthy bs = list_ex (\<lambda>b. b \<noteq> 0) bs"

definition validate_ratchet_bool :: "address \<Rightarrow> bytes \<Rightarrow> bytes \<Rightarrow> storage_writes \<Rightarrow> (vm_error + unit) prog" where
  "validate_ratchet_bool c key locked w =
     (case fmlookup w (c, key) of
       Some (Some v) \<Rightarrow>
         if v \<noteq> locked then Ret (Inr ())
         else prog_bind (sv_read True c key) (\<lambda>old.
           Ret (case old of
             Some x \<Rightarrow> if x = locked then Inr () else Inl (HoneypotInvariantViolation ''ratchet_bool'')
           | None \<Rightarrow> Inr ()))
     | _ \<Rightarrow> Ret (Inr ()))"

definition validate_ratchet_off :: "address \<Rightarrow> bytes \<Rightarrow> storage_writes \<Rightarrow> (vm_error + unit) prog" where
  "validate_ratchet_off c key w =
     (case fmlookup w (c, key) of
       Some (Some v) \<Rightarrow>
         if \<not> is_truthy v then Ret (Inr ())
         else prog_bind (sv_read True c key) (\<lambda>old.
           Ret (case old of
             Some x \<Rightarrow> if \<not> is_truthy x then Inl (HoneypotInvariantViolation ''ratchet_off'') else Inr ()
           | None \<Rightarrow> Inr ()))
     | _ \<Rightarrow> Ret (Inr ()))"

text \<open>The sum of the fees, from the writes or else the committed state.\<close>

fun fee_sum :: "address \<Rightarrow> storage_writes \<Rightarrow> bytes list \<Rightarrow> u64 \<Rightarrow> (vm_error + u64) prog" where
  "fee_sum c w [] acc = Ret (Inr acc)"
| "fee_sum c w (k # ks) acc =
     (let add = (\<lambda>bs. case bytes_to_u64 bs of
            Inl e \<Rightarrow> Ret (Inl e) | Inr n \<Rightarrow> fee_sum c w ks (saturating_add acc n)) in
      case fmlookup w (c, k) of
        Some (Some v) \<Rightarrow> add v
      | Some None \<Rightarrow> add []
      | None \<Rightarrow> prog_bind (sv_read True c k) (\<lambda>old. add (case old of Some v \<Rightarrow> v | None \<Rightarrow> [])))"

definition validate_fee_cap :: "address \<Rightarrow> bytes list \<Rightarrow> u16 \<Rightarrow> storage_writes \<Rightarrow> (vm_error + unit) prog" where
  "validate_fee_cap c keys max_sum w =
     (if \<not> list_ex (\<lambda>k. fmlookup w (c, k) \<noteq> None) keys then Ret (Inr ())
      else prog_bind (fee_sum c w keys 0) (\<lambda>r. Ret (case r of
          Inl e \<Rightarrow> Inl e
        | Inr s \<Rightarrow> if s > ucast max_sum then Inl (HoneypotInvariantViolation ''fee_cap'') else Inr ())))"

definition validate_ratchet_up :: "address \<Rightarrow> bytes \<Rightarrow> storage_writes \<Rightarrow> (vm_error + unit) prog" where
  "validate_ratchet_up c key w =
     (case fmlookup w (c, key) of
       None \<Rightarrow> Ret (Inr ())
     | Some None \<Rightarrow> prog_bind (sv_read True c key) (\<lambda>old. Ret (case old of
           Some x \<Rightarrow> rbind (bytes_to_u128 x) (\<lambda>n. if n > 0 then Inl (HoneypotInvariantViolation ''ratchet_up'') else Inr ())
         | None \<Rightarrow> Inr ()))
     | Some (Some v) \<Rightarrow> prog_bind (sv_read True c key) (\<lambda>old. Ret (case old of
           Some x \<Rightarrow> rbind (bytes_to_u128 x) (\<lambda>n. rbind (bytes_to_u128 v) (\<lambda>n'.
             if n' < n then Inl (HoneypotInvariantViolation ''ratchet_up'') else Inr ()))
         | None \<Rightarrow> Inr ())))"

fun validate_constraint :: "address \<Rightarrow> storage_writes \<Rightarrow> safety_constraint \<Rightarrow> (vm_error + unit) prog" where
  "validate_constraint c w (RatchetBool key locked) = validate_ratchet_bool c key locked w"
| "validate_constraint c w (RatchetOff key) = validate_ratchet_off c key w"
| "validate_constraint c w (FeeCap keys max_sum) = validate_fee_cap c keys max_sum w"
| "validate_constraint c w (RatchetUp key) = validate_ratchet_up c key w"

fun validate_safety_invariants :: "safety_constraint list \<Rightarrow> address \<Rightarrow> storage_writes \<Rightarrow> (vm_error + unit) prog" where
  "validate_safety_invariants [] c w = Ret (Inr ())"
| "validate_safety_invariants (x # xs) c w = prog_bind (validate_constraint c w x) (\<lambda>r. case r of
      Inl e \<Rightarrow> Ret (Inl e)
    | Inr _ \<Rightarrow> validate_safety_invariants xs c w)"

end
