(* ===== verification/Vm_Scratch.thy ===== *)
theory Vm_Scratch
  imports Safety_Manifest
begin

section \<open>The scratch overlay of a transaction\<close>

text \<open>
  \<^verbatim>\<open>lemma-vm/src/executor/scratch.rs\<close>: \<open>ScratchState\<close> buffers the writes of one transaction over the
  state view, \<open>ScratchSnapshot\<close> is the owned copy contract execution works on. Operations that may read
  the view are programs. A snapshot reads through a clone of the view.
\<close>

record scratch =
  storage_writes :: storage_writes
  balance_writes :: "(address, amount) fmap"
  nonce_writes :: "(address, u64) fmap"
  code_writes :: "(address, bytes) fmap"
  code_hash_writes :: "(address, hash) fmap"
  code_store_writes :: "(hash, bytes) fmap"

definition scratch_new :: scratch where
  "scratch_new = \<lparr>storage_writes = fmempty, balance_writes = fmempty, nonce_writes = fmempty, code_writes = fmempty,
     code_hash_writes = fmempty, code_store_writes = fmempty\<rparr>"

definition put_code_content :: "scratch \<Rightarrow> hash \<Rightarrow> bytes \<Rightarrow> scratch" where
  "put_code_content s h bs = s\<lparr>code_store_writes := fmupd h bs (code_store_writes s)\<rparr>"

definition set_code_hash_ptr :: "scratch \<Rightarrow> address \<Rightarrow> hash \<Rightarrow> scratch" where
  "set_code_hash_ptr s a h = s\<lparr>code_hash_writes := fmupd a h (code_hash_writes s)\<rparr>"

text \<open>The bytecode behind a thin pointer set in this transaction.\<close>

definition thin_pointer :: "(address, hash) fmap \<Rightarrow> (hash, bytes) fmap \<Rightarrow> address \<Rightarrow> bytes option" where
  "thin_pointer ptrs store a = (case fmlookup ptrs a of Some h \<Rightarrow> fmlookup store h | None \<Rightarrow> None)"

definition resolve_code :: "scratch \<Rightarrow> address \<Rightarrow> bytes option prog" where
  "resolve_code s a = (case thin_pointer (code_hash_writes s) (code_store_writes s) a of
     Some bs \<Rightarrow> Ret (Some bs) | None \<Rightarrow> sv_code True a)"

definition scr_read :: "scratch \<Rightarrow> address \<Rightarrow> bytes \<Rightarrow> bytes option prog" where
  "scr_read s c k = (case fmlookup (storage_writes s) (c, k) of Some v \<Rightarrow> Ret v | None \<Rightarrow> sv_read True c k)"

definition scr_write :: "scratch \<Rightarrow> address \<Rightarrow> bytes \<Rightarrow> bytes \<Rightarrow> scratch" where
  "scr_write s c k v = s\<lparr>storage_writes := fmupd (c, k) (Some v) (storage_writes s)\<rparr>"

definition scr_delete :: "scratch \<Rightarrow> address \<Rightarrow> bytes \<Rightarrow> scratch" where
  "scr_delete s c k = s\<lparr>storage_writes := fmupd (c, k) None (storage_writes s)\<rparr>"

definition scr_exists :: "scratch \<Rightarrow> address \<Rightarrow> bytes \<Rightarrow> bool prog" where
  "scr_exists s c k = (case fmlookup (storage_writes s) (c, k) of Some v \<Rightarrow> Ret (v \<noteq> None) | None \<Rightarrow> sv_exists True c k)"

definition scr_balance :: "scratch \<Rightarrow> address \<Rightarrow> amount prog" where
  "scr_balance s a = (case fmlookup (balance_writes s) a of Some x \<Rightarrow> Ret x | None \<Rightarrow> sv_balance True a)"

definition scr_set_balance :: "scratch \<Rightarrow> address \<Rightarrow> amount \<Rightarrow> scratch" where
  "scr_set_balance s a x = s\<lparr>balance_writes := fmupd a x (balance_writes s)\<rparr>"

definition scr_nonce :: "scratch \<Rightarrow> address \<Rightarrow> u64 prog" where
  "scr_nonce s a = (case fmlookup (nonce_writes s) a of Some n \<Rightarrow> Ret n | None \<Rightarrow> sv_nonce True a)"

definition scr_set_nonce :: "scratch \<Rightarrow> address \<Rightarrow> u64 \<Rightarrow> scratch" where
  "scr_set_nonce s a n = s\<lparr>nonce_writes := fmupd a n (nonce_writes s)\<rparr>"

definition scr_code :: "scratch \<Rightarrow> address \<Rightarrow> bytes option prog" where
  "scr_code s a = (case thin_pointer (code_hash_writes s) (code_store_writes s) a of
     Some bs \<Rightarrow> Ret (Some bs)
   | None \<Rightarrow> (case fmlookup (code_writes s) a of Some bs \<Rightarrow> Ret (Some bs) | None \<Rightarrow> sv_code True a))"

definition scr_set_code :: "scratch \<Rightarrow> address \<Rightarrow> bytes \<Rightarrow> scratch" where
  "scr_set_code s a bs = s\<lparr>code_writes := fmupd a bs (code_writes s)\<rparr>"

definition scr_has_code_hash :: "scratch \<Rightarrow> hash \<Rightarrow> bool prog" where
  "scr_has_code_hash s h = (if fmlookup (code_store_writes s) h \<noteq> None then Ret True else HasCodeHash h Ret)"

subsection \<open>Snapshots\<close>

record snapshot =
  sn_storage :: "(address \<times> bytes, bytes) fmap"
  sn_storage_deletes :: "(address \<times> bytes) fset"
  sn_balances :: "(address, amount) fmap"
  sn_nonces :: "(address, u64) fmap"
  sn_code :: "(address, bytes) fmap"
  sn_code_hashes :: "(address, hash) fmap"
  sn_code_store :: "(hash, bytes) fmap"

definition scr_snapshot :: "scratch \<Rightarrow> snapshot" where
  "scr_snapshot s = \<lparr>
     sn_storage = fmmap the (fmfilter (\<lambda>k. fmlookup (storage_writes s) k \<noteq> Some None) (storage_writes s)),
     sn_storage_deletes = fmdom (fmfilter (\<lambda>k. fmlookup (storage_writes s) k = Some None) (storage_writes s)),
     sn_balances = balance_writes s, sn_nonces = nonce_writes s, sn_code = code_writes s,
     sn_code_hashes = code_hash_writes s, sn_code_store = code_store_writes s\<rparr>"

definition merge_snapshot :: "scratch \<Rightarrow> snapshot \<Rightarrow> scratch" where
  "merge_snapshot s snap = \<lparr>
     storage_writes = fold (\<lambda>k. fmupd k None) (sorted_list_of_fset (sn_storage_deletes snap))
       (storage_writes s ++\<^sub>f fmmap Some (sn_storage snap)),
     balance_writes = balance_writes s ++\<^sub>f sn_balances snap,
     nonce_writes = nonce_writes s ++\<^sub>f sn_nonces snap,
     code_writes = code_writes s ++\<^sub>f sn_code snap,
     code_hash_writes = code_hash_writes s ++\<^sub>f sn_code_hashes snap,
     code_store_writes = code_store_writes s ++\<^sub>f sn_code_store snap\<rparr>"

definition sn_read :: "snapshot \<Rightarrow> address \<Rightarrow> bytes \<Rightarrow> bytes option prog" where
  "sn_read s c k = (case fmlookup (sn_storage s) (c, k) of
     Some v \<Rightarrow> Ret (Some v)
   | None \<Rightarrow> if (c, k) |\<in>| sn_storage_deletes s then Ret None else sv_read False c k)"

definition sn_write :: "snapshot \<Rightarrow> address \<Rightarrow> bytes \<Rightarrow> bytes \<Rightarrow> snapshot" where
  "sn_write s c k v = s\<lparr>sn_storage_deletes := sn_storage_deletes s |-| {|(c, k)|},
     sn_storage := fmupd (c, k) v (sn_storage s)\<rparr>"

definition sn_delete :: "snapshot \<Rightarrow> address \<Rightarrow> bytes \<Rightarrow> snapshot" where
  "sn_delete s c k = s\<lparr>sn_storage := fmdrop (c, k) (sn_storage s),
     sn_storage_deletes := finsert (c, k) (sn_storage_deletes s)\<rparr>"

definition sn_exists :: "snapshot \<Rightarrow> address \<Rightarrow> bytes \<Rightarrow> bool prog" where
  "sn_exists s c k = (if fmlookup (sn_storage s) (c, k) \<noteq> None then Ret True
     else if (c, k) |\<in>| sn_storage_deletes s then Ret False else sv_exists False c k)"

definition sn_balance :: "snapshot \<Rightarrow> address \<Rightarrow> amount prog" where
  "sn_balance s a = (case fmlookup (sn_balances s) a of Some x \<Rightarrow> Ret x | None \<Rightarrow> sv_balance False a)"

definition sn_set_balance :: "snapshot \<Rightarrow> address \<Rightarrow> amount \<Rightarrow> snapshot" where
  "sn_set_balance s a x = s\<lparr>sn_balances := fmupd a x (sn_balances s)\<rparr>"

definition sn_nonce :: "snapshot \<Rightarrow> address \<Rightarrow> u64" where
  "sn_nonce s a = (case fmlookup (sn_nonces s) a of Some n \<Rightarrow> n | None \<Rightarrow> 0)"

definition sn_set_nonce :: "snapshot \<Rightarrow> address \<Rightarrow> u64 \<Rightarrow> snapshot" where
  "sn_set_nonce s a n = s\<lparr>sn_nonces := fmupd a n (sn_nonces s)\<rparr>"

definition sn_get_code :: "snapshot \<Rightarrow> address \<Rightarrow> bytes option prog" where
  "sn_get_code s a = (case thin_pointer (sn_code_hashes s) (sn_code_store s) a of
     Some bs \<Rightarrow> Ret (Some bs)
   | None \<Rightarrow> (case fmlookup (sn_code s) a of Some bs \<Rightarrow> Ret (Some bs) | None \<Rightarrow> sv_code False a))"

definition sn_set_code :: "snapshot \<Rightarrow> address \<Rightarrow> bytes \<Rightarrow> snapshot" where
  "sn_set_code s a bs = s\<lparr>sn_code := fmupd a bs (sn_code s)\<rparr>"

text \<open>The callee's writes applied to the caller's snapshot, in the order of the maps.\<close>

definition btree_list :: "('k::linorder, 'v) fmap \<Rightarrow> ('k \<times> 'v) list" where
  "btree_list m = map (\<lambda>k. (k, the (fmlookup m k))) (btree_keys m)"

definition merge_into :: "snapshot \<Rightarrow> snapshot \<Rightarrow> snapshot" where
  "merge_into s target =
     (let t1 = fold (\<lambda>((c, k), v) t. sn_write t c k v) (btree_list (sn_storage s)) target;
          t2 = fold (\<lambda>(c, k) t. sn_delete t c k) (sorted_list_of_fset (sn_storage_deletes s)) t1;
          t3 = fold (\<lambda>(a, x) t. sn_set_balance t a x) (btree_list (sn_balances s)) t2;
          t4 = fold (\<lambda>(a, n) t. sn_set_nonce t a n) (btree_list (sn_nonces s)) t3;
          t5 = fold (\<lambda>(a, bs) t. sn_set_code t a bs) (btree_list (sn_code s)) t4
      in fold (\<lambda>(a, h) t. case fmlookup (sn_code_store s) h of Some bs \<Rightarrow> sn_set_code t a bs | None \<Rightarrow> t)
           (btree_list (sn_code_hashes s)) t5)"

subsection \<open>Settlement\<close>

primrec prog_for :: "('a \<Rightarrow> unit prog) \<Rightarrow> 'a list \<Rightarrow> unit prog" where
  "prog_for f [] = Ret ()"
| "prog_for f (x # xs) = prog_bind (f x) (\<lambda>_. prog_for f xs)"

text \<open>\<open>inner.set_nonce(sender, inner.nonce(sender).saturating_add(1))\<close>\<close>

definition advance_nonce :: "address \<Rightarrow> unit prog" where
  "advance_nonce sender = prog_bind (sv_nonce True sender) (\<lambda>n. sv_set_nonce sender (saturating_add n 1))"

text \<open>One entry of each of the five loops of \<open>commit_with_nonce\<close>.\<close>

fun flush_storage :: "(address \<times> bytes) \<times> bytes option \<Rightarrow> unit prog" where
  "flush_storage ((c, k), Some v) = sv_write c k v"
| "flush_storage ((c, k), None) = sv_delete c k"

definition flush_nonce :: "address \<Rightarrow> address \<times> u64 \<Rightarrow> unit prog" where
  "flush_nonce sender e = (if fst e \<noteq> sender then sv_set_nonce (fst e) (snd e) else Ret ())"

definition flush_pointer :: "(hash, bytes) fmap \<Rightarrow> address \<times> hash \<Rightarrow> unit prog" where
  "flush_pointer store e = (case fmlookup store (snd e) of Some bs \<Rightarrow> sv_set_code (fst e) bs | None \<Rightarrow> Ret ())"

definition commit_with_nonce :: "scratch \<Rightarrow> address \<Rightarrow> unit prog" where
  "commit_with_nonce s sender =
     prog_bind (prog_for flush_storage (btree_list (storage_writes s))) (\<lambda>_.
     prog_bind (prog_for (\<lambda>e. sv_set_balance (fst e) (snd e)) (btree_list (balance_writes s))) (\<lambda>_.
     prog_bind (prog_for (flush_nonce sender) (btree_list (nonce_writes s))) (\<lambda>_.
     prog_bind (prog_for (\<lambda>e. sv_set_code (fst e) (snd e)) (btree_list (code_writes s))) (\<lambda>_.
     prog_bind (prog_for (flush_pointer (code_store_writes s)) (btree_list (code_hash_writes s))) (\<lambda>_.
     advance_nonce sender)))))"

subsection \<open>Running programs\<close>

text \<open>Programs that update nothing.\<close>

primrec quiet :: "'r prog \<Rightarrow> bool" where
  "quiet (Ret r) \<longleftrightarrow> True"
| "quiet (Query t q k) \<longleftrightarrow> (\<forall>a. quiet (k a))"
| "quiet (HasCodeHash h k) \<longleftrightarrow> (\<forall>b. quiet (k b))"
| "quiet (Exec op k) \<longleftrightarrow> (\<forall>a. quiet (k a))"
| "quiet (Update key v p) \<longleftrightarrow> False"

lemma quiet_bind [simp]: "quiet p \<Longrightarrow> (\<And>r. quiet (f r)) \<Longrightarrow> quiet (prog_bind p f)"
  by (induction p) auto

lemma im_run_quiet: "quiet p \<Longrightarrow> fst (snd (im_run b p s x)) = s"
  by (induction p arbitrary: x) (auto split: prod.splits)

lemma im_run_bind:
  "im_run b (prog_bind p f) s x = (case im_run b p s x of (r, s', x') \<Rightarrow> im_run b (f r) s' x')"
  by (induction p arbitrary: s x) (auto split: prod.splits)

lemma quiet_reads [simp]:
  "quiet (sv_read t c k)" "quiet (sv_exists t c k)" "quiet (sv_balance t a)" "quiet (sv_nonce t a)" "quiet (sv_code t a)"
  by (simp_all add: sv_read_def sv_exists_def sv_balance_def sv_nonce_def sv_code_def)

lemma quiet_scratch [simp]:
  "quiet (resolve_code s a)" "quiet (scr_read s c k)" "quiet (scr_exists s c k)" "quiet (scr_balance s a)"
  "quiet (scr_nonce s a)" "quiet (scr_code s a)" "quiet (scr_has_code_hash s h)"
  by (simp_all add: resolve_code_def scr_read_def scr_exists_def scr_balance_def scr_nonce_def scr_code_def
      scr_has_code_hash_def split: option.split)

lemma quiet_snapshot [simp]:
  "quiet (sn_read s' c k)" "quiet (sn_exists s' c k)" "quiet (sn_balance s' a)" "quiet (sn_get_code s' a)"
  by (simp_all add: sn_read_def sn_exists_def sn_balance_def sn_get_code_def split: option.split)

subsection \<open>What a scratch shows\<close>

fun overlay :: "scratch \<Rightarrow> (query \<Rightarrow> answer) \<Rightarrow> query \<Rightarrow> answer" where
  "overlay s base (QRead c k) = (case fmlookup (storage_writes s) (c, k) of Some v \<Rightarrow> ABytes v | None \<Rightarrow> base (QRead c k))"
| "overlay s base (QExists c k) =
     (case fmlookup (storage_writes s) (c, k) of Some v \<Rightarrow> ABool (v \<noteq> None) | None \<Rightarrow> base (QExists c k))"
| "overlay s base (QBalance a) = (case fmlookup (balance_writes s) a of Some x \<Rightarrow> AAmount x | None \<Rightarrow> base (QBalance a))"
| "overlay s base (QNonce a) = (case fmlookup (nonce_writes s) a of Some n \<Rightarrow> ANonce n | None \<Rightarrow> base (QNonce a))"
| "overlay s base (QCode a) =
     (case thin_pointer (code_hash_writes s) (code_store_writes s) a of
       Some bs \<Rightarrow> ABytes (Some bs)
     | None \<Rightarrow> (case fmlookup (code_writes s) a of Some bs \<Rightarrow> ABytes (Some bs) | None \<Rightarrow> base (QCode a)))"

lemma scr_runs:
  "im_run b (scr_read s c k) st x = ((case overlay s (im_answer st) (QRead c k) of ABytes v \<Rightarrow> v | _ \<Rightarrow> None), st, x)"
  "im_run b (scr_exists s c k) st x = (overlay s (im_answer st) (QExists c k) = ABool True, st, x)"
  "im_run b (scr_balance s a) st x = ((case overlay s (im_answer st) (QBalance a) of AAmount v \<Rightarrow> v | _ \<Rightarrow> amount_zero), st, x)"
  "im_run b (scr_nonce s a) st x = ((case overlay s (im_answer st) (QNonce a) of ANonce v \<Rightarrow> v | _ \<Rightarrow> 0), st, x)"
  "im_run b (scr_code s a) st x = ((case overlay s (im_answer st) (QCode a) of ABytes v \<Rightarrow> v | _ \<Rightarrow> None), st, x)"
  by (auto simp: scr_read_def scr_exists_def scr_balance_def scr_nonce_def scr_code_def
      sv_read_def sv_exists_def sv_balance_def sv_nonce_def sv_code_def split: option.splits)

text \<open>
  A loop of writes on the in-memory view. \<open>loop_puts\<close> reads the result of a loop over a map: at a key of
  the map what the step puts there, elsewhere what was there.
\<close>

lemma im_run_for:
  assumes "\<And>e st. im_run b (f e) st x = ((), g e st, x)"
  shows "im_run b (prog_for f xs) st x = ((), fold g xs st, x)"
  by (induction xs arbitrary: st) (simp_all add: im_run_bind assms)

lemma loop_puts:
  assumes "\<And>k v st a. fmlookup (proj (g (k, v) st)) a = (if a = k then h k v (fmlookup (proj st) a) else fmlookup (proj st) a)"
  shows "fmlookup (proj (fold g (btree_list m) st)) a =
    (case fmlookup m a of Some v \<Rightarrow> h a v (fmlookup (proj st) a) | None \<Rightarrow> fmlookup (proj st) a)"
proof -
  have "distinct ks \<Longrightarrow> fmlookup (proj (fold g (map (\<lambda>k. (k, the (fmlookup m k))) ks) st)) a =
    (if a \<in> set ks then h a (the (fmlookup m a)) (fmlookup (proj st) a) else fmlookup (proj st) a)" for ks
    by (induction ks arbitrary: st) (auto simp: assms)
  from this[of "btree_keys m"] show ?thesis by (auto simp: btree_list_def fmlookup_dom_iff split: option.splits)
qed

lemma loop_keeps:
  assumes "\<And>e st. proj (g e st) = proj st"
  shows "proj (fold g xs st) = proj st"
  by (induction xs arbitrary: st) (auto simp: assms)

lemmas sv_updates = sv_write_def sv_delete_def sv_set_balance_def sv_set_nonce_def sv_set_code_def

fun flushed_storage :: "(address \<times> bytes) \<times> bytes option \<Rightarrow> in_memory_state_view \<Rightarrow> in_memory_state_view" where
  "flushed_storage (key, Some v) st = st\<lparr>im_storage := fmupd key v (im_storage st)\<rparr>"
| "flushed_storage (key, None) st = st\<lparr>im_storage := fmdrop key (im_storage st)\<rparr>"

fun flushed_balance :: "address \<times> amount \<Rightarrow> in_memory_state_view \<Rightarrow> in_memory_state_view" where
  "flushed_balance (a, y) st = st\<lparr>im_balances := fmupd a y (im_balances st)\<rparr>"

fun flushed_nonce :: "address \<Rightarrow> address \<times> u64 \<Rightarrow> in_memory_state_view \<Rightarrow> in_memory_state_view" where
  "flushed_nonce sender (a, n) st = (if a \<noteq> sender then st\<lparr>im_nonces := fmupd a n (im_nonces st)\<rparr> else st)"

fun flushed_code :: "hasher \<Rightarrow> address \<times> bytes \<Rightarrow> in_memory_state_view \<Rightarrow> in_memory_state_view" where
  "flushed_code b (a, bs) st = im_update b st (Code a) (VCode (Some bs))"

definition flushed_pointer :: "hasher \<Rightarrow> (hash, bytes) fmap \<Rightarrow> address \<times> hash \<Rightarrow> in_memory_state_view \<Rightarrow> in_memory_state_view" where
  "flushed_pointer b store e st = (case fmlookup store (snd e) of Some bs \<Rightarrow> flushed_code b (fst e, bs) st | None \<Rightarrow> st)"

lemma loop_steps:
  "im_run b (flush_storage e1) st x = ((), flushed_storage e1 st, x)"
  "im_run b (sv_set_balance (fst e2) (snd e2)) st x = ((), flushed_balance e2 st, x)"
  "im_run b (flush_nonce sender e3) st x = ((), flushed_nonce sender e3 st, x)"
  "im_run b (sv_set_code (fst e4) (snd e4)) st x = ((), flushed_code b e4 st, x)"
  "im_run b (flush_pointer store e5) st x = ((), flushed_pointer b store e5 st, x)"
proof -
  show "im_run b (flush_storage e1) st x = ((), flushed_storage e1 st, x)"
    by (cases e1 rule: flush_storage.cases) (auto simp: sv_updates)
qed (cases e2; cases e3; cases e4; simp add: sv_updates flush_nonce_def flush_pointer_def flushed_pointer_def split: option.split)+

lemma loop_storage:
  "fmlookup (im_storage (fold flushed_storage (btree_list m) st)) key =
    (case fmlookup m key of Some v \<Rightarrow> v | None \<Rightarrow> fmlookup (im_storage st) key)"
  "im_balances (fold flushed_storage xs st) = im_balances st" "im_nonces (fold flushed_storage xs st) = im_nonces st"
  "im_code (fold flushed_storage xs st) = im_code st"
proof -
  have "fmlookup (im_storage (flushed_storage (k, v) st)) a = (if a = k then v else fmlookup (im_storage st) a)" for k v st a
    by (cases v) auto
  from loop_puts[where proj = im_storage, of flushed_storage "\<lambda>_ v _. v", OF this]
  show "fmlookup (im_storage (fold flushed_storage (btree_list m) st)) key =
    (case fmlookup m key of Some v \<Rightarrow> v | None \<Rightarrow> fmlookup (im_storage st) key)" .
next
  have keeps: "im_balances (flushed_storage e st) = im_balances st" "im_nonces (flushed_storage e st) = im_nonces st"
    "im_code (flushed_storage e st) = im_code st" for e st
    by (cases "(e, st)" rule: flushed_storage.cases; simp)+
  show "im_balances (fold flushed_storage xs st) = im_balances st" "im_nonces (fold flushed_storage xs st) = im_nonces st"
    "im_code (fold flushed_storage xs st) = im_code st"
    by (rule loop_keeps, rule keeps)+
qed

lemma loop_balances:
  "fmlookup (im_balances (fold flushed_balance (btree_list m) st)) a =
    (case fmlookup m a of Some y \<Rightarrow> Some y | None \<Rightarrow> fmlookup (im_balances st) a)"
  "im_storage (fold flushed_balance xs st) = im_storage st" "im_nonces (fold flushed_balance xs st) = im_nonces st"
  "im_code (fold flushed_balance xs st) = im_code st"
  by (rule loop_puts[where proj = im_balances and h = "\<lambda>_ y _. Some y"], simp) (rule loop_keeps, auto)+

lemma loop_nonces:
  "fmlookup (im_nonces (fold (flushed_nonce sender) (btree_list m) st)) a = (if a = sender then fmlookup (im_nonces st) a
     else case fmlookup m a of Some y \<Rightarrow> Some y | None \<Rightarrow> fmlookup (im_nonces st) a)"
  "im_storage (fold (flushed_nonce sender) xs st) = im_storage st" "im_balances (fold (flushed_nonce sender) xs st) = im_balances st"
  "im_code (fold (flushed_nonce sender) xs st) = im_code st"
  using loop_puts[where proj = im_nonces and g = "flushed_nonce sender" and h = "\<lambda>k y o'. if k = sender then o' else Some y", of m st a]
  by (auto split: option.splits intro: loop_keeps)

lemma loop_code:
  "fmlookup (im_code (fold (flushed_code b) (btree_list m) st)) a =
    (case fmlookup m a of Some y \<Rightarrow> Some y | None \<Rightarrow> fmlookup (im_code st) a)"
  "im_storage (fold (flushed_code b) xs st) = im_storage st" "im_nonces (fold (flushed_code b) xs st) = im_nonces st"
  "im_balances (fold (flushed_code b) xs st) = im_balances st"
  by (rule loop_puts[where proj = im_code and h = "\<lambda>_ y _. Some y"], simp) (rule loop_keeps, auto)+

lemma loop_pointers:
  "fmlookup (im_code (fold (flushed_pointer b store) (btree_list m) st)) a =
    (case thin_pointer m store a of Some y \<Rightarrow> Some y | None \<Rightarrow> fmlookup (im_code st) a)"
  "im_storage (fold (flushed_pointer b store) xs st) = im_storage st" "im_nonces (fold (flushed_pointer b store) xs st) = im_nonces st"
  "im_balances (fold (flushed_pointer b store) xs st) = im_balances st"
proof -
  have "fmlookup (im_code (flushed_pointer b store (k, h) st)) a =
      (if a = k then (case fmlookup store h of Some bs \<Rightarrow> Some bs | None \<Rightarrow> fmlookup (im_code st) a)
       else fmlookup (im_code st) a)" for k h st a
    by (auto simp: flushed_pointer_def split: option.split)
  from loop_puts[where proj = im_code, of "flushed_pointer b store" "\<lambda>_ h o'. case fmlookup store h of Some bs \<Rightarrow> Some bs | None \<Rightarrow> o'", OF this]
  show "fmlookup (im_code (fold (flushed_pointer b store) (btree_list m) st)) a =
    (case thin_pointer m store a of Some y \<Rightarrow> Some y | None \<Rightarrow> fmlookup (im_code st) a)"
    by (auto simp: thin_pointer_def split: option.split)
qed (rule loop_keeps; simp add: flushed_pointer_def split: option.split)+

lemmas loops = loop_storage loop_balances loop_nonces loop_code loop_pointers

lemma commit_run:
  "im_run b (commit_with_nonce s sender) st x = im_run b (advance_nonce sender)
    (fold (flushed_pointer b (code_store_writes s)) (btree_list (code_hash_writes s))
     (fold (flushed_code b) (btree_list (code_writes s)) (fold (flushed_nonce sender) (btree_list (nonce_writes s))
      (fold flushed_balance (btree_list (balance_writes s)) (fold flushed_storage (btree_list (storage_writes s)) st))))) x"
  by (simp add: commit_with_nonce_def im_run_bind im_run_for[OF loop_steps(1)] im_run_for[OF loop_steps(2)]
      im_run_for[OF loop_steps(3)] im_run_for[OF loop_steps(4)] im_run_for[OF loop_steps(5)])

lemma commit_answers:
  assumes "im_run b (commit_with_nonce s sender) st x = (u, st', x')"
  shows "x' = x"
    and "q \<noteq> QNonce sender \<Longrightarrow> im_answer st' q = overlay s (im_answer st) q"
    and "im_answer st' (QNonce sender) = ANonce (saturating_add (case im_answer st (QNonce sender) of ANonce n \<Rightarrow> n | _ \<Rightarrow> 0) 1)"
proof -
  note run = assms[unfolded commit_run advance_nonce_def sv_nonce_def sv_set_nonce_def, simplified]
  show "x' = x" using run by simp
  show "im_answer st' (QNonce sender) = ANonce (saturating_add (case im_answer st (QNonce sender) of ANonce n \<Rightarrow> n | _ \<Rightarrow> 0) 1)"
    using run by (auto simp: loops)
  show "im_answer st' q = overlay s (im_answer st) q" if "q \<noteq> QNonce sender"
    using run that by (cases q) (auto simp: loops split: option.splits)
qed

lemma snapshot_merge: "merge_snapshot s (scr_snapshot s) = s"
proof -
  have fold: "fmlookup (fold (\<lambda>k. fmupd k None) ks m) k = (if k \<in> set ks then Some None else fmlookup m k)" for ks m k
    by (induction ks arbitrary: m) auto
  have "storage_writes (merge_snapshot s (scr_snapshot s)) = storage_writes s"
    by (intro fmap_ext) (auto simp: merge_snapshot_def scr_snapshot_def fold fmlookup_dom_iff split: option.splits)
  moreover have "m ++\<^sub>f m = m" for m :: "('x, 'y) fmap" by (intro fmap_ext) (auto split: option.splits)
  ultimately show ?thesis by (simp add: merge_snapshot_def scr_snapshot_def)
qed

end
