(* ===== verification/Vm_Host.thy ===== *)
theory Vm_Host
  imports Vm_Scratch
begin

section \<open>Contract execution\<close>

text \<open>
  \<^verbatim>\<open>lemma-vm/src/host.rs\<close>, \<^verbatim>\<open>executor/linker.rs\<close>, \<^verbatim>\<open>executor/call.rs\<close>: the host functions a contract calls, the
  linker that gives them to the engine, and calls between contracts.

  The engine (wasmtime) is a parameter. What a compiled module does is a tree of the host calls it
  makes, of type \<open>'a guest\<close>: instructions burn fuel, a host call shows the host the module's memory
  and continues with the result and the memory the host left. Instantiation is such a tree too (a
  start function may run); it ends with the instance, the entry points by name. Runs are finite
  because every instruction burns fuel. Texts of errors are shortened.
\<close>

subsection \<open>Guests\<close>

datatype call_mode = NormalCall | StaticCall | DelegateCall

datatype host_call =
    HBlockHeight
  | HBlockTimestamp
  | HGasRemaining
  | HMsgValue
  | HMsgSender u32
  | HInput u32
  | HRegisterLen u32
  | HReadRegister u32 u32
  | HStorageRead u32 u32 u32
  | HStorageWrite u32 u32 u32 u32
  | HStorageDelete u32 u32
  | HEmitEvent u32 u32 u32 u32
  | HTransfer u32 u32 u64
  | HValueReturn u32 u32
  | HCall call_mode u32 u32 u32 u64

datatype host_return = RUnit | RI32 u32 | RI64 u64

datatype trap = OutOfFuel | TrapStackOverflow | OtherTrap string

datatype 'a guest =
    GReturn 'a
  | GTrap trap
  | GBurn u64 "'a guest"
  | GHost "bytes option" host_call "host_return \<times> bytes option \<Rightarrow> 'a guest"

text \<open>An instance by its functions of type \<open>() \<rightarrow> ()\<close>; a module also tells which names it exports as functions.\<close>

type_synonym wasm_instance = "string \<Rightarrow> unit guest option"

record wasm_module =
  wm_link :: "string + unit"
  wm_start :: "wasm_instance guest"
  wm_exports_func :: "string \<Rightarrow> bool"

text \<open>The metadata section of a contract, as \<open>wasmparser\<close> and \<open>serde_json\<close> read it.\<close>

record contract_metadata =
  md_safety_constraints :: "safety_constraint list option"
  md_host_abi :: "u32 option"

record wasm_env =
  wv_schedule :: gas_schedule
  wv_compile :: "bytes \<Rightarrow> string + wasm_module"
  wv_metadata :: "bytes \<Rightarrow> contract_metadata option"

definition parse_safety_manifest :: "wasm_env \<Rightarrow> bytes \<Rightarrow> safety_constraint list" where
  "parse_safety_manifest env code =
     (case wv_metadata env code of
       Some m \<Rightarrow> (case md_safety_constraints m of Some cs \<Rightarrow> cs | None \<Rightarrow> [])
     | None \<Rightarrow> [])"

definition parse_host_abi :: "wasm_env \<Rightarrow> bytes \<Rightarrow> u32" where
  "parse_host_abi env code =
     (case wv_metadata env code of
       Some m \<Rightarrow> (case md_host_abi m of Some n \<Rightarrow> n | None \<Rightarrow> 1)
     | None \<Rightarrow> 1)"

definition MAX_SUPPORTED_HOST_ABI :: u32 where
  "MAX_SUPPORTED_HOST_ABI = 1"

definition compile_module :: "wasm_env \<Rightarrow> bytes \<Rightarrow> vm_error + wasm_module" where
  "compile_module env code = map_err CompilationFailed (wv_compile env code)"

subsection \<open>Host state\<close>

record block_context =
  bc_height :: u64
  bc_timestamp :: u64
  bc_msg_sender :: address
  bc_msg_value :: amount
  bc_tx_origin :: address
  bc_contract :: address
  bc_epoch :: u64
  bc_active_features :: "u32 fset"

record call_context =
  cc_depth :: u32
  cc_active :: "address fset"

definition MAX_CALL_DEPTH :: u32 where
  "MAX_CALL_DEPTH = 64"

definition call_context_new :: call_context where
  "call_context_new = \<lparr>cc_depth = 0, cc_active = {||}\<rparr>"

definition enter_call :: "call_context \<Rightarrow> address \<Rightarrow> vm_error + call_context" where
  "enter_call cx callee =
     (if cc_depth cx \<ge> MAX_CALL_DEPTH then Inl CallDepthExceeded
      else if callee |\<in>| cc_active cx then Inl (Reentrancy callee)
      else Inr (cx\<lparr>cc_depth := cc_depth cx + 1, cc_active := finsert callee (cc_active cx)\<rparr>))"

definition exit_call :: "call_context \<Rightarrow> address \<Rightarrow> call_context" where
  "exit_call cx callee = cx\<lparr>cc_depth := saturating_sub (cc_depth cx) 1, cc_active := cc_active cx |-| {|callee|}\<rparr>"

record host_state =
  hs_meter :: fuel_meter
  hs_schedule :: gas_schedule
  hs_call_ctx :: call_context
  hs_block :: block_context
  hs_state :: snapshot
  hs_events :: "log list"
  hs_warm_keys :: "(address \<times> bytes) fset"
  hs_registers :: "(u32, bytes) fmap"
  hs_calldata :: bytes
  hs_return_data :: bytes

definition host_new :: "fuel_meter \<Rightarrow> gas_schedule \<Rightarrow> call_context \<Rightarrow> block_context \<Rightarrow> snapshot \<Rightarrow> bytes \<Rightarrow> host_state" where
  "host_new meter sched cx block state calldata =
     \<lparr>hs_meter = meter, hs_schedule = sched, hs_call_ctx = cx, hs_block = block, hs_state = state, hs_events = [],
      hs_warm_keys = {||}, hs_registers = fmempty, hs_calldata = calldata, hs_return_data = []\<rparr>"

definition is_warm :: "host_state \<Rightarrow> bytes \<Rightarrow> bool" where
  "is_warm h key \<longleftrightarrow> (bc_contract (hs_block h), key) |\<in>| hs_warm_keys h"

definition mark_warm :: "bytes \<Rightarrow> host_state \<Rightarrow> host_state" where
  "mark_warm key h = h\<lparr>hs_warm_keys := finsert (bc_contract (hs_block h), key) (hs_warm_keys h)\<rparr>"

subsection \<open>Host functions\<close>

text \<open>Each returns its result and the host it leaves, also on an error.\<close>

type_synonym 'a hosted = "((vm_error + 'a) \<times> host_state) prog"

definition charged :: "(fuel_meter \<Rightarrow> vm_error + fuel_meter) \<Rightarrow> host_state \<Rightarrow> (host_state \<Rightarrow> 'a hosted) \<Rightarrow> 'a hosted" where
  "charged f h k = (case f (hs_meter h) of Inl e \<Rightarrow> Ret (Inl e, h) | Inr m \<Rightarrow> k (h\<lparr>hs_meter := m\<rparr>))"

definition storage_read :: "host_state \<Rightarrow> bytes \<Rightarrow> bytes option hosted" where
  "storage_read h key =
     charged (\<lambda>m. charge m (if is_warm h key then storage_read_warm (hs_schedule h) else storage_read_cold (hs_schedule h))) h (\<lambda>h.
     prog_bind (sn_read (hs_state h) (bc_contract (hs_block h)) key) (\<lambda>v. Ret (Inr v, mark_warm key h)))"

definition storage_write :: "host_state \<Rightarrow> bytes \<Rightarrow> bytes \<Rightarrow> unit hosted" where
  "storage_write h key v =
     prog_bind (sn_exists (hs_state h) (bc_contract (hs_block h)) key) (\<lambda>ex.
     charged (\<lambda>m. charge m (if ex then storage_write_update (hs_schedule h) else storage_write_create (hs_schedule h))) h (\<lambda>h.
     Ret (Inr (), mark_warm key (h\<lparr>hs_state := sn_write (hs_state h) (bc_contract (hs_block h)) key v\<rparr>))))"

definition storage_delete :: "host_state \<Rightarrow> bytes \<Rightarrow> unit hosted" where
  "storage_delete h key =
     charged (\<lambda>m. charge m (gs_storage_delete (hs_schedule h))) h (\<lambda>h.
     Ret (Inr (), mark_warm key (h\<lparr>hs_state := sn_delete (hs_state h) (bc_contract (hs_block h)) key,
       hs_meter := gas_refund (hs_meter h) (storage_delete_refund (hs_schedule h))\<rparr>)))"

definition host_transfer :: "host_state \<Rightarrow> address \<Rightarrow> amount \<Rightarrow> unit hosted" where
  "host_transfer h recipient amt =
     charged (\<lambda>m. charge m (call_value_transfer (hs_schedule h))) h (\<lambda>h.
     let from = bc_contract (hs_block h) in
     prog_bind (sn_balance (hs_state h) from) (\<lambda>from_balance.
     case amount_sub from_balance amt of
       Inl _ \<Rightarrow> Ret (Inl (InsufficientFunds amt from_balance), h)
     | Inr new_from \<Rightarrow>
         let h1 = h\<lparr>hs_state := sn_set_balance (hs_state h) from new_from\<rparr> in
         prog_bind (sn_balance (hs_state h1) recipient) (\<lambda>to_balance.
         case amount_add to_balance amt of
           Inl _ \<Rightarrow> Ret (Inl (InvalidParameter ''transfer: recipient balance overflow''),
             h1\<lparr>hs_state := sn_set_balance (hs_state h1) from from_balance\<rparr>)
         | Inr new_to \<Rightarrow> Ret (Inr (), h1\<lparr>hs_state := sn_set_balance (hs_state h1) recipient new_to\<rparr>))))"

definition balance_of :: "host_state \<Rightarrow> address \<Rightarrow> amount hosted" where
  "balance_of h a =
     charged (\<lambda>m. charge m (storage_read_cold (hs_schedule h))) h (\<lambda>h.
     prog_bind (sn_balance (hs_state h) a) (\<lambda>x. Ret (Inr x, h)))"

definition host_hash_blake3 :: "hasher \<Rightarrow> host_state \<Rightarrow> bytes \<Rightarrow> hash hosted" where
  "host_hash_blake3 blake3 h dat =
     charged (\<lambda>m. charge_per_byte m (hash_blake3_base (hs_schedule h)) (hash_blake3_per_byte (hs_schedule h)) (length dat)) h
       (\<lambda>h. Ret (Inr (blake3 dat), h))"

definition host_hash_keccak256 :: "hasher \<Rightarrow> host_state \<Rightarrow> bytes \<Rightarrow> hash hosted" where
  "host_hash_keccak256 keccak256 h dat =
     charged (\<lambda>m. charge_per_byte m (hash_keccak256_base (hs_schedule h)) (hash_keccak256_per_byte (hs_schedule h)) (length dat)) h
       (\<lambda>h. Ret (Inr (keccak256 dat), h))"

definition emit_event :: "host_state \<Rightarrow> hash list \<Rightarrow> bytes \<Rightarrow> unit hosted" where
  "emit_event h topics dat =
     charged (\<lambda>m. charge_per_byte m (emit_event_base (hs_schedule h)) (emit_event_per_byte (hs_schedule h)) (length dat)) h
       (\<lambda>h. Ret (Inr (), h\<lparr>hs_events := hs_events h @
          [\<lparr>log_address = bc_contract (hs_block h), log_topics = topics, log_data = dat\<rparr>]\<rparr>))"

subsection \<open>The linker\<close>

datatype wasm_error = WTrap trap | WMsg string

definition charge_fuel :: "u64 \<Rightarrow> u64 \<Rightarrow> wasm_error + u64" where
  "charge_fuel fuel cost = ok_or (checked_sub fuel cost) (WMsg ''out of gas'')"

definition copy_fuel :: "gas_schedule \<Rightarrow> nat \<Rightarrow> u64 \<Rightarrow> wasm_error + u64" where
  "copy_fuel sched len fuel =
     rbind (ok_or (checked_mul (memory_copy_per_byte sched) (of_nat len)) (WMsg ''memory copy gas overflow'')) (charge_fuel fuel)"

definition get_memory :: "bytes option \<Rightarrow> wasm_error + bytes" where
  "get_memory mem = ok_or mem (WMsg ''contract must export memory'')"

definition read_guest_bytes :: "gas_schedule \<Rightarrow> bytes \<Rightarrow> u32 \<Rightarrow> u32 \<Rightarrow> u64 \<Rightarrow> wasm_error + bytes \<times> u64" where
  "read_guest_bytes sched mem ptr len fuel =
     rbind (copy_fuel sched (unat len) fuel) (\<lambda>fuel'.
     if unat ptr + unat len \<le> length mem then Inr (take (unat len) (drop (unat ptr) mem), fuel')
     else Inl (WMsg ''memory read out of bounds''))"

definition write_guest_bytes :: "gas_schedule \<Rightarrow> bytes \<Rightarrow> u32 \<Rightarrow> bytes \<Rightarrow> u64 \<Rightarrow> wasm_error + bytes \<times> u64" where
  "write_guest_bytes sched mem ptr bs fuel =
     rbind (copy_fuel sched (length bs) fuel) (\<lambda>fuel'.
     if unat ptr + length bs \<le> length mem
     then Inr (take (unat ptr) mem @ bs @ drop (unat ptr + length bs) mem, fuel')
     else Inl (WMsg ''memory write out of bounds''))"

text \<open>What a host function leaves: its value, the memory, the host and the fuel of the store.\<close>

type_synonym linked = "(wasm_error + host_return \<times> bytes option \<times> host_state \<times> u64) prog"

abbreviation linked_error :: "wasm_error \<Rightarrow> linked" where
  "linked_error e \<equiv> Ret (Inl e)"

definition try_with :: "wasm_error + 'a \<Rightarrow> ('a \<Rightarrow> linked) \<Rightarrow> linked" where
  "try_with r k = (case r of Inl e \<Rightarrow> linked_error e | Inr x \<Rightarrow> k x)"

text \<open>The meter takes over the fuel of the store for the call, and gives back what remains.\<close>

definition set_remaining :: "host_state \<Rightarrow> u64 \<Rightarrow> host_state" where
  "set_remaining h fuel = h\<lparr>hs_meter := (hs_meter h)\<lparr>fm_remaining := fuel\<rparr>\<rparr>"

definition synced :: "(host_state \<Rightarrow> 'a hosted) \<Rightarrow> host_state \<Rightarrow> u64 \<Rightarrow> (vm_error + 'a \<Rightarrow> host_state \<Rightarrow> wasm_error + host_return \<times> host_state) \<Rightarrow> bytes option \<Rightarrow> linked" where
  "synced f h fuel fin mem =
     prog_bind (f (set_remaining h fuel)) (\<lambda>(r, h').
     Ret (map_sum id (\<lambda>(v, h''). (v, mem, h'', fm_remaining (hs_meter h'))) (fin r h')))"

definition or_trap :: "vm_error + 'a \<Rightarrow> host_state \<Rightarrow> wasm_error + host_return \<times> host_state" where
  "or_trap r h = (case r of Inl e \<Rightarrow> Inl (WMsg ''host error'') | Inr _ \<Rightarrow> Inr (RUnit, h))"

definition address_of_bytes :: "bytes \<Rightarrow> address" where
  "address_of_bytes bs = word_rcat bs"

fun chunks32 :: "bytes \<Rightarrow> hash list" where
  "chunks32 bs = (if length bs < 32 then [] else word_rcat (take 32 bs) # chunks32 (drop 32 bs))"

declare chunks32.simps [simp del]

definition context_query_fuel :: "host_state \<Rightarrow> u64 \<Rightarrow> wasm_error + u64" where
  "context_query_fuel h fuel = charge_fuel fuel (context_query (hs_schedule h))"

definition unwind_call :: "host_state \<Rightarrow> address \<Rightarrow> host_state" where
  "unwind_call h a = h\<lparr>hs_call_ctx := exit_call (hs_call_ctx h) a\<rparr>"

definition callee_block :: "call_mode \<Rightarrow> address \<Rightarrow> block_context \<Rightarrow> block_context" where
  "callee_block mode a block =
     (if mode = DelegateCall then block else block\<lparr>bc_contract := a, bc_msg_sender := bc_contract block\<rparr>)"

definition accept_callee :: "call_mode \<Rightarrow> host_state \<Rightarrow> host_state \<Rightarrow> host_state" where
  "accept_callee mode caller callee =
     (let h = (if mode = StaticCall then caller
               else caller\<lparr>hs_state := merge_into (hs_state callee) (hs_state caller), hs_events := hs_events caller @ hs_events callee\<rparr>)
      in h\<lparr>hs_registers := fmupd 0 (hs_return_data callee) (hs_registers h)\<rparr>)"

text \<open>\<open>run\<close> stands for \<open>run_wasm_call\<close>, the engine on the callee.\<close>

type_synonym runner = "u32 \<Rightarrow> wasm_module \<Rightarrow> host_state \<Rightarrow> (vm_error + gas \<times> host_state) prog"

definition dispatch_call ::
  "wasm_env \<Rightarrow> runner \<Rightarrow> call_mode \<Rightarrow> address \<Rightarrow> bytes \<Rightarrow> u64 \<Rightarrow> bytes option \<Rightarrow> host_state \<Rightarrow> u64 \<Rightarrow> linked" where
  "dispatch_call env run mode a calldata gas_arg mem h0 fuel =
     (let h = set_remaining h0 fuel in
      case enter_call (hs_call_ctx h) a of
        Inl e \<Rightarrow> linked_error (WMsg ''call refused'')
      | Inr cx \<Rightarrow> (case charge (hs_meter h) (call_base (hs_schedule h)) of
          Inl e \<Rightarrow> linked_error (WMsg ''out of gas'')
        | Inr m1 \<Rightarrow>
            let requested = (if sint gas_arg < 0 then 0 else gas_arg);
                to_callee = min requested (gas_forwardable (fm_remaining m1)) in
            (case charge m1 to_callee of
              Inl e \<Rightarrow> linked_error (WMsg ''out of gas'')
            | Inr m2 \<Rightarrow>
                let h2 = h\<lparr>hs_meter := m2, hs_call_ctx := cx\<rparr>;
                    failed = Inr (RI32 (- 1), mem, unwind_call h2 a, fm_remaining m2) in
                prog_bind (sn_get_code (hs_state h2) a) (\<lambda>code.
                case code of
                  None \<Rightarrow> Ret failed
                | Some bytecode \<Rightarrow> (case compile_module env bytecode of
                    Inl e \<Rightarrow> linked_error (WMsg ''compilation failed'')
                  | Inr module \<Rightarrow>
                      prog_bind (run (parse_host_abi env bytecode) module
                        (host_new (meter_new to_callee) (hs_schedule h2) (hs_call_ctx h2)
                          (callee_block mode a (hs_block h2)) (hs_state h2) calldata)) (\<lambda>r.
                      Ret (case r of
                        Inl e \<Rightarrow> failed
                      | Inr (_, callee) \<Rightarrow> Inr (RI32 0, mem, unwind_call (accept_callee mode h2 callee) a, fm_remaining m2))))))))"

fun link_call :: "wasm_env \<Rightarrow> runner \<Rightarrow> bytes option \<Rightarrow> host_call \<Rightarrow> host_state \<Rightarrow> u64 \<Rightarrow> linked" where
  "link_call env run mem HBlockHeight h fuel =
     try_with (context_query_fuel h fuel) (\<lambda>f. Ret (Inr (RI64 (bc_height (hs_block h)), mem, h, f)))"
| "link_call env run mem HBlockTimestamp h fuel =
     try_with (context_query_fuel h fuel) (\<lambda>f. Ret (Inr (RI64 (bc_timestamp (hs_block h)), mem, h, f)))"
| "link_call env run mem HGasRemaining h fuel = Ret (Inr (RI64 fuel, mem, h, fuel))"
| "link_call env run mem HMsgValue h fuel =
     try_with (context_query_fuel h fuel) (\<lambda>f. Ret (Inr (RI64 (ucast (bc_msg_value (hs_block h))), mem, h, f)))"
| "link_call env run mem (HMsgSender reg) h fuel =
     try_with (context_query_fuel h fuel) (\<lambda>f.
     Ret (Inr (RUnit, mem, h\<lparr>hs_registers := fmupd reg (to_be_bytes (bc_msg_sender (hs_block h))) (hs_registers h)\<rparr>, f)))"
| "link_call env run mem (HInput reg) h fuel =
     try_with (copy_fuel (hs_schedule h) (length (hs_calldata h)) fuel) (\<lambda>f.
     Ret (Inr (RUnit, mem, h\<lparr>hs_registers := fmupd reg (hs_calldata h) (hs_registers h)\<rparr>, f)))"
| "link_call env run mem (HRegisterLen reg) h fuel =
     Ret (Inr (RI64 (case fmlookup (hs_registers h) reg of Some v \<Rightarrow> of_nat (length v) | None \<Rightarrow> - 1), mem, h, fuel))"
| "link_call env run mem (HReadRegister reg ptr) h fuel =
     try_with (get_memory mem) (\<lambda>m.
     try_with (ok_or (fmlookup (hs_registers h) reg) (WMsg ''read_register: register not set'')) (\<lambda>dat.
     try_with (write_guest_bytes (hs_schedule h) m ptr dat fuel) (\<lambda>(m', f). Ret (Inr (RUnit, Some m', h, f)))))"
| "link_call env run mem (HStorageRead ptr len reg) h fuel =
     try_with (get_memory mem) (\<lambda>m.
     try_with (read_guest_bytes (hs_schedule h) m ptr len fuel) (\<lambda>(key, f).
     synced (\<lambda>h. storage_read h key) h f (\<lambda>r h'. case r of
         Inl e \<Rightarrow> Inl (WMsg ''host error'')
       | Inr (Some v) \<Rightarrow> Inr (RI32 0, h'\<lparr>hs_registers := fmupd reg v (hs_registers h')\<rparr>)
       | Inr None \<Rightarrow> Inr (RI32 (- 1), h')) mem))"
| "link_call env run mem (HStorageWrite kptr klen vptr vlen) h fuel =
     try_with (get_memory mem) (\<lambda>m.
     try_with (read_guest_bytes (hs_schedule h) m kptr klen fuel) (\<lambda>(key, f).
     try_with (read_guest_bytes (hs_schedule h) m vptr vlen f) (\<lambda>(v, f').
     synced (\<lambda>h. storage_write h key v) h f' or_trap mem)))"
| "link_call env run mem (HStorageDelete ptr len) h fuel =
     try_with (get_memory mem) (\<lambda>m.
     try_with (read_guest_bytes (hs_schedule h) m ptr len fuel) (\<lambda>(key, f).
     synced (\<lambda>h. storage_delete h key) h f or_trap mem))"
| "link_call env run mem (HEmitEvent tptr tlen dptr dlen) h fuel =
     try_with (get_memory mem) (\<lambda>m.
     try_with (read_guest_bytes (hs_schedule h) m tptr tlen fuel) (\<lambda>(topics, f).
     try_with (read_guest_bytes (hs_schedule h) m dptr dlen f) (\<lambda>(dat, f').
     if length topics mod 32 \<noteq> 0 then linked_error (WMsg ''emit_event: topics_len must be a multiple of 32'')
     else synced (\<lambda>h. emit_event h (chunks32 topics) dat) h f' or_trap mem)))"
| "link_call env run mem (HTransfer ptr len amt) h fuel =
     try_with (get_memory mem) (\<lambda>m.
     try_with (read_guest_bytes (hs_schedule h) m ptr len fuel) (\<lambda>(a, f).
     if length a \<noteq> 20 then linked_error (WMsg ''transfer: address must be exactly 20 bytes'')
     else if sint amt < 0 then linked_error (WMsg ''transfer: negative amount'')
     else synced (\<lambda>h. host_transfer h (address_of_bytes a) (ucast amt)) h f (\<lambda>r h'. case r of
         Inr _ \<Rightarrow> Inr (RI32 0, h')
       | Inl (InsufficientFunds _ _) \<Rightarrow> Inr (RI32 1, h')
       | Inl e \<Rightarrow> Inl (WMsg ''host error'')) mem))"
| "link_call env run mem (HValueReturn ptr len) h fuel =
     try_with (get_memory mem) (\<lambda>m.
     try_with (read_guest_bytes (hs_schedule h) m ptr len fuel) (\<lambda>(dat, f).
     Ret (Inr (RUnit, mem, h\<lparr>hs_return_data := dat\<rparr>, f))))"
| "link_call env run mem (HCall mode ptr len reg gas_arg) h fuel =
     try_with (get_memory mem) (\<lambda>m.
     try_with (read_guest_bytes (hs_schedule h) m ptr len fuel) (\<lambda>(a, f).
     if length a \<noteq> 20 then linked_error (WMsg ''call: address must be 20 bytes'')
     else dispatch_call env run mode (address_of_bytes a)
       (case fmlookup (hs_registers h) reg of Some dat \<Rightarrow> dat | None \<Rightarrow> []) gas_arg mem h f))"

subsection \<open>Running a module\<close>

primrec run_guest :: "wasm_env \<Rightarrow> runner \<Rightarrow> 'a guest \<Rightarrow> host_state \<Rightarrow> u64 \<Rightarrow> (wasm_error + 'a \<times> host_state \<times> u64) prog" where
  "run_guest env run (GReturn x) h fuel = Ret (Inr (x, h, fuel))"
| "run_guest env run (GTrap t) h fuel = Ret (Inl (WTrap t))"
| "run_guest env run (GBurn n g) h fuel = (if n \<le> fuel then run_guest env run g h (fuel - n) else Ret (Inl (WTrap OutOfFuel)))"
| "run_guest env run (GHost mem hc k) h fuel =
     prog_bind (link_call env run mem hc h fuel) (\<lambda>r. case r of
       Inl e \<Rightarrow> Ret (Inl e)
     | Inr (v, mem', h', fuel') \<Rightarrow> run_guest env run (k (v, mem')) h' fuel')"

fun map_trap_to_vm_error :: "wasm_error \<Rightarrow> vm_error" where
  "map_trap_to_vm_error (WTrap OutOfFuel) = OutOfGas"
| "map_trap_to_vm_error (WTrap TrapStackOverflow) = StackOverflow"
| "map_trap_to_vm_error (WTrap (OtherTrap s)) = TrapUnknown s"
| "map_trap_to_vm_error (WMsg s) = TrapUnknown s"

definition build_linker_for_abi :: "u32 \<Rightarrow> vm_error + unit" where
  "build_linker_for_abi abi = (if abi = 1 then Inr () else Inl (UnsupportedHostAbi abi MAX_SUPPORTED_HOST_ABI))"

text \<open>
  Instantiation and the call of an entry point; \<open>absent\<close> is what a missing entry point gives:
  \<open>run_wasm_with_entry\<close> returns the host with no gas used, \<open>run_wasm_call\<close> fails.
\<close>

definition run_entry ::
  "wasm_env \<Rightarrow> runner \<Rightarrow> u32 \<Rightarrow> wasm_module \<Rightarrow> host_state \<Rightarrow> string \<Rightarrow> (host_state \<Rightarrow> vm_error + gas \<times> host_state) \<Rightarrow>
    (vm_error + gas \<times> host_state) prog" where
  "run_entry env run abi module h entry absent =
     (let initial_fuel = fm_remaining (hs_meter h) in
      case rbind (build_linker_for_abi abi) (\<lambda>_. map_err InstantiationFailed (wm_link module)) of
        Inl e \<Rightarrow> Ret (Inl e)
      | Inr _ \<Rightarrow> prog_bind (run_guest env run (wm_start module) h initial_fuel) (\<lambda>started. case started of
          Inl e \<Rightarrow> Ret (Inl (InstantiationFailed ''start function''))
        | Inr (inst, h1, f1) \<Rightarrow> (case inst entry of
            None \<Rightarrow> Ret (absent h1)
          | Some g \<Rightarrow> prog_bind (run_guest env run g h1 f1) (\<lambda>r. Ret (case r of
              Inl e \<Rightarrow> Inl (map_trap_to_vm_error e)
            | Inr (_, h2, f2) \<Rightarrow> Inr (saturating_sub initial_fuel f2, h2))))))"

definition ENTRY_POINT :: string where
  "ENTRY_POINT = ''call''"

definition INIT_ENTRY_POINT :: string where
  "INIT_ENTRY_POINT = ''init''"

text \<open>
  Calls nest at most \<open>MAX_CALL_DEPTH\<close> deep; the first argument counts the levels left, and
  \<open>call_levels_suffice\<close> below shows that the last equation is never reached from a transaction.
\<close>

fun run_wasm_call :: "nat \<Rightarrow> wasm_env \<Rightarrow> runner" where
  "run_wasm_call 0 env abi module h = Ret (Inl CallDepthExceeded)"
| "run_wasm_call (Suc n) env abi module h =
     run_entry env (run_wasm_call n env) abi module h ENTRY_POINT
       (\<lambda>_. Inl (InstantiationFailed ''no call export''))"

definition run_wasm_with_entry :: "wasm_env \<Rightarrow> u32 \<Rightarrow> wasm_module \<Rightarrow> host_state \<Rightarrow> string \<Rightarrow> (vm_error + gas \<times> host_state) prog" where
  "run_wasm_with_entry env abi module h entry =
     run_entry env (run_wasm_call (unat MAX_CALL_DEPTH) env) abi module h entry (\<lambda>h'. Inr (0, h'))"

end
