(* ===== verification/Warden.thy ===== *)
theory Warden
  imports Vm_Scratch "HOL-Library.Char_ord"
begin

section \<open>Agent policies\<close>

text \<open>
  \<^verbatim>\<open>lemma-core/src/agent.rs\<close>, \<^verbatim>\<open>lemma-vm/src/agent_registry.rs\<close> and \<^verbatim>\<open>lemma-vm/src/warden.rs\<close>: the spending policy an
  owner grants to a session key, and its enforcement before an agent's transaction runs. Policies are
  stored as JSON under a reserved address; \<open>serde_json\<close> is a parameter (\<open>warden_env\<close>). \<open>warden_check\<close> is
  generic in the state it reads, as in the source: \<open>state_ops\<close> gives the methods it uses.
\<close>

subsection \<open>Policies\<close>

datatype action =
    ActTransfer | ActContractCall | ActContractDeploy | ActStake | ActUnstake | ActGovernanceVote | ActPayAgent

type_synonym action_mask = "action fset"

definition permits :: "action_mask \<Rightarrow> action \<Rightarrow> bool" where
  "permits m a \<longleftrightarrow> a |\<in>| m"

datatype allow_list = AnyTarget | Specific "address fset"

fun allows :: "allow_list \<Rightarrow> address \<Rightarrow> bool" where
  "allows AnyTarget a = True"
| "allows (Specific targets) a = (a |\<in>| targets)"

record category_budget =
  cb_cap :: amount
  cb_spent :: amount
  cb_actions :: "action fset"

type_synonym category_caps = "(string, category_budget) fmap"

definition MAX_CATEGORIES :: nat where
  "MAX_CATEGORIES = 8"

definition cat_insert :: "category_caps \<Rightarrow> string \<Rightarrow> category_budget \<Rightarrow> bool \<times> category_caps" where
  "cat_insert cats name budget =
     (if btree_len cats \<ge> MAX_CATEGORIES then (False, cats) else (True, fmupd name budget cats))"

definition category_of :: "category_caps \<Rightarrow> action \<Rightarrow> string option" where
  "category_of cats a = find (\<lambda>name. a |\<in>| cb_actions (the (fmlookup cats name))) (btree_keys cats)"

definition cat_spent :: "category_caps \<Rightarrow> string \<Rightarrow> amount" where
  "cat_spent cats c = (case fmlookup cats c of Some b \<Rightarrow> cb_spent b | None \<Rightarrow> amount_zero)"

definition cat_cap :: "category_caps \<Rightarrow> string \<Rightarrow> amount" where
  "cat_cap cats c = (case fmlookup cats c of Some b \<Rightarrow> cb_cap b | None \<Rightarrow> amount_zero)"

definition add_spent :: "category_caps \<Rightarrow> string \<Rightarrow> amount \<Rightarrow> category_caps" where
  "add_spent cats c v = (case fmlookup cats c of
     Some b \<Rightarrow> fmupd c (b\<lparr>cb_spent := (case amount_add (cb_spent b) v of Inr x \<Rightarrow> x | Inl _ \<Rightarrow> - 1)\<rparr>) cats
   | None \<Rightarrow> cats)"

definition cat_reset_epoch :: "category_caps \<Rightarrow> category_caps" where
  "cat_reset_epoch cats = fmmap (\<lambda>b. b\<lparr>cb_spent := amount_zero\<rparr>) cats"

datatype kya_tier = KyaNone | Identified | Verified

fun kya_rank :: "kya_tier \<Rightarrow> nat" where
  "kya_rank KyaNone = 0"
| "kya_rank Identified = 1"
| "kya_rank Verified = 2"

instantiation kya_tier :: linorder
begin

definition less_eq_kya_tier :: "kya_tier \<Rightarrow> kya_tier \<Rightarrow> bool" where
  "less_eq_kya_tier x y \<longleftrightarrow> kya_rank x \<le> kya_rank y"

definition less_kya_tier :: "kya_tier \<Rightarrow> kya_tier \<Rightarrow> bool" where
  "less_kya_tier x y \<longleftrightarrow> kya_rank x < kya_rank y"

instance
proof
  fix x y :: kya_tier
  show "x \<le> y \<Longrightarrow> y \<le> x \<Longrightarrow> x = y" by (cases x; cases y) (auto simp: less_eq_kya_tier_def)
qed (auto simp: less_eq_kya_tier_def less_kya_tier_def)

end

record anomaly_config =
  an_enabled :: bool
  spike_ratio :: u16
  burst_ratio :: u16

record anomaly_history =
  avg_value_ema :: amount
  tx_count_this_epoch :: u16
  avg_tx_count_ema :: u16
  has_history :: bool
  seen_targets :: "address fset"

definition MAX_SEEN_TARGETS :: nat where
  "MAX_SEEN_TARGETS = 16"

definition ANOMALY_NOVEL_TARGET_HIGH_VALUE_PCT :: u16 where
  "ANOMALY_NOVEL_TARGET_HIGH_VALUE_PCT = 50"

definition anomaly_default :: anomaly_config where
  "anomaly_default = \<lparr>an_enabled = False, spike_ratio = 500, burst_ratio = 300\<rparr>"

definition history_default :: anomaly_history where
  "history_default = \<lparr>avg_value_ema = amount_zero, tx_count_this_epoch = 0, avg_tx_count_ema = 0,
     has_history = False, seen_targets = {||}\<rparr>"

record auto_revoke =
  max_violations_per_epoch :: u32
  violations_this_epoch :: u32

record agent_policy =
  ap_session_key :: bytes
  expiry_epoch :: u64
  budget_total :: amount
  per_tx_cap :: amount
  per_epoch_cap :: amount
  allowed_targets :: allow_list
  allowed_actions :: action_mask
  spent_total :: amount
  spent_this_epoch :: amount
  last_epoch :: u64
  refill_per_epoch :: amount
  budget_ceiling :: "amount option"
  categories :: category_caps
  active_window :: "(u64 \<times> u64) option"
  cosign_threshold :: "amount option"
  ap_auto_revoke :: auto_revoke
  anomaly :: anomaly_config
  history :: anomaly_history
  required_kya_tier :: kya_tier
  min_counterparty_reputation :: u16
  ap_kya_tier :: kya_tier

record agent_identity =
  id_owner :: address
  id_kya_tier :: kya_tier
  reputation_score :: u16

record mandate_receipt =
  mr_owner :: address
  mr_session_key :: bytes
  mr_policy_hash :: hash
  mr_action :: action
  mr_target :: "address option"
  mr_value :: amount
  mr_budget_remaining :: amount
  mr_epoch :: u64
  mr_kya_tier :: kya_tier
  mr_cosigned :: bool

datatype policy_violation =
    PolicyNotFound
  | Expired u64 u64
  | ActionDenied action
  | TargetDenied address
  | PerTxExceeded amount amount
  | PerEpochExceeded amount amount
  | BudgetExceeded amount amount
  | PolicyOverflow
  | OutsideWindow u64 u64 u64
  | CategoryExceeded string amount amount
  | AgentsPaused
  | AnomalyHold string
  | CounterpartyRejected string kya_tier kya_tier u16 u16
  | MissingCounterparty address

datatype warden_outcome = Applied | PendingOwnerCosign

subsection \<open>Storage\<close>

text \<open>\<open>serde_json\<close> on policies, identities and receipts, and Blake3.\<close>

record warden_env =
  we_blake3 :: hasher
  policy_to_vec :: "agent_policy \<Rightarrow> bytes option"
  policy_from_slice :: "bytes \<Rightarrow> agent_policy option"
  identity_from_slice :: "bytes \<Rightarrow> agent_identity option"
  receipt_to_vec :: "mandate_receipt \<Rightarrow> bytes option"

record 's state_ops =
  so_read :: "'s \<Rightarrow> address \<Rightarrow> bytes \<Rightarrow> bytes option prog"
  so_exists :: "'s \<Rightarrow> address \<Rightarrow> bytes \<Rightarrow> bool prog"
  so_write :: "'s \<Rightarrow> address \<Rightarrow> bytes \<Rightarrow> bytes \<Rightarrow> 's prog"

definition scratch_ops :: "scratch state_ops" where
  "scratch_ops = \<lparr>so_read = scr_read, so_exists = scr_exists, so_write = (\<lambda>s c k v. Ret (scr_write s c k v))\<rparr>"

definition inner_ops :: "unit state_ops" where
  "inner_ops = \<lparr>so_read = (\<lambda>_. sv_read True), so_exists = (\<lambda>_. sv_exists True), so_write = (\<lambda>_. sv_write)\<rparr>"

abbreviation ascii :: "string \<Rightarrow> bytes" where
  "ascii s \<equiv> map of_char s"

definition warden_address :: "hasher \<Rightarrow> address" where
  "warden_address blake3 = ucast (drop_bit 96 (blake3 (ascii ''lemma:system:warden'')))"

definition registry_address :: "hasher \<Rightarrow> address" where
  "registry_address blake3 = ucast (drop_bit 96 (blake3 (ascii ''lemma:system:registry'')))"

definition owner_pause_key :: "address \<Rightarrow> bytes" where
  "owner_pause_key owner = ascii ''warden:paused:'' @ to_be_bytes owner"

definition policy_state_key :: "address \<Rightarrow> bytes \<Rightarrow> bytes" where
  "policy_state_key owner session_key = ascii ''warden:policy:'' @ to_be_bytes owner @ session_key"

definition agent_identity_key :: "address \<Rightarrow> bytes" where
  "agent_identity_key agent = ascii ''agent:identity:'' @ to_be_bytes agent"

definition read_owner_paused :: "warden_env \<Rightarrow> 's state_ops \<Rightarrow> 's \<Rightarrow> address \<Rightarrow> bool prog" where
  "read_owner_paused env ops s owner = so_exists ops s (warden_address (we_blake3 env)) (owner_pause_key owner)"

definition read_policy :: "warden_env \<Rightarrow> 's state_ops \<Rightarrow> 's \<Rightarrow> address \<Rightarrow> bytes \<Rightarrow> agent_policy option prog" where
  "read_policy env ops s owner session_key =
     prog_bind (so_read ops s (warden_address (we_blake3 env)) (policy_state_key owner session_key)) (\<lambda>bs.
     Ret (Option.bind bs (policy_from_slice env)))"

definition write_policy :: "warden_env \<Rightarrow> 's state_ops \<Rightarrow> 's \<Rightarrow> address \<Rightarrow> bytes \<Rightarrow> agent_policy \<Rightarrow> (bool \<times> 's) prog" where
  "write_policy env ops s owner session_key p =
     (case policy_to_vec env p of
       Some bs \<Rightarrow> prog_bind (so_write ops s (warden_address (we_blake3 env)) (policy_state_key owner session_key) bs)
         (\<lambda>s'. Ret (True, s'))
     | None \<Rightarrow> Ret (False, s))"

definition read_agent_identity :: "warden_env \<Rightarrow> 's state_ops \<Rightarrow> 's \<Rightarrow> address \<Rightarrow> agent_identity option prog" where
  "read_agent_identity env ops s agent =
     prog_bind (so_read ops s (registry_address (we_blake3 env)) (agent_identity_key agent)) (\<lambda>bs.
     Ret (Option.bind bs (identity_from_slice env)))"

subsection \<open>Checks\<close>

fun classify_type :: "tx_type \<Rightarrow> action" where
  "classify_type Transfer = ActTransfer"
| "classify_type ContractCall = ActContractCall"
| "classify_type ContractDeploy = ActContractDeploy"
| "classify_type StakeTx = ActStake"
| "classify_type Unstake = ActUnstake"
| "classify_type GovernanceVote = ActGovernanceVote"

definition classify_action :: "transaction \<Rightarrow> action" where
  "classify_action tx = classify_type (tx_type tx)"

definition value_spike :: "agent_policy \<Rightarrow> transaction \<Rightarrow> bool" where
  "value_spike p tx \<longleftrightarrow> avg_value_ema (history p) > amount_zero \<and>
     saturating_mul (tx_value tx) 100 > saturating_mul (avg_value_ema (history p)) (ucast (spike_ratio (anomaly p)))"

definition burst_rate :: "agent_policy \<Rightarrow> bool" where
  "burst_rate p \<longleftrightarrow> avg_tx_count_ema (history p) > 0 \<and>
     saturating_mul (ucast (tx_count_this_epoch (history p)) :: u32) 100 >
     saturating_mul (ucast (avg_tx_count_ema (history p))) (ucast (burst_ratio (anomaly p)))"

definition novel_target :: "agent_policy \<Rightarrow> transaction \<Rightarrow> bool" where
  "novel_target p tx \<longleftrightarrow> (case tx_to tx of
     Some target \<Rightarrow> fcard (seen_targets (history p)) < MAX_SEEN_TARGETS \<and> target |\<notin>| seen_targets (history p) \<and>
       saturating_mul (tx_value tx) 100 \<ge> saturating_mul (per_tx_cap p) (ucast ANOMALY_NOVEL_TARGET_HIGH_VALUE_PCT)
   | None \<Rightarrow> False)"

definition anomaly_detected :: "agent_policy \<Rightarrow> transaction \<Rightarrow> string option" where
  "anomaly_detected p tx =
     (if value_spike p tx then Some ''value spike: tx value exceeds spike_ratio x historical average''
      else if burst_rate p then Some ''burst rate: tx count exceeds burst_ratio x historical average''
      else if novel_target p tx
        then Some ''novel high-value target: never-before-seen target at >= 50% of per-tx cap''
      else None)"

definition update_history :: "agent_policy \<Rightarrow> transaction \<Rightarrow> amount \<Rightarrow> agent_policy" where
  "update_history p tx v =
     (let h = history p; old = avg_value_ema h in
      p\<lparr>history := h\<lparr>
        avg_value_ema := saturating_add (saturating_sub old (drop_bit 3 old)) (drop_bit 3 v),
        tx_count_this_epoch := saturating_add (tx_count_this_epoch h) 1,
        seen_targets := (case tx_to tx of
            Some target \<Rightarrow> if fcard (seen_targets h) < MAX_SEEN_TARGETS then finsert target (seen_targets h) else seen_targets h
          | None \<Rightarrow> seen_targets h)\<rparr>\<rparr>)"

definition refilled_budget :: "agent_policy \<Rightarrow> amount" where
  "refilled_budget p =
     (if refill_per_epoch p > amount_zero then
        let refilled = (case amount_add (budget_total p) (refill_per_epoch p) of Inr x \<Rightarrow> x | Inl _ \<Rightarrow> budget_total p) in
        case budget_ceiling p of
          Some limit \<Rightarrow> if refilled > limit then limit else refilled
        | None \<Rightarrow> refilled
      else budget_total p)"

definition slide_history :: "anomaly_history \<Rightarrow> anomaly_history" where
  "slide_history h =
     (let completed = tx_count_this_epoch h; old_avg = avg_tx_count_ema h in
      h\<lparr>avg_tx_count_ema := saturating_add (saturating_sub old_avg (drop_bit 3 old_avg)) (drop_bit 3 completed),
        tx_count_this_epoch := 0,
        has_history := has_history h \<or> completed > 0\<rparr>)"

definition apply_epoch_reset :: "agent_policy \<Rightarrow> u64 \<Rightarrow> agent_policy" where
  "apply_epoch_reset p epoch = p\<lparr>
     spent_this_epoch := amount_zero,
     categories := cat_reset_epoch (categories p),
     ap_auto_revoke := (ap_auto_revoke p)\<lparr>violations_this_epoch := 0\<rparr>,
     last_epoch := epoch,
     budget_total := refilled_budget p,
     history := slide_history (history p)\<rparr>"

definition epoch_reset :: "agent_policy \<Rightarrow> u64 \<Rightarrow> agent_policy" where
  "epoch_reset p epoch = (if epoch > last_epoch p then apply_epoch_reset p epoch else p)"

text \<open>Sections 1 to 3 of \<open>warden_check\<close>: expiry, window, action and target.\<close>

definition check_grant :: "transaction \<Rightarrow> u64 \<Rightarrow> agent_policy \<Rightarrow> policy_violation + unit" where
  "check_grant tx epoch p =
     (if epoch \<ge> expiry_epoch p then Inl (Expired (expiry_epoch p) epoch)
      else rbind (case active_window p of
          Some (from, until) \<Rightarrow> if epoch < from \<or> epoch > until then Inl (OutsideWindow epoch from until) else Inr ()
        | None \<Rightarrow> Inr ()) (\<lambda>_.
      if \<not> permits (allowed_actions p) (classify_action tx) then Inl (ActionDenied (classify_action tx))
      else case tx_to tx of
        Some target \<Rightarrow> if \<not> allows (allowed_targets p) target then Inl (TargetDenied target) else Inr ()
      | None \<Rightarrow> Inr ()))"

text \<open>Section 3b.\<close>

definition check_counterparty :: "agent_policy \<Rightarrow> address \<Rightarrow> agent_identity option \<Rightarrow> policy_violation + unit" where
  "check_counterparty p target identity =
     (let req_tier = required_kya_tier p; req_rep = min_counterparty_reputation p in
      case identity of
        Some i \<Rightarrow>
          if \<not> permits (allowed_actions p) ActPayAgent then Inl (ActionDenied ActPayAgent)
          else if req_tier > KyaNone \<and> id_kya_tier i < req_tier
          then Inl (CounterpartyRejected ''counterparty KYA tier below required minimum'' req_tier (id_kya_tier i) req_rep (reputation_score i))
          else if req_rep > 0 \<and> reputation_score i < req_rep
          then Inl (CounterpartyRejected ''counterparty reputation score below required minimum'' req_tier (id_kya_tier i) req_rep (reputation_score i))
          else Inr ()
      | None \<Rightarrow> if req_tier > KyaNone \<or> req_rep > 0 then Inl (MissingCounterparty target) else Inr ())"

text \<open>Sections 4 and 5: the bounds on the value, and the policy to store; \<open>None\<close> asks for the owner's co-signature.\<close>

definition check_category :: "agent_policy \<Rightarrow> action \<Rightarrow> amount \<Rightarrow> policy_violation + string option" where
  "check_category p a v =
     (case category_of (categories p) a of
       None \<Rightarrow> Inr None
     | Some cat \<Rightarrow> rbind (map_err (\<lambda>_. PolicyOverflow) (amount_add (cat_spent (categories p) cat) v)) (\<lambda>after.
         if after > cat_cap (categories p) cat then Inl (CategoryExceeded cat after (cat_cap (categories p) cat))
         else Inr (Some cat)))"

definition commit_counters :: "agent_policy \<Rightarrow> transaction \<Rightarrow> string option \<Rightarrow> amount \<Rightarrow> amount \<Rightarrow> agent_policy" where
  "commit_counters p tx cat epoch_after total_after =
     (let p1 = p\<lparr>spent_this_epoch := epoch_after, spent_total := total_after\<rparr>;
          p2 = (case cat of Some c \<Rightarrow> p1\<lparr>categories := add_spent (categories p1) c (tx_value tx)\<rparr> | None \<Rightarrow> p1)
      in if an_enabled (anomaly p2) then update_history p2 tx (tx_value tx) else p2)"

definition check_spend :: "transaction \<Rightarrow> u64 \<Rightarrow> agent_policy \<Rightarrow> policy_violation + agent_policy option" where
  "check_spend tx epoch p0 =
     (let v = tx_value tx in
      if v > per_tx_cap p0 then Inl (PerTxExceeded v (per_tx_cap p0))
      else let p = epoch_reset p0 epoch in
        rbind (check_category p (classify_action tx) v) (\<lambda>cat.
        rbind (map_err (\<lambda>_. PolicyOverflow) (amount_add (spent_this_epoch p) v)) (\<lambda>epoch_after.
        if epoch_after > per_epoch_cap p then Inl (PerEpochExceeded epoch_after (per_epoch_cap p))
        else rbind (map_err (\<lambda>_. PolicyOverflow) (amount_add (spent_total p) v)) (\<lambda>total_after.
        if total_after > budget_total p then Inl (BudgetExceeded total_after (budget_total p))
        else if (case cosign_threshold p of Some t \<Rightarrow> v \<ge> t | None \<Rightarrow> False) \<and> tx_owner_cosignature tx = None
        then Inr None
        else case (if an_enabled (anomaly p) \<and> has_history (history p) then anomaly_detected p tx else None) of
          Some reason \<Rightarrow> Inl (AnomalyHold reason)
        | None \<Rightarrow> Inr (Some (commit_counters p tx cat epoch_after total_after))))))"

subsection \<open>The check of a transaction\<close>

definition counterparty_identity :: "warden_env \<Rightarrow> 's state_ops \<Rightarrow> 's \<Rightarrow> agent_policy \<Rightarrow> transaction \<Rightarrow> (policy_violation + unit) prog" where
  "counterparty_identity env ops s p tx = (case tx_to tx of
     Some target \<Rightarrow> prog_bind (read_agent_identity env ops s target) (\<lambda>i. Ret (check_counterparty p target i))
   | None \<Rightarrow> Ret (Inr ()))"

definition warden_check ::
  "warden_env \<Rightarrow> 's state_ops \<Rightarrow> transaction \<Rightarrow> bytes \<Rightarrow> u64 \<Rightarrow> 's \<Rightarrow> ((policy_violation + warden_outcome) \<times> 's) prog" where
  "warden_check env ops tx session_key epoch s =
     prog_bind (read_owner_paused env ops s (tx_sender tx)) (\<lambda>paused.
     if paused then Ret (Inl AgentsPaused, s)
     else prog_bind (read_policy env ops s (tx_sender tx) session_key) (\<lambda>found.
     case found of
       None \<Rightarrow> Ret (Inl PolicyNotFound, s)
     | Some p \<Rightarrow> (case check_grant tx epoch p of
         Inl v \<Rightarrow> Ret (Inl v, s)
       | Inr _ \<Rightarrow> prog_bind (counterparty_identity env ops s p tx) (\<lambda>ok.
           case ok of
             Inl v \<Rightarrow> Ret (Inl v, s)
           | Inr _ \<Rightarrow> (case check_spend tx epoch p of
               Inl v \<Rightarrow> Ret (Inl v, s)
             | Inr None \<Rightarrow> Ret (Inr PendingOwnerCosign, s)
             | Inr (Some p') \<Rightarrow> prog_bind (write_policy env ops s (tx_sender tx) session_key p') (\<lambda>(_, s').
                 Ret (Inr Applied, s')))))))"

definition MANDATE_RECEIPT_EVENT_SIG :: bytes where
  "MANDATE_RECEIPT_EVENT_SIG =
     ascii ''MandateReceipt(address,bytes,bytes32,string,address,uint128,uint128,uint64,string,bool)''"

definition mandate_to_log :: "warden_env \<Rightarrow> mandate_receipt \<Rightarrow> log" where
  "mandate_to_log env r = \<lparr>log_address = warden_address (we_blake3 env),
     log_topics = [we_blake3 env MANDATE_RECEIPT_EVENT_SIG],
     log_data = (case receipt_to_vec env r of Some bs \<Rightarrow> bs | None \<Rightarrow> [])\<rparr>"

definition build_mandate_receipt_log ::
  "warden_env \<Rightarrow> 's state_ops \<Rightarrow> transaction \<Rightarrow> bytes \<Rightarrow> u64 \<Rightarrow> action \<Rightarrow> 's \<Rightarrow> log option prog" where
  "build_mandate_receipt_log env ops tx session_key epoch act s =
     prog_bind (read_policy env ops s (tx_sender tx) session_key) (\<lambda>found. Ret (map_option (\<lambda>p.
       mandate_to_log env \<lparr>mr_owner = tx_sender tx, mr_session_key = session_key,
         mr_policy_hash = we_blake3 env (case policy_to_vec env p of Some bs \<Rightarrow> bs | None \<Rightarrow> []),
         mr_action = act, mr_target = tx_to tx, mr_value = tx_value tx,
         mr_budget_remaining = (case amount_sub (budget_total p) (spent_total p) of Inr x \<Rightarrow> x | Inl _ \<Rightarrow> amount_zero),
         mr_epoch = epoch, mr_kya_tier = ap_kya_tier p, mr_cosigned = (tx_owner_cosignature tx \<noteq> None)\<rparr>) found))"

text \<open>The dead-man's switch.\<close>

definition count_violation :: "agent_policy \<Rightarrow> u64 \<Rightarrow> agent_policy" where
  "count_violation p0 epoch =
     (let p = epoch_reset p0 epoch; r = ap_auto_revoke p;
          n = saturating_add (violations_this_epoch r) 1;
          p1 = p\<lparr>ap_auto_revoke := r\<lparr>violations_this_epoch := n\<rparr>\<rparr>
      in if n \<ge> max_violations_per_epoch r then p1\<lparr>expiry_epoch := epoch\<rparr> else p1)"

definition handle_violation ::
  "warden_env \<Rightarrow> 's state_ops \<Rightarrow> transaction \<Rightarrow> bytes \<Rightarrow> u64 \<Rightarrow> 's \<Rightarrow> 's prog" where
  "handle_violation env ops tx session_key epoch s =
     prog_bind (read_policy env ops s (tx_sender tx) session_key) (\<lambda>found.
     case found of
       None \<Rightarrow> Ret s
     | Some p \<Rightarrow> if max_violations_per_epoch (ap_auto_revoke p) = 0 then Ret s
         else prog_bind (write_policy env ops s (tx_sender tx) session_key (count_violation p epoch)) (\<lambda>(_, s'). Ret s'))"

end
