(* ===== verification/Vm_Executor.thy ===== *)
theory Vm_Executor
  imports Vm_Host Warden
begin

section \<open>The transaction executor\<close>

text \<open>
  \<^verbatim>\<open>lemma-vm/src/executor.rs\<close>, \<^verbatim>\<open>executor/call.rs\<close>, \<^verbatim>\<open>executor/deploy.rs\<close>, \<^verbatim>\<open>executor/settle.rs\<close>: one transaction, from
  the intrinsic gas to the receipt. The executor is a program over the state view it is given; its
  two block-wide caches are reached by \<open>Exec\<close>. The safety manifest cached for a contract is kept as
  the bytecode it was parsed from.
\<close>

record vm_env =
  ve_wasm :: wasm_env
  ve_warden :: warden_env

abbreviation ve_schedule :: "vm_env \<Rightarrow> gas_schedule" where
  "ve_schedule env \<equiv> wv_schedule (ve_wasm env)"

abbreviation ve_blake3 :: "vm_env \<Rightarrow> hasher" where
  "ve_blake3 env \<equiv> we_blake3 (ve_warden env)"

type_synonym manifest = "(address \<times> safety_constraint list) option"

type_synonym exec_result = "((vm_error + log list) \<times> manifest) \<times> scratch \<times> fuel_meter"

definition receipt_new :: "transaction \<Rightarrow> bool \<Rightarrow> u64 \<Rightarrow> log list \<Rightarrow> transaction_receipt" where
  "receipt_new tx ok used logs = \<lparr>rc_tx_hash = tx_hash tx, rc_success = ok, rc_gas_used = used, rc_logs = logs\<rparr>"

definition intrinsic_gas :: "gas_schedule \<Rightarrow> transaction \<Rightarrow> gas" where
  "intrinsic_gas sched tx =
     (case charge_per_byte (meter_new (- 1)) (tx_base sched) (tx_calldata_per_byte sched) (length (tx_data tx)) of
       Inr m \<Rightarrow> saturating_sub (- 1) (fm_remaining m)
     | Inl _ \<Rightarrow> 0)"

text \<open>\<open>gas_used(limit, remaining)\<close>, zero where the meter exceeds the limit, clamped to the limit.\<close>

definition clamped_gas_used :: "transaction \<Rightarrow> fuel_meter \<Rightarrow> u64" where
  "clamped_gas_used tx m = min (case gas_used (tx_gas_limit tx) (fm_remaining m) of Some g \<Rightarrow> g | None \<Rightarrow> 0) (tx_gas_limit tx)"

definition fail_before_execution :: "transaction \<Rightarrow> fuel_meter \<Rightarrow> transaction_receipt prog" where
  "fail_before_execution tx m =
     prog_bind (advance_nonce (tx_sender tx)) (\<lambda>_. Ret (receipt_new tx False (clamped_gas_used tx m) []))"

subsection \<open>Transfers\<close>

definition execute_transfer :: "gas_schedule \<Rightarrow> transaction \<Rightarrow> scratch \<Rightarrow> fuel_meter \<Rightarrow> exec_result prog" where
  "execute_transfer sched tx s m =
     (case charge m (call_value_transfer sched) of
       Inl e \<Rightarrow> Ret ((Inl e, None), s, m)
     | Inr m1 \<Rightarrow> (case tx_to tx of
         None \<Rightarrow> Ret ((Inl (InvalidParameter ''Transfer tx missing recipient''), None), s, m1)
       | Some recipient \<Rightarrow> prog_bind (scr_balance s (tx_sender tx)) (\<lambda>from_balance.
           case amount_sub from_balance (tx_value tx) of
             Inl _ \<Rightarrow> Ret ((Inl (InsufficientFunds (tx_value tx) from_balance), None), s, m1)
           | Inr new_from \<Rightarrow>
               let s1 = scr_set_balance s (tx_sender tx) new_from in
               prog_bind (scr_balance s1 recipient) (\<lambda>to_balance.
               case amount_add to_balance (tx_value tx) of
                 Inr new_to \<Rightarrow> Ret ((Inr [], None), scr_set_balance s1 recipient new_to, m1)
               | Inl _ \<Rightarrow> Ret ((Inl (InvalidParameter ''transfer: recipient balance overflow''), None),
                   scr_set_balance s1 (tx_sender tx) from_balance, m1)))))"

subsection \<open>Contract calls\<close>

text \<open>\<open>let _ = meter.charge(consumed)\<close>\<close>

definition charge_ignoring :: "fuel_meter \<Rightarrow> gas \<Rightarrow> fuel_meter" where
  "charge_ignoring m g = (case charge m g of Inr m' \<Rightarrow> m' | Inl _ \<Rightarrow> m)"

definition charge_invariant_check :: "gas_schedule \<Rightarrow> safety_constraint list \<Rightarrow> fuel_meter \<Rightarrow> vm_error + fuel_meter" where
  "charge_invariant_check sched cs m = (if cs = [] then Inr m else charge m (invariant_check sched))"

text \<open>The block-wide caches: the manifest by contract, and whether the code was called before.\<close>

definition cached_manifest :: "vm_env \<Rightarrow> address \<Rightarrow> bytes \<Rightarrow> safety_constraint list prog" where
  "cached_manifest env contract code =
     Exec (CachedManifest contract code) (\<lambda>a. Ret (case a of EBytes c \<Rightarrow> parse_safety_manifest (ve_wasm env) c | _ \<Rightarrow> []))"

definition code_is_cold :: "hash \<Rightarrow> bool prog" where
  "code_is_cold h = Exec (WarmCode h) (\<lambda>a. Ret (a = EBool True))"

definition run_call ::
  "vm_env \<Rightarrow> transaction \<Rightarrow> block_context \<Rightarrow> address \<Rightarrow> bytes \<Rightarrow> safety_constraint list \<Rightarrow> scratch \<Rightarrow> fuel_meter \<Rightarrow> exec_result prog" where
  "run_call env tx block contract bytecode cs s m =
     (let manifest = Some (contract, cs) in
      case compile_module (ve_wasm env) bytecode of
        Inl e \<Rightarrow> Ret ((Inl e, manifest), s, m)
      | Inr module \<Rightarrow>
          prog_bind (run_wasm_with_entry (ve_wasm env) (parse_host_abi (ve_wasm env) bytecode) module
            (host_new (meter_new (fm_remaining m)) (ve_schedule env) call_context_new (block\<lparr>bc_contract := contract\<rparr>)
              (scr_snapshot s) (tx_data tx)) ENTRY_POINT) (\<lambda>r.
          Ret (case r of
            Inl e \<Rightarrow> ((Inl e, manifest), s, m)
          | Inr (wasm_gas, h) \<Rightarrow>
              if wasm_gas = 0 \<and> \<not> wm_exports_func module ENTRY_POINT
              then ((Inl (InstantiationFailed ''contract has no call export''), manifest), s, m)
              else ((Inr (hs_events h), manifest), merge_snapshot s (hs_state h), charge_ignoring m wasm_gas))))"

definition execute_call :: "vm_env \<Rightarrow> transaction \<Rightarrow> block_context \<Rightarrow> scratch \<Rightarrow> fuel_meter \<Rightarrow> exec_result prog" where
  "execute_call env tx block s m =
     (case tx_to tx of
       None \<Rightarrow> Ret ((Inl (InvalidParameter ''ContractCall tx missing recipient''), None), s, m)
     | Some contract \<Rightarrow> prog_bind (resolve_code s contract) (\<lambda>code.
         case code of
           None \<Rightarrow> Ret ((Inl (InvalidParameter ''no contract deployed''), None), s, m)
         | Some bytecode \<Rightarrow>
             prog_bind (cached_manifest env contract bytecode) (\<lambda>cs.
             case charge_invariant_check (ve_schedule env) cs m of
               Inl e \<Rightarrow> Ret ((Inl e, Some (contract, cs)), s, m)
             | Inr m1 \<Rightarrow> prog_bind (code_is_cold (ve_blake3 env bytecode)) (\<lambda>cold.
                 case (if cold then charge m1 (code_cold_surcharge (ve_schedule env)) else Inr m1) of
                   Inl e \<Rightarrow> Ret ((Inl e, Some (contract, cs)), s, m1)
                 | Inr m2 \<Rightarrow> run_call env tx block contract bytecode cs s m2))))"

subsection \<open>Deployments\<close>

definition MAX_CONTRACT_WASM_SIZE :: nat where
  "MAX_CONTRACT_WASM_SIZE = 2097152"

definition address_from_deployer :: "hasher \<Rightarrow> address \<Rightarrow> u64 \<Rightarrow> address" where
  "address_from_deployer blake3 deployer nonce =
     ucast (drop_bit 96 (blake3 (to_be_bytes deployer @ to_be_bytes nonce)))"

definition ITOKEN_EXPORTS :: "string list" where
  "ITOKEN_EXPORTS = [''transfer'', ''transferFrom'', ''balanceOf'', ''approve'']"

definition hex_digit :: "nat \<Rightarrow> u8" where
  "hex_digit n = ascii ''0123456789abcdef'' ! n"

definition hex_bytes :: "bytes \<Rightarrow> bytes" where
  "hex_bytes bs = concat (map (\<lambda>b. [hex_digit (unat b div 16), hex_digit (unat b mod 16)]) bs)"

definition token_metadata :: "address \<Rightarrow> bytes" where
  "token_metadata contract =
     ascii ''{\"address\":\"'' @ hex_bytes (to_be_bytes contract) @ ascii ''\",\"is_token\":true}''"

definition try_write_registry_entry :: "hasher \<Rightarrow> wasm_module \<Rightarrow> address \<Rightarrow> scratch \<Rightarrow> scratch" where
  "try_write_registry_entry blake3 module contract s =
     (if \<not> list_ex (wm_exports_func module) ITOKEN_EXPORTS then s
      else scr_write s (registry_address blake3)
        (to_be_bytes (registry_address blake3) @ to_be_bytes contract) (token_metadata contract))"

text \<open>Steps 8 to 10 of a deployment: the constructor, the registry and the manifest.\<close>

definition finish_deploy ::
  "vm_env \<Rightarrow> transaction \<Rightarrow> block_context \<Rightarrow> address \<Rightarrow> wasm_module \<Rightarrow> scratch \<Rightarrow> fuel_meter \<Rightarrow> exec_result prog" where
  "finish_deploy env tx block contract module s m =
     prog_bind (run_wasm_with_entry (ve_wasm env) (parse_host_abi (ve_wasm env) (tx_data tx)) module
       (host_new (meter_new (fm_remaining m)) (ve_schedule env) call_context_new
         (block\<lparr>bc_contract := contract, bc_msg_sender := tx_sender tx\<rparr>) (scr_snapshot s) []) INIT_ENTRY_POINT) (\<lambda>r.
     case r of
       Inl e \<Rightarrow> Ret ((Inl e, None), s, m)
     | Inr (wasm_gas, h) \<Rightarrow>
         let s1 = try_write_registry_entry (ve_blake3 env) module contract (merge_snapshot s (hs_state h));
             m1 = charge_ignoring m wasm_gas;
             cs = parse_safety_manifest (ve_wasm env) (tx_data tx) in
         case charge_invariant_check (ve_schedule env) cs m1 of
           Inl e \<Rightarrow> Ret ((Inl e, Some (contract, cs)), s1, m1)
         | Inr m2 \<Rightarrow> Exec (StoreManifest contract (tx_data tx)) (\<lambda>_. Ret ((Inr [], Some (contract, cs)), s1, m2)))"

definition deploy_gas :: "gas_schedule \<Rightarrow> bool \<Rightarrow> nat \<Rightarrow> fuel_meter \<Rightarrow> vm_error + fuel_meter" where
  "deploy_gas sched known len m =
     (if known then charge m (deploy_base sched)
      else charge_per_byte m (deploy_base sched) (deploy_storage_per_byte sched) len)"

definition execute_deploy :: "vm_env \<Rightarrow> transaction \<Rightarrow> block_context \<Rightarrow> scratch \<Rightarrow> fuel_meter \<Rightarrow> exec_result prog" where
  "execute_deploy env tx block s m =
     (if length (tx_data tx) > MAX_CONTRACT_WASM_SIZE
      then Ret ((Inl (ContractTooLarge (length (tx_data tx)) MAX_CONTRACT_WASM_SIZE), None), s, m)
      else
        let code_hash = ve_blake3 env (tx_data tx) in
        prog_bind (scr_nonce s (tx_sender tx)) (\<lambda>nonce.
        let contract = address_from_deployer (ve_blake3 env) (tx_sender tx) nonce in
        prog_bind (scr_code s contract) (\<lambda>code.
        if code \<noteq> None then Ret ((Inl (InvalidParameter ''contract already deployed''), None), s, m)
        else case compile_module (ve_wasm env) (tx_data tx) of
          Inl e \<Rightarrow> Ret ((Inl e, None), s, m)
        | Inr module \<Rightarrow>
            let abi = parse_host_abi (ve_wasm env) (tx_data tx) in
            if abi > MAX_SUPPORTED_HOST_ABI
            then Ret ((Inl (UnsupportedHostAbi abi MAX_SUPPORTED_HOST_ABI), None), s, m)
            else prog_bind (scr_has_code_hash s code_hash) (\<lambda>known.
              case deploy_gas (ve_schedule env) known (length (tx_data tx)) m of
                Inl e \<Rightarrow> Ret ((Inl e, None), s, m)
              | Inr m1 \<Rightarrow> finish_deploy env tx block contract module
                  (set_code_hash_ptr (put_code_content s code_hash (tx_data tx)) contract code_hash) m1))))"

subsection \<open>Settlement\<close>

definition settle_failure :: "transaction \<Rightarrow> fuel_meter \<Rightarrow> transaction_receipt prog" where
  "settle_failure tx m =
     prog_bind (advance_nonce (tx_sender tx)) (\<lambda>_. Ret (receipt_new tx False (clamped_gas_used tx m) []))"

definition settle_success :: "transaction \<Rightarrow> log list \<Rightarrow> log option \<Rightarrow> scratch \<Rightarrow> fuel_meter \<Rightarrow> transaction_receipt prog" where
  "settle_success tx logs mandate_log s m =
     prog_bind (commit_with_nonce s (tx_sender tx)) (\<lambda>_.
     Ret (receipt_new tx True (clamped_gas_used tx m) ((case mandate_log of Some l \<Rightarrow> [l] | None \<Rightarrow> []) @ logs)))"

definition settle :: "transaction \<Rightarrow> log option \<Rightarrow> exec_result \<Rightarrow> transaction_receipt prog" where
  "settle tx mandate_log res =
     (case res of ((result, manifest), s, m) \<Rightarrow>
      case result of
        Inl e \<Rightarrow> settle_failure tx m
      | Inr logs \<Rightarrow> (case manifest of
          Some (contract, cs) \<Rightarrow>
            if cs = [] then settle_success tx logs mandate_log s m
            else prog_bind (validate_safety_invariants cs contract (storage_writes s)) (\<lambda>v.
              case v of Inl e \<Rightarrow> settle_failure tx m | Inr _ \<Rightarrow> settle_success tx logs mandate_log s m)
        | None \<Rightarrow> settle_success tx logs mandate_log s m))"

definition dispatch :: "vm_env \<Rightarrow> transaction \<Rightarrow> block_context \<Rightarrow> scratch \<Rightarrow> fuel_meter \<Rightarrow> exec_result prog" where
  "dispatch env tx block s m =
     (case tx_type tx of
       Transfer \<Rightarrow> execute_transfer (ve_schedule env) tx s m
     | ContractDeploy \<Rightarrow> execute_deploy env tx block s m
     | ContractCall \<Rightarrow> execute_call env tx block s m
     | _ \<Rightarrow> Ret ((Inl (InvalidParameter ''tx type not supported''), None), s, m))"

text \<open>A policy violation: the scratch is dropped, the switch counts on the view itself, the nonce advances.\<close>

definition settle_violation ::
  "vm_env \<Rightarrow> transaction \<Rightarrow> bytes \<Rightarrow> u64 \<Rightarrow> policy_violation \<Rightarrow> fuel_meter \<Rightarrow> transaction_receipt prog" where
  "settle_violation env tx session_key epoch violation m =
     prog_bind (sv_nonce True (tx_sender tx)) (\<lambda>nonce.
     prog_bind (if violation \<noteq> AgentsPaused then handle_violation (ve_warden env) inner_ops tx session_key epoch () else Ret ()) (\<lambda>_.
     prog_bind (sv_set_nonce (tx_sender tx) (saturating_add nonce 1)) (\<lambda>_.
     Ret (receipt_new tx False (clamped_gas_used tx m) []))))"

definition execute_transaction :: "vm_env \<Rightarrow> transaction \<Rightarrow> block_context \<Rightarrow> transaction_receipt prog" where
  "execute_transaction env tx block =
     (case charge (meter_new (tx_gas_limit tx)) (intrinsic_gas (ve_schedule env) tx) of
       Inl e \<Rightarrow> prog_bind (advance_nonce (tx_sender tx)) (\<lambda>_. Ret (receipt_new tx False (tx_gas_limit tx) []))
     | Inr m \<Rightarrow> (case tx_session_key tx of
         None \<Rightarrow> prog_bind (dispatch env tx block scratch_new m) (settle tx None)
       | Some session_key \<Rightarrow> (case charge m (gs_warden_check (ve_schedule env)) of
           Inl e \<Rightarrow> fail_before_execution tx m
         | Inr m1 \<Rightarrow>
             prog_bind (warden_check (ve_warden env) scratch_ops tx session_key (bc_epoch block) scratch_new) (\<lambda>(outcome, s).
             case outcome of
               Inr Applied \<Rightarrow>
                 prog_bind (build_mandate_receipt_log (ve_warden env) scratch_ops tx session_key (bc_epoch block)
                   (classify_action tx) s) (\<lambda>mandate_log.
                 prog_bind (dispatch env tx block s m1) (settle tx mandate_log))
             | Inr PendingOwnerCosign \<Rightarrow> fail_before_execution tx m1
             | Inl violation \<Rightarrow> settle_violation env tx session_key (bc_epoch block) violation m1))))"

subsection \<open>Samples\<close>

text \<open>An engine that compiles every bytecode to one module, transactions between small addresses, a block.\<close>

definition sample_vm :: "wasm_module \<Rightarrow> vm_env" where
  "sample_vm module = \<lparr>ve_wasm = \<lparr>wv_schedule = devnet, wv_compile = (\<lambda>_. Inr module), wv_metadata = (\<lambda>_. None)\<rparr>,
     ve_warden = \<lparr>we_blake3 = checksum, policy_to_vec = (\<lambda>_. None), policy_from_slice = (\<lambda>_. None),
       identity_from_slice = (\<lambda>_. None), receipt_to_vec = (\<lambda>_. None)\<rparr>\<rparr>"

definition vm_tx :: "tx_type \<Rightarrow> address \<Rightarrow> address \<Rightarrow> amount \<Rightarrow> transaction" where
  "vm_tx ty sender recipient v = sample_tx\<lparr>tx_hash := ucast sender, tx_type := ty, tx_sender := sender, tx_to := Some recipient,
     tx_value := v, tx_gas_limit := 1000000\<rparr>"

definition sample_context :: block_context where
  "sample_context = \<lparr>bc_height = 1, bc_timestamp = 0, bc_msg_sender = 0, bc_msg_value = 0, bc_tx_origin = 0,
     bc_contract = 0, bc_epoch = 0, bc_active_features = {||}\<rparr>"

definition no_contracts :: vm_env where
  "no_contracts = sample_vm \<lparr>wm_link = Inr (), wm_start = GReturn (\<lambda>_. None), wm_exports_func = (\<lambda>_. False)\<rparr>"

end
