(* ===== verification/Vm_Settlement.thy ===== *)
theory Vm_Settlement
  imports Vm_Executor
begin

section \<open>Settlement of transactions\<close>

text \<open>
  What every transaction does to an in-memory state, whatever its kind: contract execution only
  reads (\<open>quiet\<close>), and settlement either commits the scratch or drops it. Transfers are given exactly.
\<close>

subsection \<open>Execution updates nothing\<close>

lemma quiet_charged [simp]:
  "quiet (charged f h k) \<longleftrightarrow> (\<forall>m. f (hs_meter h) = Inr m \<longrightarrow> quiet (k (h\<lparr>hs_meter := m\<rparr>)))"
  by (auto simp: charged_def split: sum.splits)

lemma quiet_host [simp]:
  "quiet (storage_read h key)" "quiet (storage_write h key v)" "quiet (storage_delete h key)" "quiet (host_transfer h a x)"
  "quiet (emit_event h topics dat)"
  by (auto simp: storage_read_def storage_write_def storage_delete_def host_transfer_def emit_event_def Let_def
      split: sum.split intro!: quiet_bind)

lemma quiet_try_with [simp]: "(\<And>x. r = Inr x \<Longrightarrow> quiet (k x)) \<Longrightarrow> quiet (try_with r k)"
  by (auto simp: try_with_def split: sum.split)

lemma quiet_synced [simp]: "(\<And>h. quiet (f h)) \<Longrightarrow> quiet (synced f h fuel fin mem)"
  by (auto simp: synced_def intro!: quiet_bind split: prod.split)

lemma quiet_dispatch_call:
  assumes "\<And>abi m h. quiet (run abi m h)"
  shows "quiet (dispatch_call env run mode a cd g mem h fuel)"
  by (auto simp: dispatch_call_def Let_def assms split: sum.split option.split intro!: quiet_bind)

lemma quiet_link_call:
  assumes "\<And>abi m h. quiet (run abi m h)"
  shows "quiet (link_call env run mem hc h fuel)"
  by (cases hc) (auto intro!: quiet_try_with quiet_synced quiet_dispatch_call assms split: prod.split)

lemma quiet_run_guest:
  assumes "\<And>abi m h. quiet (run abi m h)"
  shows "quiet (run_guest env run g h fuel)"
  by (induction g arbitrary: h fuel) (auto intro!: quiet_bind quiet_link_call assms split: sum.split)

lemma quiet_run_entry:
  assumes "\<And>abi m h. quiet (run abi m h)"
  shows "quiet (run_entry env run abi m h entry absent)"
  by (auto simp: run_entry_def Let_def intro!: quiet_bind quiet_run_guest assms split: sum.split option.split)

lemma quiet_run_wasm_call: "quiet (run_wasm_call n env abi m h)"
proof (induction n arbitrary: abi m h)
  case (Suc n) then show ?case by (auto intro!: quiet_run_entry)
qed simp

lemma quiet_run_wasm_with_entry [simp]: "quiet (run_wasm_with_entry env abi m h entry)"
  by (simp add: run_wasm_with_entry_def quiet_run_entry quiet_run_wasm_call)

lemma quiet_execute_transfer: "quiet (execute_transfer sched tx s m)"
  by (auto simp: execute_transfer_def Let_def split: sum.split option.split intro!: quiet_bind)

lemma quiet_execute_call: "quiet (execute_call env tx block s m)"
  by (auto simp: execute_call_def run_call_def cached_manifest_def code_is_cold_def Let_def
      split: sum.split option.split intro!: quiet_bind)

lemma quiet_execute_deploy: "quiet (execute_deploy env tx block s m)"
  by (auto simp: execute_deploy_def finish_deploy_def Let_def
      split: sum.split option.split intro!: quiet_bind)

lemma quiet_dispatch: "quiet (dispatch env tx block s m)"
  by (simp add: dispatch_def quiet_execute_transfer quiet_execute_call quiet_execute_deploy split: tx_type.split)

lemma quiet_fee_sum [simp]: "quiet (fee_sum c w ks acc)"
  by (induction ks arbitrary: acc) (auto simp: Let_def split: option.split sum.split intro!: quiet_bind)

lemma quiet_validate: "quiet (validate_safety_invariants cs c w)"
proof (induction cs)
  case (Cons x cs)
  have "quiet (validate_constraint c w x)"
    by (cases x) (auto simp: validate_ratchet_bool_def validate_ratchet_off_def validate_fee_cap_def validate_ratchet_up_def
        split: option.split intro!: quiet_bind)
  with Cons show ?case by (auto intro!: quiet_bind split: sum.split)
qed simp

lemma quiet_warden_check: "quiet (warden_check env scratch_ops tx sk epoch s)"
  by (auto simp: warden_check_def scratch_ops_def read_owner_paused_def read_policy_def write_policy_def
      counterparty_identity_def read_agent_identity_def split: option.split sum.split intro!: quiet_bind)

lemma quiet_mandate: "quiet (build_mandate_receipt_log env scratch_ops tx sk epoch act s)"
  by (auto simp: build_mandate_receipt_log_def read_policy_def scratch_ops_def intro!: quiet_bind)


subsection \<open>Settlement\<close>

text \<open>
  What a receipt promises: the hash and at most the gas limit, the nonce advanced, and on a failure no
  logs and no other change, but for the entries \<open>own\<close> allows.
\<close>

definition settles :: "(query \<Rightarrow> bool) \<Rightarrow> transaction \<Rightarrow> in_memory_state_view \<Rightarrow> transaction_receipt \<Rightarrow> in_memory_state_view \<Rightarrow> bool" where
  "settles own tx st r st' \<longleftrightarrow>
     rc_tx_hash r = tx_hash tx \<and> rc_gas_used r \<le> tx_gas_limit tx \<and>
     im_answer st' (QNonce (tx_sender tx)) =
       ANonce (saturating_add (case im_answer st (QNonce (tx_sender tx)) of ANonce n \<Rightarrow> n | _ \<Rightarrow> 0) 1) \<and>
     (\<not> rc_success r \<longrightarrow> rc_logs r = [] \<and>
       (\<forall>q. q \<noteq> QNonce (tx_sender tx) \<and> \<not> own q \<longrightarrow> im_answer st' q = im_answer st q))"

lemma clamped_le: "clamped_gas_used tx m \<le> tx_gas_limit tx"
  by (simp add: clamped_gas_used_def)

lemma advance_nonce_run:
  "im_run b (advance_nonce a) st x =
    ((), st\<lparr>im_nonces := fmupd a (saturating_add (case im_answer st (QNonce a) of ANonce n \<Rightarrow> n | _ \<Rightarrow> 0) 1) (im_nonces st)\<rparr>, x)"
  by (simp add: advance_nonce_def sv_nonce_def sv_set_nonce_def)

lemma nonce_update_answer:
  "im_answer (st\<lparr>im_nonces := fmupd a n (im_nonces st)\<rparr>) q = (if q = QNonce a then ANonce n else im_answer st q)"
  by (cases q) auto

lemma settled_failure:
  "im_run b (prog_bind (advance_nonce (tx_sender tx)) (\<lambda>_. Ret (receipt_new tx False g []))) st x = (r, st', x') \<Longrightarrow>
   g \<le> tx_gas_limit tx \<Longrightarrow> settles own tx st r st'"
  by (auto simp: im_run_bind advance_nonce_run settles_def receipt_new_def nonce_update_answer split: answer.split)

lemma settled_success:
  assumes "im_run b (settle_success tx logs ml s m) st x = (r, st', x')"
  shows "settles own tx st r st'"
proof -
  obtain u st1 x1 where c: "im_run b (commit_with_nonce s (tx_sender tx)) st x = (u, st1, x1)" by (metis prod_cases3)
  with assms show ?thesis
    using commit_answers(3)[OF c] by (auto simp: settle_success_def im_run_bind settles_def receipt_new_def clamped_le)
qed

lemma quiet_run: "quiet p \<Longrightarrow> (\<And>r x'. im_run b p st x = (r, st, x') \<Longrightarrow> thesis) \<Longrightarrow> thesis"
  using im_run_quiet[of p b st x] by (cases "im_run b p st x") auto

lemma settled_settle:
  assumes "im_run b (settle tx ml res) st x = (r, st', x')"
  shows "settles own tx st r st'"
proof -
  obtain result manifest s m where res: "res = ((result, manifest), s, m)" by (metis prod.exhaust)
  have fail: "im_run b (settle_failure tx m) st y = (r, st', x') \<Longrightarrow> ?thesis" for y
    by (simp add: settle_failure_def settled_failure clamped_le)
  have checked: ?thesis if run: "im_run b (settle_success tx logs ml s m) st x = (r, st', x') \<or>
      im_run b (prog_bind (validate_safety_invariants cs c (storage_writes s)) (\<lambda>v.
        case v of Inl e \<Rightarrow> settle_failure tx m | Inr _ \<Rightarrow> settle_success tx logs ml s m)) st x = (r, st', x')" for logs cs c
  proof -
    obtain v y where "im_run b (validate_safety_invariants cs c (storage_writes s)) st x = (v, st, y)"
      by (rule quiet_run[OF quiet_validate])
    then show ?thesis using run by (cases v) (auto simp: im_run_bind intro: fail settled_success)
  qed
  show ?thesis
    using assms by (cases result; cases manifest) (auto simp: res settle_def split: if_splits intro: fail checked)
qed

lemma settled_dispatch:
  assumes "im_run b (prog_bind (dispatch env tx block s m) (settle tx ml)) st x = (r, st', x')"
  shows "settles own tx st r st'"
  using assms im_run_quiet[OF quiet_dispatch, of b env tx block s m st x]
  by (auto simp: im_run_bind split: prod.splits intro: settled_settle)

definition policy_entry :: "vm_env \<Rightarrow> transaction \<Rightarrow> query \<Rightarrow> bool" where
  "policy_entry env tx q \<longleftrightarrow> (\<exists>sk. tx_session_key tx = Some sk \<and>
     (q = QRead (warden_address (ve_blake3 env)) (policy_state_key (tx_sender tx) sk) \<or>
      q = QExists (warden_address (ve_blake3 env)) (policy_state_key (tx_sender tx) sk)))"

lemma storage_update_answer:
  "im_answer (st\<lparr>im_storage := fmupd (c, k) v (im_storage st)\<rparr>) q =
    (if q = QRead c k then ABytes (Some v) else if q = QExists c k then ABool True else im_answer st q)"
  by (cases q) auto

lemma handle_violation_run:
  "\<exists>st1. im_run b (handle_violation env inner_ops tx sk epoch ()) st x = ((), st1, x) \<and> im_nonces st1 = im_nonces st \<and>
    (\<forall>q. q \<noteq> QRead (warden_address (we_blake3 env)) (policy_state_key (tx_sender tx) sk) \<and>
      q \<noteq> QExists (warden_address (we_blake3 env)) (policy_state_key (tx_sender tx) sk) \<longrightarrow> im_answer st1 q = im_answer st q)"
  by (auto simp: handle_violation_def read_policy_def inner_ops_def sv_read_def write_policy_def sv_write_def im_run_bind
      storage_update_answer split: option.split)

lemma settled_violation:
  assumes "im_run b (settle_violation env tx sk epoch v m) st x = (r, st', x')" "tx_session_key tx = Some sk"
  shows "settles (policy_entry env tx) tx st r st'"
proof -
  obtain st1 where st1: "im_run b (if v \<noteq> AgentsPaused then handle_violation (ve_warden env) inner_ops tx sk epoch () else Ret ()) st x = ((), st1, x)"
    "im_nonces st1 = im_nonces st" "\<And>q. \<not> policy_entry env tx q \<Longrightarrow> im_answer st1 q = im_answer st q"
    using handle_violation_run[of b "ve_warden env" tx sk epoch st x] assms(2) by (cases "v = AgentsPaused") (auto simp: policy_entry_def)
  show ?thesis
    using assms(1) st1(3)
    by (auto simp: settle_violation_def im_run_bind sv_nonce_def st1(1) sv_set_nonce_def settles_def receipt_new_def clamped_le
        nonce_update_answer st1(2)[symmetric])
qed

lemma execute_settles:
  assumes "im_run b (execute_transaction env tx block) st x = (r, st', x')"
  shows "settles (policy_entry env tx) tx st r st'"
proof (cases "charge (meter_new (tx_gas_limit tx)) (intrinsic_gas (ve_schedule env) tx)")
  case (Inl e)
  then show ?thesis using assms by (auto simp: execute_transaction_def intro!: settled_failure)
next
  case m: (Inr m)
  show ?thesis
  proof (cases "tx_session_key tx")
    case None
    then show ?thesis using assms m by (auto simp: execute_transaction_def intro: settled_dispatch)
  next
    case sk: (Some sk)
    show ?thesis
    proof (cases "charge m (gs_warden_check (ve_schedule env))")
      case (Inl e)
      then show ?thesis using assms m sk
        by (auto simp: execute_transaction_def fail_before_execution_def intro!: settled_failure clamped_le)
    next
      case m1: (Inr m1)
      obtain o' x1 where w: "im_run b (warden_check (ve_warden env) scratch_ops tx sk (bc_epoch block) scratch_new) st x = (o', st, x1)"
        by (rule quiet_run[OF quiet_warden_check])
      obtain outcome s where o': "o' = (outcome, s)" by (cases o')
      obtain ml x2 where ml: "im_run b (build_mandate_receipt_log (ve_warden env) scratch_ops tx sk (bc_epoch block) (classify_action tx) s) st x1 = (ml, st, x2)"
        by (rule quiet_run[OF quiet_mandate])
      note run = assms[unfolded execute_transaction_def m sum.case sk option.case m1, unfolded im_run_bind[of b "warden_check _ _ _ _ _ _"] w o' prod.case]
      show ?thesis
      proof (cases outcome)
        case (Inl v)
        then show ?thesis using run sk by (simp add: settled_violation)
      next
        case (Inr out)
        show ?thesis
        proof (cases out)
          case Applied
          then show ?thesis using run Inr ml by (auto simp: im_run_bind[of b "build_mandate_receipt_log _ _ _ _ _ _ _"] intro: settled_dispatch)
        next
          case PendingOwnerCosign
          then show ?thesis using run Inr by (auto simp: fail_before_execution_def intro: settled_failure clamped_le)
        qed
      qed
    qed
  qed
qed

subsection \<open>Transfers\<close>

definition im_balance :: "in_memory_state_view \<Rightarrow> address \<Rightarrow> amount" where
  "im_balance st a = (case fmlookup (im_balances st) a of Some v \<Rightarrow> v | None \<Rightarrow> amount_zero)"

text \<open>A transfer is affordable: gas for both charges, the funds, and room at the recipient.\<close>

definition transfer_ok :: "gas_schedule \<Rightarrow> transaction \<Rightarrow> in_memory_state_view \<Rightarrow> address \<Rightarrow> bool" where
  "transfer_ok sched tx st recipient \<longleftrightarrow>
     unat (intrinsic_gas sched tx) + unat (call_value_transfer sched) \<le> unat (tx_gas_limit tx) \<and>
     tx_value tx \<le> im_balance st (tx_sender tx) \<and>
     (recipient \<noteq> tx_sender tx \<longrightarrow> unat (im_balance st recipient) + unat (tx_value tx) < 2 ^ 128)"

lemma charge_twice:
  "rbind (charge (meter_new g) a) (\<lambda>m. charge m c) = (if unat a + unat c \<le> unat g
     then Inr ((meter_new g)\<lparr>fm_remaining := g - a - c\<rparr>) else Inl OutOfGas)"
  by (auto simp: charge_def checked_sub_def ok_or_def meter_new_def word_le_nat_alt unat_sub)

lemma amount_sub_iff: "amount_sub a v = Inr z \<longleftrightarrow> v \<le> a \<and> z = a - v"
  by (auto simp: amount_sub_def checked_sub_def ok_or_def)

lemma amount_add_iff: "amount_add a v = Inr z \<longleftrightarrow> unat a + unat v < 2 ^ 128 \<and> z = a + v"
  by (auto simp: amount_add_def checked_add_def ok_or_def)

lemma execute_transfer_run:
  assumes m: "charge m0 (call_value_transfer sched) = Inr m" and tot: "tx_to tx = Some recipient"
    and v: "tx_value tx \<le> im_balance st (tx_sender tx)"
    and room: "recipient \<noteq> tx_sender tx \<longrightarrow> unat (im_balance st recipient) + unat (tx_value tx) < 2 ^ 128"
  shows "\<exists>s. im_run b (execute_transfer sched tx scratch_new m0) st x = (((Inr [], None), s, m), st, x) \<and>
    s = scratch_new\<lparr>balance_writes := balance_writes s\<rparr> \<and>
    (\<forall>a. unat (case fmlookup (balance_writes s) a of Some y \<Rightarrow> y | None \<Rightarrow> im_balance st a) + (if a = tx_sender tx then unat (tx_value tx) else 0) =
       unat (im_balance st a) + (if a = recipient then unat (tx_value tx) else 0))"
proof -
  let ?v = "tx_value tx" and ?from = "tx_sender tx"
  have bal: "im_run b (scr_balance s a) st x = ((case fmlookup (balance_writes s) a of Some y \<Rightarrow> y | None \<Rightarrow> im_balance st a), st, x)" for s a
    by (auto simp: scr_runs im_balance_def split: option.split)
  have debit: "unat (im_balance st ?from - ?v) + unat ?v = unat (im_balance st ?from)"
    using v by (simp add: unat_sub word_le_nat_alt)
  define s1 where "s1 = scr_set_balance scratch_new ?from (im_balance st ?from - ?v)"
  define old where "old = (if recipient = ?from then im_balance st ?from - ?v else im_balance st recipient)"
  have fits: "unat old + unat ?v < 2 ^ 128"
    using room debit unsigned_less[where 'b = 128, of "im_balance st ?from"] by (auto simp: old_def)
  then have credit: "unat (old + ?v) = unat old + unat ?v" by (simp add: unat_word_ariths)
  have run: "im_run b (execute_transfer sched tx scratch_new m0) st x =
      (((Inr [], None), scr_set_balance s1 recipient (old + ?v), m), st, x)"
    using v fits m tot
    by (auto simp: execute_transfer_def im_run_bind bal s1_def old_def scratch_new_def scr_set_balance_def
        amount_sub_def checked_sub_def amount_add_def checked_add_def ok_or_def Let_def)
  show ?thesis
    by (rule exI[of _ "scr_set_balance s1 recipient (old + ?v)"])
      (use run credit debit in \<open>auto simp: s1_def scr_set_balance_def scratch_new_def old_def\<close>)
qed

lemma execute_transfer_fails:
  assumes "charge m0 (call_value_transfer sched) = Inr m \<Longrightarrow> tx_to tx = Some recipient \<Longrightarrow>
      tx_value tx \<le> im_balance st (tx_sender tx) \<Longrightarrow>
      \<not> (recipient \<noteq> tx_sender tx \<longrightarrow> unat (im_balance st recipient) + unat (tx_value tx) < 2 ^ 128)"
    and "charge m0 (call_value_transfer sched) = Inr m \<or> charge m0 (call_value_transfer sched) = Inl OutOfGas"
    and "tx_to tx = Some recipient \<or> tx_to tx = None"
  shows "\<exists>e s m'. im_run b (execute_transfer sched tx scratch_new m0) st x = (((Inl e, None), s, m'), st, x)"
proof -
  have bal: "im_run b (scr_balance s a) st x = ((case fmlookup (balance_writes s) a of Some y \<Rightarrow> y | None \<Rightarrow> im_balance st a), st, x)" for s a
    by (auto simp: scr_runs im_balance_def split: option.split)
  have over: "\<exists>e. amount_add (im_balance st recipient) (tx_value tx) = Inl e"
    if "\<not> unat (im_balance st recipient) + unat (tx_value tx) < 2 ^ 128"
    using that by (simp add: amount_add_Inl)
  show ?thesis
    using assms over
    by (cases "amount_sub (im_balance st (tx_sender tx)) (tx_value tx)")
      (auto simp: execute_transfer_def im_run_bind bal scratch_new_def scr_set_balance_def Let_def
        amount_sub_Inl amount_sub_Inr word_le_nat_alt split: sum.split)
qed

lemma settle_success_run:
  assumes "im_run b (settle_success tx logs ml s m) st x = (r, st', x')"
  shows "rc_success r" "rc_gas_used r = clamped_gas_used tx m"
    "q \<noteq> QNonce (tx_sender tx) \<Longrightarrow> im_answer st' q = overlay s (im_answer st) q"
proof -
  obtain u st1 x1 where c: "im_run b (commit_with_nonce s (tx_sender tx)) st x = (u, st1, x1)" by (metis prod_cases3)
  with assms show "rc_success r" "rc_gas_used r = clamped_gas_used tx m"
    "q \<noteq> QNonce (tx_sender tx) \<Longrightarrow> im_answer st' q = overlay s (im_answer st) q"
    using commit_answers(2)[OF c] by (auto simp: settle_success_def im_run_bind receipt_new_def)
qed

lemma settle_error_run:
  "im_run b (settle tx ml ((Inl e, None), s, m)) st x = (r, st', x') \<Longrightarrow> \<not> rc_success r"
  by (auto simp: settle_def settle_failure_def im_run_bind receipt_new_def split: prod.splits)

lemma overlay_balances_only:
  assumes "s = scratch_new\<lparr>balance_writes := w\<rparr>"
  shows "overlay s base q = (case q of QBalance a \<Rightarrow> (case fmlookup w a of Some y \<Rightarrow> AAmount y | None \<Rightarrow> base q) | _ \<Rightarrow> base q)"
  by (cases q) (auto simp: assms scratch_new_def thin_pointer_def)

lemma transfer_exact:
  assumes "tx_type tx = Transfer" "tx_session_key tx = None"
    and run: "im_run b (execute_transaction env tx block) st x = (r, st', x')"
  shows "(rc_success r \<longleftrightarrow> (\<exists>recipient. tx_to tx = Some recipient \<and> transfer_ok (ve_schedule env) tx st recipient)) \<and>
    (\<forall>recipient. rc_success r \<and> tx_to tx = Some recipient \<longrightarrow>
      (\<forall>a. unat (im_balance st' a) + (if a = tx_sender tx then unat (tx_value tx) else 0) =
        unat (im_balance st a) + (if a = recipient then unat (tx_value tx) else 0)) \<and>
      (\<forall>q. q \<noteq> QNonce (tx_sender tx) \<and> (\<forall>a. q \<noteq> QBalance a) \<longrightarrow> im_answer st' q = im_answer st q))"
proof -
  let ?sched = "ve_schedule env"
  let ?m0 = "charge (meter_new (tx_gas_limit tx)) (intrinsic_gas ?sched tx)"
  let ?good = "\<exists>recipient. tx_to tx = Some recipient \<and> transfer_ok ?sched tx st recipient"
  have gas: "(\<exists>m0 m. ?m0 = Inr m0 \<and> charge m0 (call_value_transfer ?sched) = Inr m) \<longleftrightarrow>
      unat (intrinsic_gas ?sched tx) + unat (call_value_transfer ?sched) \<le> unat (tx_gas_limit tx)"
    using charge_twice[of "tx_gas_limit tx" "intrinsic_gas ?sched tx" "call_value_transfer ?sched"]
    by (cases ?m0) (auto split: if_splits)
  show ?thesis
  proof (cases ?good)
    case True
    then obtain recipient where good: "tx_to tx = Some recipient" "transfer_ok ?sched tx st recipient" by blast
    then obtain m0 m where m: "?m0 = Inr m0" "charge m0 (call_value_transfer ?sched) = Inr m"
      using gas by (auto simp: transfer_ok_def)
    obtain s where s: "im_run b (execute_transfer ?sched tx scratch_new m0) st x = (((Inr [], None), s, m), st, x)"
      "s = scratch_new\<lparr>balance_writes := balance_writes s\<rparr>"
      "\<And>a. unat (case fmlookup (balance_writes s) a of Some y \<Rightarrow> y | None \<Rightarrow> im_balance st a) + (if a = tx_sender tx then unat (tx_value tx) else 0) =
        unat (im_balance st a) + (if a = recipient then unat (tx_value tx) else 0)"
      using execute_transfer_run[OF m(2) good(1), of st b x] good(2) unfolding transfer_ok_def by blast
    have "im_run b (settle_success tx [] None s m) st x = (r, st', x')"
      using run m assms(1,2) s(1) by (simp add: execute_transaction_def dispatch_def im_run_bind settle_def)
    note fin = settle_success_run[OF this]
    have bal: "im_balance st' a = (case fmlookup (balance_writes s) a of Some y \<Rightarrow> y | None \<Rightarrow> im_balance st a)" for a
      using fin(3)[of "QBalance a"] overlay_balances_only[OF s(2), of "im_answer st" "QBalance a"]
      by (auto simp: im_balance_def split: option.splits)
    have other: "im_answer st' q = im_answer st q" if "q \<noteq> QNonce (tx_sender tx)" "\<forall>a. q \<noteq> QBalance a" for q
      using fin(3)[OF that(1)] overlay_balances_only[OF s(2), of "im_answer st" q] that by (cases q) auto
    show ?thesis using True good fin(1) bal s(3) other by auto
  next
    case False
    have "\<not> rc_success r"
    proof (cases ?m0)
      case (Inl e)
      then show ?thesis using run by (auto simp: execute_transaction_def im_run_bind receipt_new_def split: prod.splits)
    next
      case (Inr m0)
      have "\<exists>e s m'. im_run b (execute_transfer ?sched tx scratch_new m0) st x = (((Inl e, None), s, m'), st, x)"
        by (rule execute_transfer_fails[where recipient = "the (tx_to tx)" and m = "projr (charge m0 (call_value_transfer ?sched))"])
          (use False gas Inr in \<open>cases "charge m0 (call_value_transfer (ve_schedule env))"; auto simp: transfer_ok_def charge_Inl\<close>)+
      then show ?thesis using run Inr assms(1,2)
        by (auto simp: execute_transaction_def dispatch_def im_run_bind dest: settle_error_run)
    qed
    then show ?thesis using False by simp
  qed
qed


subsection \<open>Properties\<close>

text \<open>
  C4. Every transaction settles. Whatever the transaction and the contract code it runs, the executor
  ends with a receipt that carries the transaction's hash and at most its gas limit, the sender's
  nonce is one higher (it stays at the maximum), and a failed transaction has no logs and changes
  nothing else in the state; only a policy violation may update the stored policy of the session key.
\<close>

theorem every_transaction_settles:
  assumes "im_run b (execute_transaction env tx block) st x = (r, st', x')"
  shows "rc_tx_hash r = tx_hash tx \<and> rc_gas_used r \<le> tx_gas_limit tx \<and>
    im_answer st' (QNonce (tx_sender tx)) =
      ANonce (saturating_add (case im_answer st (QNonce (tx_sender tx)) of ANonce n \<Rightarrow> n | _ \<Rightarrow> 0) 1) \<and>
    (\<not> rc_success r \<longrightarrow> rc_logs r = [] \<and>
      (\<forall>q. q \<noteq> QNonce (tx_sender tx) \<and> \<not> policy_entry env tx q \<longrightarrow> im_answer st' q = im_answer st q))"
  using execute_settles [OF assms] by (simp add: settles_def)

theorem every_transaction_settles_witness:
  "\<exists>r st' x'. im_run checksum (execute_transaction no_contracts (vm_tx Transfer 1 2 50) sample_context) im_new exec_new = (r, st', x') \<and>
    \<not> rc_success r \<and> rc_gas_used r = 30000 \<and> im_answer st' (QNonce 1) = ANonce 1 \<and> im_answer st' (QBalance 2) = im_answer im_new (QBalance 2)"
proof -
  let ?run = "im_run checksum (execute_transaction no_contracts (vm_tx Transfer 1 2 50) sample_context) im_new exec_new"
  obtain r st' x' where run: "?run = (r, st', x')" by (metis prod_cases3)
  have "\<not> rc_success (fst ?run)" "rc_gas_used (fst ?run) = 30000" by code_simp+
  moreover have "\<not> policy_entry no_contracts (vm_tx Transfer 1 2 50) (QBalance 2)" by (simp add: policy_entry_def)
  ultimately show ?thesis
    using every_transaction_settles [OF run] run by (auto simp: vm_tx_def im_new_def saturating_add_def)
qed

subsection \<open>Re-entrancy\<close>

text \<open>A contract that calls itself until it finds its mark in storage.\<close>

definition reentrant_guest :: "unit guest" where
  "reentrant_guest = GHost (Some [7]) (HStorageRead 0 1 0) (\<lambda>(found, _).
     if found = RI32 0 then GHost (Some [7, 2]) (HStorageWrite 0 1 1 1) (\<lambda>_. GReturn ())
     else GHost (Some [7, 1]) (HStorageWrite 0 1 1 1) (\<lambda>_.
       GHost (Some (replicate 19 0 @ [9])) (HCall NormalCall 0 20 0 500000) (\<lambda>_. GReturn ())))"

definition reentrant_module :: wasm_module where
  "reentrant_module = \<lparr>wm_link = Inr (), wm_start = GReturn (\<lambda>name. if name = ENTRY_POINT then Some reentrant_guest else None),
     wm_exports_func = (\<lambda>name. name = ENTRY_POINT)\<rparr>"

text \<open>
  A run of such a re-entry: contract 9 calls itself, both frames run, and the transaction succeeds with
  the write of the inner one.
\<close>

theorem self_call_runs_both_frames:
  "(let (r, st', _) = im_run checksum (execute_transaction (sample_vm reentrant_module) (vm_tx ContractCall 1 9 0) sample_context)
      (im_new\<lparr>im_code := fmap_of_list [(9, [1])]\<rparr>) exec_new in
    rc_success r \<and> im_answer st' (QRead 9 [7]) = ABytes (Some [2]))"
  by code_simp

end
