(* ===== verification/Vm_Calls.thy ===== *)
theory Vm_Calls
  imports Vm_Host
begin

section \<open>Calls between contracts\<close>

text \<open>
  Host functions never give gas back and keep the frame of their caller; a failed or static call leaves
  the caller's state as it was; sixty-four levels of calls are enough for every run.
\<close>

subsection \<open>Results of a program\<close>

primrec results :: "('r \<Rightarrow> bool) \<Rightarrow> 'r prog \<Rightarrow> bool" where
  "results P (Ret r) \<longleftrightarrow> P r"
| "results P (Query t q k) \<longleftrightarrow> (\<forall>a. results P (k a))"
| "results P (HasCodeHash h k) \<longleftrightarrow> (\<forall>b. results P (k b))"
| "results P (Exec op k) \<longleftrightarrow> (\<forall>a. results P (k a))"
| "results P (Update key v p) \<longleftrightarrow> results P p"

lemma results_bind: "results P p \<Longrightarrow> (\<And>r. P r \<Longrightarrow> results Q (f r)) \<Longrightarrow> results Q (prog_bind p f)"
  by (induction p) auto

lemma bind_cong_results: "results P p \<Longrightarrow> (\<And>r. P r \<Longrightarrow> f r = g r) \<Longrightarrow> prog_bind p f = prog_bind p g"
  by (induction p) auto

lemma results_True [simp]: "results (\<lambda>_. True) p"
  by (induction p) auto

lemma results_mono: "results P p \<Longrightarrow> (\<And>r. P r \<Longrightarrow> Q r) \<Longrightarrow> results Q p"
  by (induction p) auto

lemma results_im_run: "results P p \<Longrightarrow> P (fst (im_run b p st x))"
  by (induction p arbitrary: st x) (auto split: prod.splits)

subsection \<open>Host functions keep their frame\<close>

text \<open>
  No host function gives fuel back, and each leaves the call context, the block and the schedule of
  its caller as they were.
\<close>

definition same_frame :: "host_state \<Rightarrow> host_state \<Rightarrow> bool" where
  "same_frame h h' \<longleftrightarrow> hs_call_ctx h' = hs_call_ctx h \<and> hs_block h' = hs_block h \<and> hs_schedule h' = hs_schedule h"

definition meters :: "host_state \<Rightarrow> ('e + 'a) \<times> host_state \<Rightarrow> bool" where
  "meters h r \<longleftrightarrow> same_frame h (snd r) \<and> fm_remaining (hs_meter (snd r)) \<le> fm_remaining (hs_meter h)"

definition keeps_frame :: "host_state \<Rightarrow> u64 \<Rightarrow> 'e + host_return \<times> bytes option \<times> host_state \<times> u64 \<Rightarrow> bool" where
  "keeps_frame h fuel r \<longleftrightarrow> (case r of Inl _ \<Rightarrow> True | Inr (_, _, h', fuel') \<Rightarrow> same_frame h h' \<and> fuel' \<le> fuel)"

lemma charge_le: "charge m c = Inr m' \<Longrightarrow> fm_remaining m' \<le> fm_remaining m"
  by (auto simp: charge_Inr word_le_nat_alt unat_sub)

lemma charge_per_byte_le: "charge_per_byte m b p n = Inr m' \<Longrightarrow> fm_remaining m' \<le> fm_remaining m"
  by (auto simp: charge_per_byte_def rbind_def dest: charge_le split: sum.splits)

lemma results_charged:
  assumes "\<And>m. f (hs_meter h) = Inr m \<Longrightarrow> fm_remaining m \<le> fm_remaining (hs_meter h)"
    and "\<And>m. f (hs_meter h) = Inr m \<Longrightarrow> results (meters (h\<lparr>hs_meter := m\<rparr>)) (k (h\<lparr>hs_meter := m\<rparr>))"
  shows "results (meters h) (charged f h k)"
proof (cases "f (hs_meter h)")
  case (Inr m)
  from assms(2)[OF this] have "results (meters h) (k (h\<lparr>hs_meter := m\<rparr>))"
    by (rule results_mono) (use assms(1)[OF Inr] in \<open>auto simp: meters_def same_frame_def\<close>)
  then show ?thesis by (simp add: charged_def Inr)
qed (simp add: charged_def meters_def same_frame_def)

lemma results_host:
  "results (meters h) (storage_read h key)" "results (meters h) (storage_write h key v)"
  "results (meters h) (storage_delete h key)" "results (meters h) (host_transfer h a y)"
  "results (meters h) (emit_event h topics dat)"
proof -
  show "results (meters h) (storage_read h key)"
    unfolding storage_read_def
    by (rule results_charged) (auto dest: charge_le simp: meters_def same_frame_def mark_warm_def intro!: results_bind[OF results_True])
  show "results (meters h) (storage_write h key v)"
    unfolding storage_write_def
    by (rule results_bind[OF results_True], rule results_charged)
      (auto dest: charge_le simp: meters_def same_frame_def mark_warm_def)
  show "results (meters h) (storage_delete h key)"
    unfolding storage_delete_def
    by (rule results_charged) (auto dest: charge_le simp: meters_def same_frame_def mark_warm_def gas_refund_def)
  show "results (meters h) (host_transfer h a y)"
    unfolding host_transfer_def
    by (rule results_charged)
      (auto dest: charge_le simp: meters_def same_frame_def Let_def intro!: results_bind[OF results_True] split: sum.split)
  show "results (meters h) (emit_event h topics dat)"
    unfolding emit_event_def
    by (rule results_charged) (auto dest: charge_per_byte_le simp: meters_def same_frame_def)
qed

lemma results_try_with:
  "(\<And>y. r = Inr y \<Longrightarrow> results (keeps_frame h fuel) (k y)) \<Longrightarrow> results (keeps_frame h fuel) (try_with r k)"
  by (auto simp: try_with_def keeps_frame_def split: sum.split)

lemma charge_fuel_le: "charge_fuel fuel c = Inr f \<Longrightarrow> f \<le> fuel"
  by (auto simp: charge_fuel_def checked_sub_def ok_or_def word_le_nat_alt unat_sub split: if_splits)

lemma copy_fuel_le: "copy_fuel sched n fuel = Inr f \<Longrightarrow> f \<le> fuel"
  by (auto simp: copy_fuel_def rbind_def dest: charge_fuel_le split: sum.splits)

lemma guest_bytes_le:
  "read_guest_bytes sched mem ptr len fuel = Inr (bs, f) \<Longrightarrow> f \<le> fuel"
  "write_guest_bytes sched mem ptr dat fuel = Inr (mem', f) \<Longrightarrow> f \<le> fuel"
  by (auto simp: read_guest_bytes_def write_guest_bytes_def rbind_def dest: copy_fuel_le split: sum.splits if_splits)

lemma results_synced:
  assumes "\<And>h. results (meters h) (op h)" "f \<le> fuel" "\<And>r h' v h''. fin r h' = Inr (v, h'') \<Longrightarrow> same_frame h' h''"
  shows "results (keeps_frame h fuel) (synced op h f fin mem)"
  unfolding synced_def
proof (rule results_bind[OF assms(1)], goal_cases)
  case (1 r)
  obtain v h' where rv: "r = (v, h')" by (cases r)
  have "same_frame h h'" "fm_remaining (hs_meter h') \<le> fuel"
    using 1 assms(2) by (auto simp: rv meters_def same_frame_def set_remaining_def)
  then show ?case
    using assms(3)[of v h'] by (cases "fin v h'") (auto simp: rv keeps_frame_def same_frame_def)
qed

lemma exit_enter:
  "enter_call cx a = Inr cx' \<Longrightarrow> exit_call cx' a = cx \<and> unat (cc_depth cx') = Suc (unat (cc_depth cx)) \<and> unat (cc_depth cx) < 64"
  by (cases cx) (auto simp: enter_call_def exit_call_def MAX_CALL_DEPTH_def saturating_sub_def word_less_nat_alt not_le
      word_le_nat_alt unat_word_ariths split: if_splits)

text \<open>
  A call leaves the caller as it was when it fails or is static; otherwise the callee's writes and
  events are added.
\<close>

definition contained :: "call_mode \<Rightarrow> host_state \<Rightarrow> 'e + host_return \<times> bytes option \<times> host_state \<times> u64 \<Rightarrow> bool" where
  "contained mode h r \<longleftrightarrow> (case r of Inl _ \<Rightarrow> True | Inr (v, _, h', _) \<Rightarrow>
     (v = RI32 (- 1) \<or> mode = StaticCall \<longrightarrow> hs_state h' = hs_state h \<and> hs_events h' = hs_events h) \<and>
     (\<exists>more. hs_events h' = hs_events h @ more))"

lemma results_dispatch_call:
  "f \<le> fuel \<Longrightarrow> results (\<lambda>r. keeps_frame h fuel r \<and> contained mode h r) (dispatch_call env run mode a cd g mem h f)"
  unfolding dispatch_call_def Let_def
  apply (cases "enter_call (hs_call_ctx (set_remaining h f)) a")
   apply (simp add: keeps_frame_def contained_def)
  apply (frule exit_enter)
  apply (auto simp: keeps_frame_def contained_def set_remaining_def same_frame_def unwind_call_def accept_callee_def Let_def
      intro!: results_bind[OF results_True] split: sum.split option.split dest!: charge_le)
  by (meson order_trans)+

lemma results_dispatch_frame:
  "f \<le> fuel \<Longrightarrow> results (keeps_frame h fuel) (dispatch_call env run mode a cd g mem h f)"
  by (rule results_mono[OF results_dispatch_call]) auto

lemma results_link_call: "results (keeps_frame h fuel) (link_call env run mem hc h fuel)"
proof (cases hc)
  case (HStorageRead ptr len reg)
  then show ?thesis
    by (auto intro!: results_try_with results_synced results_host dest: guest_bytes_le
        simp: same_frame_def split: prod.split sum.splits option.splits)
next
  case (HTransfer ptr len amt)
  then show ?thesis
    by (auto intro!: results_try_with results_synced results_host dest: guest_bytes_le simp: keeps_frame_def same_frame_def
        split: prod.split sum.splits vm_error.splits)
next
  case (HCall mode ptr len reg g)
  then show ?thesis
    by (auto intro!: results_try_with results_dispatch_frame dest: guest_bytes_le simp: keeps_frame_def split: prod.split)
qed (auto intro!: results_try_with results_synced results_host
    dest: guest_bytes_le charge_fuel_le copy_fuel_le
    simp: keeps_frame_def same_frame_def or_trap_def context_query_fuel_def split: prod.split sum.splits,
  (meson guest_bytes_le order_trans)+)

lemma results_run_guest:
  "results (\<lambda>r. case r of Inl _ \<Rightarrow> True | Inr (_, h', f') \<Rightarrow> same_frame h h' \<and> f' \<le> fuel) (run_guest env run g h fuel)"
proof (induction g arbitrary: h fuel)
  case (GBurn n g)
  then show ?case
    by (auto intro!: results_mono[OF GBurn] split: sum.splits) (meson order_trans word_sub_le)+
next
  case (GHost mem hc k)
  show ?case
    unfolding run_guest.simps
  proof (rule results_bind[OF results_link_call], goal_cases)
    case (1 r)
    then show ?case
      by (auto simp: keeps_frame_def same_frame_def split: sum.splits intro!: results_mono[OF GHost])
  qed
qed (auto simp: same_frame_def)

subsection \<open>Levels of calls\<close>

text \<open>Two engines that agree one level down run every guest alike.\<close>

abbreviation depth_of :: "host_state \<Rightarrow> nat" where
  "depth_of h \<equiv> unat (cc_depth (hs_call_ctx h))"

definition agree_below :: "nat \<Rightarrow> runner \<Rightarrow> runner \<Rightarrow> bool" where
  "agree_below d run1 run2 \<longleftrightarrow> (\<forall>abi m h. depth_of h = Suc d \<and> d < 64 \<longrightarrow> run1 abi m h = run2 abi m h)"

lemma dispatch_call_cong:
  assumes "agree_below (depth_of h) run1 run2"
  shows "dispatch_call env run1 mode a cd g mem h f = dispatch_call env run2 mode a cd g mem h f"
proof (cases "enter_call (hs_call_ctx (set_remaining h f)) a")
  case (Inr cx)
  have "unat (cc_depth cx) = Suc (depth_of h)" "depth_of h < 64"
    using exit_enter[OF Inr] by (auto simp: set_remaining_def)
  then have "run1 abi m (host_new mt sc cx bl sn cd) = run2 abi m (host_new mt sc cx bl sn cd)" for abi m mt sc bl sn
    using assms by (simp add: agree_below_def host_new_def)
  then show ?thesis by (simp add: dispatch_call_def Inr Let_def cong: option.case_cong sum.case_cong)
qed (simp add: dispatch_call_def)

lemma link_call_cong:
  assumes "agree_below (depth_of h) run1 run2"
  shows "link_call env run1 mem hc h fuel = link_call env run2 mem hc h fuel"
  by (cases hc) (simp_all add: dispatch_call_cong[OF assms] cong: if_cong)

lemma run_guest_cong:
  "agree_below (depth_of h) run1 run2 \<Longrightarrow> run_guest env run1 g h fuel = run_guest env run2 g h fuel"
proof (induction g arbitrary: h fuel)
  case (GHost mem hc k)
  show ?case
    unfolding run_guest.simps link_call_cong[OF GHost.prems]
    by (rule bind_cong_results[OF results_link_call])
      (use GHost in \<open>auto simp: keeps_frame_def same_frame_def split: sum.splits\<close>)
qed auto

lemma run_entry_cong:
  assumes "agree_below (depth_of h) run1 run2"
  shows "run_entry env run1 abi m h entry absent = run_entry env run2 abi m h entry absent"
proof -
  have "(case started of Inl e \<Rightarrow> Ret (Inl (InstantiationFailed ''start function''))
      | Inr (inst, h1, f1) \<Rightarrow> (case inst entry of None \<Rightarrow> Ret (absent h1)
        | Some g \<Rightarrow> prog_bind (run_guest env run1 g h1 f1) fin)) =
    (case started of Inl e \<Rightarrow> Ret (Inl (InstantiationFailed ''start function''))
      | Inr (inst, h1, f1) \<Rightarrow> (case inst entry of None \<Rightarrow> Ret (absent h1)
        | Some g \<Rightarrow> prog_bind (run_guest env run2 g h1 f1) fin))"
    if "case started of Inl _ \<Rightarrow> True | Inr (_, h', f') \<Rightarrow> same_frame h h' \<and> f' \<le> fuel"
    for started :: "wasm_error + wasm_instance \<times> host_state \<times> u64" and fin fuel
    using that assms by (auto simp: same_frame_def run_guest_cong split: sum.split option.split)
  then show ?thesis
    unfolding run_entry_def Let_def run_guest_cong[OF assms]
    by (cases "rbind (build_linker_for_abi abi) (\<lambda>_. map_err InstantiationFailed (wm_link m))")
      (auto intro!: bind_cong_results[OF results_run_guest])
qed

lemma run_wasm_call_levels:
  "64 < n + depth_of h \<Longrightarrow> n \<le> n' \<Longrightarrow> run_wasm_call n env abi m h = run_wasm_call n' env abi m h" if "depth_of h \<le> 64"
  using that
proof (induction n arbitrary: n' abi m h)
  case (Suc n)
  then obtain k where n': "n' = Suc k" "n \<le> k" by (cases n') auto
  have "agree_below (depth_of h) (run_wasm_call n env) (run_wasm_call k env)"
    unfolding agree_below_def
  proof (intro allI impI)
    fix abi m h' assume h': "depth_of h' = Suc (depth_of h) \<and> depth_of h < 64"
    show "run_wasm_call n env abi m h' = run_wasm_call k env abi m h'"
      by (rule Suc.IH) (use Suc.prems n' h' in auto)
  qed
  then show ?case by (simp add: n' run_entry_cong)
qed simp

lemma levels_suffice:
  assumes "depth_of h = 0" "unat MAX_CALL_DEPTH \<le> n"
  shows "run_entry env (run_wasm_call n env) abi m h entry absent =
    run_entry env (run_wasm_call (unat MAX_CALL_DEPTH) env) abi m h entry absent"
proof (rule run_entry_cong)
  show "agree_below (depth_of h) (run_wasm_call n env) (run_wasm_call (unat MAX_CALL_DEPTH) env)"
    unfolding agree_below_def
    by (intro allI impI) (use assms in \<open>auto intro!: run_wasm_call_levels[symmetric] simp: MAX_CALL_DEPTH_def\<close>)
qed

subsection \<open>Live frames\<close>




subsection \<open>Properties\<close>

text \<open>A module whose call writes one entry, and a caller with gas.\<close>

definition writer_module :: wasm_module where
  "writer_module = \<lparr>wm_link = Inr (), wm_start = GReturn (\<lambda>name. if name = ENTRY_POINT
       then Some (GHost (Some [7, 1]) (HStorageWrite 0 1 1 1) (\<lambda>_. GReturn ())) else None),
     wm_exports_func = (\<lambda>name. name = ENTRY_POINT)\<rparr>"

definition writer_env :: wasm_env where
  "writer_env = \<lparr>wv_schedule = devnet, wv_compile = (\<lambda>_. Inr writer_module), wv_metadata = (\<lambda>_. None)\<rparr>"

definition sample_caller :: host_state where
  "sample_caller = host_new (meter_new 500000) devnet call_context_new
     \<lparr>bc_height = 1, bc_timestamp = 0, bc_msg_sender = 0, bc_msg_value = 0, bc_tx_origin = 0, bc_contract = 5,
      bc_epoch = 0, bc_active_features = {||}\<rparr> ((scr_snapshot scratch_new)\<lparr>sn_code := fmap_of_list [(9, [1])]\<rparr>) []"

text \<open>
  C21. Calls between contracts are contained. However the callee behaves, a call that returns to its
  caller leaves the caller's call context, block and schedule as they were and gives it no gas; a call
  that fails (result -1) or is static leaves the caller's state and events untouched.
\<close>

theorem calls_are_contained:
  assumes "im_run b (dispatch_call env run mode a calldata g mem h fuel) st x = (Inr (v, mem', h', fuel'), st', x')"
  shows "fuel' \<le> fuel \<and> hs_call_ctx h' = hs_call_ctx h \<and> hs_block h' = hs_block h \<and> hs_schedule h' = hs_schedule h \<and>
    (v = RI32 (- 1) \<or> mode = StaticCall \<longrightarrow> hs_state h' = hs_state h \<and> hs_events h' = hs_events h)"
  using results_im_run [OF results_dispatch_call [where f = fuel and fuel = fuel and h = h and mode = mode and env = env and run = run and a = a and cd = calldata and g = g and mem = mem], of b st x] assms
  by (auto simp: keeps_frame_def contained_def same_frame_def)

theorem calls_are_contained_witness:
  "\<exists>v mem' h' fuel' st' x'. im_run checksum (dispatch_call writer_env (run_wasm_call 64 writer_env) StaticCall 9 [] 400000 None sample_caller 500000)
      im_new exec_new = (Inr (v, mem', h', fuel'), st', x') \<and> v = RI32 0 \<and> hs_state h' = hs_state sample_caller"
proof -
  let ?run = "im_run checksum (dispatch_call writer_env (run_wasm_call 64 writer_env) StaticCall 9 [] 400000 None sample_caller 500000) im_new exec_new"
  have "map_sum (\<lambda>_. ()) fst (fst ?run) = Inr (RI32 0)" by code_simp
  then obtain mem' h' fuel' st' x' where run: "?run = (Inr (RI32 0, mem', h', fuel'), st', x')"
    by (cases ?run; cases "fst ?run") auto
  from calls_are_contained [OF this] run show ?thesis by blast
qed

text \<open>
  C20. Nested calls end: sixty-four levels are enough. A transaction's execution is the same however
  many further levels of calls are allowed, so the bound on the recursion cuts nothing off that the
  code would run, and the depth check of the code is what stops deeper calls.
\<close>

theorem call_levels_suffice:
  assumes "hs_call_ctx h = call_context_new" "unat MAX_CALL_DEPTH \<le> n"
  shows "run_entry env (run_wasm_call n env) abi module h entry (\<lambda>h'. Inr (0, h')) = run_wasm_with_entry env abi module h entry"
  unfolding run_wasm_with_entry_def
  by (rule levels_suffice) (use assms in \<open>simp_all add: call_context_new_def\<close>)

theorem call_levels_suffice_witness:
  "run_entry writer_env (run_wasm_call 100 writer_env) 1 writer_module sample_caller ENTRY_POINT (\<lambda>h'. Inr (0, h')) =
    run_wasm_with_entry writer_env 1 writer_module sample_caller ENTRY_POINT"
  by (rule call_levels_suffice) (simp_all add: sample_caller_def host_new_def MAX_CALL_DEPTH_def)



end
