(* ===== verification/Vm_Parallel.thy ===== *)
theory Vm_Parallel
  imports Flux_Progress Vm_Settlement Vm_Calls
begin

section \<open>Blocks of transactions\<close>

text \<open>
  The executor under the parallel scheduler. Transactions that run no contract code read state only
  through the view they are given, so blocks of them run in parallel as they do one after the other.
  Contract code reads through a clone of the view (\<open>ScratchSnapshot\<close>), which captures nothing, and shares
  the set of warm code: two runs show what that costs.
\<close>

subsection \<open>Plain transactions are tracked\<close>

lemma tracked_bind [simp]: "tracked p \<Longrightarrow> (\<And>r. tracked (f r)) \<Longrightarrow> tracked (prog_bind p f)"
  by (induction p) auto

lemma tracked_view [simp]:
  "tracked (sv_read True c k)" "tracked (sv_exists True c k)" "tracked (sv_balance True a)" "tracked (sv_nonce True a)"
  "tracked (sv_write c k v)" "tracked (sv_delete c k)" "tracked (sv_set_balance a y)" "tracked (sv_set_nonce a n)"
  "tracked (sv_set_code a bs)"
  by (simp_all add: sv_read_def sv_exists_def sv_balance_def sv_nonce_def sv_updates)

lemma tracked_scratch [simp]: "tracked (scr_read s c k)" "tracked (scr_exists s c k)" "tracked (scr_balance s a)"
  by (simp_all add: scr_read_def scr_exists_def scr_balance_def split: option.split)

lemma tracked_for [simp]: "(\<And>e. tracked (f e)) \<Longrightarrow> tracked (prog_for f es)"
  by (induction es) simp_all

lemma tracked_nonce [simp]: "tracked (advance_nonce a)"
  by (simp add: advance_nonce_def)

lemma tracked_commit [simp]: "tracked (commit_with_nonce s a)"
proof -
  have "tracked (flush_storage e)" for e by (cases e rule: flush_storage.cases) auto
  moreover have "tracked (flush_nonce a e)" "tracked (flush_pointer store e')" for e e' store
    by (simp_all add: flush_nonce_def flush_pointer_def split: option.split)
  ultimately show ?thesis by (simp add: commit_with_nonce_def)
qed

lemma tracked_bind_results: "tracked p \<Longrightarrow> results P p \<Longrightarrow> (\<And>r. P r \<Longrightarrow> tracked (f r)) \<Longrightarrow> tracked (prog_bind p f)"
  by (induction p) auto

lemma tracked_transfer: "tracked (execute_transfer sched tx s m)"
  by (auto simp: execute_transfer_def Let_def split: sum.split option.split intro!: tracked_bind)

text \<open>Transactions that run no contract code.\<close>

definition is_plain :: "transaction \<Rightarrow> bool" where
  "is_plain tx \<longleftrightarrow> tx_type tx \<noteq> ContractCall \<and> tx_type tx \<noteq> ContractDeploy"

lemma dispatch_plain:
  assumes "is_plain tx"
  shows "tracked (prog_bind (dispatch env tx block s m) (settle tx ml))"
proof -
  have fail: "tracked (settle_failure tx m)" and ok: "tracked (settle_success tx logs ml s m)" for logs s m
    by (simp_all add: settle_failure_def settle_success_def)
  have "results (\<lambda>res. snd (fst res) = None) (execute_transfer sched tx s m)" for sched
    by (auto simp: execute_transfer_def Let_def split: sum.split option.split intro!: results_bind[OF results_True])
  then have "tracked (prog_bind (execute_transfer sched tx s m) (settle tx ml))" for sched
    by (rule tracked_bind_results[OF tracked_transfer]) (auto simp: settle_def fail ok split: sum.split)
  then show ?thesis using assms
    by (cases "tx_type tx") (auto simp: dispatch_def is_plain_def settle_def fail ok)
qed

lemma tracked_violation: "tracked (settle_violation env tx sk epoch v m)"
  by (auto simp: settle_violation_def handle_violation_def read_policy_def write_policy_def inner_ops_def
      split: option.split intro!: tracked_bind)

lemma tracked_warden: "tracked (warden_check env scratch_ops tx sk epoch s)"
  by (auto simp: warden_check_def scratch_ops_def read_owner_paused_def read_policy_def write_policy_def
      counterparty_identity_def read_agent_identity_def split: option.split sum.split intro!: tracked_bind)

lemma tracked_mandate: "tracked (build_mandate_receipt_log env scratch_ops tx sk epoch act s)"
  by (auto simp: build_mandate_receipt_log_def read_policy_def scratch_ops_def intro!: tracked_bind)

lemma execute_plain_tracked:
  assumes "is_plain tx"
  shows "tracked (execute_transaction env tx block)"
  by (auto simp: execute_transaction_def fail_before_execution_def tracked_warden tracked_mandate tracked_violation
      dispatch_plain[OF assms] split: sum.split option.split warden_outcome.split intro!: tracked_bind)


subsection \<open>Schedules\<close>

fun run_schedule :: "flux_env \<Rightarrow> nat list \<Rightarrow> flux \<Rightarrow> flux" where
  "run_schedule env [] s = s"
| "run_schedule env (w # ws) s = run_schedule env ws (case worker_step env w s of Some t \<Rightarrow> t | None \<Rightarrow> s)"


lemma run_schedule_steps:
  "\<forall>w \<in> set ws. w < length (fx_workers s) \<Longrightarrow> (flux_step env)\<^sup>*\<^sup>* s (run_schedule env ws s)"
proof (induction ws arbitrary: s)
  case (Cons w ws)
  show ?case
  proof (cases "worker_step env w s")
    case None
    then show ?thesis using Cons by simp
  next
    case (Some t)
    then have "length (fx_workers t) = length (fx_workers s)" by (auto simp: worker_step_def)
    then have "(flux_step env)\<^sup>*\<^sup>* t (run_schedule env ws t)" using Cons by simp
    moreover have "flux_step env s t" using Cons.prems Some by (auto intro: flux_step.intros)
    ultimately show ?thesis using Some by simp
  qed
qed simp

lemma all_finished_code [code]:
  "all_finished s = list_all (\<lambda>ph. case ph of Finished \<Rightarrow> True | _ \<Rightarrow> False) (fx_workers s)"
  unfolding all_finished_def by (rule list.pred_cong) (auto split: phase.split)

text \<open>Two workers in turn.\<close>

abbreviation alternating :: "nat list" where
  "alternating \<equiv> concat (replicate 40 [0, 1])"

subsection \<open>Parallel execution\<close>

definition vm_block :: "vm_env \<Rightarrow> in_memory_state_view \<Rightarrow> transaction list \<Rightarrow> flux_env" where
  "vm_block env st txs = \<lparr>fe_exec = (\<lambda>tx. execute_transaction env tx sample_context), fe_base = im_base st, fe_txs = txs\<rparr>"

text \<open>Two transfers, the second paid from the first.\<close>

definition transfer_block :: flux_env where
  "transfer_block = vm_block no_contracts (im_with_balances (fmap_of_list [(1, 100)]))
     [vm_tx Transfer 1 2 50, vm_tx Transfer 2 3 30]"

lemma plain_block_tracked:
  assumes "list_all is_plain (fe_txs env)" "\<And>tx. fe_exec env tx = execute_transaction venv tx (ctx tx)"
  shows "tracked_block env"
  using assms by (auto simp: tracked_block_def tx_prog_def list_all_iff execute_plain_tracked)

lemma transfer_block_tracked: "tracked_block transfer_block"
  by (rule plain_block_tracked[where venv = no_contracts and ctx = "\<lambda>_. sample_context"])
    (simp_all add: transfer_block_def vm_block_def is_plain_def vm_tx_def)

lemma transfer_block_finishes:
  "(flux_step transfer_block)\<^sup>*\<^sup>* (flux_init transfer_block 2 exec_new)
     (run_schedule transfer_block alternating (flux_init transfer_block 2 exec_new))"
  "all_finished (run_schedule transfer_block alternating (flux_init transfer_block 2 exec_new))"
  by (rule run_schedule_steps, simp add: flux_init_def) code_simp

text \<open>
  C2. Parallel execution equals sequential execution. For every block whose transactions read state
  only through the view they are given, every number of workers and every interleaving of their
  actions, the receipts and the final writes of the parallel scheduler are those of the
  sequential one.
\<close>

theorem parallel_equals_sequential:
  assumes "tracked_block env" "execute_block_parallel env n warm out"
  shows "out = execute_block_sequential env warm"
  using assms by (rule parallel_is_sequential)

theorem parallel_equals_sequential_witness:
  "\<exists>s. (flux_step transfer_block)\<^sup>*\<^sup>* (flux_init transfer_block 2 exec_new) s \<and> all_finished s \<and>
    flux_output transfer_block s = execute_block_sequential transfer_block exec_new"
proof -
  have "1 < length (fe_txs transfer_block)" by (simp add: transfer_block_def vm_block_def)
  from execute_block_parallel.parallel [OF this _ transfer_block_finishes]
  have "execute_block_parallel transfer_block 2 exec_new
      (flux_output transfer_block (run_schedule transfer_block alternating (flux_init transfer_block 2 exec_new)))" by simp
  from parallel_equals_sequential [OF transfer_block_tracked this] show ?thesis
    using transfer_block_finishes by blast
qed

text \<open>
  Blocks without contract code run in parallel as they do in sequence: transfers, stake and vote
  transactions, by owners and by agents under a policy, give the same receipts and the same writes for
  every number of workers and every interleaving.
\<close>

theorem plain_blocks_equal_sequential:
  assumes "list_all is_plain (fe_txs env)" "\<And>tx. fe_exec env tx = execute_transaction venv tx (ctx tx)"
    and "execute_block_parallel env n warm out"
  shows "out = execute_block_sequential env warm"
  using parallel_is_sequential [OF plain_block_tracked [OF assms(1,2)] assms(3)] .

theorem plain_blocks_equal_sequential_witness:
  "\<exists>out. execute_block_parallel transfer_block 2 exec_new out \<and> out = execute_block_sequential transfer_block exec_new \<and>
    map rc_success (bo_receipts out) = [True, True] \<and> fmlookup (bo_writes out) (Balance 2) = Some (VBalance 20)"
proof -
  let ?out = "flux_output transfer_block (run_schedule transfer_block alternating (flux_init transfer_block 2 exec_new))"
  have "1 < length (fe_txs transfer_block)" by (simp add: transfer_block_def vm_block_def)
  from execute_block_parallel.parallel [OF this _ transfer_block_finishes]
  have run: "execute_block_parallel transfer_block 2 exec_new ?out" by simp
  have "list_all is_plain (fe_txs transfer_block)" by (simp add: transfer_block_def vm_block_def is_plain_def vm_tx_def)
  moreover have "fe_exec transfer_block tx = execute_transaction no_contracts tx ((\<lambda>_. sample_context) tx)" for tx
    by (simp add: transfer_block_def vm_block_def)
  ultimately have eq: "?out = execute_block_sequential transfer_block exec_new" using run by (rule plain_blocks_equal_sequential)
  have ok: "map rc_success (bo_receipts ?out) = [True, True]" by code_simp
  have paid: "fmlookup (bo_writes ?out) (Balance 2) = Some (VBalance 20)" by code_simp
  show ?thesis by (intro exI [of _ ?out] conjI run eq ok paid)
qed

text \<open>
  C10. Parallel execution completes, for every block whose transactions read state only through the view
  they are given, as blocks without contract calls and deployments do. However the workers have been scheduled so far, the block can
  still be finished; and no schedule makes progress for ever, so only endless spinning of idle
  workers, while the others are never scheduled, keeps a block from finishing. Each transaction
  is committed, none is re-executed without end.
\<close>

theorem parallel_execution_completes:
  assumes "tracked_block env" "0 < n" "(flux_step env)\<^sup>*\<^sup>* (flux_init env n warm) s"
  shows "(\<exists>t. (flux_step env)\<^sup>*\<^sup>* s t \<and> all_finished t) \<and>
    (\<forall>f. f 0 = s \<and> (\<forall>i. flux_step env (f i) (f (Suc i))) \<longrightarrow> (\<exists>k. \<forall>i \<ge> k. \<not> busy_step env (f i) (f (Suc i))))"
  using assms by (rule execution_completes)

theorem parallel_execution_completes_witness:
  "\<exists>t. (flux_step transfer_block)\<^sup>*\<^sup>* (run_schedule transfer_block [1, 0, 1, 1, 0] (flux_init transfer_block 2 exec_new)) t \<and>
    all_finished t"
proof -
  have "(flux_step transfer_block)\<^sup>*\<^sup>* (flux_init transfer_block 2 exec_new)
      (run_schedule transfer_block [1, 0, 1, 1, 0] (flux_init transfer_block 2 exec_new))"
    by (rule run_schedule_steps) (simp add: flux_init_def)
  from parallel_execution_completes [OF transfer_block_tracked _ this] show ?thesis by simp
qed

subsection \<open>Contract code under the scheduler\<close>

text \<open>A contract that stores 2 where it finds a value and 1 where it finds none.\<close>

definition counter_guest :: "unit guest" where
  "counter_guest = GHost (Some [7]) (HStorageRead 0 1 0) (\<lambda>(r, _).
     GHost (Some [7, if r = RI32 0 then 2 else 1]) (HStorageWrite 0 1 1 1) (\<lambda>_. GReturn ()))"

definition counter_module :: wasm_module where
  "counter_module = \<lparr>wm_link = Inr (), wm_start = GReturn (\<lambda>name. if name = ENTRY_POINT then Some counter_guest else None),
     wm_exports_func = (\<lambda>name. name = ENTRY_POINT)\<rparr>"

definition contract_state :: in_memory_state_view where
  "contract_state = im_new\<lparr>im_code := fmap_of_list [(9, [1])]\<rparr>"

definition counter_block :: flux_env where
  "counter_block = vm_block (sample_vm counter_module) contract_state [vm_tx ContractCall 1 9 0, vm_tx ContractCall 2 9 0]"

text \<open>
  C30. Parallel execution of contract calls loses updates: contract code reads storage through a clone of
  the view, whose reads are not captured, so two calls that read the same entry are both committed.
  Under the alternating schedule the contract holds 1 after two increments; one after the other
  they leave 2.
\<close>

theorem contract_calls_lose_updates:
  "\<exists>s. (flux_step counter_block)\<^sup>*\<^sup>* (flux_init counter_block 2 exec_new) s \<and> all_finished s \<and>
    fmlookup (bo_writes (flux_output counter_block s)) (Storage 9 [7]) = Some (VStorage (Some [1])) \<and>
    fmlookup (bo_writes (execute_block_sequential counter_block exec_new)) (Storage 9 [7]) = Some (VStorage (Some [2]))"
proof (intro exI conjI)
  let ?s = "run_schedule counter_block alternating (flux_init counter_block 2 exec_new)"
  show "(flux_step counter_block)\<^sup>*\<^sup>* (flux_init counter_block 2 exec_new) ?s"
    by (rule run_schedule_steps) (simp add: flux_init_def)
  show "all_finished ?s" by code_simp
  show "fmlookup (bo_writes (flux_output counter_block ?s)) (Storage 9 [7]) = Some (VStorage (Some [1]))" by code_simp
  show "fmlookup (bo_writes (execute_block_sequential counter_block exec_new)) (Storage 9 [7]) = Some (VStorage (Some [2]))"
    by code_simp
qed

text \<open>
  The gas of a call depends on the schedule: whichever execution inserts the code hash first pays the
  surcharge for cold code.
\<close>

lemma surcharge_follows_schedule:
  "map rc_gas_used (bo_receipts (flux_output counter_block (run_schedule counter_block alternating (flux_init counter_block 2 exec_new)))) = [145209, 45209] \<and>
   map rc_gas_used (bo_receipts (flux_output counter_block (run_schedule counter_block (0 # replicate 12 1 @ alternating) (flux_init counter_block 2 exec_new)))) = [45209, 145209]"
  by (rule conjI; code_simp)

end
