(* ===== verification/Warden_Limits.thy ===== *)
theory Warden_Limits
  imports Warden
begin

section \<open>What agents can spend\<close>

text \<open>
  Policies over sequences of transactions: the limits of a grant hold over every run.
\<close>

subsection \<open>Spending under a policy\<close>

text \<open>The limits of a grant, which enforcement never changes but for the refilled budget.\<close>

abbreviation refill_of :: "agent_policy \<Rightarrow> nat" where
  "refill_of p \<equiv> unat (refill_per_epoch p)"

definition same_limits :: "agent_policy \<Rightarrow> agent_policy \<Rightarrow> bool" where
  "same_limits p p' \<longleftrightarrow> per_tx_cap p' = per_tx_cap p \<and> per_epoch_cap p' = per_epoch_cap p \<and> refill_per_epoch p' = refill_per_epoch p"

lemma refilled_budget_le: "unat (refilled_budget p) \<le> unat (budget_total p) + refill_of p"
proof -
  have "unat (case amount_add (budget_total p) (refill_per_epoch p) of Inr y \<Rightarrow> y | Inl _ \<Rightarrow> budget_total p) \<le>
      unat (budget_total p) + refill_of p"
    by (auto simp: amount_add_Inr split: sum.split)
  then show ?thesis
    by (auto simp: refilled_budget_def Let_def word_less_nat_alt split: option.split)
qed

lemma epoch_reset_facts:
  assumes "last_epoch p \<le> e"
  shows "same_limits p (epoch_reset p e)" "last_epoch (epoch_reset p e) = e" "spent_total (epoch_reset p e) = spent_total p"
    "spent_this_epoch (epoch_reset p e) = (if last_epoch p = e then spent_this_epoch p else amount_zero)"
    "unat (budget_total (epoch_reset p e)) \<le> unat (budget_total p) + (if last_epoch p = e then 0 else refill_of p)"
  using assms refilled_budget_le[of p] by (auto simp: epoch_reset_def apply_epoch_reset_def same_limits_def)

lemma commit_counters_facts:
  "same_limits p (commit_counters p tx cat ea ta)" "last_epoch (commit_counters p tx cat ea ta) = last_epoch p"
  "budget_total (commit_counters p tx cat ea ta) = budget_total p"
  "spent_this_epoch (commit_counters p tx cat ea ta) = ea" "spent_total (commit_counters p tx cat ea ta) = ta"
  by (auto simp: commit_counters_def update_history_def same_limits_def Let_def split: option.split)

lemma check_spend_facts:
  assumes "check_spend tx e p0 = Inr (Some p')"
  defines "p \<equiv> epoch_reset p0 e"
  shows "tx_value tx \<le> per_tx_cap p0" "same_limits p p'" "last_epoch p' = last_epoch p" "budget_total p' = budget_total p"
    "unat (spent_this_epoch p') = unat (spent_this_epoch p) + unat (tx_value tx)" "spent_this_epoch p' \<le> per_epoch_cap p"
    "unat (spent_total p') = unat (spent_total p) + unat (tx_value tx)" "spent_total p' \<le> budget_total p"
  using assms(1)
  by (auto simp: check_spend_def Let_def rbind_def map_err_def p_def commit_counters_facts amount_add_Inr not_less
      split: sum.splits if_splits option.splits)

text \<open>
  One agent transaction: the outcome of the counterparty check, which depends on other state, and
  whether the execution that follows succeeds are given; a failed execution drops the counters.
\<close>

record agent_event =
  ev_tx :: transaction
  ev_epoch :: u64
  ev_counterparty :: "policy_violation + unit"
  ev_executes :: bool

definition warden_decide :: "agent_event \<Rightarrow> agent_policy \<Rightarrow> policy_violation + agent_policy option" where
  "warden_decide ev p = rbind (check_grant (ev_tx ev) (ev_epoch ev) p) (\<lambda>_. rbind (ev_counterparty ev) (\<lambda>_.
     check_spend (ev_tx ev) (ev_epoch ev) p))"

definition policy_step :: "agent_event \<Rightarrow> agent_policy \<Rightarrow> nat \<times> agent_policy" where
  "policy_step ev p = (case warden_decide ev p of
     Inr (Some p') \<Rightarrow> if ev_executes ev then (unat (tx_value (ev_tx ev)), p') else (0, p)
   | Inr None \<Rightarrow> (0, p)
   | Inl v \<Rightarrow> (0, if max_violations_per_epoch (ap_auto_revoke p) = 0 then p else count_violation p (ev_epoch ev)))"

fun spending :: "agent_event list \<Rightarrow> agent_policy \<Rightarrow> (u64 \<times> nat) list" where
  "spending [] p = []"
| "spending (ev # evs) p = (ev_epoch ev, fst (policy_step ev p)) # spending evs (snd (policy_step ev p))"

definition spent_in :: "u64 \<Rightarrow> (u64 \<times> nat) list \<Rightarrow> nat" where
  "spent_in e xs = sum_list (map snd (filter (\<lambda>(e', _). e' = e) xs))"

definition spent_over :: "(u64 \<times> nat) list \<Rightarrow> nat" where
  "spent_over xs = sum_list (map snd xs)"

lemma policy_step_facts:
  assumes "last_epoch p \<le> ev_epoch ev"
  defines "n \<equiv> fst (policy_step ev p)" and "p' \<equiv> snd (policy_step ev p)"
  shows "same_limits p p'" "last_epoch p' = last_epoch p \<or> last_epoch p' = ev_epoch ev"
    "n > 0 \<Longrightarrow> last_epoch p' = ev_epoch ev"
    "unat (spent_total p') = unat (spent_total p) + n"
    "unat (spent_this_epoch p') = (if last_epoch p' = last_epoch p then unat (spent_this_epoch p) else 0) + n"
    "n > 0 \<Longrightarrow> spent_this_epoch p' \<le> per_epoch_cap p \<and> spent_total p' \<le> budget_total p'"
    "unat (budget_total p') \<le> unat (budget_total p) + (if last_epoch p' = last_epoch p then 0 else refill_of p)"
    "n \<le> unat (per_tx_cap p)"
proof -
  note reset = epoch_reset_facts[OF assms(1)]
  have "same_limits p p' \<and> (last_epoch p' = last_epoch p \<or> last_epoch p' = ev_epoch ev) \<and>
    (n > 0 \<longrightarrow> last_epoch p' = ev_epoch ev \<and> spent_this_epoch p' \<le> per_epoch_cap p \<and> spent_total p' \<le> budget_total p') \<and>
    unat (spent_total p') = unat (spent_total p) + n \<and>
    unat (spent_this_epoch p') = (if last_epoch p' = last_epoch p then unat (spent_this_epoch p) else 0) + n \<and>
    unat (budget_total p') \<le> unat (budget_total p) + (if last_epoch p' = last_epoch p then 0 else refill_of p) \<and>
    n \<le> unat (per_tx_cap p)"
  proof (cases "warden_decide ev p")
    case (Inl v)
    have "same_limits q (count_violation p (ev_epoch ev)) \<and> last_epoch (count_violation p (ev_epoch ev)) = last_epoch q \<and>
      budget_total (count_violation p (ev_epoch ev)) = budget_total q \<and> spent_total (count_violation p (ev_epoch ev)) = spent_total q \<and>
      spent_this_epoch (count_violation p (ev_epoch ev)) = spent_this_epoch q" if "q = epoch_reset p (ev_epoch ev)" for q
      unfolding that by (simp add: count_violation_def Let_def same_limits_def)
    with Inl reset show ?thesis
      by (auto simp: n_def p'_def policy_step_def same_limits_def)
  next
    case (Inr res)
    show ?thesis
    proof (cases res)
      case None
      with Inr show ?thesis by (simp add: n_def p'_def policy_step_def same_limits_def)
    next
      case (Some q)
      have "check_spend (ev_tx ev) (ev_epoch ev) p = Inr (Some q)"
        using Inr Some by (auto simp: warden_decide_def rbind_def split: sum.splits)
      note facts = check_spend_facts[OF this]
      show ?thesis
        using Inr Some facts reset
        by (auto simp: n_def p'_def policy_step_def same_limits_def word_le_nat_alt)
    qed
  qed
  then show "same_limits p p'" "last_epoch p' = last_epoch p \<or> last_epoch p' = ev_epoch ev"
    "n > 0 \<Longrightarrow> last_epoch p' = ev_epoch ev"
    "unat (spent_total p') = unat (spent_total p) + n"
    "unat (spent_this_epoch p') = (if last_epoch p' = last_epoch p then unat (spent_this_epoch p) else 0) + n"
    "n > 0 \<Longrightarrow> spent_this_epoch p' \<le> per_epoch_cap p \<and> spent_total p' \<le> budget_total p'"
    "unat (budget_total p') \<le> unat (budget_total p) + (if last_epoch p' = last_epoch p then 0 else refill_of p)"
    "n \<le> unat (per_tx_cap p)" by auto
qed

definition in_order :: "agent_event list \<Rightarrow> agent_policy \<Rightarrow> bool" where
  "in_order evs p \<longleftrightarrow> sorted (map ev_epoch evs) \<and> (\<forall>ev \<in> set evs. last_epoch p \<le> ev_epoch ev)"

lemma in_order_Cons:
  assumes "in_order (ev # evs) p"
  shows "last_epoch p \<le> ev_epoch ev" "in_order evs (snd (policy_step ev p))"
  using assms policy_step_facts(2)[of p ev] by (auto simp: in_order_def)

lemma spent_in_Cons: "spent_in e ((e', n) # xs) = (if e' = e then n else 0) + spent_in e xs"
  by (simp add: spent_in_def)

lemma spent_over_Cons: "spent_over ((e', n) # xs) = n + spent_over xs"
  by (simp add: spent_over_def)

lemma spent_in_other: "\<forall>ev \<in> set evs. ev_epoch ev \<noteq> e \<Longrightarrow> spent_in e (spending evs p) = 0"
  by (induction evs arbitrary: p) (auto simp: spent_in_def)

lemma epoch_spending:
  "in_order evs p \<Longrightarrow> spent_in e (spending evs p) = 0 \<or>
    spent_in e (spending evs p) + (if last_epoch p = e then unat (spent_this_epoch p) else 0) \<le> unat (per_epoch_cap p)"
proof (induction evs arbitrary: p)
  case (Cons ev evs)
  let ?p = "snd (policy_step ev p)" and ?n = "fst (policy_step ev p)"
  note io = in_order_Cons[OF Cons.prems]
  note facts = policy_step_facts[OF io(1)]
  have cap: "per_epoch_cap ?p = per_epoch_cap p" using facts(1) by (simp add: same_limits_def)
  have later: "spent_in e (spending evs ?p) = 0" if "e = last_epoch p" "ev_epoch ev \<noteq> e"
    using Cons.prems that by (intro spent_in_other) (auto simp: in_order_def)
  have within: "?n > 0 \<Longrightarrow> unat (spent_this_epoch ?p) \<le> unat (per_epoch_cap p)"
    using facts(6) by (simp add: word_le_nat_alt)
  show ?case
    using Cons.IH[OF io(2)] facts(2,3,5) within later cap
    by (cases "?n > 0"; cases "ev_epoch ev = e"; cases "last_epoch ?p = last_epoch p") (auto simp: spent_in_Cons)
qed (simp add: spent_in_def)

lemma total_spending:
  "in_order evs p \<Longrightarrow> spent_over (spending evs p) = 0 \<or>
    spent_over (spending evs p) + unat (spent_total p) \<le>
      unat (budget_total p) + refill_of p * card (ev_epoch ` set evs - {last_epoch p})"
proof (induction evs arbitrary: p)
  case (Cons ev evs)
  let ?p = "snd (policy_step ev p)" and ?n = "fst (policy_step ev p)"
  let ?S = "ev_epoch ` set evs"
  note io = in_order_Cons[OF Cons.prems]
  note facts = policy_step_facts[OF io(1)]
  have limits: "refill_per_epoch ?p = refill_per_epoch p" using facts(1) by (simp add: same_limits_def)
  have budget: "unat (budget_total ?p) + refill_of p * card (?S - {last_epoch ?p}) \<le>
      unat (budget_total p) + refill_of p * card (insert (ev_epoch ev) ?S - {last_epoch p})"
  proof (cases "last_epoch ?p = last_epoch p")
    case True
    have "card (?S - {last_epoch p}) \<le> card (insert (ev_epoch ev) ?S - {last_epoch p})" by (rule card_mono) auto
    then show ?thesis using True facts(7) by (simp add: add_mono)
  next
    case False
    then have e: "last_epoch ?p = ev_epoch ev" "last_epoch p < ev_epoch ev" using facts(2) io(1) by auto
    then have "insert (ev_epoch ev) ?S - {last_epoch p} = insert (ev_epoch ev) (?S - {ev_epoch ev})"
      using Cons.prems by (auto simp: in_order_def)
    moreover have "card (insert (ev_epoch ev) (?S - {ev_epoch ev})) = Suc (card (?S - {ev_epoch ev}))"
      by (rule card_insert_disjoint) auto
    ultimately have "card (insert (ev_epoch ev) ?S - {last_epoch p}) = Suc (card (?S - {ev_epoch ev}))" by (rule ssubst)
    then show ?thesis using facts(7) False e(1) by simp
  qed
  show ?case
    using Cons.IH[OF io(2)] facts(4,6) budget limits
    by (cases "?n > 0") (auto simp: spent_over_Cons word_le_nat_alt)
qed (simp add: spent_over_def)

text \<open>
  C16. An agent spends within its grant. Whatever transactions a session key submits, in the order of
  their epochs, and whatever becomes of them: no transaction spends more than the cap per
  transaction, no epoch more than the cap per epoch, and altogether no more than the budget and one
  refill for each epoch. Violations that count and expire the policy are part of the run.
\<close>

theorem agent_spends_within_grant:
  assumes "in_order evs p" "spent_this_epoch p = 0" "spent_total p = 0"
  shows "(\<forall>(e, n) \<in> set (spending evs p). n \<le> unat (per_tx_cap p)) \<and>
    (\<forall>e. spent_in e (spending evs p) \<le> unat (per_epoch_cap p)) \<and>
    spent_over (spending evs p) \<le> unat (budget_total p) + unat (refill_per_epoch p) * card (ev_epoch ` set evs)"
proof (intro conjI)
  have "\<forall>(e, n) \<in> set (spending evs p). n \<le> unat (per_tx_cap p)" if "in_order evs p" for p
    using that
  proof (induction evs arbitrary: p)
    case (Cons ev evs)
    note io = in_order_Cons[OF Cons.prems]
    show ?case using Cons.IH[OF io(2)] policy_step_facts(1,8)[OF io(1)] by (auto simp: same_limits_def)
  qed simp
  then show "\<forall>(e, n) \<in> set (spending evs p). n \<le> unat (per_tx_cap p)" using assms(1) by blast
  show "\<forall>e. spent_in e (spending evs p) \<le> unat (per_epoch_cap p)"
  proof
    show "spent_in e (spending evs p) \<le> unat (per_epoch_cap p)" for e
      using epoch_spending[OF assms(1), of e] assms(2) by (auto split: if_splits)
  qed
  have "card (ev_epoch ` set evs - {last_epoch p}) \<le> card (ev_epoch ` set evs)" by (rule card_mono) auto
  then have "refill_of p * card (ev_epoch ` set evs - {last_epoch p}) \<le> refill_of p * card (ev_epoch ` set evs)"
    by (rule mult_le_mono2)
  moreover have "spent_over (spending evs p) \<le> unat (budget_total p) + refill_of p * card (ev_epoch ` set evs - {last_epoch p})"
    using total_spending[OF assms(1)] assms(3) by auto
  ultimately show "spent_over (spending evs p) \<le> unat (budget_total p) + refill_of p * card (ev_epoch ` set evs)"
    by linarith
qed

text \<open>A grant of 100 in total and 60 an epoch, with co-signature from 50 on.\<close>

definition sample_policy :: agent_policy where
  "sample_policy = \<lparr>ap_session_key = [1], expiry_epoch = 10, budget_total = 100, per_tx_cap = 60, per_epoch_cap = 60,
     allowed_targets = AnyTarget, allowed_actions = {|ActTransfer|}, spent_total = 0, spent_this_epoch = 0, last_epoch = 0,
     refill_per_epoch = 0, budget_ceiling = None, categories = fmempty, active_window = None, cosign_threshold = Some 50,
     ap_auto_revoke = \<lparr>max_violations_per_epoch = 0, violations_this_epoch = 0\<rparr>, anomaly = anomaly_default,
     history = history_default, required_kya_tier = KyaNone, min_counterparty_reputation = 0, ap_kya_tier = KyaNone\<rparr>"

definition sample_event :: "u64 \<Rightarrow> amount \<Rightarrow> agent_event" where
  "sample_event e v = \<lparr>ev_tx = sample_tx\<lparr>tx_value := v, tx_session_key := Some [1]\<rparr>, ev_epoch = e, ev_counterparty = Inr (), ev_executes = True\<rparr>"

theorem agent_spends_within_grant_witness:
  "spending (map (\<lambda>(e, v). sample_event e v) [(0, 40), (0, 30), (1, 40), (2, 40)]) sample_policy = [(0, 40), (0, 0), (1, 40), (2, 0)] \<and>
   spent_over (spending (map (\<lambda>(e, v). sample_event e v) [(0, 40), (0, 30), (1, 40), (2, 40)]) sample_policy) \<le> 100"
proof -
  let ?evs = "map (\<lambda>(e, v). sample_event e v) [(0, 40), (0, 30), (1, 40), (2, 40)]"
  have "in_order ?evs sample_policy" by (simp add: in_order_def sample_event_def sample_policy_def)
  from agent_spends_within_grant [OF this] have "spent_over (spending ?evs sample_policy) \<le> 100"
    by (simp add: sample_policy_def)
  moreover have "spending ?evs sample_policy = [(0, 40), (0, 0), (1, 40), (2, 0)]" by code_simp
  ultimately show ?thesis by blast
qed

subsection \<open>The owner's co-signature\<close>

lemma cosignature_presence:
  "check_spend (tx\<lparr>tx_owner_cosignature := Some x\<rparr>) e p = check_spend (tx\<lparr>tx_owner_cosignature := Some y\<rparr>) e p"
  by (simp add: check_spend_def classify_action_def anomaly_detected_def value_spike_def novel_target_def commit_counters_def
      update_history_def cong: if_cong option.case_cong)

text \<open>
  C35. The owner's co-signature is never verified. A transaction above the threshold of a policy is held
  for the owner; with any bytes in its co-signature field it is applied. The field is not part of
  what the sender signs either: transaction verification, the mempool's only check of signatures,
  does not see it.
\<close>

theorem cosignature_never_verified:
  "check_spend (ev_tx (sample_event 1 50)) 1 sample_policy = Inr None \<and>
   (\<forall>forged. \<exists>p'. check_spend (ev_tx (sample_event 1 50)\<lparr>tx_owner_cosignature := Some forged\<rparr>) 1 sample_policy = Inr (Some p') \<and>
     spent_total p' = 50) \<and>
   (\<forall>lib pk tx forged. verify_transaction lib (tx\<lparr>tx_owner_cosignature := Some forged\<rparr>) pk = verify_transaction lib tx pk)"
proof (intro conjI allI)
  show "check_spend (ev_tx (sample_event 1 50)) 1 sample_policy = Inr None" by code_simp
  show "\<exists>p'. check_spend (ev_tx (sample_event 1 50)\<lparr>tx_owner_cosignature := Some forged\<rparr>) 1 sample_policy = Inr (Some p') \<and>
     spent_total p' = 50" for forged
  proof -
    have "map_sum id (map_option spent_total) (check_spend (ev_tx (sample_event 1 50)\<lparr>tx_owner_cosignature := Some []\<rparr>) 1 sample_policy) = Inr (Some 50)"
      by code_simp
    then show ?thesis unfolding cosignature_presence[where x = forged and y = "[]"]
      by (cases "check_spend (ev_tx (sample_event 1 50)\<lparr>tx_owner_cosignature := Some []\<rparr>) 1 sample_policy") auto
  qed
  show "verify_transaction lib (tx\<lparr>tx_owner_cosignature := Some forged\<rparr>) pk = verify_transaction lib tx pk" for lib tx forged pk
    by (simp add: verify_transaction_def compute_tx_hash_def from_tx_def)
qed

end
