(* ===== verification/Warden_State.thy ===== *)
theory Warden_State
  imports Warden_Limits
begin

section \<open>Policies on state\<close>

text \<open>
  The Warden runs on the scratch overlay of a transaction and, after a violation, on the state below it.
  Both keep one contract, stated as a locale: reads answer from what the state shows, and a write changes
  what it shows at its own key only. The checks are proved against that contract, and the dead-man's
  switch follows for the stored policies.
\<close>

subsection \<open>The contract of a contract-state view\<close>

definition stored_policy :: "warden_env \<Rightarrow> (query \<Rightarrow> answer) \<Rightarrow> address \<Rightarrow> bytes \<Rightarrow> agent_policy option" where
  "stored_policy env view owner sk =
     (case view (QRead (warden_address (we_blake3 env)) (policy_state_key owner sk)) of
       ABytes (Some bs) \<Rightarrow> policy_from_slice env bs | _ \<Rightarrow> None)"

definition stored_counterparty :: "warden_env \<Rightarrow> (query \<Rightarrow> answer) \<Rightarrow> agent_policy \<Rightarrow> transaction \<Rightarrow> policy_violation + unit" where
  "stored_counterparty env view p tx = (case tx_to tx of
     None \<Rightarrow> Inr ()
   | Some target \<Rightarrow> check_counterparty p target
       (case view (QRead (registry_address (we_blake3 env)) (agent_identity_key target)) of
         ABytes (Some bs) \<Rightarrow> identity_from_slice env bs | _ \<Rightarrow> None))"

definition is_paused :: "warden_env \<Rightarrow> (query \<Rightarrow> answer) \<Rightarrow> address \<Rightarrow> bool" where
  "is_paused env view owner \<longleftrightarrow> view (QExists (warden_address (we_blake3 env)) (owner_pause_key owner)) = ABool True"

definition shows_write :: "(query \<Rightarrow> answer) \<Rightarrow> address \<Rightarrow> bytes \<Rightarrow> bytes \<Rightarrow> query \<Rightarrow> answer" where
  "shows_write view c k v q =
     (if q = QRead c k then ABytes (Some v) else if q = QExists c k then ABool True else view q)"

locale contract_state_view =
  fixes ops :: "'s state_ops"
    and look :: "'s \<Rightarrow> in_memory_state_view \<Rightarrow> query \<Rightarrow> answer"
  assumes reads: "im_run b (so_read ops s c k) st x = ((case look s st (QRead c k) of ABytes v \<Rightarrow> v | _ \<Rightarrow> None), st, x)"
    and exists: "im_run b (so_exists ops s c k) st x = (look s st (QExists c k) = ABool True, st, x)"
    and writes: "\<exists>s' st'. im_run b (so_write ops s c k v) st x = (s', st', x) \<and> look s' st' = shows_write (look s st) c k v"
begin

lemma paused_run: "im_run b (read_owner_paused env ops s owner) st x = (is_paused env (look s st) owner, st, x)"
  by (simp add: read_owner_paused_def exists is_paused_def)

lemma policy_run: "im_run b (read_policy env ops s owner sk) st x = (stored_policy env (look s st) owner sk, st, x)"
  by (auto simp: read_policy_def im_run_bind reads stored_policy_def split: answer.split option.split)

lemma counterparty_run: "im_run b (counterparty_identity env ops s p tx) st x = (stored_counterparty env (look s st) p tx, st, x)"
  by (auto simp: counterparty_identity_def read_agent_identity_def im_run_bind reads stored_counterparty_def
      split: answer.split option.split)

lemma write_run:
  "\<exists>s' st'. im_run b (write_policy env ops s owner sk p) st x = ((policy_to_vec env p \<noteq> None, s'), st', x) \<and>
    look s' st' = (case policy_to_vec env p of
      Some bs \<Rightarrow> shows_write (look s st) (warden_address (we_blake3 env)) (policy_state_key owner sk) bs
    | None \<Rightarrow> look s st)"
  using writes[of b s "warden_address (we_blake3 env)" "policy_state_key owner sk" "the (policy_to_vec env p)" st x]
  by (auto simp: write_policy_def im_run_bind split: option.split)

text \<open>What is written is what is read back, as far as the codec round-trips.\<close>

lemma write_stores:
  assumes "im_run b (write_policy env ops s owner sk p) st x = ((ok, s'), st', x')"
    and "Option.bind (policy_to_vec env p) (policy_from_slice env) = Some p"
  shows "stored_policy env (look s' st') owner sk = Some p" "x' = x"
  using write_run[of b env s owner sk p st x] assms
  by (auto simp: stored_policy_def shows_write_def Option.bind_eq_Some_conv)

lemma check_runs:
  "\<exists>s' st'. im_run b (warden_check env ops tx sk epoch s) st x =
    ((if is_paused env (look s st) (tx_sender tx) then Inl AgentsPaused
      else case stored_policy env (look s st) (tx_sender tx) sk of
        None \<Rightarrow> Inl PolicyNotFound
      | Some p \<Rightarrow> map_sum id (\<lambda>p'. case p' of None \<Rightarrow> PendingOwnerCosign | Some _ \<Rightarrow> Applied)
          (warden_decide \<lparr>ev_tx = tx, ev_epoch = epoch, ev_counterparty = stored_counterparty env (look s st) p tx, ev_executes = True\<rparr> p), s'),
     st', x)"
proof -
  have "\<exists>s' st'. (case im_run b (write_policy env ops s (tx_sender tx) sk p) st x of
      (r, st', x') \<Rightarrow> im_run b (case r of (_, s') \<Rightarrow> Ret (Inr Applied, s')) st' x') = ((Inr Applied, s'), st', x)" for p
    using write_run[of b env s "tx_sender tx" sk p st x] by auto
  then show ?thesis
    by (auto simp: warden_check_def im_run_bind paused_run policy_run counterparty_run warden_decide_def rbind_def
        split: option.split sum.split)
qed

lemma violation_stored:
  assumes "im_run b (handle_violation env ops tx sk epoch s) st x = (s', st', x')"
    and "stored_policy env (look s st) (tx_sender tx) sk = Some p" "max_violations_per_epoch (ap_auto_revoke p) \<noteq> 0"
    and "Option.bind (policy_to_vec env (count_violation p epoch)) (policy_from_slice env) = Some (count_violation p epoch)"
  shows "stored_policy env (look s' st') (tx_sender tx) sk = Some (count_violation p epoch)"
proof -
  obtain ok s1 st1 x1 where w: "im_run b (write_policy env ops s (tx_sender tx) sk (count_violation p epoch)) st x = ((ok, s1), st1, x1)"
    by (metis prod_cases4 surj_pair)
  from write_stores(1)[OF w assms(4)] assms(1-3) w show ?thesis
    by (simp add: handle_violation_def im_run_bind policy_run)
qed

end

interpretation scratch_view: contract_state_view scratch_ops "\<lambda>s st. overlay s (im_answer st)"
proof
  fix b s c k v st x
  show "\<exists>s' st'. im_run b (so_write scratch_ops s c k v) st x = (s', st', x) \<and>
      overlay s' (im_answer st') = shows_write (overlay s (im_answer st)) c k v"
  proof (intro exI conjI ext)
    show "im_run b (so_write scratch_ops s c k v) st x = (scr_write s c k v, st, x)" by (simp add: scratch_ops_def)
    show "overlay (scr_write s c k v) (im_answer st) q = shows_write (overlay s (im_answer st)) c k v q" for q
      by (cases q) (auto simp: scr_write_def shows_write_def split: option.split)
  qed
qed (simp_all add: scratch_ops_def scr_runs del: overlay.simps)

interpretation inner_view: contract_state_view inner_ops "\<lambda>_. im_answer"
proof
  fix b s c k v st x
  show "\<exists>s' st'. im_run b (so_write inner_ops s c k v) st x = (s', st', x) \<and> im_answer st' = shows_write (im_answer st) c k v"
  proof (intro exI conjI ext)
    show "im_run b (so_write inner_ops s c k v) st x = ((), st\<lparr>im_storage := fmupd (c, k) v (im_storage st)\<rparr>, x)"
      by (simp add: inner_ops_def sv_write_def)
    show "im_answer (st\<lparr>im_storage := fmupd (c, k) v (im_storage st)\<rparr>) q = shows_write (im_answer st) c k v q" for q
      by (cases q) (auto simp: shows_write_def)
  qed
qed (simp_all add: inner_ops_def sv_read_def sv_exists_def)

subsection \<open>The check decides by the stored policy\<close>

text \<open>
  On state, the check is the decision by the stored policy: paused owners and unknown session keys
  are refused, every other transaction is decided by the policy found under its sender and session
  key, and an applied one leaves the policy with its counters advanced in the scratch, to be
  committed or dropped with the transaction.
\<close>

theorem warden_check_decides:
  fixes s :: scratch and st :: in_memory_state_view
  defines "view \<equiv> overlay s (im_answer st)"
  shows "im_run b (warden_check env scratch_ops tx sk epoch s) st x =
    (if is_paused env view (tx_sender tx) then (Inl AgentsPaused, s)
     else case stored_policy env view (tx_sender tx) sk of
       None \<Rightarrow> (Inl PolicyNotFound, s)
     | Some p \<Rightarrow> (case warden_decide \<lparr>ev_tx = tx, ev_epoch = epoch, ev_counterparty = stored_counterparty env view p tx, ev_executes = True\<rparr> p of
         Inl v \<Rightarrow> (Inl v, s)
       | Inr None \<Rightarrow> (Inr PendingOwnerCosign, s)
       | Inr (Some p') \<Rightarrow> (Inr Applied, case policy_to_vec env p' of
           Some bs \<Rightarrow> scr_write s (warden_address (we_blake3 env)) (policy_state_key (tx_sender tx) sk) bs
         | None \<Rightarrow> s)), st, x)"
proof -
  have store: "im_run b (write_policy env scratch_ops s (tx_sender tx) sk p') st x = ((policy_to_vec env p' \<noteq> None,
      case policy_to_vec env p' of Some bs \<Rightarrow> scr_write s (warden_address (we_blake3 env)) (policy_state_key (tx_sender tx) sk) bs | None \<Rightarrow> s), st, x)" for p'
    by (simp add: write_policy_def scratch_ops_def split: option.split)
  show ?thesis unfolding view_def
    by (auto simp: warden_check_def im_run_bind scratch_view.paused_run scratch_view.policy_run scratch_view.counterparty_run
        store warden_decide_def rbind_def simp del: overlay.simps split: option.split sum.split)
qed

subsection \<open>The dead-man's switch\<close>

lemma overlay_new: "overlay scratch_new view = view"
proof
  show "overlay scratch_new view q = view q" for q by (cases q) (simp_all add: scratch_new_def thin_pointer_def)
qed

lemma epoch_reset_idle: "epoch \<le> last_epoch p \<Longrightarrow> epoch_reset p epoch = p"
  by (simp add: epoch_reset_def)

lemma count_violation_facts:
  "epoch \<le> last_epoch (count_violation p epoch)"
  "max_violations_per_epoch (ap_auto_revoke (count_violation p epoch)) = max_violations_per_epoch (ap_auto_revoke p)"
  "violations_this_epoch (ap_auto_revoke (count_violation p epoch)) =
    saturating_add (violations_this_epoch (ap_auto_revoke (epoch_reset p epoch))) 1"
  "max_violations_per_epoch (ap_auto_revoke p) \<le> saturating_add (violations_this_epoch (ap_auto_revoke (epoch_reset p epoch))) 1 \<Longrightarrow>
    expiry_epoch (count_violation p epoch) = epoch"
  by (auto simp: count_violation_def epoch_reset_def apply_epoch_reset_def Let_def)

text \<open>The policy after \<open>k\<close> violations in one epoch.\<close>

primrec violated :: "u64 \<Rightarrow> nat \<Rightarrow> agent_policy \<Rightarrow> agent_policy" where
  "violated epoch 0 p = p"
| "violated epoch (Suc k) p = violated epoch k (count_violation p epoch)"

lemma violated_last: "violated epoch (Suc k) p = count_violation (violated epoch k p) epoch"
  by (induction k arbitrary: p) simp_all

lemma violated_counts:
  assumes "0 < k"
  shows "epoch \<le> last_epoch (violated epoch k p) \<and>
    max_violations_per_epoch (ap_auto_revoke (violated epoch k p)) = max_violations_per_epoch (ap_auto_revoke p) \<and>
    min k (2 ^ 32 - 1) \<le> unat (violations_this_epoch (ap_auto_revoke (violated epoch k p))) \<and>
    (unat (max_violations_per_epoch (ap_auto_revoke p)) \<le> k \<longrightarrow> expiry_epoch (violated epoch k p) = epoch)"
  using assms
proof (induction k rule: nat_induct_non_zero)
  case 1
  then show ?case using count_violation_facts[where p = p and epoch = epoch] by (auto simp: word_le_nat_alt unat_saturating_add)
next
  case (Suc k)
  let ?q = "violated epoch k p"
  have "unat (max_violations_per_epoch (ap_auto_revoke p)) < 2 ^ LENGTH(32)" by (rule unsigned_less)
  then show ?case
    using Suc count_violation_facts[where p = ?q and epoch = epoch] epoch_reset_idle[of epoch ?q]
    by (auto simp: violated_last word_le_nat_alt unat_saturating_add simp del: violated.simps)
qed

lemma violations_stored:
  assumes "stored_policy env (im_answer st) owner sk = Some p" "max_violations_per_epoch (ap_auto_revoke p) \<noteq> 0"
    and "\<forall>tx \<in> set txs. tx_sender tx = owner"
    and "\<And>k. 0 < k \<Longrightarrow> k \<le> length txs \<Longrightarrow>
      Option.bind (policy_to_vec env (violated epoch k p)) (policy_from_slice env) = Some (violated epoch k p)"
    and "im_run b (prog_for (\<lambda>tx. handle_violation env inner_ops tx sk epoch ()) txs) st x = ((), st', x')"
  shows "stored_policy env (im_answer st') owner sk = Some (violated epoch (length txs) p)"
  using assms
proof (induction txs arbitrary: st x p)
  case (Cons tx txs)
  obtain st1 x1 where run: "im_run b (handle_violation env inner_ops tx sk epoch ()) st x = ((), st1, x1)"
    by (metis prod_cases3 old.unit.exhaust)
  have codec: "Option.bind (policy_to_vec env (violated epoch k (count_violation p epoch))) (policy_from_slice env) =
      Some (violated epoch k (count_violation p epoch))" if "k \<le> length txs" for k
    using Cons.prems(4)[of "Suc k"] that by simp
  have "stored_policy env (im_answer st1) owner sk = Some (count_violation p epoch)"
    using inner_view.violation_stored[OF run] Cons.prems(1,2,3) codec[of 0] by simp
  then have "stored_policy env (im_answer st') owner sk = Some (violated epoch (length txs) (count_violation p epoch))"
    by (rule Cons.IH) (use Cons.prems codec run in \<open>auto simp: count_violation_facts im_run_bind\<close>)
  then show ?case by simp
qed simp

text \<open>
  C17. The dead-man's switch holds. When a session key has violated its policy as often in an epoch as the
  policy allows, every later transaction under that key is refused, in that epoch and after it, because
  the stored policy has expired or the owner has paused all agents.
\<close>

theorem dead_mans_switch:
  assumes "stored_policy env (im_answer st) owner sk = Some p" "max_violations_per_epoch (ap_auto_revoke p) \<noteq> 0"
    and "\<forall>tx \<in> set txs. tx_sender tx = owner" "unat (max_violations_per_epoch (ap_auto_revoke p)) \<le> length txs"
    and "\<And>k. 0 < k \<Longrightarrow> k \<le> length txs \<Longrightarrow>
      Option.bind (policy_to_vec env (violated epoch k p)) (policy_from_slice env) = Some (violated epoch k p)"
    and "im_run b (prog_for (\<lambda>tx. handle_violation env inner_ops tx sk epoch ()) txs) st x = ((), st', x')"
    and "tx_sender tx = owner" "epoch \<le> later"
  shows "fst (fst (im_run b (warden_check env scratch_ops tx sk later scratch_new) st' y)) =
    Inl (if is_paused env (im_answer st') owner then AgentsPaused else Expired epoch later)"
proof -
  have stored: "stored_policy env (im_answer st') owner sk = Some (violated epoch (length txs) p)"
    using assms(1-3,5,6) by (rule violations_stored)
  have "0 < length txs" using assms(2,4) by (cases txs) (auto simp: unat_eq_0)
  from violated_counts[OF this] have "expiry_epoch (violated epoch (length txs) p) = epoch" using assms(4) by blast
  then show ?thesis
    using scratch_view.check_runs[of b env tx sk later scratch_new st' y] stored assms(7,8)
    by (auto simp: overlay_new warden_decide_def check_grant_def rbind_def)
qed

text \<open>A policy that allows two violations an epoch, with a codec for the fields a violation changes.\<close>

definition strict_policy :: "u32 \<Rightarrow> u64 \<Rightarrow> agent_policy" where
  "strict_policy n expiry = sample_policy\<lparr>expiry_epoch := expiry,
     ap_auto_revoke := \<lparr>max_violations_per_epoch = 2, violations_this_epoch = n\<rparr>\<rparr>"

definition strict_env :: warden_env where
  "strict_env = \<lparr>we_blake3 = (\<lambda>_. 0),
     policy_to_vec = (\<lambda>p. Some [ucast (violations_this_epoch (ap_auto_revoke p)), ucast (expiry_epoch p)]),
     policy_from_slice = (\<lambda>bs. case bs of [n, e] \<Rightarrow> Some (strict_policy (ucast n) (ucast e)) | _ \<Rightarrow> None),
     identity_from_slice = (\<lambda>_. None), receipt_to_vec = (\<lambda>_. None)\<rparr>"

definition strict_state :: in_memory_state_view where
  "strict_state = im_new\<lparr>im_storage := fmap_of_list [((0, policy_state_key (tx_sender sample_tx) [1]), [0, 10])]\<rparr>"

theorem dead_mans_switch_witness:
  "\<exists>st' x'. im_run (\<lambda>_. 0) (prog_for (\<lambda>tx. handle_violation strict_env inner_ops tx [1] 0 ()) [sample_tx, sample_tx]) strict_state exec_new = ((), st', x') \<and>
    fst (fst (im_run (\<lambda>_. 0) (warden_check strict_env scratch_ops sample_tx [1] 3 scratch_new) st' exec_new)) = Inl (Expired 0 3)"
proof -
  let ?prog = "prog_for (\<lambda>tx. handle_violation strict_env inner_ops tx [1] 0 ()) [sample_tx, sample_tx]"
  obtain st' x' where run: "im_run (\<lambda>_. 0) ?prog strict_state exec_new = ((), st', x')"
    by (metis prod_cases3 old.unit.exhaust)
  have addr: "warden_address (we_blake3 strict_env) = 0" by (simp add: strict_env_def warden_address_def)
  have p: "stored_policy strict_env (im_answer strict_state) (tx_sender sample_tx) [1] = Some (strict_policy 0 10)"
    unfolding stored_policy_def addr by (simp add: strict_state_def strict_env_def)
  have step: "count_violation (strict_policy n e) 0 = strict_policy (saturating_add n 1) (if 2 \<le> saturating_add n 1 then 0 else e)" for n e
    by (simp add: count_violation_def strict_policy_def sample_policy_def epoch_reset_def Let_def)
  have sat: "saturating_add 0 1 = (1 :: u32)" "saturating_add 1 1 = (2 :: u32)" "\<not> (2 :: u32) \<le> 1"
    by (simp_all add: saturating_add_def) code_simp
  have iter: "violated 0 (Suc 0) (strict_policy 0 10) = strict_policy 1 10" "violated 0 (Suc (Suc 0)) (strict_policy 0 10) = strict_policy 2 0"
    by (simp_all add: step sat)
  have trip: "Option.bind (policy_to_vec strict_env (strict_policy 1 10)) (policy_from_slice strict_env) = Some (strict_policy 1 10)"
    "Option.bind (policy_to_vec strict_env (strict_policy 2 0)) (policy_from_slice strict_env) = Some (strict_policy 2 0)"
    by (simp_all add: strict_env_def strict_policy_def)
  have codec: "Option.bind (policy_to_vec strict_env (violated 0 k (strict_policy 0 10))) (policy_from_slice strict_env) =
      Some (violated 0 k (strict_policy 0 10))" if "0 < k" "k \<le> length [sample_tx, sample_tx]" for k
  proof -
    have "k = Suc 0 \<or> k = Suc (Suc 0)" using that by auto
    then show ?thesis using iter trip by metis
  qed
  have paused: "\<not> is_paused strict_env (im_answer (fst (snd (im_run (\<lambda>_. 0) ?prog strict_state exec_new)))) (tx_sender sample_tx)"
    by code_simp
  have lim: "max_violations_per_epoch (ap_auto_revoke (strict_policy 0 10)) \<noteq> 0"
    "unat (max_violations_per_epoch (ap_auto_revoke (strict_policy 0 10))) \<le> length [sample_tx, sample_tx]"
    by (simp_all add: strict_policy_def)
  have own: "\<forall>tx \<in> set [sample_tx, sample_tx]. tx_sender tx = tx_sender sample_tx" by simp
  have ep: "(0 :: u64) \<le> 3" by simp
  from dead_mans_switch [OF p lim(1) own lim(2) codec run refl ep, of exec_new] paused[unfolded run] run
  show ?thesis by (intro exI conjI) (assumption, simp only: fst_conv snd_conv if_False)
qed

end
