(* ===== verification/Vm_Success.thy ===== *)
theory Vm_Success
  imports Vm_Settlement Warden_State Vm_Calls
begin

section \<open>What a successful transaction has gone through\<close>

text \<open>
  A successful receipt of \<open>execute_transaction\<close> (\<^verbatim>\<open>lemma-vm/src/executor/mod.rs\<close>) is traced back to the Warden
  check and the dispatch that led to it (\<open>success_dispatched\<close>). From there: an agent's transaction
  succeeds only within its stored policy, and a transfer, by an owner or an agent, is exact.
\<close>

subsection \<open>The scratch after the Warden\<close>

text \<open>A scratch that holds storage writes only, as the Warden leaves it.\<close>

definition storage_only :: "scratch \<Rightarrow> bool" where
  "storage_only s \<longleftrightarrow> s = scratch_new\<lparr>storage_writes := storage_writes s\<rparr>"

lemma storage_only_reads:
  assumes "storage_only s"
  shows "im_run b (resolve_code s c) st x = (fmlookup (im_code st) c, st, x)"
    "im_run b (scr_nonce s a) st x = ((case fmlookup (im_nonces st) a of Some n \<Rightarrow> n | None \<Rightarrow> 0), st, x)"
  using assms by (cases s; auto simp: storage_only_def scratch_new_def resolve_code_def thin_pointer_def sv_code_def scr_nonce_def
      sv_nonce_def)+

subsection \<open>Successful transactions\<close>

text \<open>A transaction succeeds by dispatch on a scratch with storage writes only, after the Warden has applied its policy.\<close>

lemma warden_scratch:
  assumes "im_run b (warden_check env scratch_ops tx sk epoch scratch_new) st x = ((r, s), st', x')"
  shows "storage_only s" "st' = st" "x' = x"
  using assms warden_check_decides [of b env tx sk epoch scratch_new st x]
  by (auto simp: storage_only_def scr_write_def scratch_new_def split: if_splits option.splits sum.splits)

lemma mandate_run:
  "\<exists>ml. im_run b (build_mandate_receipt_log env scratch_ops tx sk epoch act s) st x = (ml, st, x)"
  by (simp add: build_mandate_receipt_log_def im_run_bind scratch_view.policy_run)

lemma failed_receipts:
  "im_run b (fail_before_execution tx m) st x = (r, st', x') \<Longrightarrow> \<not> rc_success r"
  "im_run b (settle_violation env tx sk epoch v m) st x = (r, st', x') \<Longrightarrow> \<not> rc_success r"
  "im_run b (settle_failure tx m) st x = (r, st', x') \<Longrightarrow> \<not> rc_success r"
  by (auto simp: fail_before_execution_def settle_violation_def settle_failure_def im_run_bind receipt_new_def split: prod.splits)

lemma settle_only_results:
  "im_run b (settle tx ml ((Inl e, manifest), s, m)) st x = (r, st', x') \<Longrightarrow> \<not> rc_success r"
  by (simp add: settle_def failed_receipts)

lemma success_dispatched:
  assumes run: "im_run b (execute_transaction env tx block) st x = (r, st', x')" and ok: "rc_success r"
  obtains (dispatched) s m ml logs manifest s' m' x1 where "storage_only s"
    "im_run b (dispatch env tx block s m) st x = (((Inr logs, manifest), s', m'), st, x1)"
    "im_run b (settle tx ml ((Inr logs, manifest), s', m')) st x1 = (r, st', x')"
    "\<And>sk. tx_session_key tx = Some sk \<Longrightarrow>
      im_run b (warden_check (ve_warden env) scratch_ops tx sk (bc_epoch block) scratch_new) st x = ((Inr Applied, s), st, x)"
    "tx_session_key tx = None \<Longrightarrow> s = scratch_new"
proof -
  obtain m0 where m0: "charge (meter_new (tx_gas_limit tx)) (intrinsic_gas (ve_schedule env) tx) = Inr m0"
    using run ok by (cases "charge (meter_new (tx_gas_limit tx)) (intrinsic_gas (ve_schedule env) tx)")
      (auto simp: execute_transaction_def im_run_bind receipt_new_def split: prod.splits)
  have fin: thesis if "storage_only s" "im_run b (prog_bind (dispatch env tx block s m) (settle tx ml)) st x = (r, st', x')"
    "\<And>sk. tx_session_key tx = Some sk \<Longrightarrow>
      im_run b (warden_check (ve_warden env) scratch_ops tx sk (bc_epoch block) scratch_new) st x = ((Inr Applied, s), st, x)"
    "tx_session_key tx = None \<Longrightarrow> s = scratch_new" for s m ml
  proof -
    obtain res x1 where d: "im_run b (dispatch env tx block s m) st x = (res, st, x1)" by (rule quiet_run [OF quiet_dispatch])
    obtain result manifest s' m' where res: "res = ((result, manifest), s', m')" by (metis prod.exhaust)
    from that(2) have fin: "im_run b (settle tx ml ((result, manifest), s', m')) st x1 = (r, st', x')" by (simp add: im_run_bind d res)
    with ok obtain logs where "result = Inr logs" by (cases result) (auto dest: settle_only_results)
    with d res fin show thesis by (intro dispatched [OF that(1) _ _ that(3,4)]) simp_all
  qed
  show thesis
  proof (cases "tx_session_key tx")
    case None
    then show thesis using run m0 by (intro fin [of scratch_new m0 None]) (simp_all add: execute_transaction_def storage_only_def scratch_new_def)
  next
    case (Some sk)
    obtain m1 where m1: "charge m0 (gs_warden_check (ve_schedule env)) = Inr m1"
      using run ok m0 Some by (cases "charge m0 (gs_warden_check (ve_schedule env))")
        (auto simp: execute_transaction_def dest: failed_receipts)
    obtain outcome s where w: "im_run b (warden_check (ve_warden env) scratch_ops tx sk (bc_epoch block) scratch_new) st x = ((outcome, s), st, x)"
      using warden_scratch [of b "ve_warden env" tx sk "bc_epoch block" st x] by (metis prod_cases3 surj_pair)
    have applied: "outcome = Inr Applied"
      using run ok m0 m1 Some w
      by (auto simp: execute_transaction_def im_run_bind [of b "warden_check _ _ _ _ _ _"] dest: failed_receipts
          split: sum.splits warden_outcome.splits)
    obtain ml where ml: "im_run b (build_mandate_receipt_log (ve_warden env) scratch_ops tx sk (bc_epoch block) (classify_action tx) s) st x = (ml, st, x)"
      using mandate_run by blast
    show thesis
    proof (rule fin [of s m1 ml])
      show "storage_only s" using warden_scratch(1) [OF w] .
      show "im_run b (prog_bind (dispatch env tx block s m1) (settle tx ml)) st x = (r, st', x')"
        using run m0 m1 Some w applied ml
        by (simp add: execute_transaction_def im_run_bind [of b "warden_check _ _ _ _ _ _"] im_run_bind [of b "build_mandate_receipt_log _ _ _ _ _ _ _"])
      show "im_run b (warden_check (ve_warden env) scratch_ops tx k (bc_epoch block) scratch_new) st x = ((Inr Applied, s), st, x)"
        if "tx_session_key tx = Some k" for k using that Some w applied by simp
      show "s = scratch_new" if "tx_session_key tx = None" using that Some by simp
    qed
  qed
qed

subsection \<open>What the checks of the Warden let through\<close>

lemma check_grant_Inr:
  "check_grant tx epoch p = Inr () \<longleftrightarrow> epoch < expiry_epoch p \<and>
    (\<forall>from until. active_window p = Some (from, until) \<longrightarrow> from \<le> epoch \<and> epoch \<le> until) \<and>
    permits (allowed_actions p) (classify_action tx) \<and> (\<forall>target. tx_to tx = Some target \<longrightarrow> allows (allowed_targets p) target)"
  by (auto simp: check_grant_def not_le rbind_Inr split: option.splits if_splits)

lemma check_spend_within:
  assumes "check_spend tx epoch p = Inr (Some p')"
  shows "tx_value tx \<le> per_tx_cap p"
    "unat (spent_this_epoch (epoch_reset p epoch)) + unat (tx_value tx) \<le> unat (per_epoch_cap p)"
    "unat (spent_total p) + unat (tx_value tx) \<le> unat (budget_total (epoch_reset p epoch))"
    "cosign_threshold p = Some t \<Longrightarrow> t \<le> tx_value tx \<Longrightarrow> tx_owner_cosignature tx \<noteq> None"
proof -
  have keep: "per_epoch_cap (epoch_reset p epoch) = per_epoch_cap p" "spent_total (epoch_reset p epoch) = spent_total p"
    "cosign_threshold (epoch_reset p epoch) = cosign_threshold p"
    by (simp_all add: epoch_reset_def apply_epoch_reset_def)
  show "tx_value tx \<le> per_tx_cap p"
    "unat (spent_this_epoch (epoch_reset p epoch)) + unat (tx_value tx) \<le> unat (per_epoch_cap p)"
    "unat (spent_total p) + unat (tx_value tx) \<le> unat (budget_total (epoch_reset p epoch))"
    "cosign_threshold p = Some t \<Longrightarrow> t \<le> tx_value tx \<Longrightarrow> tx_owner_cosignature tx \<noteq> None"
    using assms
    by (auto simp: check_spend_def Let_def rbind_Inr keep amount_add_Inr not_less word_le_nat_alt split: if_splits option.splits)
qed


definition stored_identity :: "warden_env \<Rightarrow> (query \<Rightarrow> answer) \<Rightarrow> address \<Rightarrow> agent_identity option" where
  "stored_identity env view target = (case view (QRead (registry_address (we_blake3 env)) (agent_identity_key target)) of
     ABytes (Some bs) \<Rightarrow> identity_from_slice env bs | _ \<Rightarrow> None)"

lemma counterparty_within:
  assumes "stored_counterparty env view p tx = Inr ()" "tx_to tx = Some target"
    and "KyaNone < required_kya_tier p \<or> 0 < min_counterparty_reputation p"
  shows "\<exists>i. stored_identity env view target = Some i \<and> required_kya_tier p \<le> id_kya_tier i \<and>
    min_counterparty_reputation p \<le> reputation_score i"
proof -
  have tier: "t \<le> KyaNone \<Longrightarrow> t \<le> u" for t u :: kya_tier by (cases t; cases u) (simp_all add: less_eq_kya_tier_def)
  show ?thesis
    using assms tier [of "required_kya_tier p"]
    by (auto simp: stored_counterparty_def check_counterparty_def stored_identity_def Let_def not_less word_neq_0_conv split: if_splits option.splits)
qed

subsection \<open>Transfers\<close>

lemma storage_only_balance:
  "storage_only s \<Longrightarrow> balance_writes s = fmempty"
  by (cases s) (simp add: storage_only_def scratch_new_def)

lemma transfer_success:
  assumes run: "im_run b (execute_transfer sched tx s m) st x = (((Inr logs, manifest), s', m'), st', x')" and s: "storage_only s"
  shows "\<exists>recipient. tx_to tx = Some recipient \<and> manifest = None \<and> s' = s\<lparr>balance_writes := balance_writes s'\<rparr> \<and>
    (\<forall>a. unat (case fmlookup (balance_writes s') a of Some y \<Rightarrow> y | None \<Rightarrow> im_balance st a) + (if a = tx_sender tx then unat (tx_value tx) else 0) =
       unat (im_balance st a) + (if a = recipient then unat (tx_value tx) else 0))"
proof -
  have bal: "im_run b (scr_balance s a) st x = ((case fmlookup (balance_writes s) a of Some y \<Rightarrow> y | None \<Rightarrow> im_balance st a), st, x)" for s a
    by (auto simp: scr_runs im_balance_def split: option.split)
  obtain recipient where to: "tx_to tx = Some recipient"
    using run by (cases "tx_to tx") (auto simp: execute_transfer_def split: sum.splits)
  let ?from = "tx_sender tx" and ?v = "tx_value tx"
  define s1 where "s1 = scr_set_balance s ?from (im_balance st ?from - ?v)"
  define old where "old = (if recipient = ?from then im_balance st ?from - ?v else im_balance st recipient)"
  have v: "?v \<le> im_balance st ?from" and fits: "unat old + unat ?v < 2 ^ 128" and s': "s' = scr_set_balance s1 recipient (old + ?v)" "manifest = None"
    using run to by (auto simp: execute_transfer_def im_run_bind bal storage_only_balance [OF s] scr_set_balance_def s1_def old_def Let_def
        amount_sub_iff amount_add_iff split: sum.splits option.splits if_splits)
  have debit: "unat (im_balance st ?from - ?v) + unat ?v = unat (im_balance st ?from)" using v by (simp add: unat_sub word_le_nat_alt)
  have credit: "unat (old + ?v) = unat old + unat ?v" using fits by (simp add: unat_word_ariths)
  show ?thesis
    by (rule exI [of _ recipient])
      (use to s' credit debit in \<open>auto simp: s1_def scr_set_balance_def storage_only_balance [OF s] old_def\<close>)
qed

lemma settle_without_manifest:
  "im_run b (settle tx ml ((Inr logs, None), s, m)) st x = (r, st', x') \<Longrightarrow> q \<noteq> QNonce (tx_sender tx) \<Longrightarrow> im_answer st' q = overlay s (im_answer st) q"
  by (simp add: settle_def settle_success_run(3))

lemma overlay_policy:
  assumes "im_run b (warden_check env scratch_ops tx sk epoch scratch_new) st x = ((out, s), st, x)"
    and "q \<noteq> QRead (warden_address (we_blake3 env)) (policy_state_key (tx_sender tx) sk)"
    and "q \<noteq> QExists (warden_address (we_blake3 env)) (policy_state_key (tx_sender tx) sk)"
  shows "overlay s base q = base q"
proof -
  have "s = scratch_new \<or> (\<exists>bs. s = scr_write scratch_new (warden_address (we_blake3 env)) (policy_state_key (tx_sender tx) sk) bs)"
    using assms(1) warden_check_decides [of b env tx sk epoch scratch_new st x] by (auto split: if_splits option.splits sum.splits)
  then show ?thesis using assms(2,3) by (cases q) (auto simp: scr_write_def scratch_new_def thin_pointer_def)
qed

subsection \<open>Properties\<close>

text \<open>
  C25. An agent acts only within its policy. When a transaction signed with a session key succeeds, the
  owner's agents are not paused and the state holds a policy for that owner and key: it has not
  expired, the epoch lies in its active window, it allows the action and the target, a target that must
  be screened is registered with at least the required tier and reputation, and the value is within
  the cap per transaction and, with what has been spent before, within the cap per epoch and the
  total budget, as natural numbers; from the threshold on an owner's co-signature is present. Its
  presence is all that is checked (\<open>cosignature_never_verified\<close>).
\<close>

theorem agent_acts_within_policy:
  fixes env :: vm_env and st :: in_memory_state_view
  assumes run: "im_run b (execute_transaction env tx block) st x = (r, st', x')" "rc_success r"
    and sk: "tx_session_key tx = Some sk"
  defines "w \<equiv> ve_warden env" and "epoch \<equiv> bc_epoch block"
  shows "\<not> is_paused w (im_answer st) (tx_sender tx) \<and>
    (\<exists>p. stored_policy w (im_answer st) (tx_sender tx) sk = Some p \<and> epoch < expiry_epoch p \<and>
      (\<forall>from until. active_window p = Some (from, until) \<longrightarrow> from \<le> epoch \<and> epoch \<le> until) \<and>
      permits (allowed_actions p) (classify_action tx) \<and>
      (\<forall>target. tx_to tx = Some target \<longrightarrow> allows (allowed_targets p) target \<and>
        (KyaNone < required_kya_tier p \<or> 0 < min_counterparty_reputation p \<longrightarrow>
          (\<exists>i. stored_identity w (im_answer st) target = Some i \<and> required_kya_tier p \<le> id_kya_tier i \<and>
            min_counterparty_reputation p \<le> reputation_score i))) \<and>
      tx_value tx \<le> per_tx_cap p \<and>
      unat (spent_this_epoch (epoch_reset p epoch)) + unat (tx_value tx) \<le> unat (per_epoch_cap p) \<and>
      unat (spent_total p) + unat (tx_value tx) \<le> unat (budget_total (epoch_reset p epoch)) \<and>
      (\<forall>t. cosign_threshold p = Some t \<and> t \<le> tx_value tx \<longrightarrow> tx_owner_cosignature tx \<noteq> None))"
proof (rule success_dispatched [OF run])
  fix s assume "\<And>k. tx_session_key tx = Some k \<Longrightarrow>
    im_run b (warden_check (ve_warden env) scratch_ops tx k (bc_epoch block) scratch_new) st x = ((Inr Applied, s), st, x)"
  then have applied: "im_run b (warden_check w scratch_ops tx sk epoch scratch_new) st x = ((Inr Applied, s), st, x)"
    using sk by (simp add: w_def epoch_def)
  then have paused: "\<not> is_paused w (im_answer st) (tx_sender tx)"
    using warden_check_decides [of b w tx sk epoch scratch_new st x] by (auto simp: overlay_new)
  then obtain p p' where p: "stored_policy w (im_answer st) (tx_sender tx) sk = Some p" "check_grant tx epoch p = Inr ()"
    "stored_counterparty w (im_answer st) p tx = Inr ()" "check_spend tx epoch p = Inr (Some p')"
    using applied warden_check_decides [of b w tx sk epoch scratch_new st x]
    by (auto simp: overlay_new warden_decide_def rbind_def split: option.splits sum.splits)
  note within = p(2) [unfolded check_grant_Inr] counterparty_within [OF p(3)] check_spend_within [OF p(4)]
  show ?thesis using paused p(1) within by blast
qed

definition agent_vm :: vm_env where
  "agent_vm = no_contracts\<lparr>ve_warden := strict_env\<rparr>"

definition agent_tx :: transaction where
  "agent_tx = (vm_tx Transfer (tx_sender sample_tx) 2 40)\<lparr>tx_session_key := Some [1]\<rparr>"

theorem agent_acts_within_policy_witness:
  "\<exists>r st' x' p. im_run checksum (execute_transaction agent_vm agent_tx sample_context)
      (strict_state\<lparr>im_balances := fmap_of_list [(tx_sender sample_tx, 80)]\<rparr>) exec_new = (r, st', x') \<and> rc_success r \<and>
    stored_policy strict_env (im_answer (strict_state\<lparr>im_balances := fmap_of_list [(tx_sender sample_tx, 80)]\<rparr>)) (tx_sender sample_tx) [1] = Some p \<and>
    tx_value agent_tx \<le> per_tx_cap p"
proof -
  let ?st = "strict_state\<lparr>im_balances := fmap_of_list [(tx_sender sample_tx, 80)]\<rparr>"
  let ?run = "im_run checksum (execute_transaction agent_vm agent_tx sample_context) ?st exec_new"
  obtain r st' x' where run: "?run = (r, st', x')" by (metis prod_cases3)
  have "rc_success (fst ?run)" by code_simp
  then have ok: "rc_success r" unfolding run by simp
  have sk: "tx_session_key agent_tx = Some [1]" "tx_sender agent_tx = tx_sender sample_tx" "ve_warden agent_vm = strict_env"
    by (simp_all add: agent_tx_def vm_tx_def agent_vm_def)
  from agent_acts_within_policy [OF run ok sk(1)] show ?thesis unfolding sk(2,3) using run ok by blast
qed

text \<open>
  C6. A transfer is exact. Without a session key it succeeds precisely when the gas limit covers the
  intrinsic and the transfer charge, the sender has the funds and the recipient's balance does not
  overflow; with one it may also be refused by the Warden. Every successful transfer, an agent's
  included, moves exactly its value, a transfer to oneself included, and touches nothing else but
  the sender's nonce and, for an agent, the stored policy of its session key.
\<close>

theorem transfer_moves_exactly:
  assumes "tx_type tx = Transfer" "im_run b (execute_transaction env tx block) st x = (r, st', x')"
  shows "(tx_session_key tx = None \<longrightarrow>
      (rc_success r \<longleftrightarrow> (\<exists>recipient. tx_to tx = Some recipient \<and> transfer_ok (ve_schedule env) tx st recipient))) \<and>
    (rc_success r \<longrightarrow> (\<exists>recipient. tx_to tx = Some recipient \<and>
      (\<forall>a. unat (im_balance st' a) + (if a = tx_sender tx then unat (tx_value tx) else 0) =
        unat (im_balance st a) + (if a = recipient then unat (tx_value tx) else 0)) \<and>
      (\<forall>q. q \<noteq> QNonce (tx_sender tx) \<and> (\<forall>a. q \<noteq> QBalance a) \<and> \<not> policy_entry env tx q \<longrightarrow> im_answer st' q = im_answer st q)))"
proof (intro conjI impI)
  show "rc_success r \<longleftrightarrow> (\<exists>recipient. tx_to tx = Some recipient \<and> transfer_ok (ve_schedule env) tx st recipient)" if "tx_session_key tx = None"
    using transfer_exact [OF assms(1) that assms(2)] by blast
  assume ok: "rc_success r"
  show "\<exists>recipient. tx_to tx = Some recipient \<and>
      (\<forall>a. unat (im_balance st' a) + (if a = tx_sender tx then unat (tx_value tx) else 0) =
        unat (im_balance st a) + (if a = recipient then unat (tx_value tx) else 0)) \<and>
      (\<forall>q. q \<noteq> QNonce (tx_sender tx) \<and> (\<forall>a. q \<noteq> QBalance a) \<and> \<not> policy_entry env tx q \<longrightarrow> im_answer st' q = im_answer st q)"
  proof (rule success_dispatched [OF assms(2) ok])
    fix s m ml logs manifest s' m' x1
    assume run: "storage_only s" "im_run b (dispatch env tx block s m) st x = (((Inr logs, manifest), s', m'), st, x1)"
      "im_run b (settle tx ml ((Inr logs, manifest), s', m')) st x1 = (r, st', x')"
      and warden: "\<And>sk. tx_session_key tx = Some sk \<Longrightarrow>
        im_run b (warden_check (ve_warden env) scratch_ops tx sk (bc_epoch block) scratch_new) st x = ((Inr Applied, s), st, x)"
      and plain: "tx_session_key tx = None \<Longrightarrow> s = scratch_new"
    from run(2) assms(1) have "im_run b (execute_transfer (ve_schedule env) tx s m) st x = (((Inr logs, manifest), s', m'), st, x1)"
      by (simp add: dispatch_def)
    from transfer_success [OF this run(1)] obtain recipient where t: "tx_to tx = Some recipient" "manifest = None"
      "s' = s\<lparr>balance_writes := balance_writes s'\<rparr>"
      "\<And>a. unat (case fmlookup (balance_writes s') a of Some y \<Rightarrow> y | None \<Rightarrow> im_balance st a) + (if a = tx_sender tx then unat (tx_value tx) else 0) =
        unat (im_balance st a) + (if a = recipient then unat (tx_value tx) else 0)" by blast
    note fin = settle_without_manifest [OF run(3) [unfolded t(2)]]
    have "im_balance st' a = (case fmlookup (balance_writes s') a of Some y \<Rightarrow> y | None \<Rightarrow> im_balance st a)" for a
      using fin [of "QBalance a"] by (auto simp: im_balance_def split: option.splits)
    moreover have "im_answer st' q = im_answer st q"
      if q: "q \<noteq> QNonce (tx_sender tx)" "\<forall>a. q \<noteq> QBalance a" "\<not> policy_entry env tx q" for q
    proof -
      have "overlay s' (im_answer st) q = overlay s (im_answer st) q" using q(2) by (subst t(3)) (cases q; simp split: option.split)
      also have "\<dots> = im_answer st q"
      proof (cases "tx_session_key tx")
        case (Some sk)
        with q(3) show ?thesis by (intro overlay_policy [OF warden [OF Some]]) (auto simp: policy_entry_def)
      qed (simp add: plain overlay_new)
      finally show ?thesis using fin [OF q(1)] by simp
    qed
    ultimately show ?thesis using t(1,4) by auto
  qed
qed

theorem transfer_moves_exactly_witness:
  "\<exists>r st' x'. im_run checksum (execute_transaction no_contracts (vm_tx Transfer 1 2 50) sample_context)
      (im_with_balances (fmap_of_list [(1, 80)])) exec_new = (r, st', x') \<and>
    rc_success r \<and> unat (im_balance st' 1) = 30 \<and> unat (im_balance st' 2) = 50"
proof -
  let ?st = "im_with_balances (fmap_of_list [(1, 80)])"
  let ?run = "im_run checksum (execute_transaction no_contracts (vm_tx Transfer 1 2 50) sample_context) ?st exec_new"
  obtain r st' x' where run: "?run = (r, st', x')" by (metis prod_cases3)
  have tx: "tx_type (vm_tx Transfer 1 2 50) = Transfer" by (simp add: vm_tx_def)
  have "rc_success (fst ?run)" by code_simp
  then have ok: "rc_success r" unfolding run by simp
  have f: "tx_sender (vm_tx Transfer 1 2 50) = 1" "tx_value (vm_tx Transfer 1 2 50) = 50" "tx_to (vm_tx Transfer 1 2 50) = Some 2"
    by (simp_all add: vm_tx_def)
  have moved: "unat (im_balance st' a) + (if a = 1 then unat (50 :: amount) else 0) = unat (im_balance ?st a) + (if a = 2 then unat (50 :: amount) else 0)" for a
    using transfer_moves_exactly [OF tx run] ok unfolding f by auto
  show ?thesis
    using moved [of 1] moved [of 2] run ok by (auto simp: im_balance_def im_with_balances_def im_new_def)
qed

end
