(* ===== verification/Vm_Manifest.thy ===== *)
theory Vm_Manifest
  imports Vm_Success
begin

section \<open>Safety manifests at settlement\<close>

text \<open>
  What a constraint asks of the storage of a contract before and after a transaction, as the comments on
  \<open>SafetyConstraint\<close> and on the checks in \<^verbatim>\<open>lemma-vm/src/safety_manifest.rs\<close> say it: no write changes a gate to its
  locked value, no flag goes from off to on, an absent one being off, and so on. The code lets both ratchets through where
  the field was absent before (\<open>exempt\<close>), as the comment on \<open>validate_safety_invariants\<close> has it, and
  \<open>deletion_evades_ratchets\<close> shows what that opens.
\<close>

definition numeric :: "bytes option \<Rightarrow> nat" where
  "numeric v = (case v of Some bs \<Rightarrow> le_value bs | None \<Rightarrow> 0)"

definition is_on :: "bytes option \<Rightarrow> bool" where
  "is_on v = (case v of Some bs \<Rightarrow> is_truthy bs | None \<Rightarrow> False)"

fun upholds :: "(bytes \<Rightarrow> bytes option) \<Rightarrow> (bytes \<Rightarrow> bytes option) \<Rightarrow> safety_constraint \<Rightarrow> bool" where
  "upholds before after (RatchetBool key locked) \<longleftrightarrow>
     (after key = Some locked \<longrightarrow> before key = Some locked)"
| "upholds before after (RatchetOff key) \<longleftrightarrow>
     (is_on (after key) \<longrightarrow> is_on (before key))"
| "upholds before after (FeeCap keys max_sum) \<longleftrightarrow>
     ((\<exists>k \<in> set keys. after k \<noteq> before k) \<longrightarrow> (\<Sum>k\<leftarrow>keys. numeric (after k)) \<le> unat max_sum)"
| "upholds before after (RatchetUp key) \<longleftrightarrow> numeric (before key) \<le> numeric (after key)"

fun exempt :: "(bytes \<Rightarrow> bytes option) \<Rightarrow> safety_constraint \<Rightarrow> bool" where
  "exempt before (RatchetBool key locked) \<longleftrightarrow> before key = None"
| "exempt before (RatchetOff key) \<longleftrightarrow> before key = None"
| "exempt before _ \<longleftrightarrow> False"

lemma le_value_bound: "le_value bs < 256 ^ length bs"
proof (induction bs)
  case (Cons b bs)
  have "unat b < 256" using unsigned_less[where 'b = 8, of b] by simp
  then show ?case using Cons by simp
qed simp

lemma bytes_to_u64_Inr: "bytes_to_u64 bs = Inr n \<Longrightarrow> unat n = le_value bs"
proof -
  assume a: "bytes_to_u64 bs = Inr n"
  then have "length bs \<le> 8" "n = of_nat (le_value bs)" by (auto simp: bytes_to_u64_def split: if_splits)
  moreover have "le_value bs < 256 ^ 8"
    using le_value_bound[of bs] calculation(1) power_increasing[of "length bs" 8 "256::nat"] by simp
  ultimately show ?thesis by (simp add: unat_of_nat take_bit_nat_eq_self)
qed

lemma bytes_to_u128_Inr: "bytes_to_u128 bs = Inr n \<Longrightarrow> unat n = le_value bs"
proof -
  assume a: "bytes_to_u128 bs = Inr n"
  then have "length bs \<le> 16" "n = of_nat (le_value bs)" by (auto simp: bytes_to_u128_def split: if_splits)
  moreover have "le_value bs < 256 ^ 16"
    using le_value_bound[of bs] calculation(1) power_increasing[of "length bs" 16 "256::nat"] by simp
  ultimately show ?thesis by (simp add: unat_of_nat take_bit_nat_eq_self)
qed

abbreviation stored :: "in_memory_state_view \<Rightarrow> address \<Rightarrow> bytes \<Rightarrow> bytes option" where
  "stored st c k \<equiv> fmlookup (im_storage st) (c, k)"

definition written :: "storage_writes \<Rightarrow> in_memory_state_view \<Rightarrow> address \<Rightarrow> bytes \<Rightarrow> bytes option" where
  "written w st c k = (case fmlookup w (c, k) of Some v \<Rightarrow> v | None \<Rightarrow> stored st c k)"

lemma view_read_run [simp]: "im_run b (sv_read t c k) st x = (stored st c k, st, x)"
  by (simp add: sv_read_def)

lemma fee_sum_run:
  "\<exists>r. im_run b (fee_sum c w ks acc) st x = (r, st, x) \<and>
    (\<forall>s. r = Inr s \<longrightarrow> unat s = min (unat acc + (\<Sum>k\<leftarrow>ks. numeric (written w st c k))) (2 ^ 64 - 1))"
proof (induction ks arbitrary: acc)
  case Nil
  then show ?case using unat_lt_size[of acc] by (simp add: min_def)
next
  case (Cons k ks)
  define bs where "bs = (case written w st c k of Some v \<Rightarrow> v | None \<Rightarrow> [])"
  have bs: "numeric (written w st c k) = le_value bs"
    "im_run b (fee_sum c w (k # ks) acc) st x = im_run b (case bytes_to_u64 bs of
        Inl e \<Rightarrow> Ret (Inl e) | Inr n \<Rightarrow> fee_sum c w ks (saturating_add acc n)) st x"
    by (auto simp: bs_def numeric_def written_def im_run_bind Let_def split: option.split)
  show ?case
  proof (cases "bytes_to_u64 bs")
    case (Inl e)
    then show ?thesis unfolding bs(2) by simp
  next
    case (Inr n)
    then show ?thesis
      unfolding bs(2) using Cons.IH[of "saturating_add acc n"] bs(1) bytes_to_u64_Inr[OF Inr]
      by (auto simp: unat_saturating_add min_def split: if_splits)
  qed
qed

lemma ratchet_up_run:
  "\<exists>r. im_run b (validate_ratchet_up c key w) st x = (r, st, x) \<and> (r = Inr () \<longrightarrow> numeric (stored st c key) \<le> numeric (written w st c key))"
  by (auto simp: validate_ratchet_up_def im_run_bind numeric_def written_def rbind_def word_less_nat_alt not_less
      dest!: bytes_to_u128_Inr split: option.splits sum.splits if_splits)

lemma validate_constraint_run:
  "\<exists>r. im_run b (validate_constraint c w k) st x = (r, st, x) \<and> (r = Inr () \<longrightarrow> upholds (stored st c) (written w st c) k \<or> exempt (stored st c) k)"
proof (cases k)
  case (FeeCap keys max_sum)
  show ?thesis
  proof (cases "list_ex (\<lambda>k. fmlookup w (c, k) \<noteq> None) keys")
    case True
    obtain r where r: "im_run b (fee_sum c w keys 0) st x = (r, st, x)"
      "\<And>s. r = Inr s \<Longrightarrow> unat s = min (\<Sum>k\<leftarrow>keys. numeric (written w st c k)) (2 ^ 64 - 1)"
      using fee_sum_run[of b c w keys 0 st x] by auto
    have "unat (ucast max_sum :: u64) = unat max_sum" 
      using unat_lt_size[of max_sum] by (simp add: unsigned_ucast_eq take_bit_nat_eq_self)
    moreover have "unat max_sum \<le> 65535" using unat_lt_size[of max_sum] by simp
    ultimately show ?thesis using True r FeeCap
      by (cases r) (auto simp: validate_fee_cap_def im_run_bind word_less_nat_alt not_less min_def split: if_splits)
  next
    case False
    then have "written w st c k = stored st c k" if "k \<in> set keys" for k
      using that by (auto simp: written_def list_ex_iff)
    then show ?thesis using False FeeCap by (auto simp: validate_fee_cap_def)
  qed
next
  case (RatchetUp key)
  then show ?thesis using ratchet_up_run[of b c key w st x] by auto
qed (auto simp: validate_ratchet_bool_def validate_ratchet_off_def im_run_bind written_def is_on_def split: option.splits)

lemma validate_run:
  "\<exists>r. im_run b (validate_safety_invariants cs c w) st x = (r, st, x) \<and>
    (r = Inr () \<longrightarrow> (\<forall>k \<in> set cs. upholds (stored st c) (written w st c) k \<or> exempt (stored st c) k))"
proof (induction cs)
  case (Cons k cs)
  obtain r where "im_run b (validate_constraint c w k) st x = (r, st, x)" "r = Inr () \<longrightarrow> upholds (stored st c) (written w st c) k \<or> exempt (stored st c) k"
    using validate_constraint_run by blast
  then show ?case using Cons by (cases r) (auto simp: im_run_bind)
qed simp

lemma settle_upholds:
  assumes "im_run b (settle tx mandate_log ((Inr logs, Some (c, cs)), s, m)) st x = (r, st', x')" "rc_success r" "k \<in> set cs"
  shows "upholds (stored st c) (stored st' c) k \<or> exempt (stored st c) k"
proof -
  have "cs \<noteq> []" using assms(3) by auto
  obtain v where v: "im_run b (validate_safety_invariants cs c (storage_writes s)) st x = (v, st, x)"
    "v = Inr () \<longrightarrow> (\<forall>k \<in> set cs. upholds (stored st c) (written (storage_writes s) st c) k \<or> exempt (stored st c) k)"
    using validate_run by blast
  have run: "im_run b (case v of Inl e \<Rightarrow> settle_failure tx m | Inr _ \<Rightarrow> settle_success tx logs mandate_log s m) st x = (r, st', x')"
    using assms(1) \<open>cs \<noteq> []\<close> v(1) by (simp add: settle_def im_run_bind)
  show ?thesis
  proof (cases v)
    case (Inl e)
    then show ?thesis using run assms(2) by (auto simp: settle_failure_def im_run_bind receipt_new_def split: prod.splits)
  next
    case (Inr u)
    then have "im_run b (settle_success tx logs mandate_log s m) st x = (r, st', x')" using run by simp
    have "stored st' c key = written (storage_writes s) st c key" for key
      using settle_success_run(3)[OF \<open>im_run b (settle_success tx logs mandate_log s m) st x = (r, st', x')\<close>, of "QRead c key"]
      by (auto simp: written_def split: option.splits)
    then have "stored st' c = written (storage_writes s) st c" by auto
    then show ?thesis using v(2) Inr assms(3) by simp
  qed
qed

subsection \<open>The code a transaction runs\<close>

text \<open>The contract a transaction calls or deploys, and its code.\<close>

definition ran_code :: "vm_env \<Rightarrow> transaction \<Rightarrow> in_memory_state_view \<Rightarrow> (address \<times> bytes) option" where
  "ran_code env tx st = (case tx_type tx of
     ContractCall \<Rightarrow> Option.bind (tx_to tx) (\<lambda>c. map_option (Pair c) (fmlookup (im_code st) c))
   | ContractDeploy \<Rightarrow> Some (address_from_deployer (ve_blake3 env) (tx_sender tx)
       (case fmlookup (im_nonces st) (tx_sender tx) of Some n \<Rightarrow> n | None \<Rightarrow> 0), tx_data tx)
   | _ \<Rightarrow> None)"

lemma dispatch_manifest:
  assumes run: "im_run b (dispatch env tx block s m) st x = (((Inr logs, manifest), s', m'), st', x')" and "storage_only s"
    and ran: "ran_code env tx st = Some (c, code)" and cache: "tx_type tx = ContractCall \<Longrightarrow> fmlookup (safety_manifests x) c \<in> {None, Some code}"
  shows "manifest = Some (c, parse_safety_manifest (ve_wasm env) code)"
proof (cases "tx_type tx")
  case ContractCall
  then have to: "tx_to tx = Some c" "fmlookup (im_code st) c = Some code"
    using ran by (auto simp: ran_code_def Option.bind_eq_Some_conv)
  obtain x1 where cached: "im_run b (cached_manifest env c code) st x = (parse_safety_manifest (ve_wasm env) code, st, x1)"
    using cache [OF ContractCall] by (auto simp: cached_manifest_def split: option.split)
  have "results (\<lambda>r. \<forall>logs. fst (fst r) = Inr logs \<longrightarrow> snd (fst r) = Some (c, cs)) (run_call env tx block c code cs s1 m1)" for cs s1 m1
    by (auto simp: run_call_def Let_def intro!: results_bind [OF results_True] split: sum.split)
  from results_im_run [OF this]
  have rc: "im_run b (run_call env tx block c code cs s1 m1) st2 x2 = (((Inr logs, manifest), s', m'), st', x') \<Longrightarrow> manifest = Some (c, cs)"
    for cs s1 m1 st2 x2 by (metis fst_conv snd_conv)
  show ?thesis
    using run ContractCall
    by (auto simp: dispatch_def execute_call_def to im_run_bind storage_only_reads [OF assms(2)] cached split: sum.splits prod.splits dest: rc)
next
  case ContractDeploy
  then have c: "c = address_from_deployer (ve_blake3 env) (tx_sender tx)
      (case fmlookup (im_nonces st) (tx_sender tx) of Some n \<Rightarrow> n | None \<Rightarrow> 0)" "code = tx_data tx"
    using ran by (auto simp: ran_code_def)
  have "results (\<lambda>r. \<forall>logs. fst (fst r) = Inr logs \<longrightarrow> snd (fst r) = Some (c, parse_safety_manifest (ve_wasm env) code))
      (finish_deploy env tx block c module s1 m1)" for module s1 m1
    by (auto simp: finish_deploy_def Let_def c(2) intro!: results_bind [OF results_True] split: sum.split)
  from results_im_run [OF this]
  have fd: "im_run b (finish_deploy env tx block c module s1 m1) st2 x2 = (((Inr logs, manifest), s', m'), st', x') \<Longrightarrow>
      manifest = Some (c, parse_safety_manifest (ve_wasm env) code)" for module s1 m1 st2 x2 by (metis fst_conv snd_conv)
  show ?thesis
    using run ContractDeploy
    by (auto simp: dispatch_def execute_deploy_def Let_def im_run_bind storage_only_reads [OF assms(2)] c(1) [symmetric]
        split: sum.splits prod.splits if_splits dest: fd)
qed (use ran in \<open>simp_all add: ran_code_def\<close>)

subsection \<open>Properties\<close>

text \<open>
  C22. A successful contract transaction upholds the safety manifest of the contract it calls or deploys,
  as embedded in that contract's code. A gate is not moved to its locked value, a flag that is off,
  or absent, is not on afterwards, the fees stay within their cap whenever one of them changes, and
  counters do not decrease. The exception the code makes, against the comment on \<open>RatchetOff\<close>, is a
  gate or flag that was absent before the transaction: it may be created in any position. The
  manifest cached for the contract, if any, is that of its code. Only this contract's manifest is
  enforced; those of contracts it calls are not read.
\<close>

theorem success_upholds_manifest:
  assumes "im_run b (execute_transaction env tx block) st x = (r, st', x')" "rc_success r"
    and "ran_code env tx st = Some (c, code)" "fmlookup (safety_manifests x) c \<in> {None, Some code}"
    and "k \<in> set (parse_safety_manifest (ve_wasm env) code)"
  shows "upholds (stored st c) (stored st' c) k \<or> exempt (stored st c) k"
proof (rule success_dispatched [OF assms(1,2)])
  fix s m ml logs manifest s' m' x1
  assume run: "storage_only s" "im_run b (dispatch env tx block s m) st x = (((Inr logs, manifest), s', m'), st, x1)"
    "im_run b (settle tx ml ((Inr logs, manifest), s', m')) st x1 = (r, st', x')"
  have "manifest = Some (c, parse_safety_manifest (ve_wasm env) code)"
    using dispatch_manifest [OF run(2,1) assms(3)] assms(4) by blast
  then show ?thesis using settle_upholds [OF _ assms(2,5)] run(3) by blast
qed

definition manifest_vm :: vm_env where
  "manifest_vm = (sample_vm writer_module)\<lparr>ve_wasm := writer_env\<lparr>wv_metadata :=
     (\<lambda>_. Some \<lparr>md_safety_constraints = Some [RatchetUp [7]], md_host_abi = None\<rparr>)\<rparr>\<rparr>"

theorem success_upholds_manifest_witness:
  "\<exists>r st' x'. im_run checksum (execute_transaction manifest_vm (vm_tx ContractCall 1 9 0) sample_context)
      (im_new\<lparr>im_code := fmap_of_list [(9, [1])]\<rparr>) exec_new = (r, st', x') \<and> rc_success r \<and>
    stored st' 9 [7] = Some [1] \<and> numeric None \<le> numeric (stored st' 9 [7])"
proof -
  let ?st = "im_new\<lparr>im_code := fmap_of_list [(9, [1])]\<rparr>"
  let ?run = "im_run checksum (execute_transaction manifest_vm (vm_tx ContractCall 1 9 0) sample_context) ?st exec_new"
  obtain r st' x' where run: "?run = (r, st', x')" by (metis prod_cases3)
  have "rc_success (fst ?run)" "stored (fst (snd ?run)) 9 [7] = Some [1]" by code_simp+
  then have ok: "rc_success r" "stored st' 9 [7] = Some [1]" unfolding run by simp_all
  have ran: "ran_code manifest_vm (vm_tx ContractCall 1 9 0) ?st = Some (9, [1])"
    "fmlookup (safety_manifests exec_new) 9 \<in> {None, Some [1]}" "RatchetUp [7] \<in> set (parse_safety_manifest (ve_wasm manifest_vm) [1])"
    by (simp_all add: ran_code_def vm_tx_def exec_new_def parse_safety_manifest_def manifest_vm_def)
  from success_upholds_manifest [OF run ok(1) ran] show ?thesis using run ok by (auto simp: im_new_def)
qed

text \<open>
  Deleting a field first evades the manifest: neither the deletion of a flag that is off nor, in a later
  transaction, the creation of the flag switched on is a violation, so a switch declared off for good
  is on again after two transactions; and likewise for a value declared lockable only at creation.
\<close>

theorem deletion_evades_ratchets:
  "(let off = im_new\<lparr>im_storage := fmap_of_list [((9, [1]), [0])]\<rparr>;
        run = (\<lambda>k w st. fst (im_run checksum (validate_constraint 9 w k) st exec_new)) in
    run (RatchetOff [1]) (fmap_of_list [((9, [1]), Some [1])]) off \<noteq> Inr () \<and>
    run (RatchetOff [1]) (fmap_of_list [((9, [1]), None)]) off = Inr () \<and>
    run (RatchetOff [1]) (fmap_of_list [((9, [1]), Some [1])]) (off\<lparr>im_storage := fmempty\<rparr>) = Inr () \<and>
    run (RatchetBool [1] [1]) (fmap_of_list [((9, [1]), Some [1])]) off \<noteq> Inr () \<and>
    run (RatchetBool [1] [1]) (fmap_of_list [((9, [1]), None)]) off = Inr () \<and>
    run (RatchetBool [1] [1]) (fmap_of_list [((9, [1]), Some [1])]) (off\<lparr>im_storage := fmempty\<rparr>) = Inr ())"
  by code_simp

end
