(* ===== verification/Block_Exec.thy ===== *)
theory Block_Exec
  imports World_State Vm_Parallel Commit_Record Quorum_Cert
begin

section \<open>Executing committed blocks\<close>

text \<open>
  \<^verbatim>\<open>lemma-node/src/state_view.rs\<close> and \<^verbatim>\<open>block_exec.rs\<close>: the committed world state as the base of Flux, and
  the writes of a block applied to it. Storage slots are addressed by the hash of their key; every
  contract has a storage trie whose root is part of its account. The world state and the storage
  tries share one database, which is passed through. \<open>fuel\<close> bounds the trie recursion: a slot has 64
  nibbles, so 65 is enough.
\<close>

subsection \<open>The committed state as a base view\<close>

definition open_world :: "'db \<Rightarrow> hash \<Rightarrow> 'db world_state" where
  "open_world db root = (if root = hash_zero then ws_new db else with_state_root db root)"

abbreviation slot_of :: "'db state_env \<Rightarrow> bytes \<Rightarrow> hash" where
  "slot_of env \<equiv> te_blake3 (se_trie env)"

definition or_else :: "'e + 'a \<Rightarrow> 'a \<Rightarrow> 'a" where
  "or_else r d = (case r of Inr x \<Rightarrow> x | Inl _ \<Rightarrow> d)"

definition wsv_code :: "nat \<Rightarrow> 'db state_env \<Rightarrow> 'db world_state \<Rightarrow> address \<Rightarrow> bytes option" where
  "wsv_code fuel env ws a = (case or_else (get_account fuel env ws a) None of
     None \<Rightarrow> None
   | Some acc \<Rightarrow> if acc_code_hash acc = hash_zero then None else or_else (get_code env ws (acc_code_hash acc)) None)"

fun wsv_answer :: "nat \<Rightarrow> 'db state_env \<Rightarrow> 'db world_state \<Rightarrow> query \<Rightarrow> answer" where
  "wsv_answer fuel env ws (QRead c k) = ABytes (or_else (get_storage env ws c (slot_of env k)) None)"
| "wsv_answer fuel env ws (QExists c k) = ABool (or_else (get_storage env ws c (slot_of env k)) None \<noteq> None)"
| "wsv_answer fuel env ws (QBalance a) = AAmount (or_else (get_balance fuel env ws a) amount_zero)"
| "wsv_answer fuel env ws (QNonce a) = ANonce (or_else (get_nonce fuel env ws a) 0)"
| "wsv_answer fuel env ws (QCode a) = ABytes (wsv_code fuel env ws a)"

definition wsv_base :: "nat \<Rightarrow> 'db state_env \<Rightarrow> 'db world_state \<Rightarrow> base_view" where
  "wsv_base fuel env ws = \<lparr>bv_answer = wsv_answer fuel env ws,
     bv_has_code_hash = (\<lambda>h. or_else (get_code env ws h) None \<noteq> None)\<rparr>"

subsection \<open>Applying the writes of a block\<close>

definition account_or_default :: "account option \<Rightarrow> account" where
  "account_or_default found = (case found of Some acc \<Rightarrow> acc | None \<Rightarrow> default_account)"

definition update_account ::
  "nat \<Rightarrow> 'db state_env \<Rightarrow> 'db world_state \<Rightarrow> address \<Rightarrow> (account \<Rightarrow> account) \<Rightarrow> trie_abort + 'db world_state" where
  "update_account fuel env ws a f =
     rbind (get_account fuel env ws a) (\<lambda>found. put_account fuel env ws a (f (account_or_default found)))"

text \<open>Values of another kind than their key are logged and skipped.\<close>

fun apply_one_write ::
  "nat \<Rightarrow> 'db state_env \<Rightarrow> 'db world_state \<Rightarrow> state_key \<Rightarrow> state_value \<Rightarrow> trie_abort + 'db world_state" where
  "apply_one_write fuel env ws (Balance a) (VBalance x) = update_account fuel env ws a (acc_balance_update (\<lambda>_. x))"
| "apply_one_write fuel env ws (Nonce a) (VNonce n) = update_account fuel env ws a (acc_nonce_update (\<lambda>_. n))"
| "apply_one_write fuel env ws (Code a) (VCode (Some code)) =
     rbind (map_err Failed (put_code env ws (slot_of env code) code)) (\<lambda>ws'.
     update_account fuel env ws' a (acc_code_hash_update (\<lambda>_. slot_of env code)))"
| "apply_one_write fuel env ws (Code a) (VCode None) = update_account fuel env ws a (acc_code_hash_update (\<lambda>_. hash_zero))"
| "apply_one_write fuel env ws _ _ = Inr ws"

type_synonym storage_changes = "(address, (hash \<times> bytes option) list) fmap"

definition push_change :: "address \<Rightarrow> hash \<times> bytes option \<Rightarrow> storage_changes \<Rightarrow> storage_changes" where
  "push_change c ch m = fmupd c ((case fmlookup m c of Some xs \<Rightarrow> xs | None \<Rightarrow> []) @ [ch]) m"

fun apply_write ::
  "nat \<Rightarrow> 'db state_env \<Rightarrow> state_key \<times> state_value \<Rightarrow> 'db world_state \<times> storage_changes \<Rightarrow> trie_abort + 'db world_state \<times> storage_changes" where
  "apply_write fuel env (key, x) (ws, changes) = (case (key, x) of
     (Storage c k, VStorage v) \<Rightarrow>
       rbind (map_err Failed (case v of
           Some bs \<Rightarrow> put_storage env ws c (slot_of env k) bs
         | None \<Rightarrow> delete_storage env ws c (slot_of env k))) (\<lambda>ws'.
       Inr (ws', push_change c (slot_of env k, v) changes))
   | _ \<Rightarrow> rbind (apply_one_write fuel env ws key x) (\<lambda>ws'. Inr (ws', changes)))"

text \<open>A deleted slot stays in the storage trie with an empty value.\<close>

definition slot_entry :: "hash \<times> bytes option \<Rightarrow> bytes \<times> bytes" where
  "slot_entry ch = (to_be_bytes (fst ch), case snd ch of Some v \<Rightarrow> v | None \<Rightarrow> [])"

definition rebuild_storage ::
  "nat \<Rightarrow> 'db state_env \<Rightarrow> address \<times> (hash \<times> bytes option) list \<Rightarrow> 'db world_state \<Rightarrow> trie_abort + 'db world_state" where
  "rebuild_storage fuel env entry ws =
     rbind (get_account fuel env ws (fst entry)) (\<lambda>found.
     let acc = account_or_default found;
         root = (if acc_storage_root acc = hash_zero then None else Some (acc_storage_root acc)) in
     rbind (trie_run fuel (se_trie env) (ws_db ws) root (map slot_entry (snd entry))) (\<lambda>(db, root').
     let new_root = (case root' of Some h \<Rightarrow> h | None \<Rightarrow> hash_zero) in
     if new_root \<noteq> acc_storage_root acc
     then put_account fuel env (ws\<lparr>ws_db := db\<rparr>) (fst entry) (acc\<lparr>acc_storage_root := new_root\<rparr>)
     else Inr (ws\<lparr>ws_db := db\<rparr>)))"

fun try_each :: "('a \<Rightarrow> 's \<Rightarrow> 'e + 's) \<Rightarrow> 'a list \<Rightarrow> 's \<Rightarrow> 'e + 's" where
  "try_each f [] s = Inr s"
| "try_each f (x # xs) s = rbind (f x s) (try_each f xs)"

definition apply_writes ::
  "nat \<Rightarrow> 'db state_env \<Rightarrow> 'db \<Rightarrow> hash \<Rightarrow> (state_key, state_value) fmap \<Rightarrow> trie_abort + 'db \<times> hash" where
  "apply_writes fuel env db base writes =
     (if writes = fmempty then Inr (db, base)
      else rbind (try_each (apply_write fuel env) (btree_list writes) (open_world db base, fmempty)) (\<lambda>(ws, changes).
        rbind (try_each (rebuild_storage fuel env) (btree_list changes) ws) (\<lambda>ws'.
        Inr (ws_db ws', case ws_root ws' of Some h \<Rightarrow> h | None \<Rightarrow> base))))"

subsection \<open>Blocks\<close>

text \<open>The errors of block execution.\<close>

datatype node_error = NodeStorage trie_abort | NodeConfig string | NodeSerialization string

record block_execution_output =
  be_txs :: "transaction list"
  be_receipts :: "transaction_receipt list"
  be_state_root :: hash
  be_transactions_root :: hash
  be_receipts_root :: hash
  be_gas_used :: u64

text \<open>The node around the state: the engine, whether it can be built, and bincode on the two lists.\<close>

record 'db node_env =
  ne_state :: "'db state_env"
  ne_vm :: vm_env
  ne_engine_error :: "string option"
  ne_txs_ser :: "transaction list \<Rightarrow> string + bytes"
  ne_receipts_ser :: "transaction_receipt list \<Rightarrow> string + bytes"

definition hash_list :: "hasher \<Rightarrow> ('a list \<Rightarrow> string + bytes) \<Rightarrow> 'a list \<Rightarrow> node_error + hash" where
  "hash_list blake3 ser items =
     (if items = [] then Inr hash_zero
      else rbind (map_err (\<lambda>e. NodeSerialization (''hash_list: '' @ e)) (ser items)) (\<lambda>bs. Inr (blake3 bs)))"

definition committed_context :: "block_header \<Rightarrow> commit \<Rightarrow> address \<Rightarrow> block_context" where
  "committed_context parent c proposer = \<lparr>bc_height = c_index c,
     bc_timestamp = max (c_timestamp_ms c div 1000) (hdr_timestamp parent + 1),
     bc_msg_sender = proposer, bc_msg_value = amount_zero, bc_tx_origin = proposer, bc_contract = proposer,
     bc_epoch = hdr_epoch parent, bc_active_features = {||}\<rparr>"

definition committed_flux ::
  "nat \<Rightarrow> 'db node_env \<Rightarrow> transaction list \<Rightarrow> block_header \<Rightarrow> commit \<Rightarrow> address \<Rightarrow> 'db \<Rightarrow> flux_env" where
  "committed_flux fuel env txs parent c proposer db =
     \<lparr>fe_exec = (\<lambda>tx. execute_transaction ((ne_vm env)\<lparr>ve_wasm := (ve_wasm (ne_vm env))\<lparr>wv_schedule := devnet\<rparr>\<rparr>) tx
        (committed_context parent c proposer)),
      fe_base = wsv_base fuel (ne_state env) (open_world db (hdr_state_root parent)), fe_txs = txs\<rparr>"

definition finish_block ::
  "nat \<Rightarrow> 'db node_env \<Rightarrow> transaction list \<Rightarrow> block_header \<Rightarrow> 'db \<Rightarrow> block_output \<Rightarrow> node_error + 'db \<times> block_execution_output" where
  "finish_block fuel env txs parent db out =
     rbind (map_err NodeStorage (apply_writes fuel (ne_state env) db (hdr_state_root parent) (bo_writes out))) (\<lambda>(db', state_root).
     rbind (hash_list (slot_of (ne_state env)) (ne_txs_ser env) txs) (\<lambda>transactions_root.
     rbind (hash_list (slot_of (ne_state env)) (ne_receipts_ser env) (bo_receipts out)) (\<lambda>receipts_root.
     Inr (db', \<lparr>be_txs = txs, be_receipts = bo_receipts out, be_state_root = state_root,
       be_transactions_root = transactions_root, be_receipts_root = receipts_root,
       be_gas_used = sum_list (map rc_gas_used (bo_receipts out))\<rparr>))))"

text \<open>What execution may return: a block without transactions is not handed to Flux.\<close>

inductive execute_committed_block ::
  "nat \<Rightarrow> 'db node_env \<Rightarrow> nat \<Rightarrow> transaction list \<Rightarrow> block_header \<Rightarrow> commit \<Rightarrow> address \<Rightarrow> 'db \<Rightarrow>
    node_error + 'db \<times> block_execution_output \<Rightarrow> bool"
  for fuel env num_workers txs parent c proposer db where
  no_txs: "txs = [] \<Longrightarrow> execute_committed_block fuel env num_workers txs parent c proposer db
    (finish_block fuel env txs parent db \<lparr>bo_receipts = [], bo_writes = fmempty\<rparr>)"
| no_engine: "txs \<noteq> [] \<Longrightarrow> ne_engine_error env = Some e \<Longrightarrow> execute_committed_block fuel env num_workers txs parent c proposer db
    (Inl (NodeConfig (''LemmaEngine init failed: '' @ e)))"
| executed: "txs \<noteq> [] \<Longrightarrow> ne_engine_error env = None \<Longrightarrow>
    execute_block_parallel (committed_flux fuel env txs parent c proposer db) num_workers exec_new out \<Longrightarrow>
    execute_committed_block fuel env num_workers txs parent c proposer db (finish_block fuel env txs parent db out)"

text \<open>The result of the sequential engine.\<close>

definition sequential_result ::
  "nat \<Rightarrow> 'db node_env \<Rightarrow> transaction list \<Rightarrow> block_header \<Rightarrow> commit \<Rightarrow> address \<Rightarrow> 'db \<Rightarrow> node_error + 'db \<times> block_execution_output" where
  "sequential_result fuel env txs parent c proposer db =
     (if txs = [] then finish_block fuel env txs parent db \<lparr>bo_receipts = [], bo_writes = fmempty\<rparr>
      else case ne_engine_error env of
        Some e \<Rightarrow> Inl (NodeConfig (''LemmaEngine init failed: '' @ e))
      | None \<Rightarrow> finish_block fuel env txs parent db (execute_block_sequential (committed_flux fuel env txs parent c proposer db) exec_new))"

inductive_cases committed_blockE: "execute_committed_block fuel env num_workers txs parent c proposer db r"

text \<open>
  C9. Block execution is deterministic. A committed block without contract code has exactly one result,
  for any number of workers and any interleaving: that of the sequential engine, with the same
  receipts, state root, transaction and receipt roots and database, or the same error.
\<close>

theorem committed_block_deterministic:
  assumes "list_all is_plain txs"
  shows "execute_committed_block fuel env n txs parent c proposer db r \<longleftrightarrow> r = sequential_result fuel env txs parent c proposer db"
proof
  let ?fx = "committed_flux fuel env txs parent c proposer db"
  have "tracked_block ?fx"
    by (rule plain_block_tracked[where ctx = "\<lambda>_. committed_context parent c proposer"])
      (use assms in \<open>simp_all add: committed_flux_def\<close>)
  then have "out = execute_block_sequential ?fx exec_new" if "execute_block_parallel ?fx n exec_new out" for out
    using that by (rule parallel_is_sequential)
  then show "execute_committed_block fuel env n txs parent c proposer db r \<Longrightarrow> r = sequential_result fuel env txs parent c proposer db"
    by (elim committed_blockE) (auto simp: sequential_result_def)
  show "r = sequential_result fuel env txs parent c proposer db \<Longrightarrow> execute_committed_block fuel env n txs parent c proposer db r"
    by (auto simp: sequential_result_def simp del: append.simps intro: execute_committed_block.intros execute_block_parallel.sequential split: option.split)
qed

definition mem_node :: "(string \<times> bytes, bytes) fmap node_env" where
  "mem_node = \<lparr>ne_state = mem_state_env checksum, ne_vm = no_contracts, ne_engine_error = None,
     ne_txs_ser = (\<lambda>txs. Inr (length_prefix txs)), ne_receipts_ser = (\<lambda>rs. Inr (length_prefix rs))\<rparr>"

definition sample_commit :: commit where
  "sample_commit = \<lparr>c_index = 1, c_previous_digest = 0, c_timestamp_ms = 5000,
     c_leader = DagBlockRef 3 1 0, c_blocks = [DagBlockRef 3 1 0]\<rparr>"

text \<open>Two transfers on the empty state.\<close>

theorem committed_block_deterministic_witness:
  "\<forall>n r. execute_committed_block 65 mem_node n [vm_tx Transfer 1 2 50, vm_tx Transfer 2 3 30] plain_header sample_commit 7 fmempty r \<longleftrightarrow>
    r = sequential_result 65 mem_node [vm_tx Transfer 1 2 50, vm_tx Transfer 2 3 30] plain_header sample_commit 7 fmempty"
  using committed_block_deterministic [of "[vm_tx Transfer 1 2 50, vm_tx Transfer 2 3 30]" 65 mem_node _ plain_header sample_commit 7 fmempty]
  by (simp add: is_plain_def vm_tx_def)

end
