(* ===== verification/Block_State.thy ===== *)
theory Block_State
  imports Block_Exec
begin

section \<open>The state a chain of blocks leaves\<close>

text \<open>
  Applying the writes of block after block keeps the database in step with a specification: the maps of
  accounts, storage and code, the tree of the account trie and a tree for every storage trie. What the
  next block reads through \<open>WorldStateView\<close> is then the last value written at each key.
\<close>

subsection \<open>Specification\<close>

text \<open>\<open>cs_seen\<close> gathers the nodes of all tries on the way, on which hashes must not collide.\<close>

record chain_state =
  cs_maps :: state_maps
  cs_tree :: "tree option"
  cs_tries :: "address \<Rightarrow> tree option"
  cs_seen :: "trie_node set"

definition chain_empty :: chain_state where
  "chain_empty = \<lparr>cs_maps = maps_empty, cs_tree = None, cs_tries = (\<lambda>_. None), cs_seen = {}\<rparr>"

definition cs_account :: "chain_state \<Rightarrow> address \<Rightarrow> account" where
  "cs_account s a = account_or_default (sm_accounts (cs_maps s) a)"

definition cs_put :: "'db state_env \<Rightarrow> address \<Rightarrow> account \<Rightarrow> chain_state \<Rightarrow> chain_state" where
  "cs_put env a acc s = (let t = grow (address_bytes a, account_bytes env acc) (cs_tree s) in
     s\<lparr>cs_maps := (cs_maps s)\<lparr>sm_accounts := (sm_accounts (cs_maps s))(a \<mapsto> acc)\<rparr>, cs_tree := t,
       cs_seen := cs_seen s \<union> root_nodes (se_trie env) t\<rparr>)"

definition cs_code :: "hash \<Rightarrow> bytes \<Rightarrow> chain_state \<Rightarrow> chain_state" where
  "cs_code h code s = (if sm_code (cs_maps s) h = None
     then s\<lparr>cs_maps := (cs_maps s)\<lparr>sm_code := (sm_code (cs_maps s))(h \<mapsto> code)\<rparr>\<rparr> else s)"

fun cs_write :: "'db state_env \<Rightarrow> state_key \<times> state_value \<Rightarrow> chain_state \<Rightarrow> chain_state" where
  "cs_write env (Storage c k, VStorage v) s =
     s\<lparr>cs_maps := (cs_maps s)\<lparr>sm_storage := (sm_storage (cs_maps s))((c, slot_of env k) := v)\<rparr>\<rparr>"
| "cs_write env (Balance a, VBalance x) s = cs_put env a ((cs_account s a)\<lparr>acc_balance := x\<rparr>) s"
| "cs_write env (Nonce a, VNonce n) s = cs_put env a ((cs_account s a)\<lparr>acc_nonce := n\<rparr>) s"
| "cs_write env (Code a, VCode (Some code)) s =
     cs_put env a ((cs_account s a)\<lparr>acc_code_hash := slot_of env code\<rparr>) (cs_code (slot_of env code) code s)"
| "cs_write env (Code a, VCode None) s = cs_put env a ((cs_account s a)\<lparr>acc_code_hash := hash_zero\<rparr>) s"
| "cs_write env _ s = s"

fun collect_change :: "'db state_env \<Rightarrow> state_key \<times> state_value \<Rightarrow> storage_changes \<Rightarrow> storage_changes" where
  "collect_change env (Storage c k, VStorage v) changes = push_change c (slot_of env k, v) changes"
| "collect_change env _ changes = changes"

definition trie_root :: "'db state_env \<Rightarrow> tree option \<Rightarrow> hash" where
  "trie_root env t = (case root_ref (se_trie env) t of Some h \<Rightarrow> h | None \<Rightarrow> hash_zero)"

definition cs_rebuild :: "'db state_env \<Rightarrow> address \<times> (hash \<times> bytes option) list \<Rightarrow> chain_state \<Rightarrow> chain_state" where
  "cs_rebuild env entry s =
     (let c = fst entry; kvs = map slot_entry (snd entry); t = fold grow kvs (cs_tries s c);
          s1 = s\<lparr>cs_tries := (cs_tries s)(c := t), cs_seen := cs_seen s \<union> written_nodes (se_trie env) (cs_tries s c) kvs\<rparr>
      in if trie_root env t \<noteq> acc_storage_root (cs_account s c)
         then cs_put env c ((cs_account s c)\<lparr>acc_storage_root := trie_root env t\<rparr>) s1 else s1)"

definition cs_block :: "'db state_env \<Rightarrow> (state_key, state_value) fmap \<Rightarrow> chain_state \<Rightarrow> chain_state" where
  "cs_block env writes s = (if writes = fmempty then s else
     fold (cs_rebuild env) (btree_list (fold (collect_change env) (btree_list writes) fmempty))
       (fold (cs_write env) (btree_list writes) s))"

text \<open>What the maps answer to a query, and the blocks of a chain one after the other.\<close>

fun maps_answer :: "'db state_env \<Rightarrow> state_maps \<Rightarrow> query \<Rightarrow> answer" where
  "maps_answer env m (QRead c k) = ABytes (sm_storage m (c, slot_of env k))"
| "maps_answer env m (QExists c k) = ABool (sm_storage m (c, slot_of env k) \<noteq> None)"
| "maps_answer env m (QBalance a) = AAmount (acc_balance (account_or_default (sm_accounts m a)))"
| "maps_answer env m (QNonce a) = ANonce (acc_nonce (account_or_default (sm_accounts m a)))"
| "maps_answer env m (QCode a) = ABytes (let h = acc_code_hash (account_or_default (sm_accounts m a)) in
     if h = hash_zero then None else sm_code m h)"

fun apply_blocks ::
  "nat \<Rightarrow> 'db state_env \<Rightarrow> 'db \<Rightarrow> hash \<Rightarrow> (state_key, state_value) fmap list \<Rightarrow> trie_abort + 'db \<times> hash" where
  "apply_blocks fuel env db root [] = Inr (db, root)"
| "apply_blocks fuel env db root (w # blocks) =
     rbind (apply_writes fuel env db root w) (\<lambda>(db', root'). apply_blocks fuel env db' root' blocks)"

text \<open>The slot of a key in the storage trie that the account of a contract commits to.\<close>

definition committed_slot :: "nat \<Rightarrow> 'db state_env \<Rightarrow> 'db world_state \<Rightarrow> address \<Rightarrow> bytes \<Rightarrow> trie_abort + bytes option" where
  "committed_slot fuel env ws c k =
     rbind (get_account fuel env ws c) (\<lambda>found.
     let h = acc_storage_root (account_or_default found) in
     trie_get fuel (se_trie env) (ws_db ws) (if h = hash_zero then None else Some h) (to_be_bytes (slot_of env k)))"

definition clean :: "'db state_env \<Rightarrow> trie_node set \<Rightarrow> bool" where
  "clean env N \<longleftrightarrow> collision_free (se_trie env) N \<and> (\<forall>n \<in> N. node_ref (se_trie env) n \<noteq> hash_zero)"

lemma cs_put_simps [simp]:
  "cs_tries (cs_put env a acc s) = cs_tries s"
  "cs_account (cs_put env a acc s) b = (if b = a then acc else cs_account s b)"
  "cs_tree (cs_put env a acc s) = grow (address_bytes a, account_bytes env acc) (cs_tree s)"
  "cs_seen (cs_put env a acc s) = cs_seen s \<union> root_nodes (se_trie env) (grow (address_bytes a, account_bytes env acc) (cs_tree s))"
  "cs_maps (cs_put env a acc s) = (cs_maps s)\<lparr>sm_accounts := (sm_accounts (cs_maps s))(a \<mapsto> acc)\<rparr>"
  by (auto simp: cs_put_def Let_def cs_account_def account_or_default_def)

lemma cs_code_simps [simp]:
  "cs_tries (cs_code h code s) = cs_tries s" "cs_account (cs_code h code s) = cs_account s"
  "cs_tree (cs_code h code s) = cs_tree s" "cs_seen (cs_code h code s) = cs_seen s"
  by (auto simp: cs_code_def cs_account_def)

lemma seen_write: "cs_seen s \<subseteq> cs_seen (cs_write env kx s)"
  by (cases "(env, kx, s)" rule: cs_write.cases) auto

lemma seen_rebuild: "cs_seen s \<subseteq> cs_seen (cs_rebuild env entry s)"
  by (auto simp: cs_rebuild_def Let_def)

lemma fold_seen:
  assumes "\<And>x s. seen s \<subseteq> seen (g x s)"
  shows "seen s \<subseteq> seen (fold g xs s)"
proof (induction xs arbitrary: s)
  case (Cons x xs)
  then show ?case using assms[of s x] by (simp add: order_trans)
qed simp

lemma grow_not_None [simp]: "grow kv r \<noteq> None"
  by (cases kv; cases r) auto

subsection \<open>One write, one contract, one block\<close>

text \<open>A loop of fallible steps follows a loop of the specification.\<close>

lemma try_each_refines:
  assumes "\<And>x s. seen s \<subseteq> seen (g x s)"
    and "\<And>x ws s. R ws s \<Longrightarrow> seen (g x s) \<subseteq> N \<Longrightarrow> \<exists>ws'. f x ws = Inr ws' \<and> R ws' (g x s)"
    and "R ws s" "seen (fold g xs s) \<subseteq> N"
  shows "\<exists>ws'. try_each f xs ws = Inr ws' \<and> R ws' (fold g xs s)"
  using assms(3,4)
proof (induction xs arbitrary: ws s)
  case (Cons x xs)
  have "seen (g x s) \<subseteq> N" using Cons.prems(2) fold_seen[of seen g "g x s" xs] assms(1) by auto
  from assms(2)[OF Cons.prems(1) this] obtain ws1 where "f x ws = Inr ws1" "R ws1 (g x s)" by blast
  with Cons.IH[of ws1 "g x s"] Cons.prems(2) show ?case by simp
qed simp

lemma seen_block: "cs_seen s \<subseteq> cs_seen (cs_block env w s)"
proof (cases "w = fmempty")
  case False
  let ?s1 = "fold (cs_write env) (btree_list w) s"
  have "cs_seen s \<subseteq> cs_seen ?s1" by (rule fold_seen) (rule seen_write)
  also have "\<dots> \<subseteq> cs_seen (fold (cs_rebuild env) (btree_list (fold (collect_change env) (btree_list w) fmempty)) ?s1)"
    by (rule fold_seen) (rule seen_rebuild)
  finally show ?thesis using False by (simp add: cs_block_def)
qed (simp add: cs_block_def)

lemma fold_back:
  assumes "\<And>x s. P (g x s) \<Longrightarrow> P s" "P (fold g xs s)"
  shows "P s"
  using assms(2) by (induction xs arbitrary: s) (auto dest: assms(1))

lemma block_tree:
  assumes "cs_tree (cs_block env writes s) = None"
  shows "cs_tree s = None"
proof (cases "writes = fmempty")
  case False
  have w: "cs_tree (cs_write env kx s) = None \<Longrightarrow> cs_tree s = None" for kx s
    by (cases "(env, kx, s)" rule: cs_write.cases) auto
  have r: "cs_tree (cs_rebuild env e s) = None \<Longrightarrow> cs_tree s = None" for e s
    by (auto simp: cs_rebuild_def Let_def split: if_splits)
  have "cs_tree (fold (cs_rebuild env) (btree_list (fold (collect_change env) (btree_list writes) fmempty))
      (fold (cs_write env) (btree_list writes) s)) = None"
    using assms False by (simp add: cs_block_def)
  then have "cs_tree (fold (cs_write env) (btree_list writes) s) = None"
    by (rule fold_back[where P = "\<lambda>s. cs_tree s = None" and g = "cs_rebuild env", rotated]) (erule r)
  then show ?thesis by (rule fold_back[where P = "\<lambda>s. cs_tree s = None" and g = "cs_write env", rotated]) (erule w)
qed (use assms in \<open>simp add: cs_block_def\<close>)

lemma fold_pair: "fold (\<lambda>x (s, c). (f x s, g x c)) xs (s, c) = (fold f xs s, fold g xs c)"
  by (induction xs arbitrary: s c) simp_all

context state_backend
begin

text \<open>The storage roots of the accounts in \<open>A\<close> may be stale.\<close>

definition chain_rep_but :: "address set \<Rightarrow> 'db world_state \<Rightarrow> chain_state \<Rightarrow> bool" where
  "chain_rep_but A ws s \<longleftrightarrow> represents ws (cs_tree s) (cs_maps s) \<and> root_nodes (se_trie env) (cs_tree s) \<subseteq> cs_seen s \<and>
     (\<forall>a. root_ok (cs_tries s a) \<and> root_held (ws_db ws) (cs_tries s a) \<and> root_nodes (se_trie env) (cs_tries s a) \<subseteq> cs_seen s) \<and>
     (\<forall>a. a \<notin> A \<longrightarrow> acc_storage_root (cs_account s a) = trie_root env (cs_tries s a))"

abbreviation chain_rep :: "'db world_state \<Rightarrow> chain_state \<Rightarrow> bool" where
  "chain_rep \<equiv> chain_rep_but {}"

lemma chain_repD:
  assumes "chain_rep_but A ws s"
  shows "represents ws (cs_tree s) (cs_maps s)" "root_nodes (se_trie env) (cs_tree s) \<subseteq> cs_seen s"
    "root_ok (cs_tries s a)" "root_held (ws_db ws) (cs_tries s a)" "root_nodes (se_trie env) (cs_tries s a) \<subseteq> cs_seen s"
    "a \<notin> A \<Longrightarrow> acc_storage_root (cs_account s a) = trie_root env (cs_tries s a)"
  using assms by (simp_all add: chain_rep_but_def)

lemma chain_get:
  assumes "represents ws r m" "64 < fuel"
  shows "get_account fuel env ws a = Inr (sm_accounts m a)"
  using represents_reads(1)[OF assms(1)] assms(2) by simp

lemma held_keep:
  assumes "root_held db r" "root_nodes (se_trie env) r \<subseteq> N"
    and "\<forall>n \<in> N. holds_node (se_trie env) view db n \<longrightarrow> holds_node (se_trie env) view db' n"
  shows "root_held db' r"
  using assms by (auto simp: root_held_def)

lemma same_nodes_held: "same_nodes ws ws' \<Longrightarrow> root_held (ws_db ws') r = root_held (ws_db ws) r"
  by (simp add: same_nodes_def root_held_def holds_node_def)

lemma put_rep:
  assumes rep: "chain_rep_but {a} ws s" and "64 < fuel" "clean env N" "cs_seen (cs_put env a acc s) \<subseteq> N"
    and root: "acc_storage_root acc = trie_root env (cs_tries s a)"
  shows "\<exists>ws'. put_account fuel env ws a acc = Inr ws' \<and> chain_rep ws' (cs_put env a acc s)"
proof -
  have r: "represents ws (cs_tree s) (cs_maps s)" "root_nodes (se_trie env) (cs_tree s) \<subseteq> N"
    "root_nodes (se_trie env) (grow (address_bytes a, account_bytes env acc) (cs_tree s)) \<subseteq> N" "40 < fuel" "collision_free (se_trie env) N"
    using assms chain_repD(1,2)[OF rep] by (auto simp: clean_def)
  obtain ws' where ws': "put_account fuel env ws a acc = Inr ws'"
    "represents ws' (grow (address_bytes a, account_bytes env acc) (cs_tree s)) ((cs_maps s)\<lparr>sm_accounts := (sm_accounts (cs_maps s))(a \<mapsto> acc)\<rparr>)"
    "\<forall>n \<in> N. holds_node (se_trie env) view (ws_db ws) n \<longrightarrow> holds_node (se_trie env) view (ws_db ws') n"
    using rep_put[OF r(1,4,5,2,3)] by blast
  have "root_held (ws_db ws) (cs_tries s b)" "root_nodes (se_trie env) (cs_tries s b) \<subseteq> N" for b
    using chain_repD(4,5)[OF rep, of b] assms(4) by auto
  then have "root_held (ws_db ws') (cs_tries s b)" for b
    using held_keep ws'(3) by blast
  with ws' rep root show ?thesis by (auto simp: chain_rep_but_def)
qed

lemma rep_but: "chain_rep ws s \<Longrightarrow> chain_rep_but A ws s"
  by (simp add: chain_rep_but_def)

lemma update_rep:
  assumes "chain_rep ws s" "64 < fuel" "clean env N" "cs_seen (cs_put env a (f (cs_account s a)) s) \<subseteq> N"
    and "acc_storage_root (f (cs_account s a)) = acc_storage_root (cs_account s a)"
  shows "\<exists>ws'. update_account fuel env ws a f = Inr ws' \<and> chain_rep ws' (cs_put env a (f (cs_account s a)) s)"
proof -
  have "update_account fuel env ws a f = put_account fuel env ws a (f (cs_account s a))"
    using chain_get[of ws "cs_tree s" "cs_maps s" fuel a] assms(1,2) by (simp add: update_account_def chain_rep_but_def cs_account_def)
  with put_rep[OF rep_but[OF assms(1)] assms(2-4)] assms(1,5) show ?thesis by (auto simp: chain_rep_but_def)
qed

lemma flat_rep:
  assumes "chain_rep ws s" "represents ws' (cs_tree s) m" "same_nodes ws ws'" "sm_accounts m = sm_accounts (cs_maps s)"
  shows "chain_rep ws' (s\<lparr>cs_maps := m\<rparr>)"
  using assms by (auto simp: chain_rep_but_def same_nodes_held cs_account_def)

lemma write_rep:
  assumes rep: "chain_rep ws s" and fuel: "64 < fuel" and N: "clean env N" "cs_seen (cs_write env kx s) \<subseteq> N"
  shows "\<exists>ws'. apply_write fuel env kx (ws, changes) = Inr (ws', collect_change env kx changes) \<and> chain_rep ws' (cs_write env kx s)"
proof -
  note r = chain_repD(1)[OF rep]
  note upd = update_rep[OF rep fuel N(1)]
  show ?thesis
    using N(2)
  proof (cases "(env, kx, s)" rule: cs_write.cases)
    case (1 _ c k v _)
    then show ?thesis
      using rep_flat(1)[OF r, of c "slot_of env k" "the v"] rep_flat(2)[OF r, of c "slot_of env k"] flat_rep[OF rep]
      by (cases v) (fastforce simp: fun_upd_def)+
  next
    case (2 _ a x _)
    with upd[of a "acc_balance_update (\<lambda>_. x)"] N(2) show ?thesis by auto
  next
    case (3 _ a n _)
    with upd[of a "acc_nonce_update (\<lambda>_. n)"] N(2) show ?thesis by auto
  next
    case (4 _ a code _)
    let ?s1 = "cs_code (slot_of env code) code s"
    obtain ws1 where ws1: "put_code env ws (slot_of env code) code = Inr ws1" "chain_rep ws1 ?s1"
      using rep_flat(3)[OF r, of "slot_of env code" code] flat_rep[OF rep] rep
      by (fastforce simp: cs_code_def split: if_splits)
    with update_rep[OF ws1(2) fuel N(1), of a "acc_code_hash_update (\<lambda>_. slot_of env code)"] 4 N(2) show ?thesis by auto
  next
    case (5 _ a _)
    with upd[of a "acc_code_hash_update (\<lambda>_. hash_zero)"] N(2) show ?thesis by auto
  qed (use rep in auto)
qed

lemma trie_root_open:
  assumes "clean env N" "root_nodes (se_trie env) t \<subseteq> N"
  shows "(if trie_root env t = hash_zero then None else Some (trie_root env t)) = root_ref (se_trie env) t"
proof (cases t)
  case (Some u)
  have "top_node (se_trie env) u \<in> N" using assms(2) by (auto simp: Some root_nodes_def tree_nodes_top)
  with assms(1) show ?thesis by (auto simp: Some trie_root_def root_ref_def tree_ref_top clean_def)
qed (simp add: trie_root_def)

text \<open>Writing nodes of \<open>N\<close> changes neither the maps nor the tries over \<open>N\<close>.\<close>

lemma grown_rep:
  assumes "represents ws r m" "root_nodes (se_trie env) r \<subseteq> N"
    and "\<forall>n \<in> N. holds_node (se_trie env) view (ws_db ws) n \<longrightarrow> holds_node (se_trie env) view db n"
    and "\<forall>cf k. cf \<noteq> CF_TRIE_NODES \<longrightarrow> view db cf k = view (ws_db ws) cf k"
  shows "represents (ws\<lparr>ws_db := db\<rparr>) r m"
  using assms held_keep[of "ws_db ws" r N db] families by (auto simp: represents_def accounts_rep_def)

lemma run_keeps:
  "root_ok r \<Longrightarrow> root_held db r \<Longrightarrow> \<forall>(k, v) \<in> set kvs. 2 * length k < fuel \<Longrightarrow>
    collision_free (se_trie env) N \<Longrightarrow> written_nodes (se_trie env) r kvs \<subseteq> N \<Longrightarrow>
    \<exists>db'. trie_run fuel (se_trie env) db (root_ref (se_trie env) r) kvs = Inr (db', root_ref (se_trie env) (fold grow kvs r)) \<and>
      root_held db' (fold grow kvs r) \<and>
      (\<forall>n \<in> N. holds_node (se_trie env) view db n \<longrightarrow> holds_node (se_trie env) view db' n) \<and>
      (\<forall>cf k. cf \<noteq> CF_TRIE_NODES \<longrightarrow> view db' cf k = view db cf k)"
proof (induction kvs arbitrary: r db)
  case (Cons kv kvs)
  obtain k v where kv: "kv = (k, v)" by (cases kv)
  have N: "root_nodes (se_trie env) r \<subseteq> N" "root_nodes (se_trie env) (grow (k, v) r) \<subseteq> N" "written_nodes (se_trie env) (grow (k, v) r) kvs \<subseteq> N"
    using Cons.prems(5) root_nodes_written [of "se_trie env" "grow (k, v) r" kvs] by (auto simp: kv)
  have k: "2 * length k < fuel" using Cons.prems(3) by (simp add: kv)
  obtain db1 where db1: "trie_insert fuel (se_trie env) db (root_ref (se_trie env) r) k v = Inr (db1, root_ref (se_trie env) (grow (k, v) r))"
    "root_held db1 (grow (k, v) r)" "\<forall>n \<in> N. holds_node (se_trie env) view db n \<longrightarrow> holds_node (se_trie env) view db1 n"
    "\<forall>cf k. cf \<noteq> CF_TRIE_NODES \<longrightarrow> view db1 cf k = view db cf k"
    using insert_step [OF Cons.prems(1,2) k Cons.prems(4) N(1,2)] by blast
  from Cons.IH [OF grow_ok [OF Cons.prems(1)] db1(2) _ Cons.prems(4) N(3)] Cons.prems(3) db1 show ?case
    by (auto simp: kv)
qed auto

lemma rebuild_rep:
  assumes rep: "chain_rep ws s" and fuel: "64 < fuel" and N: "clean env N" "cs_seen (cs_rebuild env entry s) \<subseteq> N"
  shows "\<exists>ws'. rebuild_storage fuel env entry ws = Inr ws' \<and> chain_rep ws' (cs_rebuild env entry s)"
proof -
  obtain c slots where entry: "entry = (c, slots)" by (cases entry)
  let ?kvs = "map slot_entry slots" and ?acc = "cs_account s c"
  let ?t = "fold grow ?kvs (cs_tries s c)"
  let ?s1 = "s\<lparr>cs_tries := (cs_tries s)(c := ?t), cs_seen := cs_seen s \<union> written_nodes (se_trie env) (cs_tries s c) ?kvs\<rparr>"
  have r: "represents ws (cs_tree s) (cs_maps s)" "root_ok (cs_tries s c)" "root_held (ws_db ws) (cs_tries s c)"
    "acc_storage_root ?acc = trie_root env (cs_tries s c)"
    using chain_repD[OF rep] by simp_all
  have seen: "cs_seen ?s1 \<subseteq> N" using N(2) by (auto simp: cs_rebuild_def entry Let_def split: if_splits)
  have sub: "root_nodes (se_trie env) (cs_tree s) \<subseteq> N" "\<And>a. root_nodes (se_trie env) (cs_tries s a) \<subseteq> N"
    "written_nodes (se_trie env) (cs_tries s c) ?kvs \<subseteq> N"
    using chain_repD(2,5)[OF rep] seen by auto
  have len: "\<forall>(k, v) \<in> set ?kvs. 2 * length k < fuel" using fuel by (auto simp: slot_entry_def)
  obtain db where db: "trie_run fuel (se_trie env) (ws_db ws) (root_ref (se_trie env) (cs_tries s c)) ?kvs = Inr (db, root_ref (se_trie env) ?t)"
    "root_held db ?t" "\<forall>n \<in> N. holds_node (se_trie env) view (ws_db ws) n \<longrightarrow> holds_node (se_trie env) view db n"
    "\<forall>cf k. cf \<noteq> CF_TRIE_NODES \<longrightarrow> view db cf k = view (ws_db ws) cf k"
    using run_keeps[OF r(2,3) len _ sub(3)] N(1) by (auto simp: clean_def)
  let ?ws1 = "ws\<lparr>ws_db := db\<rparr>"
  have rebuild: "rebuild_storage fuel env entry ws = (if trie_root env ?t \<noteq> acc_storage_root ?acc
      then put_account fuel env ?ws1 c (?acc\<lparr>acc_storage_root := trie_root env ?t\<rparr>) else Inr ?ws1)"
    by (simp only: rebuild_storage_def entry fst_conv snd_conv chain_get[OF r(1) fuel] rbind_def sum.case Let_def
        cs_account_def[symmetric] r(4) trie_root_open[OF N(1) sub(2)] db(1) prod.case trie_root_def[symmetric])
  have ws1: "represents ?ws1 (cs_tree s) (cs_maps s)" by (rule grown_rep[OF r(1) sub(1) db(3,4)])
  have held: "root_held db (cs_tries s a)" for a
    using held_keep[OF chain_repD(4)[OF rep] sub(2) db(3)] .
  have ok: "root_ok ?t" "root_nodes (se_trie env) ?t \<subseteq> written_nodes (se_trie env) (cs_tries s c) ?kvs"
    using fold_grow[OF r(2)] written_append[of "se_trie env" "cs_tries s c" ?kvs "[]"] by auto
  have but: "chain_rep_but {c} ?ws1 ?s1"
    unfolding chain_rep_but_def
    using ws1 db(2) held ok(1) chain_repD(3,6)[OF rep] le_supI1[OF chain_repD(2)[OF rep]] le_supI1[OF chain_repD(5)[OF rep]] le_supI2[OF ok(2)]
    by (simp add: cs_account_def)
  show ?thesis
  proof (cases "trie_root env ?t = acc_storage_root ?acc")
    case True
    then have "cs_rebuild env entry s = ?s1" by (simp add: cs_rebuild_def entry Let_def)
    moreover have "chain_rep ?ws1 ?s1" using but True by (auto simp: chain_rep_but_def cs_account_def)
    ultimately show ?thesis using True by (simp add: rebuild)
  next
    case False
    then have eq: "cs_rebuild env entry s = cs_put env c (?acc\<lparr>acc_storage_root := trie_root env ?t\<rparr>) ?s1"
      by (simp add: cs_rebuild_def entry Let_def)
    have "\<exists>ws'. put_account fuel env ?ws1 c (?acc\<lparr>acc_storage_root := trie_root env ?t\<rparr>) = Inr ws' \<and> chain_rep ws' (cs_rebuild env entry s)"
      unfolding eq by (rule put_rep[OF but fuel N(1)]) (use N(2) eq in simp_all)
    with False show ?thesis by (simp add: rebuild)
  qed
qed

lemma block_rep:
  assumes rep: "chain_rep (open_world db base) s" and fuel: "64 < fuel" and N: "clean env N" "cs_seen (cs_block env writes s) \<subseteq> N"
  shows "\<exists>db' root. apply_writes fuel env db base writes = Inr (db', root) \<and> chain_rep (open_world db' root) (cs_block env writes s)"
proof (cases "writes = fmempty")
  case True
  with rep show ?thesis by (auto simp: apply_writes_def cs_block_def)
next
  case False
  let ?ws = "btree_list writes"
  let ?s1 = "fold (cs_write env) ?ws s" and ?ch = "fold (collect_change env) ?ws fmempty"
  have s': "cs_block env writes s = fold (cs_rebuild env) (btree_list ?ch) ?s1" using False by (simp add: cs_block_def)
  have "cs_seen ?s1 \<subseteq> cs_seen (cs_block env writes s)" unfolding s' by (rule fold_seen) (rule seen_rebuild)
  with N(2) have "cs_seen ?s1 \<subseteq> N" by blast
  then have "\<exists>p. try_each (apply_write fuel env) ?ws (open_world db base, fmempty) = Inr p \<and>
      (\<lambda>(ws, ch) (s, ch'). chain_rep ws s \<and> ch = ch') p (fold (\<lambda>kx (s, ch). (cs_write env kx s, collect_change env kx ch)) ?ws (s, fmempty))"
  proof (intro try_each_refines[where seen = "\<lambda>(s, _). cs_seen s" and N = N and R = "\<lambda>(ws, ch) (s, ch'). chain_rep ws s \<and> ch = ch'"])
    fix kx and p :: "'db world_state \<times> storage_changes" and q
    assume pq: "(\<lambda>(ws, ch) (s, ch'). chain_rep ws s \<and> ch = ch') p q"
      "(case case q of (s, ch) \<Rightarrow> (cs_write env kx s, collect_change env kx ch) of (s, _) \<Rightarrow> cs_seen s) \<subseteq> N"
    obtain w0 s0 ch where eq: "p = (w0, ch)" "q = (s0, ch)" "chain_rep w0 s0" using pq(1) by (cases p; cases q) auto
    have "cs_seen (cs_write env kx s0) \<subseteq> N" using pq(2) by (simp add: eq)
    from write_rep[OF eq(3) fuel N(1) this] show "\<exists>p'. apply_write fuel env kx p = Inr p' \<and>
        (\<lambda>(ws, ch) (s, ch'). chain_rep ws s \<and> ch = ch') p' (case q of (s, ch) \<Rightarrow> (cs_write env kx s, collect_change env kx ch))"
      unfolding eq prod.case by blast
  qed (use rep in \<open>auto simp: fold_pair intro: subsetD[OF seen_write] split: prod.splits\<close>)
  then obtain ws1 where ws1: "try_each (apply_write fuel env) ?ws (open_world db base, fmempty) = Inr (ws1, ?ch)" "chain_rep ws1 ?s1"
    by (auto simp: fold_pair)
  have "\<exists>ws2. try_each (rebuild_storage fuel env) (btree_list ?ch) ws1 = Inr ws2 \<and> chain_rep ws2 (fold (cs_rebuild env) (btree_list ?ch) ?s1)"
    by (rule try_each_refines[where seen = cs_seen and N = N and R = chain_rep])
      (rule seen_rebuild, erule (1) rebuild_rep[OF _ fuel N(1)], rule ws1(2), use N(2) s' in simp)
  then obtain ws2 where ws2: "try_each (rebuild_storage fuel env) (btree_list ?ch) ws1 = Inr ws2" "chain_rep ws2 (cs_block env writes s)"
    unfolding s' by blast
  have root: "ws_root ws2 = root_ref (se_trie env) (cs_tree (cs_block env writes s))"
    using chain_repD(1)[OF ws2(2)] by (simp add: represents_def accounts_rep_def)
  have "open_world (ws_db ws2) (case ws_root ws2 of Some h \<Rightarrow> h | None \<Rightarrow> base) = ws2"
  proof (cases "cs_tree (cs_block env writes s)")
    case None
    then have "cs_tree s = None" by (rule block_tree)
    with chain_repD(1)[OF rep] have "base = hash_zero"
      by (auto simp: represents_def accounts_rep_def open_world_def with_state_root_def split: if_splits)
    with None root show ?thesis by (simp add: open_world_def ws_new_def)
  next
    case (Some u)
    have "top_node (se_trie env) u \<in> N" using chain_repD(2)[OF ws2(2)] N(2) by (auto simp: Some root_nodes_def tree_nodes_top)
    with N(1) have "tree_ref (se_trie env) u \<noteq> hash_zero" by (auto simp: clean_def tree_ref_top)
    with Some root show ?thesis by (simp add: open_world_def with_state_root_def root_ref_def)
  qed
  with ws1(1) ws2 False show ?thesis by (simp add: apply_writes_def)
qed

lemma blocks_rep:
  assumes "chain_rep (open_world db base) s" "64 < fuel" "clean env N" "cs_seen (fold (cs_block env) blocks s) \<subseteq> N"
  shows "\<exists>db' root. apply_blocks fuel env db base blocks = Inr (db', root) \<and> chain_rep (open_world db' root) (fold (cs_block env) blocks s)"
  using assms(1,4)
proof (induction blocks arbitrary: db base s)
  case (Cons w blocks)
  have "cs_seen (cs_block env w s) \<subseteq> cs_seen (fold (cs_block env) blocks (cs_block env w s))"
    by (rule fold_seen) (rule seen_block)
  then have "cs_seen (cs_block env w s) \<subseteq> N" using Cons.prems(2) by auto
  from block_rep[OF Cons.prems(1) assms(2,3) this] obtain db1 root1
    where "apply_writes fuel env db base w = Inr (db1, root1)" "chain_rep (open_world db1 root1) (cs_block env w s)" by blast
  with Cons.IH[of db1 root1 "cs_block env w s"] Cons.prems(2) show ?case by simp
qed auto

lemma answers:
  assumes "represents ws r m" "64 < fuel"
  shows "wsv_answer fuel env ws q = maps_answer env m q"
  using represents_reads[OF assms(1), of fuel] assms(2)
  by (cases q) (auto simp: or_else_def wsv_code_def get_balance_def get_nonce_def account_or_default_def default_account_def split: option.split)

lemma opened_root:
  assumes "represents (open_world db root) r m"
  shows "root = trie_root env r"
proof -
  have "root_ref (se_trie env) r = ws_root (open_world db root)" using assms by (auto simp: represents_def accounts_rep_def)
  then show ?thesis by (simp add: trie_root_def open_world_def ws_new_def with_state_root_def split: if_splits)
qed

lemma committed_slot_read:
  assumes rep: "chain_rep ws s" and "64 < fuel" "clean env N" "cs_seen s \<subseteq> N"
  shows "committed_slot fuel env ws c k = Inr (root_lookup (cs_tries s c) (from_bytes (to_be_bytes (slot_of env k))))"
proof -
  have nodes: "root_nodes (se_trie env) (cs_tries s c) \<subseteq> N" using chain_repD(5) [OF rep] assms(4) by blast
  have root: "acc_storage_root (account_or_default (sm_accounts (cs_maps s) c)) = trie_root env (cs_tries s c)"
    using chain_repD(6) [OF rep, of c] by (simp add: cs_account_def)
  have get: "get_account fuel env ws c = Inr (sm_accounts (cs_maps s) c)"
    using chain_get [OF chain_repD(1) [OF rep] assms(2)] by simp
  show ?thesis
    unfolding committed_slot_def get rbind_def sum.case Let_def root trie_root_open [OF assms(3) nodes]
    using get_root [OF chain_repD(3,4) [OF rep], of "to_be_bytes (slot_of env k)" fuel] assms(2) by simp
qed

lemma chain_rep_new:
  assumes "\<And>k. view db CF_STORAGE k = None" "\<And>k. view db CF_CODE k = None"
  shows "chain_rep (open_world db hash_zero) chain_empty"
  using represents_new[OF assms] 
  by (simp add: chain_rep_but_def chain_empty_def open_world_def cs_account_def maps_empty_def account_or_default_def default_account_def
      trie_root_def root_nodes_def)

end

subsection \<open>What is read back\<close>

fun key_matches :: "state_key \<Rightarrow> state_value \<Rightarrow> bool" where
  "key_matches (Storage _ _) (VStorage _) = True"
| "key_matches (Balance _) (VBalance _) = True"
| "key_matches (Nonce _) (VNonce _) = True"
| "key_matches (Code _) (VCode _) = True"
| "key_matches _ _ = False"

text \<open>The byte strings a write and a query are hashed by.\<close>

fun hashed_by :: "state_key \<times> state_value \<Rightarrow> bytes set" where
  "hashed_by (Storage c k, _) = {k}"
| "hashed_by (Code a, VCode (Some code)) = {code}"
| "hashed_by _ = {}"

fun asked_by :: "query \<Rightarrow> bytes set" where
  "asked_by (QRead c k) = {k}"
| "asked_by (QExists c k) = {k}"
| "asked_by _ = {}"

text \<open>Stored code lies under its hash, and every account's code is stored.\<close>

definition code_inv :: "'db state_env \<Rightarrow> bytes set \<Rightarrow> state_maps \<Rightarrow> bool" where
  "code_inv env B m \<longleftrightarrow> (\<forall>h code. sm_code m h = Some code \<longrightarrow> code \<in> B \<and> slot_of env code = h) \<and>
     (\<forall>a acc. sm_accounts m a = Some acc \<and> acc_code_hash acc \<noteq> hash_zero \<longrightarrow> sm_code m (acc_code_hash acc) \<noteq> None)"

definition writes_ok :: "'db state_env \<Rightarrow> bytes set \<Rightarrow> state_key \<times> state_value \<Rightarrow> bool" where
  "writes_ok env B kx \<longleftrightarrow> key_matches (fst kx) (snd kx) \<and> hashed_by kx \<subseteq> B \<and>
     (case kx of (Code a, VCode (Some code)) \<Rightarrow> slot_of env code \<noteq> hash_zero | _ \<Rightarrow> True)"

lemma default_simps [simp]: "account_or_default None = default_account" "account_or_default (Some acc) = acc"
  by (simp_all add: account_or_default_def)

lemma code_answers:
  assumes "code_inv env B m" "code \<in> B" "inj_on (slot_of env) B" "slot_of env code \<noteq> hash_zero"
  shows "sm_code (if sm_code m (slot_of env code) = None then m\<lparr>sm_code := (sm_code m)(slot_of env code \<mapsto> code)\<rparr> else m) (slot_of env code) = Some code"
  using assms by (auto simp: code_inv_def inj_on_def)

lemma write_answers:
  assumes "code_inv env B (cs_maps s)" "writes_ok env B kx" "inj_on (slot_of env) B" "asked_by q \<subseteq> B"
  shows "maps_answer env (cs_maps (cs_write env kx s)) q =
      (if query_key q = fst kx then value_answer q (snd kx) else maps_answer env (cs_maps s) q)"
proof -
  have stored: "sm_accounts (cs_maps s) a = Some acc \<Longrightarrow> acc_code_hash acc = h \<Longrightarrow> sm_code (cs_maps s) h = None \<Longrightarrow> h = hash_zero" for h a acc
    using assms(1) unfolding code_inv_def by blast
  show ?thesis
    using assms(2)
  proof (cases "(env, kx, s)" rule: cs_write.cases)
    case (1 _ c k v _)
    then show ?thesis using assms(2-4) by (cases q; cases v) (auto simp: writes_ok_def inj_on_def Let_def)
  next
    case (4 _ a code _)
    then have kx: "kx = (Code a, VCode (Some code))" by simp
    then have code: "code \<in> B" "slot_of env code \<noteq> hash_zero" using assms(2) by (auto simp: writes_ok_def)
    show ?thesis unfolding kx using code_answers[OF assms(1) code(1) assms(3) code(2)] code
      by (cases q) (auto simp: cs_code_def cs_account_def Let_def account_or_default_def default_account_def dest: stored split: option.splits if_splits)
  qed (use assms(2) in \<open>cases q; auto simp: writes_ok_def cs_account_def Let_def account_or_default_def default_account_def split: option.splits\<close>)+
qed

lemma write_code_inv:
  assumes "code_inv env B (cs_maps s)" "writes_ok env B kx"
  shows "code_inv env B (cs_maps (cs_write env kx s))"
  using assms by (cases "(env, kx, s)" rule: cs_write.cases)
    (auto simp: code_inv_def writes_ok_def cs_code_def cs_account_def account_or_default_def default_account_def split: option.splits)

lemma rebuild_answers:
  "maps_answer env (cs_maps (cs_rebuild env e s)) q = maps_answer env (cs_maps s) q"
  "code_inv env B (cs_maps s) \<Longrightarrow> code_inv env B (cs_maps (cs_rebuild env e s))"
  by (cases q; simp add: cs_rebuild_def Let_def cs_account_def)
    (auto simp: code_inv_def cs_rebuild_def Let_def cs_account_def account_or_default_def default_account_def split: option.splits)

lemma writes_answer:
  assumes "code_inv env B (cs_maps s)" "\<forall>kx \<in> set kxs. writes_ok env B kx" "distinct (map fst kxs)"
    and "inj_on (slot_of env) B" "asked_by q \<subseteq> B"
  shows "maps_answer env (cs_maps (fold (cs_write env) kxs s)) q =
      (case map_of kxs (query_key q) of Some x \<Rightarrow> value_answer q x | None \<Rightarrow> maps_answer env (cs_maps s) q) \<and>
    code_inv env B (cs_maps (fold (cs_write env) kxs s))"
  using assms(1-3)
proof (induction kxs arbitrary: s)
  case (Cons kx kxs)
  have kx: "writes_ok env B kx" "map_of kxs (fst kx) = None" using Cons.prems(2,3) by (auto simp: map_of_eq_None_iff)
  have "maps_answer env (cs_maps (fold (cs_write env) kxs (cs_write env kx s))) q =
      (case map_of kxs (query_key q) of Some x \<Rightarrow> value_answer q x | None \<Rightarrow> maps_answer env (cs_maps (cs_write env kx s)) q) \<and>
    code_inv env B (cs_maps (fold (cs_write env) kxs (cs_write env kx s)))"
    by (rule Cons.IH) (use Cons.prems write_code_inv[OF Cons.prems(1) kx(1)] in auto)
  then show ?case using write_answers[OF Cons.prems(1) kx(1) assms(4,5)] kx(2) by (cases kx) (auto split: option.split)
qed simp

lemma btree_list_facts: "map_of (btree_list m) = fmlookup m" "distinct (map fst (btree_list m))" 
  by (auto simp: btree_list_def map_of_map_restrict restrict_map_def comp_def fmlookup_dom_iff fun_eq_iff)

text \<open>A block shows its writes over what was there; later blocks over earlier ones.\<close>

definition block_ok :: "'db state_env \<Rightarrow> bytes set \<Rightarrow> (state_key, state_value) fmap \<Rightarrow> bool" where
  "block_ok env B w \<longleftrightarrow> list_all (writes_ok env B) (btree_list w)"

lemma block_answers:
  assumes "code_inv env B (cs_maps s)" "block_ok env B w" "inj_on (slot_of env) B" "asked_by q \<subseteq> B"
  shows "maps_answer env (cs_maps (cs_block env w s)) q =
      (case fmlookup w (query_key q) of Some x \<Rightarrow> value_answer q x | None \<Rightarrow> maps_answer env (cs_maps s) q) \<and>
    code_inv env B (cs_maps (cs_block env w s))"
proof (cases "w = fmempty")
  case False
  have re: "maps_answer env (cs_maps (fold (cs_rebuild env) es s)) q = maps_answer env (cs_maps s) q \<and>
      (code_inv env B (cs_maps s) \<longrightarrow> code_inv env B (cs_maps (fold (cs_rebuild env) es s)))" for es s
    by (induction es arbitrary: s) (auto simp: rebuild_answers)
  show ?thesis
    using writes_answer[OF assms(1) _ _ assms(3,4), of "btree_list w"] assms(2) False re
    by (simp add: cs_block_def btree_list_facts(1,2) block_ok_def list_all_iff)
qed (use assms(1) in \<open>simp add: cs_block_def\<close>)

definition last_write :: "(state_key, state_value) fmap list \<Rightarrow> state_key \<Rightarrow> state_value option" where
  "last_write blocks key = fold (\<lambda>w found. case fmlookup w key of Some x \<Rightarrow> Some x | None \<Rightarrow> found) blocks None"

lemma last_write_over:
  "fold (\<lambda>w found. case fmlookup w key of Some x \<Rightarrow> Some x | None \<Rightarrow> found) blocks old =
    (case last_write blocks key of Some x \<Rightarrow> Some x | None \<Rightarrow> old)"
proof (induction blocks arbitrary: old)
  case (Cons w blocks)
  show ?case by (simp add: last_write_def Cons.IH[of "case fmlookup w key of None \<Rightarrow> old | Some x \<Rightarrow> Some x"]
      Cons.IH[of "case fmlookup w key of None \<Rightarrow> None | Some x \<Rightarrow> Some x"] split: option.split)
qed (simp add: last_write_def)

lemma blocks_answer:
  assumes "code_inv env B (cs_maps s)" "list_all (block_ok env B) blocks" "inj_on (slot_of env) B" "asked_by q \<subseteq> B"
  shows "maps_answer env (cs_maps (fold (cs_block env) blocks s)) q =
      (case last_write blocks (query_key q) of Some x \<Rightarrow> value_answer q x | None \<Rightarrow> maps_answer env (cs_maps s) q)"
  using assms(1,2)
proof (induction blocks arbitrary: s)
  case (Cons w blocks)
  have w: "block_ok env B w" "list_all (block_ok env B) blocks" using Cons.prems(2) by auto
  note step = block_answers[OF Cons.prems(1) w(1) assms(3,4)]
  have "last_write (w # blocks) (query_key q) = (case last_write blocks (query_key q) of Some x \<Rightarrow> Some x | None \<Rightarrow> fmlookup w (query_key q))"
    by (subst last_write_def) (simp add: last_write_over split: option.split)
  with Cons.IH[OF step[THEN conjunct2] w(2)] step show ?case by (auto split: option.split)
qed (simp add: last_write_def)

lemma empty_answers: "maps_answer env maps_empty q = im_answer im_new q" "code_inv env B maps_empty"
  by (cases q; simp add: maps_empty_def default_account_def im_new_def hash_zero_def)
    (simp add: code_inv_def maps_empty_def)

lemma cs_maps_empty: "cs_maps chain_empty = maps_empty"
  by (simp add: chain_empty_def)

subsection \<open>Storage tries\<close>

text \<open>What a write leaves in the storage trie: a deletion the empty value.\<close>

fun committed_value :: "state_value option \<Rightarrow> bytes option" where
  "committed_value (Some (VStorage v)) = Some (case v of Some bs \<Rightarrow> bs | None \<Rightarrow> [])"
| "committed_value _ = None"

fun changes_of :: "'db state_env \<Rightarrow> address \<Rightarrow> (state_key \<times> state_value) list \<Rightarrow> (hash \<times> bytes option) list" where
  "changes_of env c [] = []"
| "changes_of env c ((Storage c' k, VStorage v) # kxs) = (if c' = c then [(slot_of env k, v)] else []) @ changes_of env c kxs"
| "changes_of env c (_ # kxs) = changes_of env c kxs"

lemma changes_collected:
  "(case fmlookup (fold (collect_change env) kxs m) c of Some xs \<Rightarrow> xs | None \<Rightarrow> []) =
    (case fmlookup m c of Some xs \<Rightarrow> xs | None \<Rightarrow> []) @ changes_of env c kxs"
  by (induction env c kxs arbitrary: m rule: changes_of.induct) (auto simp: push_change_def split: option.splits)

lemma tries_simps [simp]: "cs_tries (cs_write env kx s) = cs_tries s" "cs_tries (fold (cs_write env) kxs s) = cs_tries s"
proof -
  show *: "cs_tries (cs_write env kx s) = cs_tries s" for kx s
    by (cases "(env, kx, s)" rule: cs_write.cases) (auto simp: cs_code_def)
  show "cs_tries (fold (cs_write env) kxs s) = cs_tries s" by (induction kxs arbitrary: s) (simp_all add: *)
qed

lemma tries_rebuild:
  "cs_tries (cs_rebuild env e s) = (cs_tries s)(fst e := fold grow (map slot_entry (snd e)) (cs_tries s (fst e)))"
  by (simp add: cs_rebuild_def Let_def)

lemma tries_rebuilds:
  "distinct (map fst es) \<Longrightarrow> cs_tries (fold (cs_rebuild env) es s) c =
    fold grow (map slot_entry (case map_of es c of Some ch \<Rightarrow> ch | None \<Rightarrow> [])) (cs_tries s c)"
proof (induction es arbitrary: s)
  case (Cons e es)
  then show ?case by (cases e) (auto simp: tries_rebuild map_of_eq_None_iff [symmetric] split: option.split)
qed simp

lemma tries_block:
  "cs_tries (cs_block env w s) c = fold grow (map slot_entry (changes_of env c (btree_list w))) (cs_tries s c)"
proof (cases "w = fmempty")
  case False
  have "(case fmlookup (fold (collect_change env) (btree_list w) fmempty) c of Some xs \<Rightarrow> xs | None \<Rightarrow> []) = changes_of env c (btree_list w)"
    using changes_collected [where kxs = "btree_list w" and env = env and m = fmempty and c = c] by simp
  with False show ?thesis by (simp add: cs_block_def tries_rebuilds btree_list_facts)
next
  case True
  have "btree_list w = []" using arg_cong [OF btree_list_facts(1) [of w], of dom] True by (simp add: dom_map_of_conv_image_fst)
  with True show ?thesis by (simp add: cs_block_def)
qed

lemma changes_lookup:
  assumes "distinct (map fst kxs)" "\<forall>kx \<in> set kxs. writes_ok env B kx" "inj_on (slot_of env) B" "k \<in> B"
  shows "map_of (rev (map slot_entry (changes_of env c kxs))) (to_be_bytes (slot_of env k)) = committed_value (map_of kxs (Storage c k))"
  using assms(1-3)
proof (induction env c kxs rule: changes_of.induct)
  case (2 env c c' k' v kxs)
  have "map_of kxs (Storage c' k') = None" using "2.prems"(1) by (simp add: map_of_eq_None_iff)
  moreover have "slot_of env k' = slot_of env k \<longleftrightarrow> k' = k"
    using "2.prems"(2,3) assms(4) by (auto simp: writes_ok_def inj_on_def)
  ultimately show ?case using 2
    by (auto simp: slot_entry_def map_add_def dest: to_be_bytes_inj split: option.splits)
qed (auto simp: writes_ok_def)

lemma block_slot:
  assumes "root_ok (cs_tries s c)" "block_ok env B w" "inj_on (slot_of env) B" "k \<in> B"
  shows "root_ok (cs_tries (cs_block env w s) c)"
    "root_lookup (cs_tries (cs_block env w s) c) (from_bytes (to_be_bytes (slot_of env k))) =
      (case fmlookup w (Storage c k) of Some x \<Rightarrow> committed_value (Some x)
       | None \<Rightarrow> root_lookup (cs_tries s c) (from_bytes (to_be_bytes (slot_of env k))))"
proof -
  let ?kvs = "map slot_entry (changes_of env c (btree_list w))"
  note grown = fold_grow [OF assms(1), of ?kvs "from_bytes (to_be_bytes (slot_of env k))"]
  then show "root_ok (cs_tries (cs_block env w s) c)" by (simp add: tries_block)
  have "map_of (rev ?kvs) (to_be_bytes (slot_of env k)) = committed_value (fmlookup w (Storage c k))"
    using changes_lookup [OF btree_list_facts(2), of w env B k c] assms(2-4)
    by (simp add: block_ok_def list_all_iff btree_list_facts)
  moreover have "\<exists>v. x = VStorage v" if "fmlookup w (Storage c k) = Some x" for x
    using assms(2) that map_of_SomeD [of "btree_list w" "Storage c k" x]
    by (cases x) (auto simp: block_ok_def list_all_iff btree_list_facts writes_ok_def)
  ultimately show "root_lookup (cs_tries (cs_block env w s) c) (from_bytes (to_be_bytes (slot_of env k))) =
      (case fmlookup w (Storage c k) of Some x \<Rightarrow> committed_value (Some x)
       | None \<Rightarrow> root_lookup (cs_tries s c) (from_bytes (to_be_bytes (slot_of env k))))"
    using grown map_of_from_bytes(1) [of "rev ?kvs" "to_be_bytes (slot_of env k)"]
    by (fastforce simp: tries_block rev_map split: option.splits)
qed

lemma blocks_slot:
  assumes "root_ok (cs_tries s c)" "list_all (block_ok env B) blocks" "inj_on (slot_of env) B" "k \<in> B"
  shows "root_lookup (cs_tries (fold (cs_block env) blocks s) c) (from_bytes (to_be_bytes (slot_of env k))) =
      (case last_write blocks (Storage c k) of Some x \<Rightarrow> committed_value (Some x)
       | None \<Rightarrow> root_lookup (cs_tries s c) (from_bytes (to_be_bytes (slot_of env k))))"
  using assms(1,2)
proof (induction blocks arbitrary: s)
  case (Cons w blocks)
  have w: "block_ok env B w" "list_all (block_ok env B) blocks" using Cons.prems(2) by auto
  note step = block_slot [OF Cons.prems(1) w(1) assms(3,4)]
  have "last_write (w # blocks) (Storage c k) = (case last_write blocks (Storage c k) of Some x \<Rightarrow> Some x | None \<Rightarrow> fmlookup w (Storage c k))"
    by (subst last_write_def) (simp add: last_write_over split: option.split)
  with Cons.IH [OF step(1) w(2)] step(2) show ?case by (auto split: option.split)
qed (simp add: last_write_def)

lemma chain_of_blocks:
  assumes "state_backend env view" "64 < fuel"
    and "\<forall>k. view db CF_STORAGE k = None" "\<forall>k. view db CF_CODE k = None"
    and "clean env (cs_seen (fold (cs_block env) blocks chain_empty))"
    and "list_all (block_ok env B) blocks" "inj_on (slot_of env) B"
  shows "\<exists>db'. let root = trie_root env (cs_tree (fold (cs_block env) blocks chain_empty)) in
    apply_blocks fuel env db hash_zero blocks = Inr (db', root) \<and>
    (\<forall>q. asked_by q \<subseteq> B \<longrightarrow> wsv_answer fuel env (open_world db' root) q =
      view_answer (im_base im_new) q (last_write blocks (query_key q))) \<and>
    (\<forall>c. \<forall>k \<in> B. committed_slot fuel env (open_world db' root) c k = Inr (committed_value (last_write blocks (Storage c k))))"
proof -
  let ?s = "fold (cs_block env) blocks chain_empty"
  have "state_backend.chain_rep_but env view {} (open_world db hash_zero) chain_empty"
    using state_backend.chain_rep_new [OF assms(1)] assms(3,4) by blast
  from state_backend.blocks_rep [OF assms(1) this assms(2,5) order_refl] obtain db' root where
    run: "apply_blocks fuel env db hash_zero blocks = Inr (db', root)"
    and chain: "state_backend.chain_rep_but env view {} (open_world db' root) ?s" by blast
  note rep = state_backend.chain_repD(1) [OF assms(1) chain]
  have "code_inv env B (cs_maps chain_empty)" by (simp add: cs_maps_empty empty_answers)
  note blocks = blocks_answer [OF this assms(6,7)]
  have "wsv_answer fuel env (open_world db' root) q = view_answer (im_base im_new) q (last_write blocks (query_key q))"
    if "asked_by q \<subseteq> B" for q
    using blocks [OF that] state_backend.answers [OF assms(1) rep assms(2)]
    by (simp add: view_answer_def im_base_def empty_answers cs_maps_empty split: option.split)
  moreover have "committed_slot fuel env (open_world db' root) c k = Inr (committed_value (last_write blocks (Storage c k)))" if "k \<in> B" for c k
    using state_backend.committed_slot_read [OF assms(1) chain assms(2,5) order_refl, of c k]
      blocks_slot [OF _ assms(6,7) that, of chain_empty c]
    by (simp add: chain_empty_def root_ok_def root_lookup_def split: option.splits)
  ultimately show ?thesis using run state_backend.opened_root [OF assms(1) rep] unfolding Let_def by blast
qed

text \<open>
  C8. A chain of blocks leaves the last write at every key. Starting from an empty database, applying the
  writes of any sequence of blocks succeeds, and the world state opened at the resulting root answers
  every query about balances, nonces, code and storage with the value of the last block that wrote
  it, or with the default. The storage trie that a contract's account commits to holds the same last
  write at every slot (a deletion as the empty value), so account trie, storage tries, code store and
  slot storage stay in step, where hashes do not collide on the nodes, slot keys and code involved.
\<close>

theorem chain_state_is_last_write:
  assumes "state_backend env view" "64 < fuel"
    and "\<forall>k. view db CF_STORAGE k = None" "\<forall>k. view db CF_CODE k = None"
    and "clean env (cs_seen (fold (cs_block env) blocks chain_empty))"
    and "list_all (block_ok env B) blocks" "inj_on (slot_of env) B"
  shows "\<exists>db' root. apply_blocks fuel env db hash_zero blocks = Inr (db', root) \<and>
    (\<forall>q. asked_by q \<subseteq> B \<longrightarrow> wsv_answer fuel env (open_world db' root) q =
      view_answer (im_base im_new) q (last_write blocks (query_key q))) \<and>
    (\<forall>c. \<forall>k \<in> B. committed_slot fuel env (open_world db' root) c k = Inr (committed_value (last_write blocks (Storage c k))))"
  using chain_of_blocks [OF assms] unfolding Let_def by blast

text \<open>Two blocks: a deployment with a slot, then the slot overwritten. The hash is small and tells their nodes apart.\<close>

definition small_hash :: hasher where
  "small_hash bs = word_of_int (1 + foldl (\<lambda>h b. (h * 3 + uint b + 1) mod 31) 1 bs)"

definition sample_blocks :: "(state_key, state_value) fmap list" where
  "sample_blocks = [fmap_of_list [(Code 9, VCode (Some [1])), (Storage 9 [7], VStorage (Some [5]))],
     fmap_of_list [(Storage 9 [7], VStorage (Some [6]))]]"

theorem chain_state_is_last_write_witness:
  "\<exists>db' root. apply_blocks 65 (mem_state_env small_hash) fmempty hash_zero sample_blocks = Inr (db', root) \<and>
    wsv_answer 65 (mem_state_env small_hash) (open_world db' root) (QRead 9 [7]) = ABytes (Some [6]) \<and>
    wsv_answer 65 (mem_state_env small_hash) (open_world db' root) (QCode 9) = ABytes (Some [1]) \<and>
    wsv_answer 65 (mem_state_env small_hash) (open_world db' root) (QBalance 3) = AAmount 0 \<and>
    committed_slot 65 (mem_state_env small_hash) (open_world db' root) 9 [7] = Inr (Some [6])"
proof -
  let ?env = "mem_state_env small_hash" and ?B = "{[1], [7 :: u8]}"
  have clean: "clean ?env (cs_seen (fold (cs_block ?env) sample_blocks chain_empty))" by code_simp
  have ok: "list_all (block_ok ?env ?B) sample_blocks" by code_simp
  have inj: "inj_on (slot_of ?env) ?B" by code_simp
  have last: "last_write sample_blocks (Storage 9 [7]) = Some (VStorage (Some [6]))"
    "last_write sample_blocks (Code 9) = Some (VCode (Some [1]))" "last_write sample_blocks (Balance 3) = None"
    by code_simp+
  have "\<exists>db' root. apply_blocks 65 ?env fmempty hash_zero sample_blocks = Inr (db', root) \<and>
    (\<forall>q. asked_by q \<subseteq> ?B \<longrightarrow> wsv_answer 65 ?env (open_world db' root) q =
      view_answer (im_base im_new) q (last_write sample_blocks (query_key q))) \<and>
    (\<forall>c. \<forall>k \<in> ?B. committed_slot 65 ?env (open_world db' root) c k = Inr (committed_value (last_write sample_blocks (Storage c k))))"
    by (rule chain_state_is_last_write [OF mem_state.state_backend_axioms _ _ _ clean ok inj]) simp_all
  then obtain db' root where run: "apply_blocks 65 ?env fmempty hash_zero sample_blocks = Inr (db', root)"
    and ans: "\<And>q. asked_by q \<subseteq> ?B \<Longrightarrow> wsv_answer 65 ?env (open_world db' root) q =
      view_answer (im_base im_new) q (last_write sample_blocks (query_key q))"
    and slots: "\<forall>c. \<forall>k \<in> ?B. committed_slot 65 ?env (open_world db' root) c k = Inr (committed_value (last_write sample_blocks (Storage c k)))"
    by blast
  from slots have "committed_slot 65 ?env (open_world db' root) 9 [7] = Inr (Some [6])" by (simp add: last)
  with run ans[of "QRead 9 [7]"] ans[of "QCode 9"] ans[of "QBalance 3"] show ?thesis
    by (auto simp: last view_answer_def im_base_def im_new_def amount_zero_def simp del: wsv_answer.simps apply_blocks.simps)
qed

text \<open>
  The state root does not tell a deleted slot from an empty one. A deletion is entered into the storage
  trie as an empty value, so a block that deletes a slot and a block that stores the empty value in it
  end in the same state root, while the slot reads as absent after one and as present after the other.
\<close>

definition slot_block :: "bytes option \<Rightarrow> (state_key, state_value) fmap" where
  "slot_block v = fmap_of_list [(Storage 9 [7], VStorage v)]"

definition clean_same_root :: "'db state_env \<Rightarrow> chain_state \<Rightarrow> chain_state \<Rightarrow> bool" where
  "clean_same_root env s s' \<longleftrightarrow> clean env (cs_seen s) \<and> clean env (cs_seen s') \<and>
     trie_root env (cs_tree s) = trie_root env (cs_tree s')"

theorem deleted_slot_shares_root:
  "\<exists>db1 db2 root. apply_blocks 65 (mem_state_env small_hash) fmempty hash_zero [slot_block (Some [5]), slot_block None] = Inr (db1, root) \<and>
    apply_blocks 65 (mem_state_env small_hash) fmempty hash_zero [slot_block (Some [5]), slot_block (Some [])] = Inr (db2, root) \<and>
    wsv_answer 65 (mem_state_env small_hash) (open_world db1 root) (QExists 9 [7]) = ABool False \<and>
    wsv_answer 65 (mem_state_env small_hash) (open_world db2 root) (QExists 9 [7]) = ABool True"
proof -
  let ?env = "mem_state_env small_hash" and ?B = "{[7 :: u8]}"
  let ?s = "\<lambda>v. fold (cs_block ?env) [slot_block (Some [5]), slot_block v] chain_empty"
  have "clean_same_root ?env (?s None) (?s (Some []))" by code_simp
  then have clean: "clean ?env (cs_seen (?s None))" "clean ?env (cs_seen (?s (Some [])))"
    and roots: "trie_root ?env (cs_tree (?s None)) = trie_root ?env (cs_tree (?s (Some [])))" by (simp_all only: clean_same_root_def)
  have ok: "list_all (block_ok ?env ?B) [slot_block (Some [5]), slot_block None]"
    "list_all (block_ok ?env ?B) [slot_block (Some [5]), slot_block (Some [])]" by code_simp+
  have last: "last_write [slot_block (Some [5]), slot_block None] (Storage 9 [7]) = Some (VStorage None)"
    "last_write [slot_block (Some [5]), slot_block (Some [])] (Storage 9 [7]) = Some (VStorage (Some []))" by code_simp+
  note run = chain_of_blocks [OF mem_state.state_backend_axioms, of 65 fmempty small_hash _ ?B, simplified Let_def]
  obtain db1 where one: "apply_blocks 65 ?env fmempty hash_zero [slot_block (Some [5]), slot_block None] = Inr (db1, trie_root ?env (cs_tree (?s None)))"
    "\<And>q. asked_by q \<subseteq> ?B \<Longrightarrow> wsv_answer 65 ?env (open_world db1 (trie_root ?env (cs_tree (?s None)))) q =
      view_answer (im_base im_new) q (last_write [slot_block (Some [5]), slot_block None] (query_key q))"
    using run [OF _ _ _ clean(1) ok(1)] by auto
  obtain db2 where two: "apply_blocks 65 ?env fmempty hash_zero [slot_block (Some [5]), slot_block (Some [])] = Inr (db2, trie_root ?env (cs_tree (?s (Some []))))"
    "\<And>q. asked_by q \<subseteq> ?B \<Longrightarrow> wsv_answer 65 ?env (open_world db2 (trie_root ?env (cs_tree (?s (Some []))))) q =
      view_answer (im_base im_new) q (last_write [slot_block (Some [5]), slot_block (Some [])] (query_key q))"
    using run [OF _ _ _ clean(2) ok(2)] by auto
  show ?thesis
    using one(1) two(1) one(2) [of "QExists 9 [7]"] two(2) [of "QExists 9 [7]"]
    unfolding roots by (auto simp: last view_answer_def simp del: wsv_answer.simps apply_blocks.simps)
qed

end
