(* ===== verification/Block_Pool.thy ===== *)
theory Block_Pool
  imports Mempool_Index
begin

section \<open>The pool after a block\<close>

text \<open>
  The maintenance of the mempool at the end of \<^verbatim>\<open>lemma-node/src/block_exec.rs\<close>: the transactions of a
  committed block leave the pool, then the pool ticks.
\<close>

definition collect_committed_hashes :: "transaction list \<Rightarrow> hash list" where
  "collect_committed_hashes txs = map tx_hash txs"

definition mempool_post_commit :: "'f float_ops \<Rightarrow> 'f mempool \<Rightarrow> hash list \<Rightarrow> instant \<Rightarrow> 'f mempool" where
  "mempool_post_commit fl pool hashes now = on_new_block fl (fold (\<lambda>h p. snd (mp_remove p h)) hashes pool) now"

lemma mp_remove_drops:
  assumes "pool_inv p"
  shows "pool_inv (snd (mp_remove p h))" "mp_entries (snd (mp_remove p h)) = fmdrop h (mp_entries p)"
proof -
  show "pool_inv (snd (mp_remove p h))" using mp_remove_inv [OF assms] by (metis surjective_pairing)
  show "mp_entries (snd (mp_remove p h)) = fmdrop h (mp_entries p)"
    using remove_internal_ok(5) [OF assms, of h]
    by (cases "fmlookup (mp_entries p) h") (auto simp: mp_remove_def intro: fmap_ext)
qed

text \<open>After a block its transactions have left the pool, whose indexes stay consistent; all others stay.\<close>

lemma committed_leave_pool:
  assumes "pool_inv pool" "pool' = mempool_post_commit fl pool (collect_committed_hashes txs) now"
  shows "pool_inv pool' \<and> fmlookup (mp_entries pool') h = (if h \<in> tx_hash ` set txs then None else fmlookup (mp_entries pool) h)"
proof -
  have "pool_inv (fold (\<lambda>h p. snd (mp_remove p h)) hs pool) \<and>
      fmlookup (mp_entries (fold (\<lambda>h p. snd (mp_remove p h)) hs pool)) h = (if h \<in> set hs then None else fmlookup (mp_entries pool) h)" for hs
    using assms(1) by (induction hs arbitrary: pool) (auto simp: mp_remove_drops)
  from this [of "map tx_hash txs"] show ?thesis
    unfolding assms(2) mempool_post_commit_def collect_committed_hashes_def on_new_block_inv by (simp add: on_new_block_def)
qed

end
