(* ===== verification/Spec2Isabelle.thy ===== *)
theory Spec2Isabelle
  imports Commit_Safety Fee Slashing Rewards Epoch_Transition Mempool_Index Vm_Parallel Vm_Manifest Warden_State Block_State Block_Pool
begin

text \<open>
  Lemma is a proof-of-stake chain in Rust. Validators build a DAG of blocks (Pulse), order it with a
  commit rule (Surge), execute the ordered transactions in parallel (Flux) against an authenticated
  state trie, and settle stake, rewards and slashing at epoch boundaries. This development models
  those parts and proves what makes them correct. Paths below are under \<^verbatim>\<open>src/crates\<close>.

  \<^bold>\<open>Parts and theories.\<close>

  \<^item> \<^verbatim>\<open>Lemma_Prelude\<close>: Rust's checked, saturating and wrapping integers as words, \<open>Result\<close> as a sum with
    \<open>rbind\<close>, B-tree maps as finite maps read in key order, lemma collections.
  \<^item> \<^verbatim>\<open>Core_Types\<close>, \<^verbatim>\<open>Wire_Encoding\<close>, \<^verbatim>\<open>Transactions\<close> (\<^verbatim>\<open>lemma-core\<close>, \<^verbatim>\<open>lemma-crypto/src/signing.rs\<close>): amounts,
    validators, headers, transactions, hybrid signatures.
  \<^item> Consensus (\<^verbatim>\<open>lemma-consensus\<close>): \<^verbatim>\<open>Stake\<close> (\<^verbatim>\<open>stake.rs\<close>), \<^verbatim>\<open>Dag_Block\<close>, \<^verbatim>\<open>Validity\<close>, \<^verbatim>\<open>Dag_Graph\<close>, \<^verbatim>\<open>Dag_Invariant\<close>
    (\<^verbatim>\<open>dag/*.rs\<close>), \<^verbatim>\<open>Threshold_Clock\<close>, \<^verbatim>\<open>Leader\<close>, \<^verbatim>\<open>Reputation\<close>, \<^verbatim>\<open>Committer\<close>, \<^verbatim>\<open>Commit_Safety\<close>, \<^verbatim>\<open>Commit_Record\<close>,
    \<^verbatim>\<open>Linearizer\<close> (\<^verbatim>\<open>pulse/*.rs\<close>), \<^verbatim>\<open>Surge\<close> (\<^verbatim>\<open>dag/surge.rs\<close>), \<^verbatim>\<open>Fee\<close>, \<^verbatim>\<open>Rewards\<close>, \<^verbatim>\<open>Slashing\<close>, \<^verbatim>\<open>Epoch_Transition\<close>,
    \<^verbatim>\<open>Quorum_Cert\<close>. A \<open>record\<close> per struct, a function per operation, the whole store or driver passed
    through and returned beside the result, so that an error shows what it left behind.
  \<^item> Storage (\<^verbatim>\<open>lemma-storage\<close>): \<^verbatim>\<open>Trie_Node\<close>, \<^verbatim>\<open>State_Trie\<close>, \<^verbatim>\<open>Trie_Spec\<close>, \<^verbatim>\<open>Merkle_Proof\<close> (\<^verbatim>\<open>trie/*.rs\<close>),
    \<^verbatim>\<open>World_State\<close> (\<^verbatim>\<open>state.rs\<close>).
  \<^item> Mempool (\<^verbatim>\<open>lemma-mempool\<close>): \<^verbatim>\<open>Mempool_Policy\<close>, \<^verbatim>\<open>Mempool\<close>, \<^verbatim>\<open>Mempool_Index\<close>.
  \<^item> Virtual machine (\<^verbatim>\<open>lemma-vm\<close>): \<^verbatim>\<open>Vm_State\<close> (\<^verbatim>\<open>gas.rs\<close>, \<^verbatim>\<open>error.rs\<close>, \<^verbatim>\<open>state.rs\<close>; execution on a state view is a
    \<open>prog\<close>, a tree of queries and updates, so that the same code runs on every view), \<^verbatim>\<open>Vm_Scratch\<close>
    (\<^verbatim>\<open>executor/scratch.rs\<close>), \<^verbatim>\<open>Vm_Host\<close> (\<^verbatim>\<open>host.rs\<close>, \<^verbatim>\<open>executor/linker.rs\<close>, \<^verbatim>\<open>executor/call.rs\<close>), \<^verbatim>\<open>Vm_Executor\<close>
    (\<^verbatim>\<open>executor.rs\<close>, \<^verbatim>\<open>executor/deploy.rs\<close>, \<^verbatim>\<open>executor/settle.rs\<close>), \<^verbatim>\<open>Safety_Manifest\<close>, \<^verbatim>\<open>Warden\<close> (\<^verbatim>\<open>warden.rs\<close>,
    \<^verbatim>\<open>agent_registry.rs\<close>, \<^verbatim>\<open>lemma-core/src/agent.rs\<close>); proofs in \<^verbatim>\<open>Vm_Calls\<close>, \<^verbatim>\<open>Vm_Settlement\<close>, \<^verbatim>\<open>Vm_Success\<close>, \<^verbatim>\<open>Vm_Manifest\<close>,
    \<^verbatim>\<open>Warden_Limits\<close>, \<^verbatim>\<open>Warden_State\<close> (which states the contract of a state view as a locale and proves the
    checks against it).
  \<^item> Parallel execution (\<^verbatim>\<open>lemma-vm/src/parallel\<close>): \<^verbatim>\<open>Mv_State\<close> (\<^verbatim>\<open>mvstate.rs\<close>, \<^verbatim>\<open>conflict.rs\<close>, \<^verbatim>\<open>mvview.rs\<close>), \<^verbatim>\<open>Flux\<close>
    (\<^verbatim>\<open>scheduler.rs\<close>, \<^verbatim>\<open>scheduler/*.rs\<close>; every worker is at a program point, and a step runs one locked section
    or one access to the shared store), \<^verbatim>\<open>Flux_Serial\<close>, \<^verbatim>\<open>Flux_Inv\<close>, \<^verbatim>\<open>Flux_Progress\<close>, \<^verbatim>\<open>Vm_Parallel\<close>.
  \<^item> Block execution (\<^verbatim>\<open>lemma-node/src/state_view.rs\<close>, \<^verbatim>\<open>block_exec.rs\<close>): \<^verbatim>\<open>Block_Exec\<close>, which joins Flux and the
    world state, \<^verbatim>\<open>Block_State\<close> (the specification of the state a chain of blocks leaves, and the
    refinement), \<^verbatim>\<open>Block_Pool\<close>.

  \<^bold>\<open>What the lemmas show.\<close> Two validators with at most a third of faulty stake never commit different
  blocks of a leader round, and what a driver commits is one gapless hash chain in causal order; the direct rule is the
  documented one but for an earlier commit (\<open>direct_rule_commits_early\<close>); the
  store only accepts authentic, quorum-linked blocks, one per author and round, and loses no wake-up.
  Epoch settlement conserves stake; certificates and epoch-change proofs are accepted exactly when
  their signers hold a quorum. The trie is a map, its root is a function of its contents, its proofs
  verify; the world state refines three independent maps. The pool refines a map from sender and
  nonce to the pending transaction and serves it in priority order. Every transaction settles within
  its gas limit and advances the nonce; transfers are exact; calls between contracts are contained;
  a successful call upholds the safety manifest of the contract it runs; agents act and spend within their policies and are
  cut off after the violations their policies allow. Parallel execution of
  a block equals sequential execution for every interleaving, and completes, as long as reads are
  captured, which holds for blocks without contract code; a committed block of this kind has one result.
  The writes of a chain of blocks leave tries, code and slot storage in step, and the next block reads
  the last value written. Properties that state a flaw
  do so for every state it applies to (\<open>evidence_frames_another_member\<close>, \<open>forged_hash_corrupts_pool\<close>,
  \<open>leaders_confined_to_a_third\<close>, \<open>reentrancy_guard_misses_top_frame\<close>) or exhibit a case
  (\<open>delivery_order_splits_commits\<close>, \<open>forged_inclusion_verifies\<close>, \<open>cosignature_never_verified\<close>,
  \<open>contract_calls_lose_updates\<close>, \<open>deletion_evades_ratchets\<close>, \<open>deleted_slot_shares_root\<close>).
  Three conditions that the code does not enforce are hypotheses where they are needed, and named there:
  block links lead to lower rounds, transactions claim no other one's hash, reads are captured.

  \<^bold>\<open>Parameters.\<close> Third-party code is an argument with the documented behaviour as a named hypothesis:
  Blake3 (\<open>hasher\<close>, with collision freedom stated on the hashed data where it is needed), Ed25519 and
  ML-DSA (\<open>crypto_lib\<close>, \<open>keypair_works\<close>), RocksDB and bincode (\<open>trie_env\<close>), floating point in the rate
  limiter (\<open>float_ops\<close>), the WebAssembly engine (\<open>wasm_env\<close>: a compiled module is a \<open>guest\<close>, the
  tree of host calls it makes), the JSON codec of agent policies (\<open>warden_env\<close>). Every such hypothesis has a witness with a concrete instance.

  \<^bold>\<open>Fuel and termination.\<close> Loops are structural recursions or have a termination proof; the trie
  recursion, which follows hashes through the database, takes fuel, and \<open>trie_returns_last_write\<close>
  includes that fuel above the number of nibbles of the key suffices: 41 for addresses, 65 for slots. Nested contract calls
  take a number of levels, and \<open>call_levels_suffice\<close> shows that the depth limit of the code makes
  sixty-four enough. The workers of the scheduler poll without bound, so they are a step relation;
  \<open>parallel_execution_completes\<close> states what it guarantees.

  \<^bold>\<open>Not modelled.\<close> The contract language and its type checker, the Solidity transpiler, the network
  stack, RPC, command line and privacy crates are separate programs around this core; the node's
  tasks and its assembly of headers, the chain store and snapshots are mostly database and socket input and output. Logging and
  metrics are left out throughout, and error texts are shortened where no caller reads them.
\<close>

section \<open>Properties of the driver\<close>

definition chain_block :: "u64 \<Rightarrow> dag_block" where
  "chain_block rnd = solo_block rnd (if rnd = 0 then [] else [DagBlockRef (rnd - 1) 1 0])"

definition solo_driver :: surge_driver where
  "solo_driver = \<lparr>sd_dag = dag_new 0, sd_clock = clock_new 1,
     sd_schedule = \<lparr>ls_committee_order = [1], ls_offset = 0, ls_swap = fmempty\<rparr>,
     sd_linearizer = linearizer_new, sd_last_decided = genesis_sentinel, sd_vset = solo_vs\<rparr>"

lemma solo_driver_new: "surge_new solo_vs = Inr solo_driver"
  by code_simp

text \<open>
  C3. The commits of an epoch form one hash chain: whatever blocks with lower-round ancestors a
  fresh driver receives, its commits are numbered from one without a gap, each names the digest
  of its predecessor (the first the genesis sentinel), timestamps never decrease, and no block
  is committed twice.
\<close>

theorem epoch_commits_form_chain:
  assumes "sound_committee vs" "surge_new vs = Inr s" "surge_trace blake3 s cs t"
  shows "map c_index cs = map (\<lambda>i. 1 + of_nat i) [0..<length cs] \<and>
    (\<forall>i < length cs. c_previous_digest (cs ! i) =
      (if i = 0 then genesis_previous else commit_digest blake3 (cs ! (i - 1)))) \<and>
    sorted (map c_timestamp_ms cs) \<and> distinct (concat (map c_blocks cs))"
proof -
  have "chained blake3 (sd_linearizer s) cs (sd_linearizer t)"
    using trace_chained [OF assms(3)] surge_new_inv(1) [OF assms(1,2)] by blast
  then have chain: "chained blake3 linearizer_new cs (sd_linearizer t)"
    using surge_new_inv(2) [OF assms(1,2)] by simp
  have hd: "c_previous_digest (cs ! 0) = genesis_previous" if "cs \<noteq> []"
    using chain that by (cases rule: chained.cases) (auto simp: linearizer_new_def)
  have "c_previous_digest (cs ! i) = (if i = 0 then genesis_previous else commit_digest blake3 (cs ! (i - 1)))"
    if "i < length cs" for i
    using that hd chained_links [OF chain, of "i - 1"] by (cases i) auto
  moreover have "sorted (map c_timestamp_ms cs)"
    unfolding sorted_iff_nth_Suc using chained_links [OF chain] by simp
  ultimately show ?thesis
    using chained_indices [OF chain] chained_disjoint [OF chain] by (simp add: linearizer_new_def)
qed

theorem epoch_commits_form_chain_witness:
  "\<exists>c t. surge_feed (\<lambda>_. 0) solo_driver (map chain_block [0, 1, 2, 3, 4, 5]) = (Inr [c], t) \<and> c_index c = 1 \<and>
    distinct (c_blocks c)"
proof -
  let ?run = "surge_feed (\<lambda>_. 0) solo_driver (map chain_block [0, 1, 2, 3, 4, 5])"
  have "map_sum id length (fst ?run) = Inr 1" by code_simp
  then obtain c where c: "fst ?run = Inr [c]"
    by (cases "fst ?run") (auto simp: length_Suc_conv)
  then have run: "?run = (Inr [c], snd ?run)" by (simp add: prod_eq_iff)
  have "list_all descending (map chain_block [0, 1, 2, 3, 4, 5])" by code_simp
  from epoch_commits_form_chain [OF solo_sound solo_driver_new surge_feed_trace [OF run this]]
  show ?thesis using run by auto
qed

text \<open>
  C37. A failing block leaves the driver as it was. In every state that calls of \<open>on_block\<close> with any
  blocks, whatever their links and whether they fail or succeed, and changes of epoch reach from a
  fresh driver, an error of \<open>on_block\<close> is a rejection by the insertion rules, with the driver
  unchanged, or the overflow of the timestamp median's stake sum. So \<open>on_block\<close> hands per-block
  rejections out as errors, where its comment announces an \<open>Ok\<close> with the outcome; a caller that
  drops them goes on from the same state.
\<close>

theorem rejected_block_changes_nothing:
  assumes "sound_committee vs" "surge_new vs = Inr s" "(surge_call blake3)\<^sup>*\<^sup>* s t"
    and "surge_on_block blake3 t b sig_ok = (Inl e, t')"
  shows "t' = t \<and> (\<exists>d. dag_insert blake3 (sd_dag t) b (sd_vset t) sig_ok = (Inl e, d)) \<or>
    e = StakeOverflow (address_from_public_key blake3 (replicate 32 0))"
  using surge_on_block_error [OF _ assms(4)] driver_run.run_inv [OF assms(3)] surge_new_driver [OF assms(1,2)]
  by blast

theorem rejected_block_changes_nothing_witness:
  "surge_on_block (\<lambda>_. 0) solo_driver (solo_block 0 []) False = (Inl (consensus_error.InvalidSignature 1 0), solo_driver)"
proof -
  have run: "surge_on_block (\<lambda>_. 0) solo_driver (solo_block 0 []) False = (Inl (consensus_error.InvalidSignature 1 0), snd
      (surge_on_block (\<lambda>_. 0) solo_driver (solo_block 0 []) False))"
    by (simp add: prod_eq_iff) code_simp
  from rejected_block_changes_nothing [OF solo_sound solo_driver_new rtranclp.rtrancl_refl run]
  show ?thesis using run by auto
qed

text \<open>
  Blocks accepted by the unsuspend cascade never reach the round clock: delivered child
  first, both blocks end up accepted, but the clock stands one round behind the clock of the
  validator that received them in order.
\<close>

theorem cascade_bypasses_clock:
  "(let s = snd (surge_feed (\<lambda>_. 0) solo_driver [chain_block 0, chain_block 1]) in
      highest_accepted_round (sd_dag s) = 1 \<and> tc_round (sd_clock s) = 2) \<and>
   (let s = snd (surge_feed (\<lambda>_. 0) solo_driver [chain_block 1, chain_block 0]) in
      highest_accepted_round (sd_dag s) = 1 \<and> tc_round (sd_clock s) = 1)"
  by (intro conjI; code_simp)

end
